(* ===== verification/Prelude.thy ===== *)
theory Prelude
  imports Main "HOL-Library.Word"
begin

text \<open>
  Shared vocabulary of the development: the machine types of the C code
  (\<open>types.h\<close>), the collections of simplification rules the component theories
  add to, and the small facts on words and functions they all use.
\<close>

unbundle bit_operations_syntax

type_synonym u8 = "8 word"
type_synonym u16 = "16 word"
type_synonym u32 = "32 word"
type_synonym u64 = "64 word"

named_theorems word_nat_simps "reading word operations as natural number operations"
named_theorems kernel_defs "definitions of kernel operations to unfold"
named_theorems frame_simps "fields an operation leaves alone"

section \<open>Words read as natural numbers\<close>

lemma unat_drop_bit_div: "unat (drop_bit n (w :: 'a :: len word)) = unat w div 2 ^ n"
  by (simp only: unat_drop_bit_eq) (rule drop_bit_eq_div)

lemma unat_drop_bit_5 [word_nat_simps]: "unat (drop_bit 5 (w :: u32)) = unat w div 32"
  by (simp add: unat_drop_bit_eq drop_bit_eq_div unat_div)

lemma unat_and_31 [word_nat_simps]: "unat ((w :: u32) AND 31) = unat w mod 32"
proof -
  have "(w AND 31) = take_bit 5 w"
    by (simp add: take_bit_eq_mask mask_eq_exp_minus_1)
  then show ?thesis by (simp add: unsigned_take_bit_eq take_bit_eq_mod unat_mod)
qed

lemma unat_div_32 [word_nat_simps]: "unat ((w :: u32) div 32) = unat w div 32"
  by (simp add: unat_div)

lemma unat_mod_32 [word_nat_simps]: "unat ((w :: u32) mod 32) = unat w mod 32"
  by (simp add: unat_mod)

lemma unat_sub_le [word_nat_simps]:
  "(b :: 'a :: len word) \<le> a \<Longrightarrow> unat (a - b) = unat a - unat b"
  by (rule unat_sub)

lemma unat_suc_less:
  assumes "(i :: 'a :: len word) < j"
  shows "unat (i + 1) = Suc (unat i)"
proof -
  have "unat i < unat j" using assms by (simp add: word_less_nat_alt)
  moreover have "unat j < 2 ^ LENGTH('a)" by simp
  ultimately have "Suc (unat i) < 2 ^ LENGTH('a)" by linarith
  then show ?thesis by (simp add: unat_word_ariths unsigned_1)
qed

lemma ones_mask: "push_bit n (2 :: 'a :: len word) - 1 = mask (Suc n)"
  by (simp add: mask_eq_exp_minus_1 push_bit_eq_mult mult.commute)

lemma one_mask: "push_bit n (1 :: 'a :: len word) - 1 = mask n"
  by (simp add: mask_eq_exp_minus_1 push_bit_eq_mult)

lemma word_eq_0_iff_bits: "(w :: 'a :: len word) = 0 \<longleftrightarrow> (\<forall>k < LENGTH('a). \<not> bit w k)"
  by (auto simp: bit_eq_iff bit_imp_le_length)

lemma sint_small:
  assumes "unat (w :: u32) < 2 ^ 31"
  shows "sint w = int (unat w)"
proof -
  have "int (unat w) < int (2 ^ 31)" using assms by (simp only: of_nat_less_iff)
  then have "uint w < 2 ^ 31" by (simp only: uint_nat of_nat_power of_nat_numeral)
  then have "signed_take_bit 31 (uint w) = uint w"
    by (intro signed_take_bit_int_eq_self) (auto intro: order_trans [OF _ uint_ge_0])
  then show ?thesis by (simp add: sint_uint)
qed

lemma nonneg_small:
  assumes "0 \<le> sint (w :: u32)"
  shows "unat w < 2 ^ 31"
proof -
  have "sint w < 2 ^ 31" using sint_lt [of w] by simp
  then have small: "nat (sint w) < 2 ^ 31" using assms by (simp add: nat_less_iff)
  have w: "w = word_of_nat (nat (sint w))" using assms by simp
  have "unat w = nat (sint w) mod 2 ^ 32" by (subst w) (simp add: unat_of_nat)
  also have "\<dots> \<le> nat (sint w)" by (rule mod_less_eq_dividend)
  also note small
  finally show ?thesis .
qed

lemma sint_neg_iff: "sint (w :: u32) < 0 \<longleftrightarrow> bit w 31"
  using bit_last_iff [of w] by simp

lemma sint_pos:
  assumes "0 < sint (w :: u32)"
  shows "0 < unat w" and "unat w < 2 ^ 31"
  using nonneg_small [of w] assms by (auto simp: unat_gt_0)

text \<open>Sums and products that do not overflow.\<close>

lemma unat_add_small:
  "unat (a :: 'a :: len word) + unat b < 2 ^ LENGTH('a) \<Longrightarrow> unat (a + b) = unat a + unat b"
  by (simp add: unat_word_ariths)

lemma unat_mult_small:
  "unat (a :: 'a :: len word) * unat b < 2 ^ LENGTH('a) \<Longrightarrow> unat (a * b) = unat a * unat b"
  by (simp add: unat_word_ariths)

lemma unat_sub_small:
  "unat (b :: 'a :: len word) \<le> unat a \<Longrightarrow> unat (a - b) = unat a - unat b"
  by (simp add: unat_sub word_le_nat_alt)

text \<open>Powers of two and masks.\<close>

lemma unat_and_not_mask:
  assumes "k < 32"
  shows "unat ((x :: u32) AND NOT (mask k)) = unat x div 2 ^ k * 2 ^ k"
proof -
  have "x AND NOT (mask k) = push_bit k (drop_bit k x)"
  proof (rule bit_word_eqI)
    fix n assume "n < LENGTH(32)"
    then show "bit (x AND NOT (mask k)) n \<longleftrightarrow> bit (push_bit k (drop_bit k x)) n"
      unfolding bit_and_iff bit_not_iff bit_mask_iff bit_push_bit_iff bit_drop_bit_eq by (cases "n < k") auto
  qed
  moreover have lt: "unat x < 2 ^ 32" using unsigned_less [of x] by simp
  then have "unat x div 2 ^ k * 2 ^ k < 2 ^ 32" by (meson div_times_less_eq_dividend le_less_trans)
  moreover have "unat (push_bit k (drop_bit k x)) = (unat x div 2 ^ k * 2 ^ k) mod 2 ^ 32"
    unfolding unsigned_push_bit_eq unsigned_drop_bit_eq using lt by (simp add: take_bit_eq_mod push_bit_eq_mult drop_bit_eq_div)
  ultimately show ?thesis by simp
qed

lemma unat_2p: "k < 32 \<Longrightarrow> unat (2 ^ k :: u32) = 2 ^ k"
proof -
  assume "k < 32"
  then have "(2 :: nat) ^ k < 2 ^ 32" by (intro power_strict_increasing) simp_all
  moreover have "unat (push_bit k (1 :: u32)) = take_bit 32 (2 ^ k)"
    unfolding unsigned_push_bit_eq by (simp add: push_bit_eq_mult)
  ultimately show ?thesis by (simp add: take_bit_eq_mod push_bit_eq_mult)
qed

lemma unat_mask_2p:
  assumes "k < 32"
  shows "unat (mask k :: u32) = 2 ^ k - 1"
  unfolding mask_eq_exp_minus_1
  using unat_2p [OF assms] by (metis unat_minus_one power_not_zero unat_eq_0 zero_neq_numeral)

lemma unat_and_mask: "unat ((x :: u32) AND mask k) = unat x mod 2 ^ k"
  by (simp only: take_bit_eq_mask [of k x, symmetric] unsigned_take_bit_eq) (rule take_bit_eq_mod)

lemma mask_dvd: "(x AND mask k) = (0 :: u32) \<longleftrightarrow> 2 ^ k dvd unat x"
  by (metis unat_and_mask dvd_eq_mod_eq_0 unsigned_0 unsigned_word_eqI)

lemma unat_of_nat_small: "x < 2 ^ 32 \<Longrightarrow> unat (of_nat x :: u32) = x"
  by (simp add: unsigned_of_nat take_bit_nat_eq_self)

end
