(* ===== verification/BitArray.thy ===== *)
theory BitArray
  imports Prelude
begin

text \<open>
  The kernel's bit arrays (\<open>folios/kernel/bitarray.c\<close>, \<open>includes/kernel/bitarray.h\<close>):
  ranges of bits set, cleared, tested and searched in an array of 32-bit words, bit 0
  being the most significant bit of word 0. A \<open>uint32 *\<close> is the function from a
  word index to the word stored there, so a routine that touched a word outside its range
  would show in the model. Bit numbers are 32-bit words and wrap around as in the code.
  The lemmas show that every routine does on the word array what its description says on
  the set of set bits, and that the two searches are total and find the leftmost run.
\<close>

type_synonym bitarray = "nat \<Rightarrow> u32"

section \<open>The macros of bitarray.h\<close>

definition IsBitSet :: "bitarray \<Rightarrow> u32 \<Rightarrow> bool" where
  "IsBitSet array b =
     (if array (unat (b div 32)) AND drop_bit (unat (b mod 32)) 0x80000000 \<noteq> 0 then True else False)"

definition IsBitClear :: "bitarray \<Rightarrow> u32 \<Rightarrow> bool" where
  "IsBitClear array b =
     (if array (unat (b div 32)) AND drop_bit (unat (b mod 32)) 0x80000000 \<noteq> 0 then False else True)"

section \<open>Masks\<close>

text \<open>The mask of the bits \<open>firstBit..lastBit\<close> of one word.\<close>

definition one_word_mask :: "u32 \<Rightarrow> u32 \<Rightarrow> u32" where
  "one_word_mask firstBit lastBit =
     push_bit (unat (31 - (firstBit AND 31) - (lastBit - firstBit)))
       (push_bit (unat (lastBit - firstBit)) 2 - 1)"

text \<open>The mask of the bits from \<open>firstBit\<close> (already reduced) to the end of its word.\<close>

definition first_word_mask :: "u32 \<Rightarrow> u32" where
  "first_word_mask firstBit = push_bit (unat (31 - firstBit)) 2 - 1"

text \<open>The mask of the bits after \<open>lastBit\<close> (already reduced) in its word.\<close>

definition after_last_mask :: "u32 \<Rightarrow> u32" where
  "after_last_mask lastBit = push_bit (unat (31 - lastBit)) 1 - 1"

section \<open>SetBitRange and ClearBitRange\<close>

text \<open>The loop \<open>for (i = i; i < lastWord; i++) array[i] = v\<close>.\<close>

function fill_words :: "bitarray \<Rightarrow> u32 \<Rightarrow> u32 \<Rightarrow> u32 \<Rightarrow> bitarray" where
  "fill_words array i lastWord v =
     (if i < lastWord then fill_words (array(unat i := v)) (i + 1) lastWord v else array)"
  by pat_completeness auto
termination
  by (relation "measure (\<lambda>(a, i, l, v). unat l - unat i)")
     (auto simp: unat_suc_less word_less_nat_alt)

declare fill_words.simps [simp del]

definition SetBitRange :: "bitarray \<Rightarrow> u32 \<Rightarrow> u32 \<Rightarrow> bitarray" where
  "SetBitRange array firstBit lastBit =
     (let firstWord = drop_bit 5 firstBit; lastWord = drop_bit 5 lastBit in
      if firstWord = lastWord then
        array(unat firstWord := array (unat firstWord) OR one_word_mask firstBit lastBit)
      else
        let firstBit = firstBit AND 31;
            array = array(unat firstWord := array (unat firstWord) OR first_word_mask firstBit);
            array = fill_words array (firstWord + 1) lastWord (NOT 0);
            lastBit = lastBit AND 31
        in array(unat lastWord := array (unat lastWord) OR NOT (after_last_mask lastBit)))"

definition ClearBitRange :: "bitarray \<Rightarrow> u32 \<Rightarrow> u32 \<Rightarrow> bitarray" where
  "ClearBitRange array firstBit lastBit =
     (let firstWord = drop_bit 5 firstBit; lastWord = drop_bit 5 lastBit in
      if firstWord = lastWord then
        array(unat firstWord := array (unat firstWord) AND NOT (one_word_mask firstBit lastBit))
      else
        let firstBit = firstBit AND 31;
            array = array(unat firstWord := array (unat firstWord) AND NOT (first_word_mask firstBit));
            array = fill_words array (firstWord + 1) lastWord 0;
            lastBit = lastBit AND 31
        in array(unat lastWord := array (unat lastWord) AND after_last_mask lastBit))"

section \<open>IsBitRangeSet and IsBitRangeClear\<close>

text \<open>The loop over the whole words between the first and the last one.\<close>

function all_words :: "(u32 \<Rightarrow> bool) \<Rightarrow> bitarray \<Rightarrow> u32 \<Rightarrow> u32 \<Rightarrow> bool" where
  "all_words ok array i lastWord =
     (if i < lastWord then
        if \<not> ok (array (unat i)) then False else all_words ok array (i + 1) lastWord
      else True)"
  by pat_completeness auto
termination
  by (relation "measure (\<lambda>(p, a, i, l). unat l - unat i)")
     (auto simp: unat_suc_less word_less_nat_alt)

declare all_words.simps [simp del]

definition IsBitRangeClear :: "bitarray \<Rightarrow> u32 \<Rightarrow> u32 \<Rightarrow> bool" where
  "IsBitRangeClear array firstBit lastBit =
     (let firstWord = drop_bit 5 firstBit; lastWord = drop_bit 5 lastBit in
      if firstWord = lastWord then
        if array (unat firstWord) AND one_word_mask firstBit lastBit \<noteq> 0 then False else True
      else
        if array (unat firstWord) AND first_word_mask (firstBit AND 31) \<noteq> 0 then False
        else if \<not> all_words (\<lambda>w. w = 0) array (firstWord + 1) lastWord then False
        else if array (unat lastWord) AND NOT (after_last_mask (lastBit AND 31)) \<noteq> 0 then False
        else True)"

definition IsBitRangeSet :: "bitarray \<Rightarrow> u32 \<Rightarrow> u32 \<Rightarrow> bool" where
  "IsBitRangeSet array firstBit lastBit =
     (let firstWord = drop_bit 5 firstBit; lastWord = drop_bit 5 lastBit in
      if firstWord = lastWord then
        if NOT (array (unat firstWord)) AND one_word_mask firstBit lastBit \<noteq> 0 then False else True
      else
        if NOT (array (unat firstWord)) AND first_word_mask (firstBit AND 31) \<noteq> 0 then False
        else if \<not> all_words (\<lambda>w. NOT w = 0) array (firstWord + 1) lastWord then False
        else if NOT (array (unat lastWord)) AND NOT (after_last_mask (lastBit AND 31)) \<noteq> 0 then False
        else True)"

section \<open>FindSetBitRange and FindClearBitRange\<close>

text \<open>
  The inner loop \<open>while (IsBitSet (array, index)) index--\<close>, and its mirror image. The
  index wraps around below 0, so the loop need not end on an arbitrary array: no result
  stands for a loop that does not end.
\<close>

partial_function (option) scan_down :: "(u32 \<Rightarrow> bool) \<Rightarrow> u32 \<Rightarrow> u32 option" where
  "scan_down test index = (if test index then scan_down test (index - 1) else Some index)"

text \<open>The outer loop of both searches, over the range test and the bit test it uses.\<close>

partial_function (option) find_range ::
  "(u32 \<Rightarrow> u32 \<Rightarrow> bool) \<Rightarrow> (u32 \<Rightarrow> bool) \<Rightarrow> u32 \<Rightarrow> u32 \<Rightarrow> u32 \<Rightarrow> int option" where
  "find_range range_ok test firstBit lastBit numBits =
     (if firstBit + numBits - 1 \<le> lastBit then
        let index = firstBit + numBits - 1 in
        if range_ok firstBit index then Some (sint firstBit)
        else Option.bind (scan_down test index)
               (\<lambda>index. find_range range_ok test (index + 1) lastBit numBits)
      else Some (- 1))"

definition FindSetBitRange :: "bitarray \<Rightarrow> u32 \<Rightarrow> u32 \<Rightarrow> u32 \<Rightarrow> int option" where
  "FindSetBitRange array firstBit lastBit numBits =
     (if numBits = 0 then Some (- 1)
      else find_range (IsBitRangeSet array) (IsBitSet array) firstBit lastBit numBits)"

definition FindClearBitRange :: "bitarray \<Rightarrow> u32 \<Rightarrow> u32 \<Rightarrow> u32 \<Rightarrow> int option" where
  "FindClearBitRange array firstBit lastBit numBits =
     (if numBits = 0 then Some (- 1)
      else find_range (IsBitRangeClear array) (IsBitClear array) firstBit lastBit numBits)"

section \<open>Bits as a set of natural numbers\<close>

text \<open>The bit with number \<open>k\<close>, and the set of all set bits of an array.\<close>

definition abit :: "bitarray \<Rightarrow> nat \<Rightarrow> bool" where
  "abit array k = bit (array (k div 32)) (31 - k mod 32)"

definition bitset :: "bitarray \<Rightarrow> nat set" where
  "bitset array = {k. abit array k}"

lemma bit_exp_word: "n < LENGTH('a) \<Longrightarrow> bit (2 ^ n :: 'a :: len word) j \<longleftrightarrow> j = n"
  by (auto simp: bit_exp_iff)

lemma bit_top_shift: "r < 32 \<Longrightarrow> bit (drop_bit r (0x80000000 :: u32)) k \<longleftrightarrow> k = 31 - r"
proof -
  assume r: "r < 32"
  have e: "(0x80000000 :: u32) = 2 ^ 31" by simp
  have "bit (0x80000000 :: u32) j \<longleftrightarrow> j = 31" for j
    unfolding e by (rule bit_exp_word) simp
  then have "bit (drop_bit r (0x80000000 :: u32)) k \<longleftrightarrow> r + k = 31"
    by (simp only: bit_drop_bit_eq comp_def)
  with r show ?thesis by arith
qed

lemma and_top_shift: "r < 32 \<Longrightarrow> (w AND drop_bit r (0x80000000 :: u32) \<noteq> 0) \<longleftrightarrow> bit w (31 - r)"
  by (auto simp: word_eq_0_iff_bits bit_and_iff bit_top_shift)

lemma IsBitSet_abit: "IsBitSet array b = abit array (unat b)"
  by (simp add: IsBitSet_def abit_def and_top_shift word_nat_simps)

lemma IsBitClear_abit: "IsBitClear array b = (\<not> abit array (unat b))"
  by (simp add: IsBitClear_def abit_def and_top_shift word_nat_simps)

section \<open>What the masks select\<close>

lemma bit_one_word_mask:
  assumes "f \<le> l" and "unat f div 32 = unat l div 32" and "k < 32"
  shows "bit (one_word_mask f l) (31 - k) \<longleftrightarrow> unat f mod 32 \<le> k \<and> k \<le> unat l mod 32"
proof -
  define q r s where "q = unat f div 32" and "r = unat f mod 32" and "s = unat l mod 32"
  have F: "unat f = 32 * q + r" and L: "unat l = 32 * q + s" and r: "r < 32" and s: "s < 32"
    unfolding q_def r_def s_def by (metis mult_div_mod_eq, metis assms(2) mult_div_mod_eq, simp_all)
  have rs: "r \<le> s" using assms(1) by (simp add: word_le_nat_alt F L)
  have d: "unat (l - f) = s - r" using assms(1) by (simp add: unat_sub F L)
  have m: "unat (31 - (f AND 31)) = 31 - r"
    by (subst unat_sub) (simp_all add: word_le_nat_alt unat_and_31 r_def)
  have "l - f \<le> 31 - (f AND 31)"
    using s by (simp add: word_le_nat_alt m d)
  then have m2: "unat (31 - (f AND 31) - (l - f)) = 31 - s"
    using rs s by (simp add: unat_sub m d)
  have eq: "one_word_mask f l = push_bit (31 - s) (mask (Suc (s - r)))"
    by (simp only: one_word_mask_def d m2 ones_mask)
  have "bit (push_bit (31 - s) (mask (Suc (s - r))) :: u32) (31 - k) \<longleftrightarrow>
      31 - s \<le> 31 - k \<and> 31 - k - (31 - s) < Suc (s - r)"
    using assms(3) r s by (simp add: bit_push_bit_iff bit_mask_iff) arith
  also have "\<dots> \<longleftrightarrow> r \<le> k \<and> k \<le> s"
    using assms(3) rs s by arith
  finally show ?thesis by (simp only: eq r_def s_def)
qed

lemma bit_first_word_mask:
  assumes "k < 32"
  shows "bit (first_word_mask (f AND 31)) (31 - k) \<longleftrightarrow> unat f mod 32 \<le> k"
proof -
  have "unat (31 - (f AND 31)) = 31 - unat f mod 32"
    by (subst unat_sub) (simp_all add: word_le_nat_alt unat_and_31)
  then have "first_word_mask (f AND 31) = mask (32 - unat f mod 32)"
    by (simp add: first_word_mask_def ones_mask Suc_diff_le [symmetric] del: mask_Suc_exp mask_Suc_double)
  moreover have "unat f mod 32 < 32" by simp
  ultimately show ?thesis using assms by (auto simp: bit_mask_iff)
qed

lemma bit_after_last_mask:
  assumes "k < 32"
  shows "bit (after_last_mask (l AND 31)) (31 - k) \<longleftrightarrow> unat l mod 32 < k"
proof -
  have "unat (31 - (l AND 31)) = 31 - unat l mod 32"
    by (subst unat_sub) (simp_all add: word_le_nat_alt unat_and_31)
  then have "after_last_mask (l AND 31) = mask (31 - unat l mod 32)"
    by (simp only: after_last_mask_def one_mask)
  moreover have "unat l mod 32 < 32" by simp
  ultimately show ?thesis using assms by (auto simp: bit_mask_iff)
qed

lemma drop_bit_5_eq_iff: "drop_bit 5 (f :: u32) = drop_bit 5 l \<longleftrightarrow> unat f div 32 = unat l div 32"
  by (simp add: word_unat_eq_iff unat_drop_bit_5)

lemma drop_bit_5_neq:
  assumes "(f :: u32) \<le> l" and "drop_bit 5 f \<noteq> drop_bit 5 l"
  shows "unat f div 32 < unat l div 32"
proof -
  have "unat f div 32 \<le> unat l div 32"
    using assms(1) by (simp add: word_le_nat_alt div_le_mono)
  with assms(2) show ?thesis by (simp add: drop_bit_5_eq_iff)
qed

lemma fill_words_apply:
  "fill_words a i l v = (\<lambda>k. if unat i \<le> k \<and> k < unat l then v else a k)"
proof (induction a i l v rule: fill_words.induct)
  case (1 a i l v)
  show ?case
  proof (cases "i < l")
    case True
    then have "unat (i + 1) = Suc (unat i)" and "unat i < unat l"
      by (simp_all add: unat_suc_less word_less_nat_alt)
    have IH: "fill_words (a(unat i := v)) (i + 1) l v
        = (\<lambda>k. if Suc (unat i) \<le> k \<and> k < unat l then v else (a(unat i := v)) k)"
      by (simp only: "1"[OF True] \<open>unat (i + 1) = Suc (unat i)\<close>)
    show ?thesis
      unfolding fill_words.simps [of a i l v] if_P [OF True] IH
      using \<open>unat i < unat l\<close> by (auto simp: fun_eq_iff)
  next
    case False
    then show ?thesis by (subst fill_words.simps) (auto simp: word_less_nat_alt fun_eq_iff)
  qed
qed

lemma all_words_iff:
  "all_words ok a i l \<longleftrightarrow> (\<forall>k. unat i \<le> k \<and> k < unat l \<longrightarrow> ok (a k))"
proof (induction ok a i l rule: all_words.induct)
  case (1 ok a i l)
  show ?case
  proof (cases "i < l")
    case True
    then have "unat (i + 1) = Suc (unat i)" and lt: "unat i < unat l"
      by (simp_all add: unat_suc_less word_less_nat_alt)
    with "1"[OF True] have "ok (a (unat i)) \<Longrightarrow>
        all_words ok a (i + 1) l = (\<forall>k. Suc (unat i) \<le> k \<and> k < unat l \<longrightarrow> ok (a k))"
      by simp
    moreover have "(\<forall>k. unat i \<le> k \<and> k < unat l \<longrightarrow> ok (a k))
        = (ok (a (unat i)) \<and> (\<forall>k. Suc (unat i) \<le> k \<and> k < unat l \<longrightarrow> ok (a k)))"
      using lt by (metis Suc_leD Suc_leI le_antisym not_less order_refl)
    ultimately show ?thesis by (subst all_words.simps) (simp add: True)
  next
    case False
    then show ?thesis by (subst all_words.simps) (auto simp: word_less_nat_alt)
  qed
qed

section \<open>The range operations on the set of bits\<close>

text \<open>How the word of a bit compares with the words of the ends of a range.\<close>

lemma word_order:
  assumes "k div 32 < (l :: nat) div 32"
  shows "k < l"
  using assms by (meson div_le_mono leD not_less)

lemma same_word_order: "k div 32 = (l :: nat) div 32 \<Longrightarrow> k \<le> l \<longleftrightarrow> k mod 32 \<le> l mod 32"
  using mult_div_mod_eq [of 32 k] mult_div_mod_eq [of 32 l] by linarith

lemma same_word_less: "k div 32 = (l :: nat) div 32 \<Longrightarrow> k < l \<longleftrightarrow> k mod 32 < l mod 32"
  using mult_div_mod_eq [of 32 k] mult_div_mod_eq [of 32 l] by linarith

lemma mod_32_less [simp]: "(k :: nat) mod 32 < 32"
  by simp

text \<open>The three masks together select exactly the bits of the range, word by word.\<close>

definition range_mask :: "u32 \<Rightarrow> u32 \<Rightarrow> nat \<Rightarrow> u32" where
  "range_mask f l w =
     (let fw = unat f div 32; lw = unat l div 32 in
      if fw = lw then (if w = fw then one_word_mask f l else 0)
      else if w = fw then first_word_mask (f AND 31)
      else if fw < w \<and> w < lw then NOT 0
      else if w = lw then NOT (after_last_mask (l AND 31))
      else 0)"

lemma word_position:
  assumes "fw \<le> (lw :: nat)"
  obtains "fw = lw" "w = fw" | "fw = lw" "w \<noteq> fw" | "fw < lw" "w = fw"
    | "fw < w" "w < lw" | "fw < lw" "w = lw" | "w < fw" | "lw < w"
  using assms by (metis le_neq_implies_less linorder_neqE_nat)

lemma bit_range_mask:
  assumes "f \<le> l"
  shows "bit (range_mask f l (k div 32)) (31 - k mod 32) \<longleftrightarrow> unat f \<le> k \<and> k \<le> unat l"
proof -
  let ?w = "k div 32" and ?fw = "unat f div 32" and ?lw = "unat l div 32"
  have fl: "unat f \<le> unat l" and wl: "?fw \<le> ?lw"
    using assms by (simp_all add: word_le_nat_alt div_le_mono)
  show ?thesis
  proof (cases rule: word_position [OF wl, of ?w])
    case 1
    have "range_mask f l ?w = one_word_mask f l" using 1 by (simp add: range_mask_def Let_def)
    moreover have "unat f \<le> k \<longleftrightarrow> unat f mod 32 \<le> k mod 32"
      by (rule same_word_order) (simp only: 1)
    moreover have "k \<le> unat l \<longleftrightarrow> k mod 32 \<le> unat l mod 32"
      by (rule same_word_order) (simp only: 1)
    ultimately show ?thesis
      by (simp only: bit_one_word_mask [OF assms 1(1) mod_32_less])
  next
    case 2
    have "range_mask f l ?w = 0" using 2 by (simp add: range_mask_def Let_def)
    moreover have "\<not> (unat f \<le> k \<and> k \<le> unat l)"
    proof -
      from 2 have "?w < ?fw \<or> ?lw < ?w" by (simp only: nat_neq_iff)
      then have "k < unat f \<or> unat l < k" by (blast intro: word_order)
      then show ?thesis by (simp add: not_le)
    qed
    ultimately show ?thesis by simp
  next
    case 3
    have "range_mask f l ?w = first_word_mask (f AND 31)" using 3 by (simp add: range_mask_def Let_def)
    moreover have "k < unat l" by (rule word_order) (simp only: 3)
    moreover have "unat f \<le> k \<longleftrightarrow> unat f mod 32 \<le> k mod 32"
      by (rule same_word_order) (simp only: 3)
    ultimately show ?thesis
      by (simp only: bit_first_word_mask [OF mod_32_less] less_imp_le simp_thms)
  next
    case 4
    have "range_mask f l ?w = NOT 0" using 4 by (simp add: range_mask_def Let_def)
    moreover have "unat f < k" "k < unat l" using 4 by (simp_all only: word_order)
    ultimately show ?thesis by (simp add: bit_not_iff)
  next
    case 5
    have "range_mask f l ?w = NOT (after_last_mask (l AND 31))"
      using 5 by (simp add: range_mask_def Let_def)
    moreover have "unat f < k" by (rule word_order) (simp only: 5)
    moreover have "k \<le> unat l \<longleftrightarrow> k mod 32 \<le> unat l mod 32"
      by (rule same_word_order) (simp only: 5)
    ultimately show ?thesis
      by (simp add: bit_not_iff bit_after_last_mask not_less diff_less_Suc [of 31, simplified])
  next
    case 6
    have "range_mask f l ?w = 0" using 6 wl by (simp add: range_mask_def Let_def)
    moreover have "k < unat f" by (rule word_order) (rule 6)
    ultimately show ?thesis by simp
  next
    case 7
    have "range_mask f l ?w = 0" using 7 wl by (simp add: range_mask_def Let_def)
    moreover have "unat l < k" by (rule word_order) (rule 7)
    ultimately show ?thesis by simp
  qed
qed

lemma SetBitRange_words:
  assumes "f \<le> l"
  shows "SetBitRange a f l = (\<lambda>w. a w OR range_mask f l w)"
proof (cases "drop_bit 5 f = drop_bit 5 l")
  case True
  then have "unat f div 32 = unat l div 32" by (simp add: drop_bit_5_eq_iff)
  with True show ?thesis
    by (auto simp: SetBitRange_def range_mask_def fun_eq_iff unat_drop_bit_5)
next
  case False
  then have lt: "unat f div 32 < unat l div 32" by (rule drop_bit_5_neq [OF assms])
  then have "unat (drop_bit 5 f + 1) = Suc (unat f div 32)"
    by (subst unat_suc_less [of _ "drop_bit 5 l"]) (simp_all add: word_less_nat_alt unat_drop_bit_5)
  with False lt show ?thesis
    by (auto simp: SetBitRange_def range_mask_def fun_eq_iff unat_drop_bit_5 fill_words_apply)
qed

lemma ClearBitRange_words:
  assumes "f \<le> l"
  shows "ClearBitRange a f l = (\<lambda>w. a w AND NOT (range_mask f l w))"
proof (cases "drop_bit 5 f = drop_bit 5 l")
  case True
  then have "unat f div 32 = unat l div 32" by (simp add: drop_bit_5_eq_iff)
  with True show ?thesis
    by (auto simp: ClearBitRange_def range_mask_def fun_eq_iff unat_drop_bit_5)
next
  case False
  then have lt: "unat f div 32 < unat l div 32" by (rule drop_bit_5_neq [OF assms])
  then have "unat (drop_bit 5 f + 1) = Suc (unat f div 32)"
    by (subst unat_suc_less [of _ "drop_bit 5 l"]) (simp_all add: word_less_nat_alt unat_drop_bit_5)
  with False lt show ?thesis
    by (auto simp: ClearBitRange_def range_mask_def fun_eq_iff unat_drop_bit_5 fill_words_apply)
qed

lemma range_mask_disjoint_iff:
  assumes "unat f div 32 < unat l div 32"
  shows "(\<forall>w. a w AND range_mask f l w = 0) \<longleftrightarrow>
    a (unat f div 32) AND first_word_mask (f AND 31) = 0 \<and>
    (\<forall>w. Suc (unat f div 32) \<le> w \<and> w < unat l div 32 \<longrightarrow> a w = 0) \<and>
    a (unat l div 32) AND NOT (after_last_mask (l AND 31)) = 0"
    (is "?L \<longleftrightarrow> ?R")
proof
  assume L: "\<forall>w. a w AND range_mask f l w = 0"
  have "a w = 0" if "Suc (unat f div 32) \<le> w" and "w < unat l div 32" for w
    using L [rule_format, of w] that by (simp add: range_mask_def)
  with L [rule_format, of "unat f div 32"] L [rule_format, of "unat l div 32"] assms
  show ?R by (simp add: range_mask_def)
next
  assume R: ?R
  show ?L
  proof
    fix w
    show "a w AND range_mask f l w = 0"
      using R assms by (simp add: range_mask_def Let_def Suc_le_eq)
  qed
qed

lemma IsBitRangeClear_words:
  assumes "f \<le> l"
  shows "IsBitRangeClear a f l = (\<forall>w. a w AND range_mask f l w = 0)"
proof (cases "drop_bit 5 f = drop_bit 5 l")
  case True
  then have "unat f div 32 = unat l div 32" by (simp add: drop_bit_5_eq_iff)
  with True show ?thesis
    by (auto simp: IsBitRangeClear_def range_mask_def unat_drop_bit_5)
next
  case False
  then have lt: "unat f div 32 < unat l div 32" by (rule drop_bit_5_neq [OF assms])
  then have "unat (drop_bit 5 f + 1) = Suc (unat f div 32)"
    by (subst unat_suc_less [of _ "drop_bit 5 l"]) (simp_all add: word_less_nat_alt unat_drop_bit_5)
  with False lt show ?thesis
    by (simp add: IsBitRangeClear_def range_mask_disjoint_iff [OF lt] unat_drop_bit_5 all_words_iff)
qed

lemma IsBitRangeSet_complement: "IsBitRangeSet a f l = IsBitRangeClear (\<lambda>w. NOT (a w)) f l"
  by (simp add: IsBitRangeSet_def IsBitRangeClear_def all_words_iff)

lemma bit_word_all: "(w :: u32) = 0 \<longleftrightarrow> (\<forall>r < 32. \<not> bit w (31 - r))"
proof -
  have "(\<forall>k < 32. \<not> bit w k) \<longleftrightarrow> (\<forall>r < 32. \<not> bit w (31 - r))"
  proof
    assume A: "\<forall>r < 32. \<not> bit w (31 - r)"
    have "\<not> bit w k" if "k < 32" for k
      using A [rule_format, of "31 - k"] that by simp
    then show "\<forall>k < 32. \<not> bit w k" by blast
  qed simp
  then show ?thesis by (simp add: word_eq_0_iff_bits)
qed

lemma all_bits_by_words: "(\<forall>w r. r < 32 \<longrightarrow> P w (r :: nat)) \<longleftrightarrow> (\<forall>k. P (k div 32) (k mod 32))"
proof
  assume A: "\<forall>k. P (k div 32) (k mod 32)"
  have "P w r" if "r < 32" for w r
    using A [rule_format, of "32 * w + r"] that by simp
  then show "\<forall>w r. r < 32 \<longrightarrow> P w r" by blast
qed simp

lemma abit_SetBitRange:
  "f \<le> l \<Longrightarrow> abit (SetBitRange a f l) k \<longleftrightarrow> abit a k \<or> (unat f \<le> k \<and> k \<le> unat l)"
  by (simp add: SetBitRange_words abit_def bit_or_iff bit_range_mask)

lemma abit_ClearBitRange:
  "f \<le> l \<Longrightarrow> abit (ClearBitRange a f l) k \<longleftrightarrow> abit a k \<and> \<not> (unat f \<le> k \<and> k \<le> unat l)"
  by (simp add: ClearBitRange_words abit_def bit_and_iff bit_not_iff bit_range_mask
      diff_less_Suc [of 31, simplified])

lemma IsBitRangeClear_abit:
  assumes "f \<le> l"
  shows "IsBitRangeClear a f l \<longleftrightarrow> (\<forall>k. unat f \<le> k \<and> k \<le> unat l \<longrightarrow> \<not> abit a k)"
proof -
  have "IsBitRangeClear a f l \<longleftrightarrow>
      (\<forall>w r. r < 32 \<longrightarrow> \<not> (bit (a w) (31 - r) \<and> bit (range_mask f l w) (31 - r)))"
    by (simp add: IsBitRangeClear_words [OF assms] bit_word_all bit_and_iff)
  also have "\<dots> \<longleftrightarrow> (\<forall>k. \<not> (abit a k \<and> unat f \<le> k \<and> k \<le> unat l))"
    by (simp only: all_bits_by_words bit_range_mask [OF assms] abit_def)
  finally show ?thesis by blast
qed

lemma abit_complement: "abit (\<lambda>w. NOT (a w)) k = (\<not> abit a k)"
  by (simp add: abit_def bit_not_iff diff_less_Suc [of 31, simplified])

lemma IsBitRangeSet_abit:
  "f \<le> l \<Longrightarrow> IsBitRangeSet a f l \<longleftrightarrow> (\<forall>k. unat f \<le> k \<and> k \<le> unat l \<longrightarrow> abit a k)"
  by (simp add: IsBitRangeSet_complement IsBitRangeClear_abit abit_complement)

lemma bitset_SetBitRange:
  "f \<le> l \<Longrightarrow> bitset (SetBitRange a f l) = bitset a \<union> {unat f..unat l}"
  by (auto simp: bitset_def abit_SetBitRange)

lemma bitset_ClearBitRange:
  "f \<le> l \<Longrightarrow> bitset (ClearBitRange a f l) = bitset a - {unat f..unat l}"
  by (auto simp: bitset_def abit_ClearBitRange)

lemma IsBitRangeSet_bitset:
  "f \<le> l \<Longrightarrow> IsBitRangeSet a f l \<longleftrightarrow> {unat f..unat l} \<subseteq> bitset a"
  by (auto simp: bitset_def IsBitRangeSet_abit)

lemma IsBitRangeClear_bitset:
  "f \<le> l \<Longrightarrow> IsBitRangeClear a f l \<longleftrightarrow> {unat f..unat l} \<inter> bitset a = {}"
  by (auto simp: bitset_def IsBitRangeClear_abit)

section \<open>The searches\<close>

lemma scan_down_stops:
  assumes "\<not> test j" and "j \<le> i"
  shows "\<exists>r. scan_down test i = Some r \<and> j \<le> r \<and> r \<le> i \<and> \<not> test r"
  using assms
proof (induction "unat i" arbitrary: i)
  case 0
  then have "i = 0" by (simp add: unat_eq_0)
  with 0 have "\<not> test i" by (metis word_le_0_iff)
  then show ?case using 0 by (intro exI [of _ i]) (simp add: scan_down.simps)
next
  case (Suc n)
  show ?case
  proof (cases "test i")
    case False
    then show ?thesis using Suc.prems by (intro exI [of _ i]) (simp add: scan_down.simps)
  next
    case True
    with Suc.prems have "j < i" by (metis le_neq_implies_less word_le_less_eq)
    then have u: "unat (i - 1) = n"
      using Suc.hyps(2) by (subst unat_minus_one) auto
    with \<open>j < i\<close> have "j \<le> i - 1"
      using Suc.hyps(2) by (simp add: word_le_nat_alt word_less_nat_alt)
    with Suc.hyps(1) [OF u [symmetric]] Suc.prems(1) obtain r
      where "scan_down test (i - 1) = Some r" "j \<le> r" "r \<le> i - 1" "\<not> test r" by blast
    moreover have "i - 1 \<le> i"
      using u Suc.hyps(2) by (simp add: word_le_nat_alt)
    ultimately show ?thesis
      using True by (intro exI [of _ r]) (auto simp: scan_down.simps [of test i])
  qed
qed

text \<open>The reference: the first position from which a run of \<open>n\<close> good bits starts.\<close>

definition first_run :: "(nat \<Rightarrow> bool) \<Rightarrow> nat \<Rightarrow> nat \<Rightarrow> nat \<Rightarrow> nat option" where
  "first_run good lo hi n =
     List.find (\<lambda>k. \<forall>j \<in> set [k..<k + n]. good j) [lo..<hi + 2 - n]"

definition run_result :: "nat option \<Rightarrow> int" where
  "run_result r = (case r of None \<Rightarrow> - 1 | Some k \<Rightarrow> int k)"

lemma find_append_fail:
  "(\<forall>x \<in> set xs. \<not> P x) \<Longrightarrow> List.find P (xs @ ys) = List.find P ys"
  by (induction xs) auto

lemma first_run_skip:
  assumes "\<not> good r" and "lo \<le> r" and "r < lo + n"
  shows "first_run good lo hi n = first_run good (Suc r) hi n"
proof (cases "Suc r \<le> hi + 2 - n")
  case True
  then have "[lo..<hi + 2 - n] = [lo..<Suc r] @ [Suc r..<hi + 2 - n]"
    using assms(2) by (metis le_Suc_eq le_iff_add upt_add_eq_append)
  moreover have "\<forall>k \<in> set [lo..<Suc r]. \<not> (\<forall>j \<in> set [k..<k + n]. good j)"
    using assms by fastforce
  ultimately show ?thesis by (simp only: first_run_def find_append_fail)
next
  case False
  then have "\<forall>k \<in> set [lo..<hi + 2 - n]. \<not> (\<forall>j \<in> set [k..<k + n]. good j)"
    using assms by fastforce
  then have "first_run good lo hi n = None"
    by (simp only: first_run_def find_None_iff) blast
  moreover have "first_run good (Suc r) hi n = None"
    using False by (simp add: first_run_def)
  ultimately show ?thesis by simp
qed

lemma first_run_here:
  assumes "\<forall>j. lo \<le> j \<and> j < lo + n \<longrightarrow> good j" and "lo + n \<le> hi + 1"
  shows "first_run good lo hi n = Some lo"
proof -
  have "[lo..<hi + 2 - n] = lo # [Suc lo..<hi + 2 - n]"
    using assms(2) by (intro upt_conv_Cons) simp
  with assms(1) show ?thesis by (simp add: first_run_def)
qed

lemma unat_add_sub_1:
  assumes "unat (f :: u32) + unat n - 1 < 2 ^ 32" and "n \<noteq> 0"
  shows "unat (f + n - 1) = unat f + unat n - 1"
proof -
  have "1 \<le> unat n" using assms(2) by (simp add: Suc_leI unat_gt_0)
  then have "f + n - 1 = word_of_nat (unat f + unat n - 1)"
    by (simp add: of_nat_diff)
  then show ?thesis using assms(1) by (simp add: unat_of_nat)
qed

text \<open>
  The search loop returns the reference result, whatever the tests are, as long as the
  range test and the bit test agree on which bits are good and the range end does not
  overflow.
\<close>

lemma find_range_first_run:
  assumes test: "\<And>b. test b \<longleftrightarrow> good (unat b)"
    and range: "\<And>f l. f \<le> l \<Longrightarrow> range_ok f l \<longleftrightarrow> (\<forall>k. unat f \<le> k \<and> k \<le> unat l \<longrightarrow> good k)"
    and n: "n \<noteq> 0" and top: "unat l < 2 ^ 31" "unat l + unat n < 2 ^ 32"
    and f: "unat f \<le> unat l + 1"
  shows "find_range range_ok test f l n
    = Some (run_result (first_run good (unat f) (unat l) (unat n)))"
  using f
proof (induction "unat l + 1 - unat f" arbitrary: f rule: less_induct)
  case less
  have n1: "1 \<le> unat n" using n by (simp add: Suc_leI unat_gt_0)
  have ix: "unat (f + n - 1) = unat f + unat n - 1"
    using less.prems top n by (intro unat_add_sub_1) auto
  show ?case
  proof (cases "f + n - 1 \<le> l")
    case False
    then have "unat l + 2 - unat n \<le> unat f" by (simp add: word_le_nat_alt ix)
    with False show ?thesis
      by (simp add: find_range.simps [of _ _ f] first_run_def run_result_def)
  next
    case True
    then have in_range: "unat f + unat n \<le> unat l + 1" by (simp add: word_le_nat_alt ix)
    have fi: "f \<le> f + n - 1" using n1 by (simp add: word_le_nat_alt ix)
    show ?thesis
    proof (cases "range_ok f (f + n - 1)")
      case ok: True
      then have "\<forall>j. unat f \<le> j \<and> j < unat f + unat n \<longrightarrow> good j"
        using range [OF fi] n1 by (auto simp: ix)
      then have "first_run good (unat f) (unat l) (unat n) = Some (unat f)"
        by (rule first_run_here) (rule in_range)
      moreover have "sint f = int (unat f)"
        using in_range n1 top by (intro sint_small) simp
      ultimately show ?thesis
        using True ok by (simp add: find_range.simps [of _ _ f] run_result_def Let_def)
    next
      case bad: False
      then obtain j where "unat f \<le> j" "j \<le> unat f + unat n - 1" "\<not> good j"
        using range [OF fi] by (auto simp: ix)
      then have "\<not> test (word_of_nat j)" "f \<le> word_of_nat j" "word_of_nat j \<le> f + n - 1"
        using top in_range by (auto simp: test word_le_nat_alt ix unat_of_nat)
      then obtain r where r: "scan_down test (f + n - 1) = Some r" "f \<le> r" "r \<le> f + n - 1" "\<not> test r"
        using scan_down_stops [of test "word_of_nat j" "f + n - 1"] by force
      then have r': "unat f \<le> unat r" "unat r < unat f + unat n" "\<not> good (unat r)"
        using n1 by (auto simp: word_le_nat_alt ix test)
      have u: "unat (r + 1) = Suc (unat r)"
        using r'(2) in_range top by (simp add: unat_word_ariths)
      have "find_range range_ok test (r + 1) l n
          = Some (run_result (first_run good (unat (r + 1)) (unat l) (unat n)))"
        using r' in_range by (intro less.hyps) (simp_all add: u)
      then show ?thesis
        using True bad r(1) first_run_skip [where good = good, OF r'(3,1,2), of "unat l"]
        by (simp add: find_range.simps [of _ _ f] Let_def u)
    qed
  qed
qed

lemma FindSetBitRange_first_run:
  assumes "numBits \<noteq> 0" and "unat lastBit < 2 ^ 31" and "unat lastBit + unat numBits < 2 ^ 32"
    and "firstBit \<le> lastBit"
  shows "FindSetBitRange array firstBit lastBit numBits =
    Some (run_result (first_run (abit array) (unat firstBit) (unat lastBit) (unat numBits)))"
  unfolding FindSetBitRange_def if_not_P [OF assms(1)]
  by (rule find_range_first_run)
     (use assms in \<open>simp_all add: IsBitSet_abit IsBitRangeSet_abit word_le_nat_alt\<close>)

lemma FindClearBitRange_first_run:
  assumes "numBits \<noteq> 0" and "unat lastBit < 2 ^ 31" and "unat lastBit + unat numBits < 2 ^ 32"
    and "firstBit \<le> lastBit"
  shows "FindClearBitRange array firstBit lastBit numBits =
    Some (run_result (first_run (\<lambda>k. \<not> abit array k) (unat firstBit) (unat lastBit) (unat numBits)))"
  unfolding FindClearBitRange_def if_not_P [OF assms(1)]
  by (rule find_range_first_run)
     (use assms in \<open>simp_all add: IsBitClear_abit IsBitRangeClear_abit word_le_nat_alt\<close>)

section \<open>The interface the memory manager uses\<close>

text \<open>
  What a client of the range operations may rely on: they act on the set of set bits, over
  ranges whose ends are in order. The page ownership and page permission maps of the
  memory manager are only used through this interface.
\<close>

locale bit_ranges =
  fixes set_range :: "'b \<Rightarrow> u32 \<Rightarrow> u32 \<Rightarrow> 'b"
    and clear_range :: "'b \<Rightarrow> u32 \<Rightarrow> u32 \<Rightarrow> 'b"
    and range_set :: "'b \<Rightarrow> u32 \<Rightarrow> u32 \<Rightarrow> bool"
    and members :: "'b \<Rightarrow> nat set"
  assumes members_set: "f \<le> l \<Longrightarrow> members (set_range a f l) = members a \<union> {unat f..unat l}"
    and members_clear: "f \<le> l \<Longrightarrow> members (clear_range a f l) = members a - {unat f..unat l}"
    and range_set_iff: "f \<le> l \<Longrightarrow> range_set a f l \<longleftrightarrow> {unat f..unat l} \<subseteq> members a"
begin

lemma set_then_tested: "f \<le> l \<Longrightarrow> range_set (set_range a f l) f l"
  by (simp add: members_set range_set_iff)

lemma cleared_not_set: "f \<le> l \<Longrightarrow> \<not> range_set (clear_range a f l) f l"
  by (simp add: members_clear range_set_iff word_le_nat_alt) force

lemma range_set_mono:
  "\<lbrakk> range_set a f l; f \<le> f'; f' \<le> l'; l' \<le> l \<rbrakk> \<Longrightarrow> range_set a f' l'"
  by (auto simp: range_set_iff word_le_nat_alt)

text \<open>Moving a range from one set to another keeps the two sets disjoint.\<close>

lemma transfer_disjoint:
  assumes "f \<le> l" and "members a \<inter> members b = {}"
  shows "members (clear_range a f l) \<inter> members (set_range b f l) = {}"
    and "members (clear_range a f l) \<union> members (set_range b f l)
      = members a \<union> members b \<union> {unat f..unat l}"
  using assms by (auto simp: members_set members_clear)

end

interpretation bits: bit_ranges SetBitRange ClearBitRange IsBitRangeSet bitset
  by unfold_locales (auto simp: bitset_SetBitRange bitset_ClearBitRange IsBitRangeSet_bitset)

section \<open>Properties\<close>

text \<open>C1: \<open>SetBitRange\<close> sets exactly the bits \<open>firstBit..lastBit\<close>, \<open>ClearBitRange\<close> clears exactly
  these, and every other bit of every word of the array is as it was.\<close>

theorem BitRange_exact:
  assumes "firstBit \<le> lastBit"
  shows "(IsBitSet (SetBitRange array firstBit lastBit) b
      \<longleftrightarrow> IsBitSet array b \<or> (firstBit \<le> b \<and> b \<le> lastBit))
    \<and> (IsBitSet (ClearBitRange array firstBit lastBit) b
      \<longleftrightarrow> IsBitSet array b \<and> \<not> (firstBit \<le> b \<and> b \<le> lastBit))"
  using assms by (simp add: IsBitSet_abit abit_SetBitRange abit_ClearBitRange word_le_nat_alt)

theorem BitRange_exact_witness:
  "IsBitSet (SetBitRange (\<lambda>_. 0) 30 70) 64 \<and> \<not> IsBitSet (ClearBitRange (\<lambda>_. NOT 0) 30 70) 64
   \<and> IsBitSet (ClearBitRange (\<lambda>_. NOT 0) 30 70) 71"
proof (intro conjI)
  have "IsBitSet (\<lambda>_. NOT 0) 71" by (simp add: IsBitSet_def)
  then show "IsBitSet (ClearBitRange (\<lambda>_. NOT 0) 30 70) 71" using BitRange_exact [of 30 70 "\<lambda>_. NOT 0" 71] by simp
qed (use BitRange_exact [of 30 70 "\<lambda>_. 0" 64] BitRange_exact [of 30 70 "\<lambda>_. NOT 0" 64] in simp_all)

text \<open>C2: \<open>FindSetBitRange\<close> and \<open>FindClearBitRange\<close> always return, and what
  they return is the first position of a run of \<open>numBits\<close> set (clear) bits inside the
  range, or -1 when the range holds no such run: skipping ahead loses no run.\<close>

theorem FindBitRange_first_run:
  assumes "numBits \<noteq> 0" and "unat lastBit < 2 ^ 31" and "unat lastBit + unat numBits < 2 ^ 32"
    and "firstBit \<le> lastBit"
  shows "FindSetBitRange array firstBit lastBit numBits =
      Some (run_result (first_run (abit array) (unat firstBit) (unat lastBit) (unat numBits)))
    \<and> FindClearBitRange array firstBit lastBit numBits =
      Some (run_result (first_run (\<lambda>k. \<not> abit array k) (unat firstBit) (unat lastBit) (unat numBits)))"
  using FindSetBitRange_first_run [OF assms] FindClearBitRange_first_run [OF assms] by simp

lemma first_run_example:
  "first_run (abit (\<lambda>_. 0x0F)) 24 33 3 = Some 28"
  "first_run (\<lambda>k. \<not> abit (\<lambda>_. 0x0F) k) 24 33 5 = None"
  by code_simp+

theorem FindBitRange_first_run_witness:
  "FindSetBitRange (\<lambda>_. 0x0F) 24 33 3 = Some 28 \<and> FindClearBitRange (\<lambda>_. 0x0F) 24 33 5 = Some (- 1)"
  using FindBitRange_first_run [of 3 33 24 "\<lambda>_. 0x0F"] FindBitRange_first_run [of 5 33 24 "\<lambda>_. 0x0F"]
  by (simp add: first_run_example run_result_def)

end
