(* ===== verification/Dates.thy ===== *)
theory Dates
  imports Prelude
begin

text \<open>
  The date folio (\<open>folios/date/conversions.c\<close>, \<open>includes/misc/date.h\<close>):
  conversion between the kernel's \<open>TimeVal\<close> (seconds since 1 January 1993) and
  Gregorian dates, and the validation of dates. All arithmetic is on the 32-bit unsigned
  integers of the code; \<open>tv_Seconds\<close> is a signed word, read with \<open>sint\<close>.
  The reference is a calendar that knows only the length of the months and the leap year
  rule and counts one day at a time; the closed formulas of the code are shown to follow it.
\<close>

record TimeVal =
  tv_Seconds :: u32
  tv_Microseconds :: u32

record GregorianDate =
  gd_Year :: u32
  gd_Month :: u16
  gd_Day :: u8
  gd_Hour :: u8
  gd_Minute :: u8
  gd_Second :: u8

text \<open>\<open>MakeErr\<close> and \<open>MakeErrId\<close> of \<open>operror.h\<close>, on the words the macros build.\<close>

definition MakeErr :: "u32 \<Rightarrow> u32 \<Rightarrow> u32 \<Rightarrow> u32 \<Rightarrow> u32 \<Rightarrow> u32 \<Rightarrow> u32" where
  "MakeErr ob oid severity env cls err =
     0x80000000 OR push_bit 13 oid OR push_bit 11 severity OR push_bit 9 env
     OR push_bit 8 cls OR push_bit 25 ob OR err"

text \<open>\<open>ER_FOLI\<close> is \<open>'F' - 'A' + 37\<close>, the identifier is \<open>"Da"\<close>, the error
  \<open>ER_ParamError\<close> with severity \<open>ER_SEVERE\<close>.\<close>

definition DATE_ERR_BADPARAM :: u32 where
  "DATE_ERR_BADPARAM = MakeErr 42 (push_bit 6 40 OR 11) 2 0 0 23"

definition DMYToDays :: "u32 \<Rightarrow> u32 \<Rightarrow> u32 \<Rightarrow> u32" where
  "DMYToDays day month year =
     (year - 1 + (month + 9) div 12) * 365
     + (year - 1 + (month + 9) div 12) div 4
     - (year - 1 + (month + 9) div 12) div 100
     + (year - 1 + (month + 9) div 12) div 400
     + (((month + 9) mod 12) * 306 + 5) div 10
     + day - 1"

definition DaysToDMY :: "u32 \<Rightarrow> GregorianDate \<Rightarrow> GregorianDate" where
  "DaysToDMY days date =
     (let x = days;
          x = x - (days + 1) div 146097;
          x = x + x div 36524;
          x = x - (x + 1) div 1461;
          year = x div 365;
          x = days - year * 365 - year div 4 + year div 100 - year div 400;
          month = x div 153;
          month = month * 5;
          month = month + 10 * (x mod 153) div 305;
          day = 1 + x;
          day = day - (month * 306 + 5) div 10;
          month = month + 2;
          year = year + month div 12;
          month = month mod 12;
          month = month + 1
      in date\<lparr>gd_Day := ucast day, gd_Month := ucast (ucast month :: u8), gd_Year := year\<rparr>)"

text \<open>Signed division of C, on the word representation: it truncates towards zero.\<close>

definition s_div :: "u32 \<Rightarrow> int \<Rightarrow> u32" where
  "s_div a b = word_of_int (sgn (sint a) * sgn b * (\<bar>sint a\<bar> div \<bar>b\<bar>))"

definition s_mod :: "u32 \<Rightarrow> int \<Rightarrow> u32" where
  "s_mod a b = word_of_int (sgn (sint a) * (\<bar>sint a\<bar> mod \<bar>b\<bar>))"

definition ConvertTimeValToGregorian :: "TimeVal \<Rightarrow> GregorianDate \<Rightarrow> GregorianDate" where
  "ConvertTimeValToGregorian tv gd =
     (let days = s_div (tv_Seconds tv) (60 * 60 * 24) + DMYToDays 1 1 1993;
          gd = DaysToDMY days gd;
          seconds = s_mod (tv_Seconds tv) (24 * 60 * 60)
      in gd\<lparr>gd_Hour := ucast (seconds div (60 * 60)),
             gd_Minute := ucast ((seconds div 60) mod 60),
             gd_Second := ucast (seconds mod 60)\<rparr>)"

definition ValidateDate :: "GregorianDate \<Rightarrow> u32" where
  "ValidateDate gd =
     (if gd_Hour gd \<ge> 24 \<or> gd_Minute gd \<ge> 60 \<or> gd_Second gd \<ge> 60
         \<or> gd_Day gd \<ge> 32 \<or> gd_Year gd < 1993
      then DATE_ERR_BADPARAM
      else
        let days = DMYToDays (ucast (gd_Day gd)) (ucast (gd_Month gd)) (gd_Year gd);
            temp = DaysToDMY days gd
        in if gd_Day gd \<noteq> gd_Day temp \<or> gd_Month gd \<noteq> gd_Month temp \<or> gd_Year gd \<noteq> gd_Year temp
           then DATE_ERR_BADPARAM
           else days - DMYToDays 1 1 1993)"

text \<open>The result code, and the \<open>TimeVal\<close> the caller passed (changed on success only).\<close>

definition ConvertGregorianToTimeVal :: "GregorianDate \<Rightarrow> TimeVal \<Rightarrow> u32 \<times> TimeVal" where
  "ConvertGregorianToTimeVal gd tv =
     (let days = ValidateDate gd in
      if sint days < 0 then (days, tv)
      else (0, tv\<lparr>tv_Seconds := days * 24 * 60 * 60 + ucast (gd_Hour gd) * 60 * 60
                    + ucast (gd_Minute gd) * 60 + ucast (gd_Second gd),
                  tv_Microseconds := 0\<rparr>))"

section \<open>The reference calendar\<close>

definition leap :: "nat \<Rightarrow> bool" where
  "leap y \<longleftrightarrow> 4 dvd y \<and> (100 dvd y \<longrightarrow> 400 dvd y)"

definition month_len :: "nat \<Rightarrow> nat \<Rightarrow> nat" where
  "month_len y m =
     (if m = 2 then (if leap y then 29 else 28)
      else if m \<in> {4, 6, 9, 11} then 30 else 31)"

type_synonym date = "nat \<times> nat \<times> nat" \<comment> \<open>day, month, year\<close>

fun valid_date :: "date \<Rightarrow> bool" where
  "valid_date (d, m, y) \<longleftrightarrow> 1 \<le> m \<and> m \<le> 12 \<and> 1 \<le> d \<and> d \<le> month_len y m"

fun next_date :: "date \<Rightarrow> date" where
  "next_date (d, m, y) =
     (if d < month_len y m then (d + 1, m, y)
      else if m < 12 then (1, m + 1, y) else (1, 1, y + 1))"

definition date_of :: "GregorianDate \<Rightarrow> date" where
  "date_of gd = (unat (gd_Day gd), unat (gd_Month gd), unat (gd_Year gd))"

section \<open>The formulas on natural numbers\<close>

definition year_formula :: "nat \<Rightarrow> nat" where
  "year_formula D =
     (let x1 = D - (D + 1) div 146097; x2 = x1 + x1 div 36524 in (x2 - (x2 + 1) div 1461) div 365)"

definition year_days :: "nat \<Rightarrow> nat" where
  "year_days y = y * 365 + y div 4 - y div 100 + y div 400"

definition month_index :: "nat \<Rightarrow> nat" where
  "month_index x = x div 153 * 5 + 10 * (x mod 153) div 305"

definition month_day :: "nat \<Rightarrow> nat" where
  "month_day x = 1 + x - (month_index x * 306 + 5) div 10"

text \<open>The date of day \<open>x\<close> (from 1 March) of the year that starts on 1 March \<open>y\<close>.\<close>

definition civil :: "nat \<Rightarrow> nat \<Rightarrow> date" where
  "civil y x = (month_day x, (month_index x + 2) mod 12 + 1, y + (month_index x + 2) div 12)"

text \<open>Every day is one of at most 366 days of a year of a 4-, 100- and 400-year cycle.\<close>

definition cyc :: "nat \<Rightarrow> nat \<Rightarrow> nat \<Rightarrow> nat \<Rightarrow> nat \<Rightarrow> bool" where
  "cyc a b c e x \<longleftrightarrow> b < 4 \<and> c < 25 \<and> e < 4 \<and> x \<le> 365 \<and>
     (x = 365 \<longrightarrow> e = 3 \<and> (c = 24 \<longrightarrow> b = 3))"

lemma cyc_exists: "\<exists>a b c e x. cyc a b c e x \<and> D = 146097 * a + 36524 * b + 1461 * c + 365 * e + x"
proof -
  define q r1 where "q = D div 146097" and "r1 = D mod 146097"
  define b where "b = min 3 (r1 div 36524)"
  define r2 where "r2 = r1 - 36524 * b"
  define c where "c = r2 div 1461"
  define r3 where "r3 = r2 mod 1461"
  define e where "e = min 3 (r3 div 365)"
  define x where "x = r3 - 365 * e"
  have r1: "r1 < 146097" and D: "D = 146097 * q + r1" by (simp_all add: q_def r1_def)
  have b: "b \<le> 3" "36524 * b \<le> r1" "b < 3 \<Longrightarrow> r1 < 36524 * b + 36524" "r2 \<le> 36524"
    "r2 = 36524 \<Longrightarrow> b = 3"
    using r1 by (auto simp: b_def r2_def min_def not_le split: if_splits)
  have c: "c \<le> 24" "r2 = 1461 * c + r3" "r3 \<le> 1460"
    using b(4) by (auto simp: c_def r3_def)
  have e: "e \<le> 3" "365 * e \<le> r3" "x \<le> 365" "x = 365 \<Longrightarrow> e = 3"
    using c(3) by (auto simp: e_def x_def min_def not_le split: if_splits)
  have "b = 3" if "x = 365" "c = 24"
  proof -
    have "r3 = 1460" using e(2,4) that(1) unfolding x_def by linarith
    then show ?thesis using c(2) that(2) by (intro b(5)) simp
  qed
  then have "cyc q b c e x"
    unfolding cyc_def using b(1) c(1) e(1,3,4) by simp
  moreover have "D = 146097 * q + 36524 * b + 1461 * c + 365 * e + x"
    using D b(2) c(2) e(2) unfolding r2_def x_def by linarith
  ultimately show ?thesis by blast
qed

lemma year_formula_cyc:
  assumes "cyc a b c e x" and D: "D = 146097 * a + 36524 * b + 1461 * c + 365 * e + x"
  shows "year_formula D = 400 * a + 100 * b + 4 * c + e"
proof -
  note cy = assms(1) [unfolded cyc_def]
  define t :: nat where "t = (if b = 3 \<and> c = 24 \<and> e = 3 \<and> x = 365 then 1 else 0)"
  define u :: nat where "u = (if e = 3 \<and> x = 365 \<and> t = 0 then 1 else 0)"
  have "(D + 1) div 146097 = a + t"
    by (rule div_nat_eqI) (use cy D in \<open>auto simp: t_def\<close>)
  then have x1: "D - (D + 1) div 146097 = 146096 * a + 36524 * b + 1461 * c + 365 * e + x - t"
    using D by simp
  have "(146096 * a + 36524 * b + 1461 * c + 365 * e + x - t) div 36524 = 4 * a + b"
    by (rule div_nat_eqI) (use cy in \<open>auto simp: t_def\<close>)
  then have x2: "(D - (D + 1) div 146097) + (D - (D + 1) div 146097) div 36524
      = 1461 * (100 * a + 25 * b + c) + (365 * e + x - t)"
    unfolding x1 using cy by (auto simp: t_def)
  have "(1461 * (100 * a + 25 * b + c) + (365 * e + x - t) + 1) div 1461 = 100 * a + 25 * b + c + u"
    by (rule div_nat_eqI) (use cy in \<open>auto simp: t_def u_def\<close>)
  moreover have "(1461 * (100 * a + 25 * b + c) + (365 * e + x - t) - (100 * a + 25 * b + c + u)) div 365
      = 400 * a + 100 * b + 4 * c + e"
    by (rule div_nat_eqI) (use cy in \<open>auto simp: t_def u_def\<close>)
  ultimately show ?thesis by (simp only: year_formula_def Let_def x2)
qed

lemma year_days_cyc:
  assumes "cyc a b c e x"
  shows "year_days (400 * a + 100 * b + 4 * c + e) = 146097 * a + 36524 * b + 1461 * c + 365 * e"
proof -
  note cy = assms(1) [unfolded cyc_def]
  have "(400 * a + 100 * b + 4 * c + e) div 4 = 100 * a + 25 * b + c"
    by (rule div_nat_eqI) (use cy in auto)
  moreover have "(400 * a + 100 * b + 4 * c + e) div 100 = 4 * a + b"
    by (rule div_nat_eqI) (use cy in auto)
  moreover have "(400 * a + 100 * b + 4 * c + e) div 400 = a"
    by (rule div_nat_eqI) (use cy in auto)
  ultimately show ?thesis by (simp add: year_days_def)
qed

lemma year_formula_le: "year_days (year_formula D) \<le> D"
  and day_of_year_le: "D - year_days (year_formula D) \<le> 365"
proof -
  obtain a b c e x where cy: "cyc a b c e x"
    and D: "D = 146097 * a + 36524 * b + 1461 * c + 365 * e + x"
    using cyc_exists by blast
  have "year_days (year_formula D) + x = D"
    using year_formula_cyc [OF cy D] year_days_cyc [OF cy] D by simp
  then show "year_days (year_formula D) \<le> D" and "D - year_days (year_formula D) \<le> 365"
    using cy by (auto simp: cyc_def)
qed

lemma year_formula_unique:
  assumes "x \<le> 364 \<or> (x = 365 \<and> leap (y + 1))"
  shows "year_formula (year_days y + x) = y"
proof -
  define a r b where "a = y div 400" and "r = y mod 400" and "b = r div 100"
  define r' c e where "r' = r mod 100" and "c = r' div 4" and "e = r' mod 4"
  have "y = 400 * a + r" "r = 100 * b + r'" "r' = 4 * c + e"
    by (simp_all add: a_def r_def b_def r'_def c_def e_def)
  then have y: "y = 400 * a + 100 * b + 4 * c + e" by simp
  have "r < 400" "r' < 100" "e < 4" by (simp_all add: r_def r'_def e_def)
  with \<open>r = 100 * b + r'\<close> \<open>r' = 4 * c + e\<close> have bnd: "b < 4" "c < 25" "e < 4" by simp_all
  have "e = 3 \<and> (c = 24 \<longrightarrow> b = 3)" if "leap (y + 1)"
  proof -
    from that have "4 dvd y + 1" and l: "100 dvd y + 1 \<longrightarrow> 400 dvd y + 1" by (simp_all add: leap_def)
    then have "4 dvd 4 * (100 * a + 25 * b + c) + (e + 1)" by (simp add: y algebra_simps)
    then have "4 dvd e + 1" by (metis dvd_add_right_iff dvd_triv_left)
    then have "e = 3" using bnd by (auto dest: dvd_imp_le)
    moreover have "b = 3" if "c = 24"
    proof -
      have y1: "y + 1 = 100 * (4 * a + (b + 1))" using \<open>e = 3\<close> that by (simp add: y)
      then have q: "100 * 4 dvd y + 1" using l by simp
      have "4 dvd 4 * a + (b + 1)"
        using q [unfolded y1 nat_mult_dvd_cancel_disj] by simp
      then have "4 dvd b + 1" by (metis dvd_add_right_iff dvd_triv_left)
      then show ?thesis using bnd by (auto dest: dvd_imp_le)
    qed
    ultimately show ?thesis by blast
  qed
  then have cy: "cyc a b c e x" using assms bnd by (auto simp: cyc_def)
  show ?thesis
    using year_formula_cyc [OF cy refl] year_days_cyc [OF cy] y by simp
qed

lemma day_365_leap:
  assumes "D - year_days (year_formula D) = 365"
  shows "leap (year_formula D + 1)"
proof -
  obtain a b c e x where cy: "cyc a b c e x"
    and D: "D = 146097 * a + 36524 * b + 1461 * c + 365 * e + x"
    using cyc_exists by blast
  have y: "year_formula D = 400 * a + 100 * b + 4 * c + e" by (rule year_formula_cyc [OF cy D])
  with assms year_days_cyc [OF cy] D have "x = 365" by simp
  with cy have "e = 3" "c = 24 \<longrightarrow> b = 3" "b < 4" "c < 25" by (auto simp: cyc_def)
  then have "c = 24 \<and> year_formula D + 1 = 400 * (a + 1) \<or>
      c < 24 \<and> year_formula D + 1 = 100 * (4 * a + b) + 4 * (c + 1)"
    using y by auto
  then show ?thesis
  proof
    assume "c = 24 \<and> year_formula D + 1 = 400 * (a + 1)"
    then show ?thesis by (simp add: leap_def)
  next
    assume A: "c < 24 \<and> year_formula D + 1 = 100 * (4 * a + b) + 4 * (c + 1)"
    have "\<not> 100 dvd year_formula D + 1"
    proof
      assume "100 dvd year_formula D + 1"
      then have "100 dvd 4 * (c + 1)" using A by (metis dvd_add_right_iff dvd_triv_left)
      then show False using A by (auto dest: dvd_imp_le)
    qed
    moreover have "year_formula D + 1 = 4 * (25 * (4 * a + b) + (c + 1))" using A by simp
    then have "4 dvd year_formula D + 1" by (metis dvd_triv_left)
    ultimately show ?thesis by (simp add: leap_def)
  qed
qed

section \<open>Days of the year and months\<close>

text \<open>The length of the month with index \<open>i\<close> counted from March, February as in a common year.\<close>

definition month_len_from_march :: "nat \<Rightarrow> nat" where
  "month_len_from_march i = (if i = 11 then 28 else if i \<in> {1, 3, 6, 8} then 30 else 31)"

lemma march_cases: "i \<le> 11 \<Longrightarrow> i \<in> set [0, 1, 2, 3, 4, 5, 6, 7, 8, 9, 10, 11 :: nat]"
  by simp arith

text \<open>The day on which the month with index \<open>i\<close> starts.\<close>

definition month_start :: "nat \<Rightarrow> nat" where
  "month_start i = (i * 306 + 5) div 10"

lemma month_index_eqI:
  assumes "153 * q \<le> x" and "x < 153 * q + 153"
    and "305 * j \<le> 10 * (x - 153 * q)" and "10 * (x - 153 * q) < 305 * j + 305"
  shows "month_index x = 5 * q + j"
proof -
  have q: "x div 153 = q" by (rule div_nat_eqI) (use assms in simp_all)
  then have "x mod 153 = x - 153 * q" by (simp add: modulo_nat_def)
  moreover have "10 * (x - 153 * q) div 305 = j" by (rule div_nat_eqI) (use assms in simp_all)
  ultimately show ?thesis by (simp add: month_index_def q)
qed

lemma month_index_start:
  assumes "i \<le> 11" and "month_start i \<le> x" and "x < month_start (i + 1)"
  shows "month_index x = i"
proof -
  have i: "i = 5 * (i div 5) + i mod 5" by simp
  show ?thesis
    by (subst i, rule month_index_eqI)
       (use march_cases [OF assms(1)] assms(2,3) in \<open>auto simp: month_start_def\<close>)
qed

lemma month_day_start:
  "\<lbrakk> i \<le> 11; month_start i \<le> x; x < month_start (i + 1) \<rbrakk> \<Longrightarrow> month_day x = 1 + x - month_start i"
  by (simp add: month_day_def month_index_start) (simp add: month_start_def)

lemma month_exists:
  assumes "x \<le> 365"
  obtains i where "i \<le> 11" "month_start i \<le> x" "x < month_start (i + 1)"
proof -
  have "\<exists>i \<in> set [0, 1, 2, 3, 4, 5, 6, 7, 8, 9, 10, 11]. month_start i \<le> x \<and> x < month_start (i + 1)"
    using assms by (simp add: month_start_def) linarith
  then obtain i where i: "i \<in> set [0, 1, 2, 3, 4, 5, 6, 7, 8, 9, 10, 11 :: nat]"
      "month_start i \<le> x" "x < month_start (i + 1)"
    by (elim bexE conjE)
  from i(1) have "i \<le> 11" by auto
  with i(2,3) that show ?thesis by blast
qed

lemma march_cases_10: "i \<le> 10 \<Longrightarrow> i \<in> set [0, 1, 2, 3, 4, 5, 6, 7, 8, 9, 10 :: nat]"
  by simp arith

lemma month_start_Suc:
  "i \<le> 10 \<Longrightarrow> month_start (i + 1) = month_start i + month_len_from_march i"
  by (drule march_cases_10) (auto simp: month_start_def month_len_from_march_def)

lemma civil_month_len:
  assumes "i \<le> 11"
  shows "month_len (y + (i + 2) div 12) ((i + 2) mod 12 + 1)
    = (if i = 11 \<and> leap (y + 1) then 29 else month_len_from_march i)"
  using march_cases [OF assms] by (auto simp: month_len_def month_len_from_march_def)

lemma civil_within_year:
  assumes "x < 364 \<or> x = 364 \<and> leap (y + 1)"
  shows "civil y (x + 1) = next_date (civil y x)"
proof -
  have "x \<le> 365" using assms by auto
  then obtain i where i: "i \<le> 11" "month_start i \<le> x" "x < month_start (i + 1)"
    by (rule month_exists)
  have len: "month_len (y + (i + 2) div 12) ((i + 2) mod 12 + 1)
      = (if i = 11 \<and> leap (y + 1) then 29 else month_len_from_march i)"
    by (rule civil_month_len [OF i(1)])
  have mi: "month_index x = i" "month_day x = 1 + x - month_start i"
    using month_index_start [OF i] month_day_start [OF i] by simp_all
  show ?thesis
  proof (cases "i = 11 \<or> x + 1 < month_start (i + 1)")
    case True
    then have next': "x + 1 < month_start (i + 1)"
      using assms by (auto simp: month_start_def)
    have "month_index (x + 1) = i" "month_day (x + 1) = 1 + (x + 1) - month_start i"
      using month_index_start [of i "x + 1"] month_day_start [of i "x + 1"] i next' by simp_all
    moreover have "month_day x < month_len (y + (i + 2) div 12) ((i + 2) mod 12 + 1)"
    proof (cases "i = 11")
      case True
      then show ?thesis
        unfolding len using assms by (auto simp: mi month_start_def month_len_from_march_def)
    next
      case False
      then show ?thesis
        unfolding len using next' month_start_Suc [of i] i by (simp add: mi)
    qed
    ultimately show ?thesis using i(2) by (simp add: civil_def mi Suc_diff_le)
  next
    case False
    then have i10: "i \<le> 10" and x1: "x + 1 = month_start (i + 1)" using i by simp_all
    have "month_start (i + 1) < month_start (i + 1 + 1)"
      using march_cases_10 [OF i10] by (auto simp: month_start_def)
    then have n: "month_index (x + 1) = i + 1" "month_day (x + 1) = 1"
      using month_index_start [of "i + 1" "x + 1"] month_day_start [of "i + 1" "x + 1"] i10 x1
      by simp_all
    have last_day: "month_day x = month_len (y + (i + 2) div 12) ((i + 2) mod 12 + 1)"
      unfolding len mi(2) using month_start_Suc [OF i10] i i10 x1 by simp
    have "civil y (x + 1) = (1, (i + 1 + 2) mod 12 + 1, y + (i + 1 + 2) div 12)"
      by (simp only: civil_def n)
    moreover have "next_date (civil y x) = (if (i + 2) mod 12 + 1 < 12
        then (1, (i + 2) mod 12 + 1 + 1, y + (i + 2) div 12) else (1, 1, y + (i + 2) div 12 + 1))"
      by (simp only: civil_def next_date.simps mi(1) last_day less_irrefl if_False)
    moreover note march_cases_10 [OF i10]
    ultimately show ?thesis by auto
  qed
qed

lemma year_end_days:
  "month_index 364 = 11" "month_index 365 = 11" "month_index 0 = 0"
  "month_day 364 = 28" "month_day 365 = 29" "month_day 0 = 1"
  by (simp_all add: month_index_def month_day_def)

lemma civil_year_end:
  assumes "x = 364 \<and> \<not> leap (y + 1) \<or> x = 365 \<and> leap (y + 1)"
  shows "civil (y + 1) 0 = next_date (civil y x)"
proof -
  have "month_day x = month_len (y + 1) 2" "month_index x = 11"
    using assms by (auto simp: year_end_days month_len_def)
  then have "civil y x = (month_len (y + 1) 2, 2, y + 1)" by (simp add: civil_def)
  then show ?thesis by (simp add: civil_def year_end_days numeral_2_eq_2)
qed

text \<open>The date of day number \<open>D\<close>, and the day after it.\<close>

definition civil_of_days :: "nat \<Rightarrow> date" where
  "civil_of_days D = civil (year_formula D) (D - year_days (year_formula D))"

lemma year_step:
  assumes "B \<le> (A :: nat)"
  shows "(y + 1) * 365 + (A + 1) - (B + 1) + (C + 1) = y * 365 + A - B + C + 365 + 1"
    and "(y + 1) * 365 + (A + 1) - (B + 1) + (C + 0) = y * 365 + A - B + C + 365 + 0"
    and "(y + 1) * 365 + (A + 1) - (B + 0) + (C + 0) = y * 365 + A - B + C + 365 + 1"
    and "(y + 1) * 365 + (A + 0) - (B + 0) + (C + 0) = y * 365 + A - B + C + 365 + 0"
  using assms by simp_all

lemma year_days_Suc: "year_days (y + 1) = year_days y + 365 + (if leap (y + 1) then 1 else 0)"
proof -
  have d4: "(y + 1) div 4 = y div 4 + (if 4 dvd y + 1 then 1 else 0)"
    and d100: "(y + 1) div 100 = y div 100 + (if 100 dvd y + 1 then 1 else 0)"
    and d400: "(y + 1) div 400 = y div 400 + (if 400 dvd y + 1 then 1 else 0)"
    by (simp_all only: Suc_eq_plus1 [symmetric] div_Suc dvd_eq_mod_eq_0) simp_all
  have dv: "400 dvd y + 1 \<Longrightarrow> 100 dvd y + 1" "100 dvd y + 1 \<Longrightarrow> 4 dvd y + 1"
    by (erule dvd_trans [rotated], simp)+
  have le: "y div 100 \<le> y div 4" by (rule div_le_mono2) simp_all
  consider "400 dvd y + 1" "100 dvd y + 1" "4 dvd y + 1"
    | "\<not> 400 dvd y + 1" "100 dvd y + 1" "4 dvd y + 1"
    | "\<not> 400 dvd y + 1" "\<not> 100 dvd y + 1" "4 dvd y + 1"
    | "\<not> 400 dvd y + 1" "\<not> 100 dvd y + 1" "\<not> 4 dvd y + 1"
    using dv by blast
  then show ?thesis
    unfolding year_days_def d4 d100 d400 leap_def
    by cases (simp_all only: if_True if_False simp_thms year_step [OF le])
qed

lemma civil_of_days_Suc: "civil_of_days (D + 1) = next_date (civil_of_days D)"
proof -
  define y where "y = year_formula D"
  define x where "x = D - year_days y"
  have D: "D = year_days y + x" using year_formula_le [of D] by (simp add: x_def y_def)
  have x: "x \<le> 365" "x = 365 \<Longrightarrow> leap (y + 1)"
    using day_of_year_le [of D] day_365_leap [of D] by (simp_all add: x_def y_def)
  have now: "civil_of_days D = civil y x" by (simp only: civil_of_days_def x_def y_def)
  show ?thesis
  proof (cases "x < 364 \<or> x = 364 \<and> leap (y + 1)")
    case True
    then have "year_formula (year_days y + (x + 1)) = y" by (intro year_formula_unique) auto
    then have "civil_of_days (year_days y + (x + 1)) = civil y (x + 1)"
      by (simp only: civil_of_days_def diff_add_inverse)
    with civil_within_year [OF True] show ?thesis
      by (simp only: now) (simp only: D add.assoc)
  next
    case False
    then have end': "x = 364 \<and> \<not> leap (y + 1) \<or> x = 365 \<and> leap (y + 1)"
      using x by (auto simp: not_less le_eq_less_or_eq)
    then have D1: "D + 1 = year_days (y + 1) + 0"
      unfolding D year_days_Suc by (elim disjE conjE) simp_all
    have "year_formula (year_days (y + 1) + 0) = y + 1" by (rule year_formula_unique) simp
    then have "civil_of_days (year_days (y + 1) + 0) = civil (y + 1) 0"
      by (simp only: civil_of_days_def diff_add_inverse)
    with civil_year_end [OF end'] show ?thesis by (simp only: now D1)
  qed
qed

section \<open>The formulas on 32-bit words\<close>

lemma unat_div_numeral [word_nat_simps]:
  "unat ((a :: u32) div numeral n) = unat a div unat (numeral n :: u32)"
  by (rule unat_div)

lemma unat_mod_numeral [word_nat_simps]:
  "unat ((a :: u32) mod numeral n) = unat a mod unat (numeral n :: u32)"
  by (rule unat_mod)

lemma unat_ucast_8: "unat (ucast (w :: u32) :: u8) = unat w mod 256"
  by (simp add: unsigned_ucast_eq take_bit_eq_mod)

lemma unat_ucast_8_16: "unat (ucast (ucast (w :: u32) :: u8) :: u16) = unat w mod 256"
proof -
  have "unat (ucast (v :: u8) :: u16) = unat v" for v :: u8
  proof -
    have "unat v < 2 ^ LENGTH(8)" by (rule unsigned_less)
    then show ?thesis by (simp add: unsigned_ucast_eq take_bit_nat_eq_self)
  qed
  then show ?thesis by (simp only: unat_ucast_8)
qed

lemma year_formula_word:
  assumes "unat (days :: u32) < 2 ^ 31"
  defines "x1 \<equiv> days - (days + 1) div 146097"
  defines "x2 \<equiv> x1 + x1 div 36524"
  defines "x3 \<equiv> x2 - (x2 + 1) div 1461"
  shows "unat (x3 div 365) = year_formula (unat days)"
proof -
  let ?D = "unat days"
  have "unat (days + 1) = ?D + 1" using assms(1) by (subst unat_add_small) simp_all
  then have "unat ((days + 1) div 146097) = (?D + 1) div 146097" by (simp add: word_nat_simps)
  moreover have "(?D + 1) div 146097 \<le> ?D" by simp
  ultimately have x1: "unat x1 = ?D - (?D + 1) div 146097"
    unfolding x1_def by (subst unat_sub_small) simp_all
  have "unat (x1 div 36524) = unat x1 div 36524" by (simp add: word_nat_simps)
  moreover have "unat x1 div 36524 < 2 ^ 31" "unat x1 < 2 ^ 31"
    using assms(1) x1 by simp_all
  ultimately have x2: "unat x2 = unat x1 + unat x1 div 36524"
    unfolding x2_def by (subst unat_add_small) simp_all
  have x2b: "unat x2 < 2 ^ 31 + 2 ^ 20"
    using \<open>unat x1 < 2 ^ 31\<close> unfolding x2 by simp
  then have "unat (x2 + 1) = unat x2 + 1" by (subst unat_add_small) simp_all
  then have "unat ((x2 + 1) div 1461) = (unat x2 + 1) div 1461" by (simp add: word_nat_simps)
  moreover have "(unat x2 + 1) div 1461 \<le> unat x2" by simp
  ultimately have x3: "unat x3 = unat x2 - (unat x2 + 1) div 1461"
    unfolding x3_def by (subst unat_sub_small) simp_all
  have "unat (x3 div 365) = unat x3 div 365" by (simp add: word_nat_simps)
  then show ?thesis by (simp only: x3 x2 x1 year_formula_def Let_def)
qed

lemma year_days_word:
  assumes "unat (y :: u32) < 2 ^ 23"
  shows "unat (y * 365 + y div 4 - y div 100 + y div 400) = year_days (unat y)"
proof -
  have m: "unat (y * 365) = unat y * 365" using assms by (subst unat_mult_small) simp_all
  have d: "unat (y div 4) = unat y div 4" "unat (y div 100) = unat y div 100"
    "unat (y div 400) = unat y div 400" by (simp_all add: word_nat_simps)
  have b: "unat y div 4 \<le> 2 ^ 23" "unat y div 400 \<le> 2 ^ 23" using assms by simp_all
  have a: "unat (y * 365 + y div 4) = unat y * 365 + unat y div 4"
    using assms b by (subst unat_add_small) (simp_all add: m d)
  have le: "unat y div 100 \<le> unat y * 365 + unat y div 4" by simp
  have s: "unat (y * 365 + y div 4 - y div 100) = unat y * 365 + unat y div 4 - unat y div 100"
    using le by (subst unat_sub_small) (simp_all add: a d)
  show ?thesis
    using assms b by (subst unat_add_small) (simp_all add: s d year_days_def)
qed

lemma day_of_year_word:
  assumes "unat (days :: u32) < 2 ^ 31" and "unat y = year_formula (unat days)"
  shows "unat (days - y * 365 - y div 4 + y div 100 - y div 400)
    = unat days - year_days (year_formula (unat days))"
proof -
  have le: "year_days (unat y) \<le> unat days" unfolding assms(2) by (rule year_formula_le)
  have "unat y * 365 \<le> year_days (unat y)"
    using div_le_mono2 [of 4 100 "unat y"] by (simp add: year_days_def)
  then have "unat y < 2 ^ 23" using assms(1) le by simp
  moreover have "days - y * 365 - y div 4 + y div 100 - y div 400
      = days - (y * 365 + y div 4 - y div 100 + y div 400)" by (simp add: algebra_simps)
  ultimately show ?thesis
    using le by (simp only: assms(2) [symmetric]) (subst unat_sub_small, simp_all add: year_days_word)
qed

lemma month_word:
  assumes "unat (x :: u32) \<le> 365"
  shows "unat (x div 153 * 5 + 10 * (x mod 153) div 305) = month_index (unat x)"
    and "unat (1 + x - ((x div 153 * 5 + 10 * (x mod 153) div 305) * 306 + 5) div 10) = month_day (unat x)"
    and "month_index (unat x) \<le> 11" and "month_day (unat x) \<le> 31"
proof -
  have d: "unat (x div 153) = unat x div 153" "unat (x mod 153) = unat x mod 153"
    by (simp_all add: word_nat_simps)
  have b: "unat x div 153 \<le> 2" "unat x mod 153 < 153" using assms by simp_all
  have m: "unat (10 * (x mod 153)) = 10 * (unat x mod 153)"
    using b by (subst unat_mult_small) (simp_all add: d)
  have e: "unat (10 * (x mod 153) div 305) = 10 * (unat x mod 153) div 305"
    by (simp add: word_nat_simps m)
  have f: "unat (x div 153 * 5) = unat x div 153 * 5"
    using b by (subst unat_mult_small) (simp_all add: d)
  have "10 * (unat x mod 153) div 305 \<le> 5" using b by simp
  then show i: "unat (x div 153 * 5 + 10 * (x mod 153) div 305) = month_index (unat x)"
    using b by (subst unat_add_small) (simp_all add: e f month_index_def)
  obtain j where j: "j \<le> 11" "month_start j \<le> unat x" "unat x < month_start (j + 1)"
    using assms by (rule month_exists)
  have mi: "month_index (unat x) = j" by (rule month_index_start [OF j])
  with j show "month_index (unat x) \<le> 11" by simp
  define m where "m = x div 153 * 5 + 10 * (x mod 153) div 305"
  have g: "unat (m * 306) = j * 306"
    using j(1) by (subst unat_mult_small) (simp_all add: i [folded m_def] mi)
  have h: "unat (m * 306 + 5) = j * 306 + 5"
    using j(1) by (subst unat_add_small) (simp_all add: g)
  have k: "unat ((m * 306 + 5) div 10) = month_start j"
    unfolding unat_div h by (simp add: month_start_def)
  have l: "unat (1 + x) = 1 + unat x"
    using assms by (subst unat_add_small) simp_all
  show "unat (1 + x - ((x div 153 * 5 + 10 * (x mod 153) div 305) * 306 + 5) div 10) = month_day (unat x)"
    unfolding m_def [symmetric]
    using j by (subst unat_sub_small) (simp_all add: k l month_day_start [OF j])
  show "month_day (unat x) \<le> 31"
    using j march_cases [OF j(1)] by (auto simp: month_day_start [OF j] month_start_def)
qed

lemma DaysToDMY_civil:
  assumes "unat days < 2 ^ 31"
  shows "date_of (DaysToDMY days gd) = civil_of_days (unat days)"
proof -
  define y0 where "y0 = (let x = days - (days + 1) div 146097; x = x + x div 36524
    in (x - (x + 1) div 1461) div 365)"
  define x where "x = days - y0 * 365 - y0 div 4 + y0 div 100 - y0 div 400"
  define m where "m = x div 153 * 5 + 10 * (x mod 153) div 305"
  have y0: "unat y0 = year_formula (unat days)"
    unfolding y0_def Let_def by (rule year_formula_word [OF assms])
  have ux: "unat x = unat days - year_days (year_formula (unat days))"
    unfolding x_def by (rule day_of_year_word [OF assms y0])
  have x: "unat x \<le> 365" unfolding ux by (rule day_of_year_le)
  have um: "unat m = month_index (unat x)" "unat (1 + x - (m * 306 + 5) div 10) = month_day (unat x)"
    unfolding m_def by (rule month_word [OF x])+
  note mb = month_word(3,4) [OF x]
  have u2: "unat (m + 2) = month_index (unat x) + 2"
    using mb by (subst unat_add_small) (simp_all add: um)
  have u3: "unat ((m + 2) mod 12 + 1) = (month_index (unat x) + 2) mod 12 + 1"
    by (subst unat_add_small) (simp_all add: word_nat_simps u2)
  have u4: "unat ((m + 2) div 12) = (month_index (unat x) + 2) div 12"
    by (simp add: word_nat_simps u2)
  have "unat days div 365 < 2 ^ 31" using assms by simp
  moreover have "year_days (unat y0) \<le> unat days" unfolding y0 by (rule year_formula_le)
  then have "unat y0 * 365 \<le> unat days"
    using div_le_mono2 [of 4 100 "unat y0"] by (simp add: year_days_def)
  then have "unat y0 < 2 ^ 31" using assms by simp
  ultimately have u5: "unat (y0 + (m + 2) div 12) = unat y0 + (month_index (unat x) + 2) div 12"
    using mb by (subst unat_add_small) (simp_all add: u4)
  have r: "DaysToDMY days gd = gd\<lparr>gd_Day := ucast (1 + x - (m * 306 + 5) div 10),
      gd_Month := ucast (ucast ((m + 2) mod 12 + 1) :: u8), gd_Year := y0 + (m + 2) div 12\<rparr>"
    by (simp only: DaysToDMY_def y0_def x_def m_def Let_def)
  have "(month_index (unat x) + 2) mod 12 < 12" by simp
  then show ?thesis
    using mb by (simp add: r date_of_def civil_of_days_def civil_def unat_ucast_8 unat_ucast_8_16 um u3 u5 y0 ux [symmetric])
qed

lemma unat_ucast_16: "unat (ucast (w :: u16) :: u32) = unat w"
proof -
  have "unat w < 2 ^ LENGTH(16)" by (rule unsigned_less)
  then show ?thesis by (simp add: unsigned_ucast_eq take_bit_nat_eq_self)
qed

lemma unat_ucast_8_32: "unat (ucast (w :: u8) :: u32) = unat w"
proof -
  have "unat w < 2 ^ LENGTH(8)" by (rule unsigned_less)
  then show ?thesis by (simp add: unsigned_ucast_eq take_bit_nat_eq_self)
qed

section \<open>From a date to its day number\<close>

definition days_of_date :: "date \<Rightarrow> nat" where
  "days_of_date = (\<lambda>(d, m, y). year_days (y - 1 + (m + 9) div 12) + ((m + 9) mod 12 * 306 + 5) div 10 + d - 1)"

lemma year_days_mono_bound: "year_days y \<le> y * 366"
proof -
  have "y div 400 \<le> y div 100" by (rule div_le_mono2) simp_all
  moreover have "y div 4 \<le> y" by simp
  ultimately show ?thesis unfolding year_days_def by linarith
qed

lemma year_days_lower: "y * 365 \<le> year_days y"
  using div_le_mono2 [of 4 100 y] by (simp add: year_days_def)

lemma DMYToDays_nat:
  assumes "1 \<le> unat y" and "unat y < 2 ^ 22" and "unat m < 2 ^ 16" and "unat d < 2 ^ 8"
  shows "unat (DMYToDays d m y) = days_of_date (unat d, unat m, unat y)"
    and "days_of_date (unat d, unat m, unat y) < 2 ^ 31"
proof -
  define Y where "Y = y - 1 + (m + 9) div 12"
  have m9: "unat (m + 9) = unat m + 9" using assms(3) by (subst unat_add_small) simp_all
  have md: "unat ((m + 9) div 12) = (unat m + 9) div 12" "unat ((m + 9) mod 12) = (unat m + 9) mod 12"
    by (simp_all add: word_nat_simps m9)
  have mb: "(unat m + 9) div 12 \<le> 5463" using assms(3) by simp
  have y1: "unat (y - 1) = unat y - 1" using assms(1) by (subst unat_sub_small) simp_all
  have Y: "unat Y = unat y - 1 + (unat m + 9) div 12"
    unfolding Y_def using assms(1,2) mb by (subst unat_add_small) (simp_all add: y1 md)
  then have Yb: "unat Y < 2 ^ 22 + 5463" using assms(1,2) mb by simp
  have yd: "unat (Y * 365 + Y div 4 - Y div 100 + Y div 400) = year_days (unat Y)"
    using Yb by (intro year_days_word) simp
  have ydb: "year_days (unat Y) < 1600000000"
    using year_days_mono_bound [of "unat Y"] Yb by simp
  have "unat ((m + 9) mod 12 * 306) = (unat m + 9) mod 12 * 306"
    by (subst unat_mult_small) (simp_all add: md)
  then have "unat ((m + 9) mod 12 * 306 + 5) = (unat m + 9) mod 12 * 306 + 5"
    by (subst unat_add_small) simp_all
  then have mo: "unat (((m + 9) mod 12 * 306 + 5) div 10) = ((unat m + 9) mod 12 * 306 + 5) div 10"
    by (simp add: word_nat_simps)
  have mob: "((unat m + 9) mod 12 * 306 + 5) div 10 < 400" by simp
  have a1: "unat (Y * 365 + Y div 4 - Y div 100 + Y div 400 + ((m + 9) mod 12 * 306 + 5) div 10)
      = year_days (unat Y) + ((unat m + 9) mod 12 * 306 + 5) div 10"
    using ydb mob by (subst unat_add_small) (simp_all only: yd mo, simp)
  have a2: "unat (Y * 365 + Y div 4 - Y div 100 + Y div 400 + ((m + 9) mod 12 * 306 + 5) div 10 + d)
      = year_days (unat Y) + ((unat m + 9) mod 12 * 306 + 5) div 10 + unat d"
    using ydb mob assms(4) by (subst unat_add_small) (simp_all only: a1, simp)
  have "0 < year_days (unat Y) + ((unat m + 9) mod 12 * 306 + 5) div 10 + unat d"
  proof (cases "unat Y = 0")
    case True
    then have "unat m + 9 < 12" using Y by (auto simp: div_eq_0_iff)
    then show ?thesis by (simp add: div_greater_zero_iff)
  next
    case False
    then show ?thesis using year_days_lower [of "unat Y"] by simp
  qed
  then have a3: "unat (Y * 365 + Y div 4 - Y div 100 + Y div 400 + ((m + 9) mod 12 * 306 + 5) div 10 + d - 1)
      = year_days (unat Y) + ((unat m + 9) mod 12 * 306 + 5) div 10 + unat d - 1"
    by (subst unat_sub_small) (simp_all only: a2 unsigned_1 less_eq_Suc_le One_nat_def)
  show "unat (DMYToDays d m y) = days_of_date (unat d, unat m, unat y)"
    using a3 by (simp only: DMYToDays_def Y_def [symmetric] days_of_date_def prod.case Y)
  show "days_of_date (unat d, unat m, unat y) < 2 ^ 31"
    unfolding days_of_date_def prod.case Y [symmetric]
    using ydb mob assms(4) by (intro less_imp_diff_less) simp
qed

section \<open>Days and dates determine each other\<close>

lemma month_start_inverse: "(i :: nat) \<le> 11 \<Longrightarrow> ((i + 2) mod 12 + 1 + 9) mod 12 = i"
  by (drule march_cases) auto

lemma month_year_inverse: "(i :: nat) \<le> 11 \<Longrightarrow> ((i + 2) mod 12 + 1 + 9) div 12 + (i + 2) div 12 = 1"
  by (drule march_cases) auto

lemma civil_of_days_cases:
  obtains y x i where "D = year_days y + x" "x \<le> 365" "x = 365 \<Longrightarrow> leap (y + 1)"
    "civil_of_days D = (1 + x - month_start i, (i + 2) mod 12 + 1, y + (i + 2) div 12)"
    "i \<le> 11" "month_start i \<le> x" "x < month_start (i + 1)" "y = year_formula D"
proof -
  define y where "y = year_formula D"
  define x where "x = D - year_days y"
  have x: "x \<le> 365" "x = 365 \<Longrightarrow> leap (y + 1)"
    using day_of_year_le [of D] day_365_leap [of D] by (simp_all add: x_def y_def)
  have D: "D = year_days y + x" using year_formula_le [of D] by (simp add: x_def y_def)
  obtain i where i: "i \<le> 11" "month_start i \<le> x" "x < month_start (i + 1)"
    using x(1) by (rule month_exists)
  have "civil_of_days D = civil y x" by (simp only: civil_of_days_def x_def y_def)
  then have "civil_of_days D = (1 + x - month_start i, (i + 2) mod 12 + 1, y + (i + 2) div 12)"
    by (simp only: civil_def month_index_start [OF i] month_day_start [OF i])
  with that D x i y_def show ?thesis by blast
qed

lemma days_of_civil:
  assumes "366 \<le> D"
  shows "days_of_date (civil_of_days D) = D"
proof -
  obtain y x i where c: "D = year_days y + x" "x \<le> 365"
    "civil_of_days D = (1 + x - month_start i, (i + 2) mod 12 + 1, y + (i + 2) div 12)"
    "i \<le> 11" "month_start i \<le> x"
    by (rule civil_of_days_cases [of D]) blast
  have "y \<noteq> 0" using c(1,2) assms by (intro notI) (simp add: year_days_def)
  then have "y + (i + 2) div 12 - 1 + ((i + 2) mod 12 + 1 + 9) div 12 = y"
    using month_year_inverse [OF c(4)] by linarith
  then show ?thesis
    using c(5) by (simp only: c(3) days_of_date_def prod.case month_start_inverse [OF c(4)]
        month_start_def [symmetric]) (simp add: c(1))
qed

lemma valid_civil_of_days: "valid_date (civil_of_days D)"
proof -
  obtain y x i where c: "x \<le> 365" "x = 365 \<Longrightarrow> leap (y + 1)"
    "civil_of_days D = (1 + x - month_start i, (i + 2) mod 12 + 1, y + (i + 2) div 12)"
    "i \<le> 11" "month_start i \<le> x" "x < month_start (i + 1)"
    by (rule civil_of_days_cases [of D]) blast
  have len: "month_len (y + (i + 2) div 12) ((i + 2) mod 12 + 1)
      = (if i = 11 \<and> leap (y + 1) then 29 else month_len_from_march i)"
    by (rule civil_month_len [OF c(4)])
  have "1 + x - month_start i \<le> month_len (y + (i + 2) div 12) ((i + 2) mod 12 + 1)"
  proof (cases "i = 11")
    case True
    then show ?thesis
      unfolding len using c(1,2) by (cases "x = 365") (auto simp: month_start_def month_len_from_march_def)
  next
    case False
    then show ?thesis unfolding len using c(4,5,6) month_start_Suc [of i] by simp
  qed
  moreover have "1 \<le> (i + 2) mod 12 + 1" "(i + 2) mod 12 + 1 \<le> 12" by (simp_all add: Suc_leI)
  moreover have "1 \<le> 1 + x - month_start i" using c(5) by linarith
  ultimately show ?thesis by (simp only: c(3) valid_date.simps simp_thms)
qed

lemma month_table:
  "m \<in> set [1, 2, 3, 4, 5, 6, 7, 8, 9, 10, 11, 12 :: nat] \<Longrightarrow> 1 \<le> d \<Longrightarrow> d \<le> month_len y m \<Longrightarrow>
   (m + 9) mod 12 \<le> 11 \<and> ((m + 9) mod 12 + 2) mod 12 + 1 = m \<and>
   ((m + 9) mod 12 + 2) div 12 + (m + 9) div 12 = 1 \<and>
   month_start ((m + 9) mod 12) + d - 1 < month_start ((m + 9) mod 12 + 1) \<and>
   (month_start ((m + 9) mod 12) + d - 1 \<le> 364 \<or>
     month_start ((m + 9) mod 12) + d - 1 = 365 \<and> leap (y - 1 + (m + 9) div 12 + 1) \<or> y = 0)"
  by (auto simp: month_start_def month_len_def split: if_splits)

lemma civil_of_days_of_date:
  assumes "valid_date (d, m, y)" and "1 \<le> y"
  shows "civil_of_days (days_of_date (d, m, y)) = (d, m, y)"
proof -
  let ?i = "(m + 9) mod 12" and ?Y = "y - 1 + (m + 9) div 12"
  define x where "x = month_start ?i + d - 1"
  have v: "1 \<le> m" "m \<le> 12" "1 \<le> d" "d \<le> month_len y m" using assms(1) by simp_all
  have "m \<in> set [1, 2, 3, 4, 5, 6, 7, 8, 9, 10, 11, 12 :: nat]" using v(1,2) by simp arith
  from month_table [OF this v(3,4)]
  have t: "?i \<le> 11" "(?i + 2) mod 12 + 1 = m" "(?i + 2) div 12 + (m + 9) div 12 = 1"
    "x < month_start (?i + 1)" "x \<le> 364 \<or> x = 365 \<and> leap (?Y + 1)"
    using assms(2) by (auto simp: x_def)
  have ge: "month_start ?i \<le> x" using v(3) by (simp add: x_def)
  have days: "days_of_date (d, m, y) = year_days ?Y + x"
    unfolding days_of_date_def prod.case x_def month_start_def using v(3) by linarith
  have yf: "year_formula (year_days ?Y + x) = ?Y" by (rule year_formula_unique [OF t(5)])
  have "civil_of_days (year_days ?Y + x) = civil ?Y x"
    by (simp only: civil_of_days_def yf diff_add_inverse)
  also have "\<dots> = (1 + x - month_start ?i, (?i + 2) mod 12 + 1, ?Y + (?i + 2) div 12)"
    by (simp only: civil_def month_index_start [OF t(1) ge t(4)] month_day_start [OF t(1) ge t(4)])
  also have "\<dots> = (d, m, y)"
    using t(2,3) v(3) assms(2) by (simp add: x_def)
  finally show ?thesis by (simp only: days)
qed

section \<open>What the conversions return\<close>

lemma epoch_days: "DMYToDays 1 1 1993 = 727869"
  by (simp add: DMYToDays_def)

lemma epoch_civil: "civil_of_days 727869 = (1, 1, 1993)"
  using civil_of_days_of_date [of 1 1 1993]
  by (simp add: days_of_date_def month_len_def year_days_def)

lemma civil_of_days_add: "civil_of_days (D + n) = (next_date ^^ n) (civil_of_days D)"
proof (induction n)
  case (Suc n)
  have "civil_of_days (D + n + 1) = next_date (civil_of_days (D + n))" by (rule civil_of_days_Suc)
  then show ?case by (simp add: Suc)
qed simp

lemma date_parts:
  "date_of gd = (d, m, y) \<longleftrightarrow> unat (gd_Day gd) = d \<and> unat (gd_Month gd) = m \<and> unat (gd_Year gd) = y"
  by (simp add: date_of_def)

lemma ValidateDate_bad:
  "DATE_ERR_BADPARAM = 0xd5417017 \<and> sint DATE_ERR_BADPARAM < 0"
  by (simp add: DATE_ERR_BADPARAM_def MakeErr_def)

definition time_ok :: "GregorianDate \<Rightarrow> bool" where
  "time_ok gd \<longleftrightarrow> gd_Hour gd < 24 \<and> gd_Minute gd < 60 \<and> gd_Second gd < 60"

text \<open>Dates from 1993 on come at or after the epoch.\<close>

lemma year_days_mono: "y \<le> z \<Longrightarrow> year_days y \<le> year_days z"
proof (induction z)
  case (Suc z)
  then show ?case using year_days_Suc [of z] by (cases "y = Suc z") auto
qed simp

lemma days_since_epoch:
  assumes "valid_date (d, m, y)" and "1993 \<le> y"
  shows "year_days 1992 + 306 \<le> days_of_date (d, m, y)"
proof (cases "m \<le> 2")
  case True
  then have m: "m = 1 \<or> m = 2" using assms(1) by auto
  have "year_days 1992 \<le> year_days (y - 1)" using assms(2) by (intro year_days_mono) simp
  then show ?thesis using m assms(1) by (auto simp: days_of_date_def)
next
  case False
  then have "1 \<le> (m + 9) div 12" by simp
  then have "year_days 1993 \<le> year_days (y - 1 + (m + 9) div 12)"
    using assms(2) by (intro year_days_mono) linarith
  moreover have "year_days 1993 = year_days 1992 + 365" by (simp add: year_days_def)
  ultimately show ?thesis using assms(1) unfolding days_of_date_def prod.case by simp
qed

lemma ValidateDate_cases:
  assumes year: "unat (gd_Year gd) < 2 ^ 22"
  shows "time_ok gd \<and> valid_date (date_of gd) \<and> 1993 \<le> gd_Year gd \<Longrightarrow>
      unat (ValidateDate gd) = days_of_date (date_of gd) - 727869 \<and>
      727869 \<le> days_of_date (date_of gd) \<and> days_of_date (date_of gd) < 2 ^ 31"
    and "\<not> (time_ok gd \<and> valid_date (date_of gd) \<and> 1993 \<le> gd_Year gd) \<Longrightarrow>
      ValidateDate gd = DATE_ERR_BADPARAM"
proof -
  let ?days = "DMYToDays (ucast (gd_Day gd)) (ucast (gd_Month gd)) (gd_Year gd)"
  have mb: "unat (gd_Month gd) < 2 ^ LENGTH(16)" and db: "unat (gd_Day gd) < 2 ^ LENGTH(8)"
    by (rule unsigned_less)+
  have days: "unat ?days = days_of_date (date_of gd)" "days_of_date (date_of gd) < 2 ^ 31"
    if "1993 \<le> gd_Year gd"
    using DMYToDays_nat [of "gd_Year gd" "ucast (gd_Month gd)" "ucast (gd_Day gd)"] that year mb db
    by (simp_all add: unat_ucast_16 unat_ucast_8_32 word_le_nat_alt date_of_def)
  have rt: "date_of (DaysToDMY ?days gd) = civil_of_days (days_of_date (date_of gd))"
    if "1993 \<le> gd_Year gd"
    using DaysToDMY_civil [of "?days" gd] days [OF that] by simp
  have same: "gd_Day gd = gd_Day t \<and> gd_Month gd = gd_Month t \<and> gd_Year gd = gd_Year t
      \<longleftrightarrow> date_of t = date_of gd" for t
    by (auto simp: date_of_def word_unat_eq_iff)
  {
    assume ok: "time_ok gd \<and> valid_date (date_of gd) \<and> 1993 \<le> gd_Year gd"
    then have y: "1993 \<le> gd_Year gd" by blast
    have "1993 \<le> unat (gd_Year gd)" using y by (simp add: word_le_nat_alt)
    obtain d m yy where dmy: "date_of gd = (d, m, yy)" by (cases "date_of gd") blast
    have "valid_date (d, m, yy)" using ok by (simp only: dmy)
    then have yy: "1993 \<le> yy" "1 \<le> d"
      using y dmy by (auto simp: date_parts word_le_nat_alt)
    have civ: "civil_of_days (days_of_date (date_of gd)) = date_of gd"
      using ok yy by (simp only: dmy) (rule civil_of_days_of_date, simp_all)
    have ge: "727869 \<le> days_of_date (date_of gd)"
    proof -
      have "year_days 1992 + 306 \<le> days_of_date (d, m, yy)"
        using days_since_epoch ok dmy yy by simp
      then show ?thesis by (simp add: dmy year_days_def)
    qed
    have "\<not> 32 \<le> gd_Day gd"
    proof -
      have "d \<le> 31" using ok dmy by (auto simp: month_len_def split: if_splits)
      then show ?thesis using dmy by (simp add: date_parts word_le_nat_alt)
    qed
    moreover have "\<not> 24 \<le> gd_Hour gd" "\<not> 60 \<le> gd_Minute gd" "\<not> 60 \<le> gd_Second gd"
      "\<not> gd_Year gd < 1993"
      using ok by (simp_all add: time_ok_def not_le not_less)
    ultimately have "ValidateDate gd = ?days - 727869"
      using rt [OF y] civ same [of "DaysToDMY ?days gd"]
      by (simp add: ValidateDate_def epoch_days Let_def del: not_le not_less linorder_not_le linorder_not_less)
    then show "unat (ValidateDate gd) = days_of_date (date_of gd) - 727869 \<and>
      727869 \<le> days_of_date (date_of gd) \<and> days_of_date (date_of gd) < 2 ^ 31"
      using days [OF y] ge by (simp add: unat_sub_small)
  }
  {
    assume bad: "\<not> (time_ok gd \<and> valid_date (date_of gd) \<and> 1993 \<le> gd_Year gd)"
    show "ValidateDate gd = DATE_ERR_BADPARAM"
    proof (cases "time_ok gd \<and> 1993 \<le> gd_Year gd")
      case True
      then have "\<not> valid_date (date_of gd)" using bad by blast
      then have "date_of (DaysToDMY ?days gd) \<noteq> date_of gd"
        using rt True valid_civil_of_days by metis
      then show ?thesis
        using same [of "DaysToDMY ?days gd"] by (auto simp: ValidateDate_def Let_def)
    next
      case False
      then show ?thesis by (auto simp: ValidateDate_def time_ok_def not_le not_less)
    qed
  }
qed

text \<open>The seconds since the epoch a date and time of day stand for.\<close>

definition seconds_of :: "GregorianDate \<Rightarrow> nat" where
  "seconds_of gd = (days_of_date (date_of gd) - 727869) * 86400 + unat (gd_Hour gd) * 3600
     + unat (gd_Minute gd) * 60 + unat (gd_Second gd)"

lemma ConvertGregorianToTimeVal_cases:
  assumes "unat (gd_Year gd) < 2 ^ 22"
  shows "ConvertGregorianToTimeVal gd tv =
    (if time_ok gd \<and> valid_date (date_of gd) \<and> 1993 \<le> gd_Year gd
     then (0, \<lparr>tv_Seconds = word_of_nat (seconds_of gd), tv_Microseconds = 0\<rparr>)
     else (DATE_ERR_BADPARAM, tv))"
proof (cases "time_ok gd \<and> valid_date (date_of gd) \<and> 1993 \<le> gd_Year gd")
  case True
  have V: "unat (ValidateDate gd) = days_of_date (date_of gd) - 727869"
    "days_of_date (date_of gd) < 2 ^ 31"
    using ValidateDate_cases(1) [OF assms True] by simp_all
  then have "sint (ValidateDate gd) = int (days_of_date (date_of gd) - 727869)"
    by (subst sint_small) simp_all
  moreover have "ValidateDate gd = word_of_nat (days_of_date (date_of gd) - 727869)"
    by (simp flip: V(1))
  moreover have "(ucast (w :: u8) :: u32) = word_of_nat (unat w)" for w
    by (simp add: word_unat_eq_iff unat_ucast_8_32 unat_of_nat take_bit_nat_eq_self_iff)
  ultimately have "ConvertGregorianToTimeVal gd tv =
      (0, \<lparr>tv_Seconds = word_of_nat (days_of_date (date_of gd) - 727869) * 24 * 60 * 60
        + word_of_nat (unat (gd_Hour gd)) * 60 * 60 + word_of_nat (unat (gd_Minute gd)) * 60
        + word_of_nat (unat (gd_Second gd)), tv_Microseconds = 0\<rparr>)"
    by (simp add: ConvertGregorianToTimeVal_def Let_def)
  then show ?thesis
    using True by (simp add: seconds_of_def of_nat_add of_nat_mult mult.assoc del: of_nat_diff)
next
  case False
  then have "ValidateDate gd = DATE_ERR_BADPARAM" by (rule ValidateDate_cases(2) [OF assms])
  with False show ?thesis
    by (simp add: ConvertGregorianToTimeVal_def ValidateDate_bad del: de_Morgan_conj)
qed

lemma s_div_nat:
  assumes "unat w < 2 ^ 31" and "0 < b"
  shows "s_div w (int b) = word_of_nat (unat w div b)" and "s_mod w (int b) = word_of_nat (unat w mod b)"
proof -
  have s: "sint w = int (unat w)" by (rule sint_small [OF assms(1)])
  have b: "sgn (int b) = 1" using assms(2) by simp
  have "sgn (int n) * int (n div m) = int (n div m)" "sgn (int n) * int (n mod m) = int (n mod m)" for n m
    by (cases "n = 0", simp_all)+
  then show "s_div w (int b) = word_of_nat (unat w div b)" "s_mod w (int b) = word_of_nat (unat w mod b)"
    by (simp_all only: s_div_def s_mod_def s b abs_of_nat mult.right_neutral
        zdiv_int [symmetric] zmod_int [symmetric] of_int_of_nat_eq)
qed

text \<open>For a time value that is not negative, the four conversions give the calendar date of
  the day and the time of day.\<close>

lemma ConvertTimeValToGregorian_fields:
  assumes "0 \<le> sint (tv_Seconds tv)"
  shows "date_of (ConvertTimeValToGregorian tv gd) = civil_of_days (727869 + unat (tv_Seconds tv) div 86400)"
    and "unat (gd_Hour (ConvertTimeValToGregorian tv gd)) = unat (tv_Seconds tv) mod 86400 div 3600"
    and "unat (gd_Minute (ConvertTimeValToGregorian tv gd)) = unat (tv_Seconds tv) mod 86400 div 60 mod 60"
    and "unat (gd_Second (ConvertTimeValToGregorian tv gd)) = unat (tv_Seconds tv) mod 86400 mod 60"
proof -
  define n where "n = unat (tv_Seconds tv)"
  have n: "n < 2 ^ 31" unfolding n_def by (rule nonneg_small [OF assms])
  have days: "s_div (tv_Seconds tv) 86400 = word_of_nat (n div 86400)"
    and secs: "s_mod (tv_Seconds tv) 86400 = word_of_nat (n mod 86400)"
    using s_div_nat [of "tv_Seconds tv" 86400] n by (simp_all add: n_def)
  have "unat (word_of_nat (n div 86400) + 727869 :: u32) = 727869 + n div 86400"
    using n by (simp add: unat_word_ariths unat_of_nat)
  then have "date_of (DaysToDMY (s_div (tv_Seconds tv) 86400 + 727869) gd) = civil_of_days (727869 + n div 86400)"
    using DaysToDMY_civil [of "s_div (tv_Seconds tv) 86400 + 727869" gd] n by (simp add: days)
  then show "date_of (ConvertTimeValToGregorian tv gd) = civil_of_days (727869 + unat (tv_Seconds tv) div 86400)"
    by (simp add: ConvertTimeValToGregorian_def Let_def epoch_days date_of_def n_def)
  have s: "unat (word_of_nat (n mod 86400) :: u32) = n mod 86400" by (simp add: unat_of_nat)
  have c: "unat (ucast w :: u8) = unat w" if "unat w < 256" for w :: u32
    using that by (simp add: unsigned_ucast_eq unsigned_take_bit_eq take_bit_nat_eq_self_iff)
  have "n mod 86400 div 3600 < 256" by (simp add: div_less_iff_less_mult)
  then show "unat (gd_Hour (ConvertTimeValToGregorian tv gd)) = unat (tv_Seconds tv) mod 86400 div 3600"
    by (simp add: ConvertTimeValToGregorian_def Let_def secs c s unat_div flip: n_def)
  show "unat (gd_Minute (ConvertTimeValToGregorian tv gd)) = unat (tv_Seconds tv) mod 86400 div 60 mod 60"
    by (simp add: ConvertTimeValToGregorian_def Let_def secs c s unat_div unat_mod flip: n_def)
  show "unat (gd_Second (ConvertTimeValToGregorian tv gd)) = unat (tv_Seconds tv) mod 86400 mod 60"
    by (simp add: ConvertTimeValToGregorian_def Let_def secs c s unat_mod flip: n_def)
qed

lemma next_date_year: "snd (snd t) \<le> snd (snd (next_date t))" "snd (snd (next_date t)) \<le> Suc (snd (snd t))"
  by (cases t, simp)+

lemma next_date_pow_year:
  "snd (snd t) \<le> snd (snd ((next_date ^^ n) t)) \<and> snd (snd ((next_date ^^ n) t)) \<le> n + snd (snd t)"
proof (induction n)
  case (Suc n)
  then show ?case using next_date_year [of "(next_date ^^ n) t"] by simp
qed simp

lemma civil_of_days_year_bounds:
  "1993 \<le> snd (snd (civil_of_days (727869 + n))) \<and> snd (snd (civil_of_days (727869 + n))) \<le> n + 1993"
  using next_date_pow_year [of "(1, 1, 1993)" n] by (simp add: civil_of_days_add epoch_civil)

lemma days_of_2062:
  assumes "valid_date (date_of gd)" and "gd_Year gd = 2062"
  shows "752754 \<le> days_of_date (date_of gd)" and "days_of_date (date_of gd) < 753500"
proof -
  obtain d m where dm: "date_of gd = (d, m, 2062)"
    using assms(2) by (auto simp: date_of_def)
  then have v: "1 \<le> m" "m \<le> 12" "1 \<le> d" "d \<le> 31"
    using assms(1) by (auto simp: month_len_def split: if_splits)
  have q: "((m + 9) mod 12 * 306 + 5) div 10 \<le> 340" by linarith
  have "year_days (2061 + (m + 9) div 12) \<in> {752765, 753130}"
  proof -
    have "(m + 9) div 12 = 0 \<or> (m + 9) div 12 = 1" using v by linarith
    then show ?thesis by (auto simp: year_days_def)
  qed
  moreover have "year_days (2061 + (m + 9) div 12) = 752765" if "m \<le> 2"
    using that by (simp add: year_days_def)
  moreover have "((m + 9) mod 12 * 306 + 5) div 10 \<le> 280" if "\<not> m \<le> 2"
  proof -
    have "(m + 9) mod 12 = m - 3" using that v by (simp add: mod_if)
    then show ?thesis using v by simp
  qed
  ultimately have "752765 \<le> days_of_date (d, m, 2062) \<and> days_of_date (d, m, 2062) < 753500"
    using v q unfolding days_of_date_def prod.case by (cases "m \<le> 2") (simp_all, auto)
  then show "752754 \<le> days_of_date (date_of gd)" "days_of_date (date_of gd) < 753500"
    by (simp_all add: dm)
qed

lemma sint_large:
  assumes "2 ^ 31 \<le> unat (w :: u32)"
  shows "sint w < 0"
  using nonneg_small [of w] assms by linarith

lemma hms: "(r :: nat) div 3600 * 3600 + r div 60 mod 60 * 60 + r mod 60 = r"
proof -
  have "r div 3600 = r div 60 div 60" by (simp add: div_mult2_eq [symmetric])
  moreover have "(r div 60) div 60 * 60 + r div 60 mod 60 = r div 60" by (rule div_mult_mod_eq)
  moreover have "r div 60 * 60 + r mod 60 = r" by (rule div_mult_mod_eq)
  ultimately show ?thesis by linarith
qed

section \<open>Properties\<close>

text \<open>C3: \<open>DaysToDMY\<close> follows the calendar. Counting from day 727869, which is
  1 January 1993, the date it computes for the \<open>n\<close>-th day is the date reached by
  stepping \<open>n\<close> times to the next day of a calendar that knows only the month lengths and
  the leap year rule, for every \<open>n\<close> below \<open>2 ^ 30\<close> (more than what a
  \<open>TimeVal\<close> can hold).\<close>

theorem DaysToDMY_counts_days:
  assumes "n < 2 ^ 30"
  shows "date_of (DaysToDMY (727869 + word_of_nat n) gd) = (next_date ^^ n) (1, 1, 1993)"
proof -
  have "unat (727869 + word_of_nat n :: u32) = 727869 + n"
    using assms by (simp add: unat_word_ariths unat_of_nat)
  then show ?thesis
    using DaysToDMY_civil [of "727869 + word_of_nat n" gd] assms
    by (simp add: civil_of_days_add epoch_civil)
qed

theorem DaysToDMY_counts_days_witness:
  "date_of (DaysToDMY (727869 + word_of_nat 59) \<lparr>gd_Year = 0, gd_Month = 0, gd_Day = 0, gd_Hour = 0,
     gd_Minute = 0, gd_Second = 0\<rparr>) = (next_date ^^ 59) (1, 1, 1993)"
  by (rule DaysToDMY_counts_days) simp

text \<open>The two directions of the folio are inverse. For every time value that is not
  negative, converting it to a Gregorian date and back succeeds and returns the same number of
  seconds, with the microseconds dropped.\<close>

theorem TimeVal_roundtrip:
  assumes "0 \<le> sint (tv_Seconds tv)"
  shows "ConvertGregorianToTimeVal (ConvertTimeValToGregorian tv gd) tv'
    = (0, \<lparr>tv_Seconds = tv_Seconds tv, tv_Microseconds = 0\<rparr>)"
proof -
  define g where "g = ConvertTimeValToGregorian tv gd"
  define n where "n = unat (tv_Seconds tv)"
  have n: "n < 2 ^ 31" unfolding n_def by (rule nonneg_small [OF assms])
  note f = ConvertTimeValToGregorian_fields [OF assms, of gd, folded g_def n_def]
  have days: "days_of_date (date_of g) = 727869 + n div 86400" by (simp add: f(1) days_of_civil)
  have "time_ok g"
    using f(2-4) by (simp add: time_ok_def word_less_nat_alt div_less_iff_less_mult)
  moreover have valid: "valid_date (date_of g)" by (simp add: f(1) valid_civil_of_days)
  moreover have year: "1993 \<le> gd_Year g \<and> unat (gd_Year g) < 2 ^ 22"
  proof -
    have "unat (gd_Year g) = snd (snd (civil_of_days (727869 + n div 86400)))"
      by (simp add: date_of_def flip: f(1))
    moreover have "n div 86400 \<le> 2 ^ 21" using n by simp
    ultimately show ?thesis
      using civil_of_days_year_bounds [of "n div 86400"] by (simp add: word_le_nat_alt)
  qed
  moreover have "seconds_of g = n"
  proof -
    have "seconds_of g = n div 86400 * 86400 + (n mod 86400 div 3600 * 3600
        + n mod 86400 div 60 mod 60 * 60 + n mod 86400 mod 60)"
      by (simp only: seconds_of_def days f(2-4) add.assoc diff_add_inverse)
    also have "\<dots> = n" by (simp only: hms div_mult_mod_eq)
    finally show ?thesis .
  qed
  ultimately show ?thesis
    by (simp add: ConvertGregorianToTimeVal_cases flip: g_def) (simp add: n_def)
qed

theorem TimeVal_roundtrip_witness:
  "ConvertGregorianToTimeVal (ConvertTimeValToGregorian \<lparr>tv_Seconds = 100000000, tv_Microseconds = 5\<rparr>
     \<lparr>gd_Year = 0, gd_Month = 0, gd_Day = 0, gd_Hour = 0, gd_Minute = 0, gd_Second = 0\<rparr>)
     \<lparr>tv_Seconds = 1, tv_Microseconds = 1\<rparr>
   = (0, \<lparr>tv_Seconds = 100000000, tv_Microseconds = 0\<rparr>)"
  by (subst TimeVal_roundtrip) simp_all

text \<open>\<open>ValidateDate\<close> accepts a date (with a year below \<open>2 ^ 22\<close>) exactly
  when it is a date of the calendar in 1993 or later with a time of day of less than 24 hours, 60
  minutes and 60 seconds; it then returns the number of days since 1 January 1993, and
  otherwise the negative \<open>DATE_ERR_BADPARAM\<close>.\<close>

theorem ValidateDate_exact:
  assumes "unat (gd_Year gd) < 2 ^ 22"
  shows "(0 \<le> sint (ValidateDate gd) \<longleftrightarrow>
      gd_Hour gd < 24 \<and> gd_Minute gd < 60 \<and> gd_Second gd < 60
        \<and> valid_date (date_of gd) \<and> 1993 \<le> gd_Year gd)
    \<and> (0 \<le> sint (ValidateDate gd) \<longrightarrow>
        (next_date ^^ unat (ValidateDate gd)) (1, 1, 1993) = date_of gd)
    \<and> (\<not> 0 \<le> sint (ValidateDate gd) \<longrightarrow> ValidateDate gd = DATE_ERR_BADPARAM)"
proof (cases "time_ok gd \<and> valid_date (date_of gd) \<and> 1993 \<le> gd_Year gd")
  case True
  note V = ValidateDate_cases(1) [OF assms True]
  have "unat (ValidateDate gd) < 2 ^ 31" using V by linarith
  then have "0 \<le> sint (ValidateDate gd)" by (simp add: sint_small)
  moreover have "(next_date ^^ unat (ValidateDate gd)) (1, 1, 1993) = date_of gd"
  proof -
    have "civil_of_days (days_of_date (date_of gd)) = date_of gd"
      using True civil_of_days_of_date [of "unat (gd_Day gd)" "unat (gd_Month gd)" "unat (gd_Year gd)"]
      by (simp add: date_of_def word_le_nat_alt)
    then show ?thesis
      using civil_of_days_add [of 727869 "unat (ValidateDate gd)"] V by (simp add: epoch_civil)
  qed
  ultimately show ?thesis using True by (simp add: time_ok_def)
next
  case False
  then have "ValidateDate gd = DATE_ERR_BADPARAM" by (rule ValidateDate_cases(2) [OF assms])
  with False show ?thesis using ValidateDate_bad by (auto simp: time_ok_def)
qed

theorem ValidateDate_exact_witness:
  "0 \<le> sint (ValidateDate \<lparr>gd_Year = 1996, gd_Month = 2, gd_Day = 29, gd_Hour = 23,
     gd_Minute = 59, gd_Second = 59\<rparr>)"
  by (subst ValidateDate_exact [THEN conjunct1])
    (simp_all add: date_of_def month_len_def leap_def)

text \<open>C4: converting a date to a time value changes the caller's \<open>TimeVal\<close> only when
  the date is accepted; the seconds stored are then the number of seconds since the epoch modulo
  \<open>2 ^ 32\<close>, so that dates whose count does not fit the signed field (from 2061 on) are stored
  as negative times with a success code.\<close>

theorem ConvertGregorianToTimeVal_exact:
  assumes "unat (gd_Year gd) < 2 ^ 22"
  shows "ConvertGregorianToTimeVal gd tv =
      (if 0 \<le> sint (ValidateDate gd)
       then (0, \<lparr>tv_Seconds = word_of_nat (unat (ValidateDate gd) * 86400
               + unat (gd_Hour gd) * 3600 + unat (gd_Minute gd) * 60 + unat (gd_Second gd)),
             tv_Microseconds = 0\<rparr>)
       else (DATE_ERR_BADPARAM, tv))
    \<and> (gd_Year gd = 2062 \<and> 0 \<le> sint (ValidateDate gd)
        \<longrightarrow> sint (tv_Seconds (snd (ConvertGregorianToTimeVal gd tv))) < 0)"
proof (cases "time_ok gd \<and> valid_date (date_of gd) \<and> 1993 \<le> gd_Year gd")
  case True
  note V = ValidateDate_cases(1) [OF assms True]
  have "unat (ValidateDate gd) < 2 ^ 31" using V by linarith
  then have pos: "0 \<le> sint (ValidateDate gd)" by (simp add: sint_small)
  have t: "unat (gd_Hour gd) < 24" "unat (gd_Minute gd) < 60" "unat (gd_Second gd) < 60"
    using True by (simp_all add: time_ok_def word_less_nat_alt)
  have "sint (word_of_nat (seconds_of gd) :: u32) < 0" if y: "gd_Year gd = 2062"
  proof -
    have "752754 \<le> days_of_date (date_of gd)" "days_of_date (date_of gd) < 753500"
      using days_of_2062 [of gd] True y by simp_all
    then obtain k where "days_of_date (date_of gd) = 727869 + k" "24885 \<le> k" "k < 25631"
      by (intro that [of "days_of_date (date_of gd) - 727869"]) simp_all
    then have "2 ^ 31 \<le> seconds_of gd" "seconds_of gd < 2 ^ 32"
      using t unfolding seconds_of_def by simp_all
    then show ?thesis by (intro sint_large) (simp_all add: unat_of_nat)
  qed
  then show ?thesis
    using True pos V by (simp add: ConvertGregorianToTimeVal_cases [OF assms] seconds_of_def)
next
  case False
  then have "ValidateDate gd = DATE_ERR_BADPARAM" by (rule ValidateDate_cases(2) [OF assms])
  with False show ?thesis
    using ValidateDate_bad by (simp add: ConvertGregorianToTimeVal_cases [OF assms] del: de_Morgan_conj)
qed

theorem ConvertGregorianToTimeVal_exact_witness:
  "sint (tv_Seconds (snd (ConvertGregorianToTimeVal \<lparr>gd_Year = 2062, gd_Month = 1, gd_Day = 1,
     gd_Hour = 0, gd_Minute = 0, gd_Second = 0\<rparr> \<lparr>tv_Seconds = 0, tv_Microseconds = 0\<rparr>))) < 0"
  by (rule ConvertGregorianToTimeVal_exact [THEN conjunct2, rule_format])
    (simp_all add: ValidateDate_def DMYToDays_def DaysToDMY_def Let_def word_le_nat_alt)

end
