(* ===== verification/Lists.thy ===== *)
theory Lists
  imports Prelude "HOL-Library.Monad_Syntax"
begin

text \<open>
  The doubly linked lists of the kernel (\<open>folios/kernel/list.c\<close>, the macros of
  \<open>kernel/listmacros.h\<close> and \<open>kernel/list.h\<close>, and \<open>libs/c/lists\<close>).
  A \<open>List\<close> at address \<open>l\<close> has its anchor in the three words at \<open>l + 4\<close> (head),
  \<open>l + 8\<close> (filler, always null) and \<open>l + 12\<close> (tail): read as nodes, the head anchor is
  a node at \<open>l + 4\<close> and the tail anchor a node at \<open>l + 8\<close>, which overlap in the filler.
  Memory is explicit, since everything depends on which words alias. The operations
  are shown to refine the operations on lists of node addresses.
\<close>

type_synonym ptr = u32

text \<open>The words of memory, and the two fields of \<open>struct Node\<close> the list code reads.\<close>

record Mem =
  word_at :: "ptr \<Rightarrow> u32"
  n_Priority :: "ptr \<Rightarrow> u8"
  n_Name :: "ptr \<Rightarrow> string option"

definition n_Next :: "Mem \<Rightarrow> ptr \<Rightarrow> ptr" where
  "n_Next m n = word_at m n"

definition n_Prev :: "Mem \<Rightarrow> ptr \<Rightarrow> ptr" where
  "n_Prev m n = word_at m (n + 4)"

definition set_word :: "ptr \<Rightarrow> u32 \<Rightarrow> Mem \<Rightarrow> Mem" where
  "set_word a v m = m\<lparr>word_at := (word_at m)(a := v)\<rparr>"

definition set_Next :: "ptr \<Rightarrow> ptr \<Rightarrow> Mem \<Rightarrow> Mem" where
  "set_Next n v = set_word n v"

definition set_Prev :: "ptr \<Rightarrow> ptr \<Rightarrow> Mem \<Rightarrow> Mem" where
  "set_Prev n v = set_word (n + 4) v"

definition FirstNode :: "Mem \<Rightarrow> ptr \<Rightarrow> ptr" where
  "FirstNode m l = word_at m (l + 4)"

definition LastNode :: "Mem \<Rightarrow> ptr \<Rightarrow> ptr" where
  "LastNode m l = word_at m (l + 12)"

definition IsNode :: "ptr \<Rightarrow> ptr \<Rightarrow> bool" where
  "IsNode l n \<longleftrightarrow> n \<noteq> l + 8"

definition IsNodeB :: "ptr \<Rightarrow> ptr \<Rightarrow> bool" where
  "IsNodeB l n \<longleftrightarrow> n \<noteq> l + 4"

definition IsListEmpty :: "Mem \<Rightarrow> ptr \<Rightarrow> bool" where
  "IsListEmpty m l \<longleftrightarrow> \<not> IsNode l (FirstNode m l)"

section \<open>The operations\<close>

definition PrepList :: "ptr \<Rightarrow> Mem \<Rightarrow> Mem" where
  "PrepList l m =
     set_word (l + 12) (l + 4) (set_word (l + 8) 0 (set_word (l + 4) (l + 8) (set_word l 0 m)))"

definition ADDHEAD :: "ptr \<Rightarrow> ptr \<Rightarrow> Mem \<Rightarrow> Mem" where
  "ADDHEAD l n m =
     (let currenthead = FirstNode m l;
          m = set_Next n currenthead m;
          m = set_Prev n (l + 4) m;
          m = set_word (l + 4) n m
      in set_Prev currenthead n m)"

definition ADDTAIL :: "ptr \<Rightarrow> ptr \<Rightarrow> Mem \<Rightarrow> Mem" where
  "ADDTAIL l n m =
     (let currentlast = LastNode m l;
          m = set_word (l + 12) n m;
          m = set_Prev n currentlast m;
          m = set_Next n (l + 8) m
      in set_Next currentlast n m)"

definition AddHead :: "ptr \<Rightarrow> ptr \<Rightarrow> Mem \<Rightarrow> Mem" where
  "AddHead l n m = ADDHEAD l n m"

definition AddTail :: "ptr \<Rightarrow> ptr \<Rightarrow> Mem \<Rightarrow> Mem" where
  "AddTail l n m = ADDTAIL l n m"

definition RemHead :: "ptr \<Rightarrow> Mem \<Rightarrow> ptr \<times> Mem" where
  "RemHead l m =
     (let base = l + 4; head = n_Next m base in
      if n_Next m head \<noteq> 0 then
        let m = set_Next base (n_Next m head) m;
            m = set_Prev (n_Next m head) base m
        in (head, m)
      else (0, m))"

definition RemTail :: "ptr \<Rightarrow> Mem \<Rightarrow> ptr \<times> Mem" where
  "RemTail l m =
     (let base = l + 8; tail = n_Prev m base in
      if n_Prev m tail \<noteq> 0 then
        let m = set_Prev base (n_Prev m tail) m;
            m = set_Next (n_Prev m tail) base m
        in (tail, m)
      else (0, m))"

definition REMOVENODE :: "ptr \<Rightarrow> Mem \<Rightarrow> Mem" where
  "REMOVENODE n m =
     (let r1 = n_Next m n; r2 = n_Prev m n in set_Prev r1 r2 (set_Next r2 r1 m))"

definition RemNode :: "ptr \<Rightarrow> Mem \<Rightarrow> Mem" where
  "RemNode n m = REMOVENODE n m"

text \<open>The insertion before a node that the three sorted insertions and
  \<open>InsertNodeBefore\<close> share, and the one after a node.\<close>

definition link_before :: "ptr \<Rightarrow> ptr \<Rightarrow> Mem \<Rightarrow> Mem" where
  "link_before n new m =
     (let m = set_Next new n m;
          m = set_Prev new (n_Prev m n) m;
          m = set_Next (n_Prev m new) new m
      in set_Prev n new m)"

definition link_after :: "ptr \<Rightarrow> ptr \<Rightarrow> Mem \<Rightarrow> Mem" where
  "link_after n new m =
     (let m = set_Prev new n m;
          m = set_Next new (n_Next m n) m;
          m = set_Prev (n_Next m new) new m
      in set_Next n new m)"

definition InsertNodeBefore :: "ptr \<Rightarrow> ptr \<Rightarrow> Mem \<Rightarrow> Mem" where
  "InsertNodeBefore oldNode newNode m = link_before oldNode newNode m"

definition InsertNodeAfter :: "ptr \<Rightarrow> ptr \<Rightarrow> Mem \<Rightarrow> Mem" where
  "InsertNodeAfter oldNode newNode m = link_after oldNode newNode m"

text \<open>\<open>ScanList\<close> and \<open>ScanListB\<close> from a node on, up to the first node at which the
  body returns or breaks; the anchor when the loop ends. A loop over corrupt links need not
  end, and is then \<open>None\<close>.\<close>

partial_function (option) ScanList :: "Mem \<Rightarrow> ptr \<Rightarrow> (ptr \<Rightarrow> bool) \<Rightarrow> ptr \<Rightarrow> ptr option" where
  "ScanList m l stop n =
     (if IsNode l n then if stop n then Some n else ScanList m l stop (n_Next m n) else Some n)"

partial_function (option) ScanListB :: "Mem \<Rightarrow> ptr \<Rightarrow> (ptr \<Rightarrow> bool) \<Rightarrow> ptr \<Rightarrow> ptr option" where
  "ScanListB m l stop n =
     (if IsNodeB l n then if stop n then Some n else ScanListB m l stop (n_Prev m n) else Some n)"

definition InsertNodeFromHead :: "ptr \<Rightarrow> ptr \<Rightarrow> Mem \<Rightarrow> Mem option" where
  "InsertNodeFromHead l new m = do {
     n \<leftarrow> ScanList m l (\<lambda>n. n_Priority m new \<ge> n_Priority m n) (FirstNode m l);
     Some (if IsNode l n then link_before n new m else ADDTAIL l new m) }"

definition InsertNodeFromTail :: "ptr \<Rightarrow> ptr \<Rightarrow> Mem \<Rightarrow> Mem option" where
  "InsertNodeFromTail l new m = do {
     n \<leftarrow> ScanListB m l (\<lambda>n. n_Priority m n \<ge> n_Priority m new) (LastNode m l);
     Some (if IsNodeB l n then link_after n new m else ADDHEAD l new m) }"

definition UniversalInsertNode :: "ptr \<Rightarrow> ptr \<Rightarrow> (Mem \<Rightarrow> ptr \<Rightarrow> ptr \<Rightarrow> bool) \<Rightarrow> Mem \<Rightarrow> Mem option" where
  "UniversalInsertNode l new f m = do {
     n \<leftarrow> ScanList m l (\<lambda>n. f m new n) (FirstNode m l);
     Some (if IsNode l n then link_before n new m else ADDTAIL l new m) }"

text \<open>\<open>strcasecmp\<close> on strings without their terminator: the difference of the first
  upper-cased characters that differ.\<close>

definition toupper :: "char \<Rightarrow> int" where
  "toupper c = (let n = int (of_char c :: nat) in if 97 \<le> n \<and> n \<le> 122 then n - 32 else n)"

fun strcasecmp :: "string \<Rightarrow> string \<Rightarrow> int" where
  "strcasecmp [] [] = 0"
| "strcasecmp [] (d # ds) = - toupper d"
| "strcasecmp (c # cs) [] = toupper c"
| "strcasecmp (c # cs) (d # ds) =
     (if toupper c - toupper d \<noteq> 0 then toupper c - toupper d else strcasecmp cs ds)"

definition FindNamedNode :: "Mem \<Rightarrow> ptr \<Rightarrow> string option \<Rightarrow> ptr option" where
  "FindNamedNode m l s = (case s of None \<Rightarrow> Some 0 | Some s \<Rightarrow> do {
     n \<leftarrow> ScanList m l (\<lambda>n. case n_Name m n of None \<Rightarrow> False | Some name \<Rightarrow> strcasecmp s name = 0)
            (FirstNode m l);
     Some (if IsNode l n then n else 0) })"

text \<open>\<open>InsertNodeAlpha\<close> reads the name of every node it passes: a node without one is a
  crash, here \<open>None\<close>.\<close>

partial_function (option) alpha_scan :: "Mem \<Rightarrow> ptr \<Rightarrow> ptr \<Rightarrow> ptr \<Rightarrow> ptr option" where
  "alpha_scan m l n old =
     (if IsNode l old then do {
        a \<leftarrow> n_Name m old; b \<leftarrow> n_Name m n;
        if strcasecmp a b \<ge> 0 then Some old else alpha_scan m l n (n_Next m old) }
      else Some old)"

definition InsertNodeAlpha :: "ptr \<Rightarrow> ptr \<Rightarrow> Mem \<Rightarrow> Mem option" where
  "InsertNodeAlpha l n m = do {
     old \<leftarrow> alpha_scan m l n (FirstNode m l);
     Some (InsertNodeBefore old n m) }"

text \<open>The walk of \<open>SetNodePri\<close> to the tail anchor, the only node with a null next link.\<close>

partial_function (option) find_anchor :: "Mem \<Rightarrow> ptr \<Rightarrow> ptr option" where
  "find_anchor m lastnode =
     (if n_Next m lastnode \<noteq> 0 then find_anchor m (n_Next m lastnode) else Some lastnode)"

definition SetNodePri :: "ptr \<Rightarrow> u8 \<Rightarrow> Mem \<Rightarrow> (u8 \<times> Mem) option" where
  "SetNodePri n pri m = do {
     lastnode \<leftarrow> find_anchor m (n_Next m n);
     let l = lastnode - 8;
     let oldpri = n_Priority m n;
     let m = REMOVENODE n m;
     let m = m\<lparr>n_Priority := (n_Priority m)(n := pri)\<rparr>;
     m \<leftarrow> InsertNodeFromTail l n m;
     Some (oldpri, m) }"

partial_function (option) GetNodeCount_loop :: "Mem \<Rightarrow> ptr \<Rightarrow> ptr \<Rightarrow> u32 \<Rightarrow> u32 option" where
  "GetNodeCount_loop m l n result =
     (if IsNode l n then GetNodeCount_loop m l (n_Next m n) (result + 1) else Some result)"

definition GetNodeCount :: "Mem \<Rightarrow> ptr \<Rightarrow> u32 option" where
  "GetNodeCount m l = GetNodeCount_loop m l (FirstNode m l) 0"

partial_function (option) FindNodeFromHead_loop :: "Mem \<Rightarrow> ptr \<Rightarrow> ptr \<Rightarrow> u32 \<Rightarrow> ptr option" where
  "FindNodeFromHead_loop m l n position =
     (if IsNode l n then
        if position = 0 then Some n else FindNodeFromHead_loop m l (n_Next m n) (position - 1)
      else Some 0)"

definition FindNodeFromHead :: "Mem \<Rightarrow> ptr \<Rightarrow> u32 \<Rightarrow> ptr option" where
  "FindNodeFromHead m l position = FindNodeFromHead_loop m l (FirstNode m l) position"

partial_function (option) FindNodeFromTail_loop :: "Mem \<Rightarrow> ptr \<Rightarrow> ptr \<Rightarrow> u32 \<Rightarrow> ptr option" where
  "FindNodeFromTail_loop m l n position =
     (if IsNodeB l n then
        if position = 0 then Some n else FindNodeFromTail_loop m l (n_Prev m n) (position - 1)
      else Some 0)"

definition FindNodeFromTail :: "Mem \<Rightarrow> ptr \<Rightarrow> u32 \<Rightarrow> ptr option" where
  "FindNodeFromTail m l position = FindNodeFromTail_loop m l (LastNode m l) position"

partial_function (option) GetNodePosFromHead_loop :: "Mem \<Rightarrow> ptr \<Rightarrow> ptr \<Rightarrow> ptr \<Rightarrow> u32 \<Rightarrow> int option" where
  "GetNodePosFromHead_loop m l n nn count =
     (if IsNode l nn then
        if n = nn then Some (sint count) else GetNodePosFromHead_loop m l n (n_Next m nn) (count + 1)
      else Some (-1))"

definition GetNodePosFromHead :: "Mem \<Rightarrow> ptr \<Rightarrow> ptr \<Rightarrow> int option" where
  "GetNodePosFromHead m l n = GetNodePosFromHead_loop m l n (FirstNode m l) 0"

partial_function (option) GetNodePosFromTail_loop :: "Mem \<Rightarrow> ptr \<Rightarrow> ptr \<Rightarrow> ptr \<Rightarrow> u32 \<Rightarrow> int option" where
  "GetNodePosFromTail_loop m l n nn count =
     (if IsNodeB l nn then
        if n = nn then Some (sint count) else GetNodePosFromTail_loop m l n (n_Prev m nn) (count + 1)
      else Some (-1))"

definition GetNodePosFromTail :: "Mem \<Rightarrow> ptr \<Rightarrow> ptr \<Rightarrow> int option" where
  "GetNodePosFromTail m l n = GetNodePosFromTail_loop m l n (LastNode m l) 0"

section \<open>What a list is\<close>

text \<open>Neighbours in a chain of nodes point at each other.\<close>

fun linked :: "(ptr \<Rightarrow> u32) \<Rightarrow> ptr list \<Rightarrow> bool" where
  "linked w (a # b # zs) \<longleftrightarrow> w a = b \<and> w (b + 4) = a \<and> linked w (b # zs)"
| "linked w zs \<longleftrightarrow> True"

text \<open>The words a list owns: next links, previous links and the filler.\<close>

definition cells :: "ptr \<Rightarrow> ptr list \<Rightarrow> ptr list" where
  "cells l xs = (l + 4) # xs @ map (\<lambda>x. x + 4) (xs @ [l + 8]) @ [l + 8]"

definition is_list :: "Mem \<Rightarrow> ptr \<Rightarrow> ptr list \<Rightarrow> bool" where
  "is_list m l xs \<longleftrightarrow> distinct (cells l xs) \<and> 0 \<notin> set ((l + 4) # xs @ [l + 8])
     \<and> word_at m (l + 8) = 0 \<and> linked (word_at m) ((l + 4) # xs @ [l + 8])"

definition fresh :: "ptr \<Rightarrow> ptr list \<Rightarrow> ptr \<Rightarrow> bool" where
  "fresh l xs n \<longleftrightarrow> n \<noteq> 0 \<and> n \<notin> set (cells l xs) \<and> n + 4 \<notin> set (cells l xs)"

lemma linked_append:
  "ps \<noteq> [] \<Longrightarrow> qs \<noteq> [] \<Longrightarrow> linked w (ps @ qs)
    \<longleftrightarrow> linked w ps \<and> w (last ps) = hd qs \<and> w (hd qs + 4) = last ps \<and> linked w qs"
proof (induction ps rule: induct_list012)
  case (2 x)
  then show ?case by (cases qs) auto
qed auto

lemma linked_upd:
  "x \<notin> set (butlast zs) \<Longrightarrow> x \<notin> (\<lambda>y. y + 4) ` set (tl zs) \<Longrightarrow> linked (w(x := v)) zs = linked w zs"
  by (induction zs rule: induct_list012) auto

lemma linked_cong:
  "(\<And>x. x \<in> set (butlast zs) \<Longrightarrow> w x = w' x) \<Longrightarrow> (\<And>x. x \<in> set (tl zs) \<Longrightarrow> w (x + 4) = w' (x + 4))
    \<Longrightarrow> linked w zs = linked w' zs"
  by (induction zs rule: induct_list012) auto

lemma word_at_set_word [simp]: "word_at (set_word a v m) = (word_at m)(a := v)"
  by (simp add: set_word_def)

lemma fields_set_word [simp]:
  "n_Priority (set_word a v m) = n_Priority m" "n_Name (set_word a v m) = n_Name m"
  by (simp_all add: set_word_def)

lemmas mem_defs = n_Next_def n_Prev_def set_Next_def set_Prev_def FirstNode_def LastNode_def

lemma four_neq [simp]: "(n :: u32) + 4 \<noteq> n" "n \<noteq> n + 4"
  by simp_all

lemma cells_split:
  assumes "distinct (cells l (us @ vs))"
  shows "distinct ((l + 4) # us)" and "distinct (vs @ [l + 8])"
    and "set ((l + 4) # us) \<inter> set (vs @ [l + 8]) = {}"
    and "set ((l + 4) # us @ vs) \<inter> (\<lambda>x. x + 4) ` set (us @ vs @ [l + 8]) = {}"
    and "l + 8 \<notin> (\<lambda>x. x + 4) ` set (us @ vs @ [l + 8])"
  using assms by (auto simp: cells_def distinct_map)

lemma neighbours:
  assumes d: "distinct (cells l (us @ vs))"
    and a: "a = last ((l + 4) # us)" and b: "b = hd (vs @ [l + 8])"
  shows "a \<in> set ((l + 4) # us @ vs)" and "b + 4 \<in> (\<lambda>x. x + 4) ` set (us @ vs @ [l + 8])"
    and "a \<noteq> b + 4" and "l + 8 \<noteq> a" and "l + 8 \<noteq> b + 4"
    and "x \<in> set (butlast ((l + 4) # us)) \<Longrightarrow> x \<noteq> a" and "x \<in> set vs \<Longrightarrow> x \<noteq> a"
    and "x \<in> set us \<Longrightarrow> x \<noteq> b" and "x \<in> set (tl (vs @ [l + 8])) \<Longrightarrow> x \<noteq> b"
proof -
  let ?ps = "(l + 4) # us" and ?qs = "vs @ [l + 8]"
  note D = cells_split [OF d]
  obtain us' where us: "?ps = us' @ [a]" by (metis a append_butlast_last_id list.distinct(1))
  obtain vs' where vs: "?qs = b # vs'" by (metis b append_is_Nil_conv hd_Cons_tl list.distinct(1))
  have in_ps: "a \<in> set ?ps" unfolding us by simp
  have in_qs: "b \<in> set ?qs" unfolding vs by simp
  show aN: "a \<in> set ((l + 4) # us @ vs)" using in_ps by auto
  show bP: "b + 4 \<in> (\<lambda>x. x + 4) ` set (us @ vs @ [l + 8])" using in_qs by auto
  show "a \<noteq> b + 4" using D(4) aN bP by blast
  show "l + 8 \<noteq> a" using D(3) in_ps by auto
  show "l + 8 \<noteq> b + 4" using D(5) bP by metis
  show "x \<in> set (butlast ?ps) \<Longrightarrow> x \<noteq> a" using D(1) unfolding us by auto
  show "x \<in> set vs \<Longrightarrow> x \<noteq> a" using D(3) in_ps by auto
  show "x \<in> set us \<Longrightarrow> x \<noteq> b" using D(3) in_qs by auto
  show "x \<in> set (tl ?qs) \<Longrightarrow> x \<noteq> b" using D(2) unfolding vs by auto
qed

text \<open>Changing only the links that join the two halves of a list keeps both halves linked.\<close>

lemma halves_linked:
  assumes d: "distinct (cells l (us @ vs))"
    and a: "a = last ((l + 4) # us)" and b: "b = hd (vs @ [l + 8])"
    and nxt: "\<And>x. x \<in> set ((l + 4) # us @ vs) \<Longrightarrow> x \<noteq> a \<Longrightarrow> w' x = w x"
    and prv: "\<And>x. x \<in> set (us @ vs @ [l + 8]) \<Longrightarrow> x \<noteq> b \<Longrightarrow> w' (x + 4) = w (x + 4)"
  shows "linked w' ((l + 4) # us) = linked w ((l + 4) # us)"
    and "linked w' (vs @ [l + 8]) = linked w (vs @ [l + 8])"
proof -
  note N = neighbours [OF d a b]
  show "linked w' ((l + 4) # us) = linked w ((l + 4) # us)"
  proof (rule linked_cong)
    show "w' x = w x" if "x \<in> set (butlast ((l + 4) # us))" for x
      using N(6) [OF that] in_set_butlastD [OF that] by (intro nxt) auto
    show "w' (x + 4) = w (x + 4)" if "x \<in> set (tl ((l + 4) # us))" for x
      using N(8) [of x] that by (intro prv) auto
  qed
  show "linked w' (vs @ [l + 8]) = linked w (vs @ [l + 8])"
  proof (rule linked_cong)
    show "w' x = w x" if "x \<in> set (butlast (vs @ [l + 8]))" for x
      using N(7) [of x] that by (intro nxt) auto
    show "w' (x + 4) = w (x + 4)" if "x \<in> set (tl (vs @ [l + 8]))" for x
      using N(9) [OF that] that by (intro prv) (cases vs; auto)+
  qed
qed

lemma insert_is_list:
  assumes L: "is_list m l (us @ vs)" and n: "fresh l (us @ vs) n"
    and a: "a = last ((l + 4) # us)" and b: "b = hd (vs @ [l + 8])"
    and w: "word_at m' = (word_at m)(n := b, n + 4 := a, a := n, b + 4 := n)"
  shows "is_list m' l (us @ n # vs)"
proof -
  let ?ps = "(l + 4) # us" and ?qs = "vs @ [l + 8]"
  let ?NX = "set ((l + 4) # us @ vs)" and ?PX = "(\<lambda>x. x + 4) ` set (us @ vs @ [l + 8])"
  have lk: "linked (word_at m) ?ps" "linked (word_at m) ?qs"
    using L linked_append [of ?ps ?qs "word_at m"] by (simp_all add: is_list_def)
  have d: "distinct (cells l (us @ vs))" using L by (simp add: is_list_def)
  note N = neighbours [OF d a b] and D = cells_split(4) [OF d]
  have nn: "n \<notin> ?NX" "n \<notin> ?PX" "n + 4 \<notin> ?NX" "n + 4 \<notin> ?PX" "n \<noteq> l + 8" "n + 4 \<noteq> l + 8"
    using n by (auto simp: fresh_def cells_def)
  have "b + 4 \<noteq> n + 4"
  proof
    assume e: "b + 4 = n + 4"
    show False using N(2) nn(4) unfolding e by contradiction
  qed
  moreover have "a \<noteq> n" "a \<noteq> n + 4" "b + 4 \<noteq> n"
    using nn N(1,2) by blast+
  ultimately have neqs: "a \<noteq> n" "a \<noteq> n + 4" "b + 4 \<noteq> n" "b + 4 \<noteq> n + 4" by blast+
  have nxt: "word_at m' x = word_at m x" if x: "x \<in> ?NX" "x \<noteq> a" for x
  proof -
    have "x \<noteq> b + 4" using D x(1) N(2) by blast
    moreover have "x \<noteq> n" "x \<noteq> n + 4" using nn x(1) by blast+
    ultimately show ?thesis using x(2) by (simp add: w)
  qed
  have prv: "word_at m' (x + 4) = word_at m (x + 4)" if x: "x \<in> set (us @ ?qs)" "x \<noteq> b" for x
  proof -
    have P: "x + 4 \<in> ?PX" using x(1) by auto
    then have "x + 4 \<noteq> a" using D N(1) by blast
    moreover have "x + 4 \<noteq> n" using nn P by blast
    moreover have "x + 4 \<noteq> n + 4"
    proof
      assume e: "x + 4 = n + 4"
      show False using P nn(4) unfolding e by contradiction
    qed
    ultimately show ?thesis using x(2) by (simp add: w)
  qed
  note H = halves_linked [OF d a b, of "word_at m'" "word_at m", OF nxt prv]
  have "word_at m' a = n" "word_at m' (n + 4) = a" "word_at m' n = b" "word_at m' (b + 4) = n"
    using neqs N(3) by (simp_all add: w)
  then have "linked (word_at m') (?ps @ n # ?qs)"
    using linked_append [of ?ps "n # ?qs" "word_at m'"] linked_append [of "[n]" ?qs "word_at m'"] a b H lk
    by simp
  moreover have "distinct (cells l (us @ n # vs))"
    using d n by (auto simp: cells_def fresh_def)
  moreover have "word_at m' (l + 8) = 0"
    using L nn(5,6) N(4,5) by (simp add: w is_list_def)
  ultimately show ?thesis using L n by (simp add: is_list_def fresh_def)
qed

lemma remove_is_list:
  assumes L: "is_list m l (us @ n # vs)"
    and a: "a = last ((l + 4) # us)" and b: "b = hd (vs @ [l + 8])"
    and w: "word_at m' = (word_at m)(a := b, b + 4 := a)"
  shows "is_list m' l (us @ vs)"
proof -
  let ?ps = "(l + 4) # us" and ?qs = "vs @ [l + 8]"
  let ?NX = "set ((l + 4) # us @ vs)" and ?PX = "(\<lambda>x. x + 4) ` set (us @ vs @ [l + 8])"
  have lk: "linked (word_at m) ?ps" "linked (word_at m) ?qs"
    using L linked_append [of ?ps "n # ?qs" "word_at m"] linked_append [of "[n]" ?qs "word_at m"]
    by (simp_all add: is_list_def)
  have d: "distinct (cells l (us @ vs))" using L by (auto simp: is_list_def cells_def)
  note N = neighbours [OF d a b] and D = cells_split(4) [OF d]
  have nxt: "word_at m' x = word_at m x" if x: "x \<in> ?NX" "x \<noteq> a" for x
  proof -
    have "x \<noteq> b + 4" using D x(1) N(2) by blast
    then show ?thesis using x(2) by (simp add: w)
  qed
  have prv: "word_at m' (x + 4) = word_at m (x + 4)" if x: "x \<in> set (us @ ?qs)" "x \<noteq> b" for x
  proof -
    have "x + 4 \<in> ?PX" using x(1) by auto
    then have "x + 4 \<noteq> a" using D N(1) by blast
    then show ?thesis using x(2) by (simp add: w)
  qed
  note H = halves_linked [OF d a b, of "word_at m'" "word_at m", OF nxt prv]
  have "word_at m' a = b" "word_at m' (b + 4) = a" using N(3) by (simp_all add: w)
  then have "linked (word_at m') (?ps @ ?qs)"
    using linked_append [of ?ps ?qs "word_at m'"] a b H lk by simp
  moreover have "word_at m' (l + 8) = 0"
    using L N(4,5) by (simp add: w is_list_def)
  ultimately show ?thesis using L d by (simp add: is_list_def)
qed


section \<open>Reading a list\<close>

lemma is_listD:
  assumes "is_list m l xs"
  shows "word_at m (l + 8) = 0" and "0 \<notin> set xs" and "l + 4 \<noteq> 0" and "l + 8 \<noteq> 0"
    and "l + 8 \<notin> set xs" and "l + 4 \<notin> set xs" and "distinct xs"
    and "FirstNode m l = hd (xs @ [l + 8])" and "LastNode m l = last ((l + 4) # xs)"
proof -
  have d: "distinct (cells l xs)" and lk: "linked (word_at m) ((l + 4) # xs @ [l + 8])"
    using assms by (simp_all add: is_list_def)
  show "FirstNode m l = hd (xs @ [l + 8])" using lk by (cases xs) (simp_all add: FirstNode_def)
  have "linked (word_at m) (((l + 4) # xs) @ [l + 8])" using lk by simp
  then have "word_at m (l + 8 + 4) = last ((l + 4) # xs)" by (subst (asm) linked_append) simp_all
  then show "LastNode m l = last ((l + 4) # xs)" by (simp add: LastNode_def add.assoc)
  show "word_at m (l + 8) = 0" "0 \<notin> set xs" "l + 4 \<noteq> 0" "l + 8 \<noteq> 0"
    using assms by (auto simp: is_list_def)
  show "l + 8 \<notin> set xs" "l + 4 \<notin> set xs" "distinct xs" using d by (auto simp: cells_def)
qed

text \<open>Following the links of a node of a list.\<close>

lemma is_list_links:
  assumes "is_list m l (us @ n # vs)"
  shows "n_Next m n = hd (vs @ [l + 8])" and "n_Prev m n = last ((l + 4) # us)"
proof -
  have "linked (word_at m) (((l + 4) # us) @ n # vs @ [l + 8])"
    using assms by (simp add: is_list_def)
  then have "linked (word_at m) (n # vs @ [l + 8])" "word_at m (n + 4) = last ((l + 4) # us)"
    by (subst (asm) linked_append; simp)+
  then show "n_Next m n = hd (vs @ [l + 8])" "n_Prev m n = last ((l + 4) # us)"
    by (cases vs; simp add: n_Next_def n_Prev_def)+
qed

lemma is_list_distinct: "is_list m l xs \<Longrightarrow> distinct (cells l xs)"
  by (simp add: is_list_def)

lemma cells_mem:
  "l + 4 \<in> set (cells l xs)" "l + 8 \<in> set (cells l xs)" "l + 12 \<in> set (cells l xs)"
  "set xs \<subseteq> set (cells l xs)" "(\<lambda>x. x + 4) ` set xs \<subseteq> set (cells l xs)"
  by (auto simp: cells_def add.assoc)

lemma cells_12:
  "distinct (cells l xs) \<Longrightarrow> l + 12 \<notin> set xs \<union> {l + 4}"
  by (auto simp: cells_def add.assoc)

lemma hd_in: "hd (vs @ [l + 8]) \<in> set vs \<union> {l + 8 :: ptr}"
  by (cases vs) auto

lemma last_in: "last ((l + 4 :: ptr) # us) \<in> set us \<union> {l + 4}"
  by (cases us rule: rev_cases) auto

lemma is_list_next_nonzero:
  assumes "is_list m l xs" and "n \<in> set xs"
  shows "n_Next m n \<noteq> 0" and "n_Prev m n \<noteq> 0"
proof -
  obtain us vs where xs: "xs = us @ n # vs" using split_list [OF assms(2)] by blast
  have L: "is_list m l (us @ n # vs)" using assms(1) xs by simp
  show "n_Next m n \<noteq> 0" "n_Prev m n \<noteq> 0"
    using is_listD(2,3,4) [OF L] hd_in [of vs l] last_in [of l us]
    unfolding is_list_links [OF L] by auto
qed

text \<open>The scans of a list return what a search of the list of nodes returns.\<close>

lemma ScanList_is_list:
  assumes "is_list m l (us @ vs)"
  shows "ScanList m l stop (hd (vs @ [l + 8])) =
    Some (case find stop vs of Some n \<Rightarrow> n | None \<Rightarrow> l + 8)"
  using assms
proof (induction vs arbitrary: us)
  case Nil
  then show ?case by (simp add: ScanList.simps IsNode_def)
next
  case (Cons n vs)
  have "IsNode l n" using is_listD(5) [OF Cons.prems] by (auto simp: IsNode_def)
  moreover have "ScanList m l stop (hd (vs @ [l + 8])) = Some (case find stop vs of Some n \<Rightarrow> n | None \<Rightarrow> l + 8)"
    using Cons.IH [of "us @ [n]"] Cons.prems by simp
  ultimately show ?case
    by (subst ScanList.simps) (simp add: is_list_links(1) [OF Cons.prems])
qed

lemma ScanListB_is_list:
  assumes "is_list m l (us @ vs)"
  shows "ScanListB m l stop (last ((l + 4) # us)) =
    Some (case find stop (rev us) of Some n \<Rightarrow> n | None \<Rightarrow> l + 4)"
  using assms
proof (induction us arbitrary: vs rule: rev_induct)
  case Nil
  then show ?case by (simp add: ScanListB.simps IsNodeB_def)
next
  case (snoc n us)
  have L: "is_list m l (us @ n # vs)" using snoc.prems by simp
  have "IsNodeB l n" using is_listD(6) [OF L] by (auto simp: IsNodeB_def)
  moreover have "ScanListB m l stop (last ((l + 4) # us)) = Some (case find stop (rev us) of Some n \<Rightarrow> n | None \<Rightarrow> l + 4)"
    using snoc.IH [of "n # vs"] L by simp
  ultimately show ?case
    by (subst ScanListB.simps) (simp add: is_list_links(2) [OF L])
qed

section \<open>The operations on lists of nodes\<close>

lemma word_at_link_before:
  assumes "n + 4 \<noteq> new" and "n \<noteq> new"
  shows "word_at (link_before n new m) =
    (word_at m)(new := n, new + 4 := n_Prev m n, n_Prev m n := new, n + 4 := new)"
  using assms by (simp add: link_before_def mem_defs Let_def)

lemma word_at_link_after:
  assumes "n \<noteq> new" and "n \<noteq> new + 4" and "n_Next m n + 4 \<noteq> n"
  shows "word_at (link_after n new m) =
    (word_at m)(new := n_Next m n, new + 4 := n, n := new, n_Next m n + 4 := new)"
  using assms by (auto simp: link_after_def mem_defs Let_def fun_upd_twist)

lemma link_before_is_list:
  assumes L: "is_list m l (us @ n # vs)" and f: "fresh l (us @ n # vs) new"
  shows "is_list (link_before n new m) l (us @ new # n # vs)"
proof (rule insert_is_list [OF L f refl])
  show "n = hd ((n # vs) @ [l + 8])" by simp
  have "n + 4 \<noteq> new" "n \<noteq> new" using f by (auto simp: fresh_def cells_def)
  then show "word_at (link_before n new m) = (word_at m)
      (new := n, new + 4 := last ((l + 4) # us), last ((l + 4) # us) := new, n + 4 := new)"
    by (simp add: word_at_link_before is_list_links(2) [OF L])
qed

lemma link_after_is_list:
  assumes L: "is_list m l (us @ n # vs)" and f: "fresh l (us @ n # vs) new"
  shows "is_list (link_after n new m) l (us @ n # new # vs)"
proof -
  have L': "is_list m l ((us @ [n]) @ vs)" and f': "fresh l ((us @ [n]) @ vs) new" using L f by simp_all
  have "n \<noteq> new" "n \<noteq> new + 4" using f by (auto simp: fresh_def cells_def)
  moreover have "n_Next m n + 4 \<noteq> n"
    using L hd_in [of vs l] unfolding is_list_links(1) [OF L] by (auto simp: is_list_def cells_def)
  ultimately have "word_at (link_after n new m) = (word_at m)
      (new := hd (vs @ [l + 8]), new + 4 := n, n := new, hd (vs @ [l + 8]) + 4 := new)"
    by (simp add: word_at_link_after is_list_links(1) [OF L])
  then have "is_list (link_after n new m) l ((us @ [n]) @ new # vs)"
    by (intro insert_is_list [OF L' f' refl refl]) simp
  then show ?thesis by simp
qed

lemma ADDHEAD_is_list:
  assumes L: "is_list m l xs" and f: "fresh l xs n"
  shows "is_list (ADDHEAD l n m) l (n # xs)"
proof -
  have L': "is_list m l ([] @ xs)" and f': "fresh l ([] @ xs) n" using L f by simp_all
  have "is_list (ADDHEAD l n m) l ([] @ n # xs)"
    by (rule insert_is_list [OF L' f' refl refl]) (simp add: ADDHEAD_def is_listD(8) [OF L] set_Next_def set_Prev_def Let_def)
  then show ?thesis by simp
qed

lemma upd_perm:
  "n \<noteq> t \<Longrightarrow> n4 \<noteq> t \<Longrightarrow> a \<noteq> n \<Longrightarrow> a \<noteq> n4 \<Longrightarrow> a \<noteq> t \<Longrightarrow> n \<noteq> n4 \<Longrightarrow>
    w(t := n, n4 := a, n := b, a := n) = w(n := b, n4 := a, a := n, t := n)"
  by (auto simp: fun_eq_iff)

lemma ADDTAIL_is_list:
  assumes L: "is_list m l xs" and f: "fresh l xs n"
  shows "is_list (ADDTAIL l n m) l (xs @ [n])"
proof -
  have L': "is_list m l (xs @ [])" and f': "fresh l (xs @ []) n" using L f by simp_all
  have nf: "n \<notin> set (cells l xs)" "n + 4 \<notin> set (cells l xs)" using f unfolding fresh_def by blast+
  have la: "last ((l + 4) # xs) \<in> set (cells l xs)"
    using last_in [of l xs] by (auto simp: cells_def)
  have t1: "n \<noteq> l + 12" "n + 4 \<noteq> l + 12"
    using nf cells_mem(3) [of l xs] by metis+
  have t2: "last ((l + 4) # xs) \<noteq> n" "last ((l + 4) # xs) \<noteq> n + 4"
    using nf la by metis+
  have t3: "last ((l + 4) # xs) \<noteq> l + 12"
    using last_in [of l xs] cells_12 [OF is_list_distinct [OF L]] by (metis Un_iff)
  have "is_list (ADDTAIL l n m) l (xs @ n # [])"
  proof (rule insert_is_list [OF L' f' refl refl])
    have "word_at (ADDTAIL l n m) = (word_at m)
        (l + 12 := n, n + 4 := last ((l + 4) # xs), n := l + 8, last ((l + 4) # xs) := n)"
      by (simp only: ADDTAIL_def is_listD(9) [OF L] set_Next_def set_Prev_def Let_def word_at_set_word)
    also have "\<dots> = (word_at m)
        (n := l + 8, n + 4 := last ((l + 4) # xs), last ((l + 4) # xs) := n, l + 12 := n)"
      using t1 t2 t3 by (intro upd_perm) (simp_all only: four_neq not_False_eq_True)
    also have "l + 12 = l + 8 + 4" by (simp add: add.assoc)
    finally show "word_at (ADDTAIL l n m) = (word_at m)(n := hd ([] @ [l + 8]), n + 4 := last ((l + 4) # xs),
        last ((l + 4) # xs) := n, hd ([] @ [l + 8]) + 4 := n)"
      by (simp only: append_Nil list.sel(1))
  qed
  then show ?thesis by simp
qed

lemma REMOVENODE_is_list:
  assumes L: "is_list m l (us @ n # vs)"
  shows "is_list (REMOVENODE n m) l (us @ vs)"
  by (rule remove_is_list [OF L refl refl])
    (simp add: REMOVENODE_def is_list_links [OF L] Let_def set_Next_def set_Prev_def)


lemma RemHead_Cons:
  assumes L: "is_list m l (x # ys)"
  shows "RemHead l m = (x, set_Prev (n_Next m x) (l + 4) (set_Next (l + 4) (n_Next m x) m))"
proof -
  have hd: "n_Next m (l + 4) = x" using is_listD(8) [OF L] by (simp add: n_Next_def FirstNode_def)
  have nz: "n_Next m x \<noteq> 0" using is_list_next_nonzero [OF L] by simp
  have "x \<noteq> l + 4" using is_listD(6) [OF L] by auto
  then have nx: "n_Next (set_Next (l + 4) (n_Next m x) m) x = n_Next m x"
    by (simp add: n_Next_def set_Next_def)
  show ?thesis using nz by (simp only: RemHead_def hd Let_def nx simp_thms if_True)
qed

lemma RemHead_is_list:
  assumes L: "is_list m l xs"
  shows "case xs of [] \<Rightarrow> RemHead l m = (0, m)
    | x # ys \<Rightarrow> fst (RemHead l m) = x \<and> is_list (snd (RemHead l m)) l ys"
proof (cases xs)
  case Nil
  then show ?thesis
    using is_listD(1,8) [OF L] by (simp add: RemHead_def n_Next_def FirstNode_def Let_def)
next
  case (Cons x ys)
  have L': "is_list m l ([] @ x # ys)" using L Cons by simp
  have R: "RemHead l m = (x, set_Prev (n_Next m x) (l + 4) (set_Next (l + 4) (n_Next m x) m))"
    using L Cons by (simp add: RemHead_Cons)
  have "is_list (snd (RemHead l m)) l ([] @ ys)"
    by (rule remove_is_list [OF L' refl refl])
      (simp add: R is_list_links(1) [OF L'] set_Next_def set_Prev_def)
  then show ?thesis using Cons R by simp
qed

lemma RemTail_is_list:
  assumes L: "is_list m l xs"
  shows "if xs = [] then RemTail l m = (0, m)
    else fst (RemTail l m) = last xs \<and> is_list (snd (RemTail l m)) l (butlast xs)"
proof (cases xs rule: rev_cases)
  case Nil
  then show ?thesis
    using is_listD(1,9) [OF L] by (simp add: RemTail_def n_Prev_def LastNode_def Let_def add.assoc)
next
  case (snoc ys x)
  have L': "is_list m l (ys @ x # [])" using L snoc by simp
  have tl: "n_Prev m (l + 8) = x" using is_listD(9) [OF L] snoc by (simp add: n_Prev_def LastNode_def add.assoc)
  have nz: "n_Prev m x \<noteq> 0" using is_list_next_nonzero [OF L] snoc by simp
  have ne: "x + 4 \<noteq> l + 8 + 4" using is_list_distinct [OF L] snoc by (auto simp: cells_def)
  then have nx: "n_Prev (set_Prev (l + 8) (n_Prev m x) m) x = n_Prev m x"
    unfolding n_Prev_def set_Prev_def word_at_set_word by (rule fun_upd_other)
  have R: "RemTail l m = (x, set_Next (n_Prev m x) (l + 8) (set_Prev (l + 8) (n_Prev m x) m))"
    using nz by (simp only: RemTail_def tl Let_def nx simp_thms if_True)
  have la: "last ((l + 4) # ys) \<noteq> l + 12"
    using last_in [of l ys] cells_12 [OF is_list_distinct [OF L]] snoc by auto
  have "l + 12 = l + 8 + 4" by (simp add: add.assoc)
  with la have la': "last ((l + 4) # ys) \<noteq> l + 8 + 4" by (simp only: not_False_eq_True)
  have "is_list (snd (RemTail l m)) l (ys @ [])"
  proof (rule remove_is_list [OF L' refl refl])
    show "word_at (snd (RemTail l m)) = (word_at m)(last ((l + 4) # ys) := hd ([] @ [l + 8]),
        hd ([] @ [l + 8]) + 4 := last ((l + 4) # ys))"
      by (simp only: R snd_conv is_list_links(2) [OF L'] set_Next_def set_Prev_def word_at_set_word
          append_Nil list.sel(1) fun_upd_twist [OF la'])
  qed
  then show ?thesis using snoc R by simp
qed

lemma PrepList_is_list:
  assumes "l + 4 \<noteq> 0" and "l + 8 \<noteq> 0"
  shows "is_list (PrepList l m) l []"
  using assms by (auto simp: is_list_def PrepList_def cells_def add.assoc)

text \<open>The sorted insertions, on lists: in front of the first node at which the scan stops.\<close>

definition insert_at :: "('a \<Rightarrow> bool) \<Rightarrow> 'a \<Rightarrow> 'a list \<Rightarrow> 'a list" where
  "insert_at stop n xs = takeWhile (\<lambda>x. \<not> stop x) xs @ n # dropWhile (\<lambda>x. \<not> stop x) xs"

lemma find_split:
  "(case find stop xs of None \<Rightarrow> insert_at stop n xs = xs @ [n] \<and> (\<forall>x \<in> set xs. \<not> stop x)
    | Some x \<Rightarrow> \<exists>us vs. xs = us @ x # vs \<and> insert_at stop n xs = us @ n # x # vs \<and> stop x)"
proof (induction xs)
  case (Cons y ys)
  show ?case
  proof (cases "stop y")
    case False
    then show ?thesis using Cons by (auto simp: insert_at_def split: option.splits) (metis append_Cons)
  next
    case True
    then have "y # ys = [] @ y # ys \<and> insert_at stop n (y # ys) = [] @ n # y # ys"
      by (simp add: insert_at_def)
    then show ?thesis using True by auto
  qed
qed (simp add: insert_at_def)

lemma insert_before_is_list:
  assumes L: "is_list m l xs" and f: "fresh l xs new"
    and n: "n = (case find stop xs of Some n \<Rightarrow> n | None \<Rightarrow> l + 8)"
  shows "is_list (if IsNode l n then link_before n new m else ADDTAIL l new m) l (insert_at stop new xs)"
proof (cases "find stop xs")
  case None
  then show ?thesis
    using ADDTAIL_is_list [OF L f] find_split [where stop = stop and xs = xs and n = new] n by (simp add: IsNode_def)
next
  case (Some x)
  then obtain us vs where xs: "xs = us @ x # vs" "insert_at stop new xs = us @ new # x # vs"
    using find_split [where stop = stop and xs = xs and n = new] by auto
  then have "IsNode l x" using is_listD(5) [OF L] by (auto simp: IsNode_def)
  then show ?thesis using link_before_is_list [of m l us x vs new] L f xs Some n by simp
qed

lemma insert_after_is_list:
  assumes L: "is_list m l xs" and f: "fresh l xs new"
    and n: "n = (case find stop (rev xs) of Some n \<Rightarrow> n | None \<Rightarrow> l + 4)"
  shows "is_list (if IsNodeB l n then link_after n new m else ADDHEAD l new m) l
    (rev (insert_at stop new (rev xs)))"
proof (cases "find stop (rev xs)")
  case None
  then show ?thesis
    using ADDHEAD_is_list [OF L f] find_split [where stop = stop and xs = "rev xs" and n = new] n by (simp add: IsNodeB_def)
next
  case (Some x)
  then obtain us vs where xs: "rev xs = us @ x # vs" "insert_at stop new (rev xs) = us @ new # x # vs"
    using find_split [where stop = stop and xs = "rev xs" and n = new] by auto
  then have xs': "xs = rev vs @ x # rev us" by (metis append.assoc append_Cons append_Nil rev.simps(2) rev_append rev_rev_ident)
  then have "IsNodeB l x" using is_listD(6) [OF L] by (auto simp: IsNodeB_def)
  then show ?thesis using link_after_is_list [of m l "rev vs" x "rev us" new] L f xs xs' Some n by simp
qed

lemma link_fields [simp]:
  "n_Priority (link_before a b m) = n_Priority m" "n_Name (link_before a b m) = n_Name m"
  "n_Priority (link_after a b m) = n_Priority m" "n_Name (link_after a b m) = n_Name m"
  "n_Priority (ADDHEAD l b m) = n_Priority m" "n_Name (ADDHEAD l b m) = n_Name m"
  "n_Priority (ADDTAIL l b m) = n_Priority m" "n_Name (ADDTAIL l b m) = n_Name m"
  "n_Priority (REMOVENODE b m) = n_Priority m" "n_Name (REMOVENODE b m) = n_Name m"
  by (simp_all add: link_before_def link_after_def ADDHEAD_def ADDTAIL_def REMOVENODE_def
      set_Next_def set_Prev_def Let_def)

lemma ScanList_first:
  "is_list m l xs \<Longrightarrow> ScanList m l stop (FirstNode m l) = Some (case find stop xs of Some n \<Rightarrow> n | None \<Rightarrow> l + 8)"
  using ScanList_is_list [of m l "[]" xs stop] by (simp add: is_listD(8))

lemma ScanListB_last:
  "is_list m l xs \<Longrightarrow> ScanListB m l stop (LastNode m l) = Some (case find stop (rev xs) of Some n \<Rightarrow> n | None \<Rightarrow> l + 4)"
  using ScanListB_is_list [of m l xs "[]" stop] by (simp add: is_listD(9))

lemma insertions_is_list:
  assumes L: "is_list m l xs" and f: "fresh l xs new"
  shows "\<exists>m'. InsertNodeFromHead l new m = Some m' \<and> n_Priority m' = n_Priority m
      \<and> is_list m' l (insert_at (\<lambda>n. n_Priority m n \<le> n_Priority m new) new xs)"
    and "\<exists>m'. InsertNodeFromTail l new m = Some m' \<and> n_Priority m' = n_Priority m
      \<and> is_list m' l (rev (insert_at (\<lambda>n. n_Priority m new \<le> n_Priority m n) new (rev xs)))"
    and "\<exists>m'. UniversalInsertNode l new g m = Some m'
      \<and> is_list m' l (insert_at (g m new) new xs)"
  using insert_before_is_list [OF L f refl] insert_after_is_list [OF L f refl]
  by (simp_all add: InsertNodeFromHead_def InsertNodeFromTail_def UniversalInsertNode_def
      ScanList_first [OF L] ScanListB_last [OF L])


section \<open>Other lists are left alone\<close>

lemma is_list_frame:
  assumes "is_list m k ys" and "\<And>x. x \<in> set (cells k ys) \<Longrightarrow> word_at m' x = word_at m x"
  shows "is_list m' k ys"
proof -
  have "linked (word_at m') ((k + 4) # ys @ [k + 8]) = linked (word_at m) ((k + 4) # ys @ [k + 8])"
  proof (rule linked_cong)
    show "word_at m' x = word_at m x" if "x \<in> set (butlast ((k + 4) # ys @ [k + 8]))" for x
      using that by (intro assms(2)) (auto simp: cells_def butlast_append)
    show "word_at m' (x + 4) = word_at m (x + 4)" if "x \<in> set (tl ((k + 4) # ys @ [k + 8]))" for x
      using that by (intro assms(2)) (auto simp: cells_def)
  qed
  moreover have "word_at m' (k + 8) = word_at m (k + 8)" by (rule assms(2)) (simp add: cells_mem)
  ultimately show ?thesis using assms(1) by (simp add: is_list_def)
qed

definition only_changes :: "ptr set \<Rightarrow> Mem \<Rightarrow> Mem \<Rightarrow> bool" where
  "only_changes S m m' \<longleftrightarrow> (\<forall>x. x \<notin> S \<longrightarrow> word_at m' x = word_at m x)"

lemma only_changes_frame:
  "is_list m k ys \<Longrightarrow> only_changes S m m' \<Longrightarrow> set (cells k ys) \<inter> S = {} \<Longrightarrow> is_list m' k ys"
  by (erule is_list_frame) (auto simp: only_changes_def)

lemma only_changes_set_word: "only_changes S m m' \<Longrightarrow> a \<in> S \<Longrightarrow> only_changes S m (set_word a v m')"
  by (auto simp: only_changes_def)

lemma only_changes_refl: "only_changes S m m"
  by (simp add: only_changes_def)

lemma ADDTAIL_frame:
  assumes L: "is_list m l xs"
  shows "only_changes (set (cells l xs) \<union> {n, n + 4}) m (ADDTAIL l n m)"
proof -
  have "last ((l + 4) # xs) \<in> set (cells l xs)" using last_in [of l xs] by (auto simp: cells_def)
  moreover have "l + 12 \<in> set (cells l xs)" by (rule cells_mem)
  ultimately show ?thesis
    unfolding ADDTAIL_def Let_def is_listD(9) [OF L] set_Next_def set_Prev_def
    by (intro only_changes_set_word only_changes_refl) blast+
qed

lemma cell_of_links:
  assumes L: "is_list m l (us @ n # vs)"
  shows "hd (vs @ [l + 8]) + 4 \<in> set (cells l (us @ n # vs))"
    and "last ((l + 4) # us) \<in> set (cells l (us @ n # vs))"
  using hd_in [of vs l] last_in [of l us] by (auto simp: cells_def)

lemma REMOVENODE_frame:
  assumes L: "is_list m l (us @ n # vs)"
  shows "only_changes (set (cells l (us @ n # vs))) m (REMOVENODE n m)"
  using cell_of_links [OF L]
  unfolding REMOVENODE_def Let_def is_list_links [OF L] set_Next_def set_Prev_def
  by (intro only_changes_set_word only_changes_refl) blast+

lemma RemHead_frame:
  assumes L: "is_list m l xs"
  shows "only_changes (set (cells l xs)) m (snd (RemHead l m))"
proof (cases xs)
  case Nil
  then show ?thesis using RemHead_is_list [OF L] by (simp add: only_changes_refl)
next
  case (Cons x ys)
  have L': "is_list m l ([] @ x # ys)" using L Cons by simp
  have "hd (ys @ [l + 8]) + 4 \<in> set (cells l xs)" "l + 4 \<in> set (cells l xs)"
    using cell_of_links [OF L'] Cons by simp_all
  then show ?thesis
    using L Cons is_list_links(1) [OF L']
    by (simp only: RemHead_Cons snd_conv set_Next_def set_Prev_def)
      (intro only_changes_set_word only_changes_refl)
qed

section \<open>Counting and searching\<close>

lemma GetNodeCount_is_list:
  "is_list m l (us @ vs) \<Longrightarrow>
    GetNodeCount_loop m l (hd (vs @ [l + 8])) c = Some (c + word_of_nat (length vs))"
proof (induction vs arbitrary: us c)
  case Nil
  then show ?case by (simp add: GetNodeCount_loop.simps IsNode_def)
next
  case (Cons n vs)
  have "IsNode l n" using is_listD(5) [OF Cons.prems] by (auto simp: IsNode_def)
  then show ?case
    using Cons.IH [of "us @ [n]" "c + 1"] Cons.prems
    by (subst GetNodeCount_loop.simps) (simp add: is_list_links(1) [OF Cons.prems] add.assoc)
qed

lemma FindNodeFromHead_is_list:
  "is_list m l (us @ vs) \<Longrightarrow> FindNodeFromHead_loop m l (hd (vs @ [l + 8])) p
    = Some (if unat p < length vs then vs ! unat p else 0)"
proof (induction vs arbitrary: us p)
  case Nil
  then show ?case by (simp add: FindNodeFromHead_loop.simps IsNode_def)
next
  case (Cons n vs)
  have "IsNode l n" using is_listD(5) [OF Cons.prems] by (auto simp: IsNode_def)
  moreover have "unat p = Suc (unat (p - 1))" if "p \<noteq> 0"
    using that unat_gt_0 [of p] by (simp add: unat_minus_one)
  ultimately show ?case
    using Cons.IH [of "us @ [n]" "p - 1"] Cons.prems
    by (subst FindNodeFromHead_loop.simps) (auto simp add: is_list_links(1) [OF Cons.prems])
qed

lemma FindNodeFromTail_is_list:
  "is_list m l (us @ vs) \<Longrightarrow> FindNodeFromTail_loop m l (last ((l + 4) # us)) p
    = Some (if unat p < length us then rev us ! unat p else 0)"
proof (induction us arbitrary: vs p rule: rev_induct)
  case Nil
  then show ?case by (simp add: FindNodeFromTail_loop.simps IsNodeB_def)
next
  case (snoc n us)
  have L: "is_list m l (us @ n # vs)" using snoc.prems by simp
  have "IsNodeB l n" using is_listD(6) [OF L] by (auto simp: IsNodeB_def)
  moreover have "unat p = Suc (unat (p - 1))" if "p \<noteq> 0"
    using that unat_gt_0 [of p] by (simp add: unat_minus_one)
  ultimately show ?case
    using snoc.IH [of "n # vs" "p - 1"] L
    by (subst FindNodeFromTail_loop.simps) (auto simp add: is_list_links(2) [OF L])
qed

definition position_of :: "ptr \<Rightarrow> ptr list \<Rightarrow> nat \<Rightarrow> int" where
  "position_of n xs c = (if n \<in> set xs then sint (word_of_nat (c + length (takeWhile (\<lambda>x. x \<noteq> n) xs)) :: u32) else -1)"

lemma GetNodePosFromHead_is_list:
  "is_list m l (us @ vs) \<Longrightarrow> GetNodePosFromHead_loop m l n (hd (vs @ [l + 8])) (word_of_nat c)
    = Some (position_of n vs c)"
proof (induction vs arbitrary: us c)
  case Nil
  then show ?case by (simp add: GetNodePosFromHead_loop.simps IsNode_def position_of_def)
next
  case (Cons x vs)
  have "IsNode l x" using is_listD(5) [OF Cons.prems] by (auto simp: IsNode_def)
  then show ?case
    using Cons.IH [of "us @ [x]" "Suc c"] Cons.prems
    by (subst GetNodePosFromHead_loop.simps)
      (auto simp add: is_list_links(1) [OF Cons.prems] position_of_def add.commute)
qed

lemma GetNodePosFromTail_is_list:
  "is_list m l (us @ vs) \<Longrightarrow> GetNodePosFromTail_loop m l n (last ((l + 4) # us)) (word_of_nat c)
    = Some (position_of n (rev us) c)"
proof (induction us arbitrary: vs c rule: rev_induct)
  case Nil
  then show ?case by (simp add: GetNodePosFromTail_loop.simps IsNodeB_def position_of_def)
next
  case (snoc x us)
  have L: "is_list m l (us @ x # vs)" using snoc.prems by simp
  have "IsNodeB l x" using is_listD(6) [OF L] by (auto simp: IsNodeB_def)
  then show ?case
    using snoc.IH [of "x # vs" "Suc c"] L
    by (subst GetNodePosFromTail_loop.simps)
      (auto simp add: is_list_links(2) [OF L] position_of_def add.commute)
qed

text \<open>Every node of a list leads to the anchor of its own list.\<close>

lemma find_anchor_is_list:
  "is_list m l (us @ vs) \<Longrightarrow> find_anchor m (hd (vs @ [l + 8])) = Some (l + 8)"
proof (induction vs arbitrary: us)
  case Nil
  then show ?case by (simp add: find_anchor.simps is_listD(1) n_Next_def)
next
  case (Cons n vs)
  have "n_Next m n \<noteq> 0" using is_list_next_nonzero(1) [OF Cons.prems] by simp
  then show ?case
    using Cons.IH [of "us @ [n]"] Cons.prems
    by (subst find_anchor.simps) (simp add: is_list_links(1) [OF Cons.prems])
qed

lemma is_list_fields [simp]: "is_list (m\<lparr>n_Priority := f\<rparr>) l xs = is_list m l xs"
  by (simp add: is_list_def)

lemma SetNodePri_is_list:
  assumes L: "is_list m l (us @ n # vs)"
  shows "\<exists>m'. SetNodePri n pri m = Some (n_Priority m n, m')
      \<and> n_Priority m' = (n_Priority m)(n := pri)
      \<and> is_list m' l (rev (insert_at (\<lambda>x. pri \<le> n_Priority m x) n (rev (us @ vs))))"
proof -
  let ?m = "(REMOVENODE n m)\<lparr>n_Priority := (n_Priority m)(n := pri)\<rparr>"
  have R: "is_list ?m l (us @ vs)" using REMOVENODE_is_list [OF L] by simp
  have d: "distinct (cells l (us @ n # vs))" by (rule is_list_distinct [OF L])
  have f: "fresh l (us @ vs) n"
    using d is_listD(2) [OF L] by (auto simp: fresh_def cells_def)
  have nn: "n \<notin> set (us @ vs)" using is_listD(7) [OF L] by auto
  have "takeWhile (\<lambda>x. \<not> pri \<le> ((n_Priority m)(n := pri)) x) (rev (us @ vs))
      = takeWhile (\<lambda>x. \<not> pri \<le> n_Priority m x) (rev (us @ vs))"
    "dropWhile (\<lambda>x. \<not> pri \<le> ((n_Priority m)(n := pri)) x) (rev (us @ vs))
      = dropWhile (\<lambda>x. \<not> pri \<le> n_Priority m x) (rev (us @ vs))"
    using nn by (auto intro!: takeWhile_cong dropWhile_cong)
  then have same: "insert_at (\<lambda>x. pri \<le> ((n_Priority m)(n := pri)) x) n (rev (us @ vs))
      = insert_at (\<lambda>x. pri \<le> n_Priority m x) n (rev (us @ vs))"
    by (simp only: insert_at_def)
  have "find_anchor m (n_Next m n) = Some (l + 8)"
    using find_anchor_is_list [of m l "us @ [n]" vs] L by (simp add: is_list_links(1) [OF L])
  moreover obtain m' where "InsertNodeFromTail l n ?m = Some m'" "n_Priority m' = n_Priority ?m"
    "is_list m' l (rev (insert_at (\<lambda>x. n_Priority ?m n \<le> n_Priority ?m x) n (rev (us @ vs))))"
    using insertions_is_list(2) [OF R f] by blast
  ultimately show ?thesis
    using same by (auto simp: SetNodePri_def)
qed

lemma FindNamedNode_is_list:
  assumes L: "is_list m l xs"
  shows "FindNamedNode m l s = Some (case s of None \<Rightarrow> 0 | Some s \<Rightarrow>
    (case find (\<lambda>n. \<exists>name. n_Name m n = Some name \<and> strcasecmp s name = 0) xs of Some n \<Rightarrow> n | None \<Rightarrow> 0))"
proof (cases s)
  case (Some s)
  have eq: "(\<lambda>n. case n_Name m n of None \<Rightarrow> False | Some name \<Rightarrow> strcasecmp s name = 0)
      = (\<lambda>n. \<exists>name. n_Name m n = Some name \<and> strcasecmp s name = 0)"
    by (auto simp: fun_eq_iff split: option.splits)
  have "IsNode l n" if "find P xs = Some n" for P n
    using that is_listD(5) [OF L] by (auto simp: IsNode_def find_Some_iff) (metis nth_mem)
  then show ?thesis
    unfolding FindNamedNode_def Some option.case ScanList_first [OF L] eq
    by (auto simp: IsNode_def split: option.splits)
qed (simp add: FindNamedNode_def)


lemma link_before_anchor:
  assumes L: "is_list m l xs" and f: "fresh l xs new"
  shows "is_list (link_before (l + 8) new m) l (xs @ [new])"
proof -
  have L': "is_list m l (xs @ [])" and f': "fresh l (xs @ []) new" using L f by simp_all
  have ne: "l + 8 + 4 \<noteq> new" "l + 8 \<noteq> new"
    using f cells_mem(2,3) [of l xs] by (auto simp: fresh_def cells_def)
  have pv: "n_Prev m (l + 8) = last ((l + 4) # xs)"
    using is_listD(9) [OF L] by (simp add: n_Prev_def LastNode_def add.assoc)
  have "is_list (link_before (l + 8) new m) l (xs @ new # [])"
    by (rule insert_is_list [OF L' f' refl refl])
      (simp only: word_at_link_before [OF ne] pv append_Nil list.sel(1))
  then show ?thesis by simp
qed

lemma alpha_scan_is_list:
  assumes "is_list m l (us @ vs)" and "n_Name m n = Some b"
    and "\<And>x. x \<in> set vs \<Longrightarrow> n_Name m x \<noteq> None"
  shows "alpha_scan m l n (hd (vs @ [l + 8])) = Some
    (case find (\<lambda>x. strcasecmp (the (n_Name m x)) b \<ge> 0) vs of Some x \<Rightarrow> x | None \<Rightarrow> l + 8)"
  using assms
proof (induction vs arbitrary: us)
  case Nil
  then show ?case by (simp add: alpha_scan.simps IsNode_def)
next
  case (Cons x vs)
  have "IsNode l x" using is_listD(5) [OF Cons.prems(1)] by (auto simp: IsNode_def)
  moreover obtain a where "n_Name m x = Some a" using Cons.prems(3) [of x] by auto
  moreover have "alpha_scan m l n (hd (vs @ [l + 8])) = Some
      (case find (\<lambda>x. strcasecmp (the (n_Name m x)) b \<ge> 0) vs of Some x \<Rightarrow> x | None \<Rightarrow> l + 8)"
    using Cons.IH [of "us @ [x]"] Cons.prems by simp
  ultimately show ?case
    using Cons.prems(2) by (subst alpha_scan.simps) (simp add: is_list_links(1) [OF Cons.prems(1)])
qed

lemma InsertNodeAlpha_is_list:
  assumes L: "is_list m l xs" and f: "fresh l xs n" and b: "n_Name m n = Some b"
    and nm: "\<And>x. x \<in> set xs \<Longrightarrow> n_Name m x \<noteq> None"
  shows "\<exists>m'. InsertNodeAlpha l n m = Some m'
    \<and> is_list m' l (insert_at (\<lambda>x. strcasecmp (the (n_Name m x)) b \<ge> 0) n xs)"
proof -
  let ?stop = "\<lambda>x. strcasecmp (the (n_Name m x)) b \<ge> 0"
  let ?old = "case find ?stop xs of Some x \<Rightarrow> x | None \<Rightarrow> l + 8"
  have "alpha_scan m l n (FirstNode m l) = Some ?old"
    using alpha_scan_is_list [of m l "[]" xs n b] L b nm by (simp add: is_listD(8) [OF L])
  moreover have "is_list (link_before ?old n m) l (insert_at ?stop n xs)"
  proof (cases "find ?stop xs")
    case None
    then show ?thesis
      using link_before_anchor [OF L f] find_split [where stop = ?stop and xs = xs and n = n] by simp
  next
    case (Some x)
    then obtain us vs where "xs = us @ x # vs" "insert_at ?stop n xs = us @ n # x # vs"
      using find_split [where stop = ?stop and xs = xs and n = n] by auto
    then show ?thesis using link_before_is_list [of m l us x vs n] L f Some by simp
  qed
  ultimately show ?thesis by (simp add: InsertNodeAlpha_def InsertNodeBefore_def)
qed

section \<open>The queue interface\<close>

text \<open>What the message ports, the semaphores and the timer rely on: a list is a queue of
  nodes. \<open>rep\<close> relates the memory to the queued nodes, \<open>ok\<close> says which nodes may
  be added.\<close>

fun drain :: "(ptr \<Rightarrow> 'm \<Rightarrow> ptr \<times> 'm) \<Rightarrow> ptr \<Rightarrow> nat \<Rightarrow> 'm \<Rightarrow> ptr list \<times> 'm" where
  "drain rm l 0 m = ([], m)"
| "drain rm l (Suc k) m =
     (let (x, m) = rm l m; (xs, m) = drain rm l k m in (x # xs, m))"

locale node_queue =
  fixes rep :: "'m \<Rightarrow> ptr \<Rightarrow> ptr list \<Rightarrow> bool"
    and ok :: "ptr \<Rightarrow> ptr list \<Rightarrow> ptr \<Rightarrow> bool"
    and put :: "ptr \<Rightarrow> ptr \<Rightarrow> 'm \<Rightarrow> 'm"
    and get :: "ptr \<Rightarrow> 'm \<Rightarrow> ptr \<times> 'm"
  assumes put: "rep m l xs \<Longrightarrow> ok l xs n \<Longrightarrow> rep (put l n m) l (xs @ [n])"
    and get: "rep m l (x # xs) \<Longrightarrow> fst (get l m) = x \<and> rep (snd (get l m)) l xs"
    and get_empty: "rep m l [] \<Longrightarrow> get l m = (0, m)"
begin

lemma put_all:
  "rep m l xs \<Longrightarrow> (\<And>ys n zs. ns = ys @ n # zs \<Longrightarrow> ok l (xs @ ys) n)
    \<Longrightarrow> rep (fold (put l) ns m) l (xs @ ns)"
proof (induction ns arbitrary: m xs)
  case (Cons n ns)
  have "ok l xs n" using Cons.prems(2) [of "[]" n ns] by simp
  then have "rep (put l n m) l (xs @ [n])" using Cons.prems(1) by (rule put [rotated])
  moreover have "ok l ((xs @ [n]) @ ys) k" if "ns = ys @ k # zs" for ys k zs
    using Cons.prems(2) [of "n # ys" k zs] that by simp
  ultimately have "rep (fold (put l) ns (put l n m)) l ((xs @ [n]) @ ns)" by (rule Cons.IH)
  then show ?case by simp
qed simp

lemma drain_all: "rep m l xs \<Longrightarrow> fst (drain get l (length xs) m) = xs
    \<and> rep (snd (drain get l (length xs) m)) l []"
proof (induction xs arbitrary: m)
  case (Cons x xs)
  then show ?case using get [OF Cons.prems] Cons.IH [of "snd (get l m)"]
    by (simp add: case_prod_beta Let_def)
qed simp

lemma fifo:
  assumes "rep m l xs" and "\<And>ys n zs. ns = ys @ n # zs \<Longrightarrow> ok l (xs @ ys) n"
  shows "fst (drain get l (length xs + length ns) (fold (put l) ns m)) = xs @ ns"
    and "get l (snd (drain get l (length xs + length ns) (fold (put l) ns m))) =
      (0, snd (drain get l (length xs + length ns) (fold (put l) ns m)))"
proof -
  have "rep (fold (put l) ns m) l (xs @ ns)" by (rule put_all [OF assms])
  from drain_all [OF this] get_empty
  show "fst (drain get l (length xs + length ns) (fold (put l) ns m)) = xs @ ns"
    "get l (snd (drain get l (length xs + length ns) (fold (put l) ns m))) =
      (0, snd (drain get l (length xs + length ns) (fold (put l) ns m)))" by simp_all
qed

end

interpretation tail_queue: node_queue is_list fresh AddTail RemHead
proof unfold_locales
  fix m l xs n assume "is_list m l xs" "fresh l xs n"
  then show "is_list (AddTail l n m) l (xs @ [n])" by (simp add: AddTail_def ADDTAIL_is_list)
next
  fix m l x xs assume "is_list m l (x # xs)"
  from RemHead_is_list [OF this]
  show "fst (RemHead l m) = x \<and> is_list (snd (RemHead l m)) l xs" by simp
next
  fix m l assume "is_list m l []"
  from RemHead_is_list [OF this] show "RemHead l m = (0, m)" by simp
qed

lemma fresh_rev: "fresh l (rev xs) = fresh l xs"
  by (simp add: fresh_def cells_def fun_eq_iff)

text \<open>The same list read from its tail.\<close>

interpretation head_queue: node_queue "\<lambda>m l xs. is_list m l (rev xs)" fresh AddHead RemTail
proof unfold_locales
  fix m l xs n assume "is_list m l (rev xs)" "fresh l xs n"
  then show "is_list (AddHead l n m) l (rev (xs @ [n]))"
    by (simp add: AddHead_def ADDHEAD_is_list fresh_rev)
next
  fix m l x xs assume "is_list m l (rev (x # xs))"
  from RemTail_is_list [OF this]
  show "fst (RemTail l m) = x \<and> is_list (snd (RemTail l m)) l (rev xs)" by (simp add: butlast_append)
next
  fix m l assume "is_list m l (rev [])"
  from RemTail_is_list [OF this] show "RemTail l m = (0, m)" by simp
qed

section \<open>Properties\<close>

text \<open>An example memory for the witnesses: the list at 100 holds the nodes 1000 and 2000.\<close>

definition example_mem :: Mem where
  "example_mem = \<lparr>word_at = (\<lambda>_. 7)(104 := 1000, 108 := 0, 112 := 2000, 1000 := 2000, 1004 := 104,
     2000 := 108, 2004 := 1000), n_Priority = (\<lambda>_. 0)(1000 := 9, 2000 := 3, 3000 := 9),
     n_Name = (\<lambda>_. None)(1000 := Some ''abc'')\<rparr>"

lemma example_is_list: "is_list example_mem 100 [1000, 2000]"
  by (simp add: is_list_def example_mem_def cells_def)

lemma example_fresh: "fresh 100 [1000, 2000] 3000"
  by (simp add: fresh_def cells_def)

text \<open>C5: the list operations refine the operations on sequences of nodes. On any well linked
  list, \<open>AddHead\<close> and \<open>AddTail\<close> of a node that shares no word with it prepend and append
  it, \<open>RemHead\<close> and \<open>RemTail\<close> return the first and the last node (null when there is
  none) and leave the rest, \<open>RemNode\<close> removes just the node it is given, wherever it is, and
  the result is well linked again.\<close>

theorem list_operations_refine:
  assumes "is_list m l xs" and "fresh l xs n"
  shows "is_list (AddHead l n m) l (n # xs) \<and> is_list (AddTail l n m) l (xs @ [n])
    \<and> (case xs of [] \<Rightarrow> RemHead l m = (0, m)
        | x # ys \<Rightarrow> fst (RemHead l m) = x \<and> is_list (snd (RemHead l m)) l ys)
    \<and> (if xs = [] then RemTail l m = (0, m)
        else fst (RemTail l m) = last xs \<and> is_list (snd (RemTail l m)) l (butlast xs))
    \<and> (\<forall>us x vs. xs = us @ x # vs \<longrightarrow> is_list (RemNode x m) l (us @ vs))
    \<and> (IsListEmpty m l \<longleftrightarrow> xs = [])"
proof -
  have "IsListEmpty m l \<longleftrightarrow> xs = []"
    using is_listD(5,8) [OF assms(1)] by (cases xs) (auto simp: IsListEmpty_def IsNode_def)
  then show ?thesis
    using ADDHEAD_is_list [OF assms] ADDTAIL_is_list [OF assms] RemHead_is_list [OF assms(1)]
      RemTail_is_list [OF assms(1)] REMOVENODE_is_list [of m l] assms(1)
    unfolding AddHead_def AddTail_def RemNode_def by blast
qed

theorem list_operations_refine_witness:
  "is_list (AddTail 100 3000 example_mem) 100 [1000, 2000, 3000]"
  using list_operations_refine [OF example_is_list example_fresh] by simp

text \<open>Lists do not interfere. Adding a node to the tail of a list, removing its head or
  removing any of its nodes leaves every other list whose words are disjoint from the list and the
  new node exactly as it was.\<close>

theorem lists_are_independent:
  assumes "is_list m l xs" and "is_list m k ys"
    and "set (cells k ys) \<inter> (set (cells l xs) \<union> {n, n + 4}) = {}"
  shows "is_list (AddTail l n m) k ys \<and> is_list (snd (RemHead l m)) k ys
    \<and> (\<forall>x \<in> set xs. is_list (RemNode x m) k ys)"
proof -
  have "is_list (REMOVENODE x m) k ys" if x: "x \<in> set xs" for x
  proof -
    obtain us vs where "xs = us @ x # vs" using split_list [OF x] by blast
    then show ?thesis
      using only_changes_frame [OF assms(2) REMOVENODE_frame [of m l us x vs]] assms(1,3) by auto
  qed
  moreover have "is_list (ADDTAIL l n m) k ys"
    using assms by (intro only_changes_frame [OF assms(2) ADDTAIL_frame])
  moreover have "is_list (snd (RemHead l m)) k ys"
    using assms by (intro only_changes_frame [OF assms(2) RemHead_frame]) auto
  ultimately show ?thesis by (simp add: AddTail_def RemNode_def)
qed

theorem lists_are_independent_witness:
  "is_list (AddTail 100 3000 (PrepList 200 example_mem)) 200 []"
  by (rule conjunct1 [OF lists_are_independent [where l = 100 and xs = "[1000, 2000]"]])
    (simp_all add: is_list_def PrepList_def example_mem_def cells_def)

text \<open>A list is a first-in first-out queue. Nodes added with \<open>AddTail\<close> to a list that
  holds \<open>xs\<close> are returned by \<open>RemHead\<close> after \<open>xs\<close> and in the order they were
  added, and after that \<open>RemHead\<close> returns null.\<close>

theorem AddTail_RemHead_fifo:
  assumes "is_list m l xs" and "\<And>ys n zs. ns = ys @ n # zs \<Longrightarrow> fresh l (xs @ ys) n"
  shows "fst (drain RemHead l (length xs + length ns) (fold (AddTail l) ns m)) = xs @ ns
    \<and> fst (RemHead l (snd (drain RemHead l (length xs + length ns) (fold (AddTail l) ns m)))) = 0"
  using tail_queue.fifo [OF assms] by simp

theorem AddTail_RemHead_fifo_witness:
  "fst (drain RemHead 100 3 (fold (AddTail 100) [3000] example_mem)) = [1000, 2000, 3000]"
proof -
  have "fst (drain RemHead 100 (length [1000, 2000 :: ptr] + length [3000 :: ptr])
      (fold (AddTail 100) [3000] example_mem)) = [1000, 2000] @ [3000]"
    by (rule conjunct1 [OF AddTail_RemHead_fifo [OF example_is_list]])
      (use example_fresh in \<open>auto simp: Cons_eq_append_conv\<close>)
  then show ?thesis by (simp add: numeral_3_eq_3)
qed

text \<open>Sorted by descending priority.\<close>

definition by_pri :: "Mem \<Rightarrow> ptr list \<Rightarrow> bool" where
  "by_pri m xs \<longleftrightarrow> sorted_wrt (\<lambda>a b. n_Priority m a \<ge> n_Priority m b) xs"

lemma sorted_takeWhile_filter:
  assumes "sorted_wrt R xs" and "\<And>a b. R a b \<Longrightarrow> P b \<Longrightarrow> P a"
  shows "takeWhile P xs = filter P xs" and "dropWhile P xs = filter (\<lambda>x. \<not> P x) xs"
proof -
  have "takeWhile P xs = filter P xs \<and> dropWhile P xs = filter (\<lambda>x. \<not> P x) xs"
    using assms(1)
  proof (induction xs)
    case (Cons x xs)
    show ?case
    proof (cases "P x")
      case False
      then have "\<forall>y \<in> set xs. \<not> P y" using Cons.prems assms(2) by auto
      then show ?thesis using False by (metis dropWhile.simps(2) filter.simps(2) filter_False filter_True takeWhile.simps(2))
    qed (use Cons in simp)
  qed simp
  then show "takeWhile P xs = filter P xs" "dropWhile P xs = filter (\<lambda>x. \<not> P x) xs" by simp_all
qed

lemma insert_tail_filter:
  assumes "by_pri m xs"
  shows "rev (insert_at (\<lambda>x. p \<le> n_Priority m x) n (rev xs))
    = filter (\<lambda>x. p \<le> n_Priority m x) xs @ n # filter (\<lambda>x. n_Priority m x < p) xs"
proof -
  have "sorted_wrt (\<lambda>a b. n_Priority m b \<ge> n_Priority m a) (rev xs)"
    using assms by (simp add: by_pri_def sorted_wrt_rev)
  note this' = sorted_takeWhile_filter [OF this, of "\<lambda>x. \<not> p \<le> n_Priority m x"]
  have "takeWhile (\<lambda>x. \<not> p \<le> n_Priority m x) (rev xs) = filter (\<lambda>x. \<not> p \<le> n_Priority m x) (rev xs)"
    "dropWhile (\<lambda>x. \<not> p \<le> n_Priority m x) (rev xs) = filter (\<lambda>x. p \<le> n_Priority m x) (rev xs)"
    using this' by (metis (mono_tags, lifting) order_trans filter_cong)+
  then show ?thesis by (simp add: insert_at_def rev_filter not_le)
qed

lemma insert_head_filter:
  assumes "by_pri m xs"
  shows "insert_at (\<lambda>x. n_Priority m x \<le> p) n xs
    = filter (\<lambda>x. p < n_Priority m x) xs @ n # filter (\<lambda>x. n_Priority m x \<le> p) xs"
proof -
  note this' = sorted_takeWhile_filter [OF assms [unfolded by_pri_def], of "\<lambda>x. \<not> n_Priority m x \<le> p"]
  have "takeWhile (\<lambda>x. \<not> n_Priority m x \<le> p) xs = filter (\<lambda>x. \<not> n_Priority m x \<le> p) xs"
    "dropWhile (\<lambda>x. \<not> n_Priority m x \<le> p) xs = filter (\<lambda>x. n_Priority m x \<le> p) xs"
    using this' by (metis (mono_tags, lifting) order_trans filter_cong)+
  then show ?thesis by (simp add: insert_at_def not_le)
qed

lemma by_pri_insert:
  assumes "by_pri m xs"
  shows "by_pri m (filter (\<lambda>x. n_Priority m n \<le> n_Priority m x) xs @ n # filter (\<lambda>x. n_Priority m x < n_Priority m n) xs)"
    and "by_pri m (filter (\<lambda>x. n_Priority m n < n_Priority m x) xs @ n # filter (\<lambda>x. n_Priority m x \<le> n_Priority m n) xs)"
  using assms by (auto simp: by_pri_def sorted_wrt_append sorted_wrt_filter)

text \<open>C6: the priority insertions. On a list sorted by descending priority,
  \<open>InsertNodeFromTail\<close> puts the new node after every node of at least its priority,
  \<open>InsertNodeFromHead\<close> before every node of at most its priority; both end, and the list
  stays sorted and well linked with the same nodes besides the new one.\<close>

theorem priority_insertion:
  assumes "is_list m l xs" and "by_pri m xs" and "fresh l xs n"
  shows "(\<exists>m'. InsertNodeFromTail l n m = Some m' \<and> n_Priority m' = n_Priority m
      \<and> is_list m' l (filter (\<lambda>x. n_Priority m n \<le> n_Priority m x) xs @ n
          # filter (\<lambda>x. n_Priority m x < n_Priority m n) xs)
      \<and> by_pri m' (filter (\<lambda>x. n_Priority m n \<le> n_Priority m x) xs @ n
          # filter (\<lambda>x. n_Priority m x < n_Priority m n) xs))
    \<and> (\<exists>m'. InsertNodeFromHead l n m = Some m' \<and> n_Priority m' = n_Priority m
      \<and> is_list m' l (filter (\<lambda>x. n_Priority m n < n_Priority m x) xs @ n
          # filter (\<lambda>x. n_Priority m x \<le> n_Priority m n) xs)
      \<and> by_pri m' (filter (\<lambda>x. n_Priority m n < n_Priority m x) xs @ n
          # filter (\<lambda>x. n_Priority m x \<le> n_Priority m n) xs))"
  using insertions_is_list(1,2) [OF assms(1,3)] by_pri_insert [OF assms(2), of n]
  unfolding insert_tail_filter [OF assms(2)] insert_head_filter [OF assms(2)]
  by (auto simp: by_pri_def)

theorem priority_insertion_witness:
  "\<exists>m'. InsertNodeFromTail 100 3000 example_mem = Some m' \<and> is_list m' 100 [1000, 3000, 2000]"
proof -
  have "by_pri example_mem [1000, 2000]" by (simp add: by_pri_def example_mem_def)
  from conjunct1 [OF priority_insertion [OF example_is_list this example_fresh]]
  show ?thesis by (auto simp: example_mem_def)
qed

text \<open>\<open>SetNodePri\<close> finds the list its node is on from the node alone, and moves the node
  to where its new priority belongs in that list: on a list sorted by descending priority the
  others keep their order, the node comes after those of at least its new priority, the list
  is sorted again, and the old priority is returned.\<close>

theorem SetNodePri_moves:
  assumes "is_list m l (us @ n # vs)" and "by_pri m (us @ n # vs)"
  shows "\<exists>m' ys. SetNodePri n pri m = Some (n_Priority m n, m')
    \<and> n_Priority m' = (n_Priority m)(n := pri)
    \<and> ys = filter (\<lambda>x. pri \<le> n_Priority m x) (us @ vs) @ n # filter (\<lambda>x. n_Priority m x < pri) (us @ vs)
    \<and> is_list m' l ys \<and> by_pri m' ys"
proof -
  let ?ys = "filter (\<lambda>x. pri \<le> n_Priority m x) (us @ vs) @ n # filter (\<lambda>x. n_Priority m x < pri) (us @ vs)"
  have s: "by_pri m (us @ vs)" using assms(2) by (auto simp: by_pri_def sorted_wrt_append)
  have n: "n \<notin> set (us @ vs)" using is_listD(7) [OF assms(1)] by auto
  have "by_pri m' ?ys" if p: "n_Priority m' = (n_Priority m)(n := pri)" for m'
  proof -
    have "by_pri m' (us @ vs)"
      using s unfolding by_pri_def p by (rule sorted_wrt_mono_rel [rotated]) (use n in auto)
    moreover have "filter (\<lambda>x. n_Priority m' n \<le> n_Priority m' x) (us @ vs) = filter (\<lambda>x. pri \<le> n_Priority m x) (us @ vs)"
      "filter (\<lambda>x. n_Priority m' x < n_Priority m' n) (us @ vs) = filter (\<lambda>x. n_Priority m x < pri) (us @ vs)"
      using n by (auto simp only: p fun_upd_same intro!: filter_cong) (metis fun_upd_other)+
    ultimately show ?thesis using by_pri_insert(1) [of m' "us @ vs" n] by (simp only:)
  qed
  then show ?thesis
    using SetNodePri_is_list [OF assms(1), of pri] unfolding insert_tail_filter [OF s] by blast
qed


theorem SetNodePri_moves_witness:
  "\<exists>m'. SetNodePri 1000 2 example_mem = Some (9, m') \<and> is_list m' 100 [2000, 1000]"
proof -
  have "by_pri example_mem ([] @ 1000 # [2000])" by (simp add: by_pri_def example_mem_def)
  from SetNodePri_moves [OF _ this, of 100 2] example_is_list
  show ?thesis by (auto simp: example_mem_def)
qed

text \<open>The searches of a list end and agree with the sequence of its nodes: the count is its
  length (modulo \<open>2 ^ 32\<close>), the node at a position is the element of that index from the head
  or the tail, or null when there is none, the position of a node is its index or -1, and
  \<open>FindNamedNode\<close> returns the first node whose name agrees up to case, or null.\<close>

theorem list_searches:
  assumes "is_list m l xs" and "length xs < 2 ^ 31"
  shows "GetNodeCount m l = Some (word_of_nat (length xs))
    \<and> FindNodeFromHead m l p = Some (if unat p < length xs then xs ! unat p else 0)
    \<and> FindNodeFromTail m l p = Some (if unat p < length xs then rev xs ! unat p else 0)
    \<and> GetNodePosFromHead m l n =
        Some (if n \<in> set xs then int (length (takeWhile (\<lambda>x. x \<noteq> n) xs)) else -1)
    \<and> GetNodePosFromTail m l n =
        Some (if n \<in> set xs then int (length (takeWhile (\<lambda>x. x \<noteq> n) (rev xs))) else -1)
    \<and> FindNamedNode m l (Some s) = Some
        (case find (\<lambda>n. \<exists>name. n_Name m n = Some name \<and> strcasecmp s name = 0) xs of Some n \<Rightarrow> n | None \<Rightarrow> 0)"
proof -
  have L0: "is_list m l ([] @ xs)" and L1: "is_list m l (xs @ [])" using assms(1) by simp_all
  have pos: "position_of n ys 0 = (if n \<in> set ys then int (length (takeWhile (\<lambda>x. x \<noteq> n) ys)) else -1)"
    if "length ys < 2 ^ 31" for ys
  proof -
    have "length (takeWhile (\<lambda>x. x \<noteq> n) ys) < 2 ^ 31"
      using that length_takeWhile_le [of "\<lambda>x. x \<noteq> n" ys] by linarith
    then show ?thesis by (simp add: position_of_def sint_small unat_of_nat)
  qed
  show ?thesis
    using GetNodeCount_is_list [OF L0, of 0] FindNodeFromHead_is_list [OF L0, of p]
      FindNodeFromTail_is_list [OF L1, of p] GetNodePosFromHead_is_list [OF L0, of n 0]
      GetNodePosFromTail_is_list [OF L1, of n 0] pos [of xs] pos [of "rev xs"] assms(2)
      FindNamedNode_is_list [OF assms(1), of "Some s"]
    by (simp add: GetNodeCount_def FindNodeFromHead_def FindNodeFromTail_def GetNodePosFromHead_def
        GetNodePosFromTail_def is_listD(8,9) [OF assms(1)])
qed

theorem list_searches_witness:
  "GetNodePosFromTail example_mem 100 1000 = Some 1 \<and> FindNamedNode example_mem 100 (Some ''ABC'') = Some 1000"
proof -
  note T = list_searches [OF example_is_list, of 0 1000 "''ABC''"]
  have "toupper CHR ''A'' = toupper CHR ''a'' \<and> toupper CHR ''B'' = toupper CHR ''b'' \<and> toupper CHR ''C'' = toupper CHR ''c''"
    by (simp add: toupper_def)
  with T show ?thesis by (simp add: example_mem_def)
qed

end
