(* ===== verification/Kernel.thy ===== *)
theory Kernel
  imports Prelude
begin

text \<open>
  What the kernel components share: the errors they return (\<open>kernel/operror.h\<close>,
  \<open>MakeKErr\<close>), as values of a datatype, and results, which are an error on the left or a
  value on the right. The release configuration of the sources is modelled: the \<open>DBUG\<close>,
  \<open>INFO\<close> and \<open>Log...\<close> macros are empty and \<open>BUILD_PARANOIA\<close> is off.
\<close>

datatype kerr =
    BADITEM | BADTAG | BADTAGVAL | BADPRIV | BADPTR | BADNAME | BADSIZE | BADSUBTYPE
  | NOMEM | NOTOWNER | NOSUPPORT | ABORTED | NOSIGNALS | ILLEGALSIGNAL
  | ER_Kr_BadLockArg | ER_Kr_CantSetOwner | ER_Kr_RplyPortNeeded | ER_Kr_ReplyPortNeeded
  | ER_Kr_MsgSent | ER_Kr_CantSendMsg | ER_Kr_BadMemCmd | ER_Kr_ItemNotOpen | ER_Kr_UniqueItemExists
  | ER_Kr_CantRecursiveOpen | ER_Kr_LogicalError | ER_Kr_BadPriority | ER_NotFound | ER_Busy
  | ER_Kr_RsrcTblOvrFlw | ER_Kr_MsgNotOnPort | ER_Kr_NoReplyPort | ER_Kr_MsgPortNotEmpty | ER_Kr_CantOpen | KILLED
  | ER_IONotDone | ER_DeviceOffline | BADIOARG | BADCOMMAND

type_synonym 'a res = "kerr + 'a"

text \<open>Tasks are named by the address of their task structure.\<close>

type_synonym task = u32

text \<open>\<open>t_WaitItem\<close>: the item a task waits for (or -1), or the error that ended the wait.\<close>

datatype wait_item = WaitItem int | WaitErr kerr

end
