(* ===== verification/Semaphores.thy ===== *)
theory Semaphores
  imports Kernel
begin

text \<open>
  Semaphores (\<open>folios/kernel/semaphore.c\<close>): nested exclusive and shared locks with a queue
  of waiting tasks. The waiting queue and the list of shared lockers are lists of their nodes,
  in list order. \<open>internalLockSemaphore\<close> is split where it sleeps: the part before
  \<open>SleepTask\<close> and the part the task runs when it is woken.
\<close>

record SharedLocker =
  sl_Task :: task
  sl_NestCnt :: u32

record SemaphoreWaitNode =
  swn_Task :: task
  swn_Shared :: bool

text \<open>\<open>sem_SharedRead\<close> is the bit \<open>SEMAPHORE_SHAREDREAD\<close> of the node flags.\<close>

record Semaphore =
  sem_Item :: int
  sem_Locker :: "task option"
  sem_NestCnt :: u32
  sem_SharedRead :: bool
  sem_UserData :: u32
  sem_TaskWaitingList :: "SemaphoreWaitNode list"
  sem_SharedLockers :: "SharedLocker list"

text \<open>A semaphore with the part of the task states it changes: what each task waits for, and
  which tasks sleep in the semaphore's queue.\<close>

record World =
  sem :: Semaphore
  t_WaitItem :: "task \<Rightarrow> wait_item"
  asleep :: "task set"

definition SEM_WAIT :: u32 where "SEM_WAIT = 1"
definition SEM_SHAREDREAD :: u32 where "SEM_SHAREDREAD = 2"

datatype sem_tag = CREATESEMAPHORE_TAG_USERDATA | OTHER_SEM_TAG

definition icsem_c :: "Semaphore \<Rightarrow> sem_tag \<Rightarrow> u32 \<Rightarrow> Semaphore res" where
  "icsem_c s tag arg = (case tag of
     CREATESEMAPHORE_TAG_USERDATA \<Rightarrow> Inr (s\<lparr>sem_UserData := arg\<rparr>)
   | OTHER_SEM_TAG \<Rightarrow> Inl BADTAG)"

text \<open>\<open>TagProcessor\<close> calls the callback for each tag until one is refused.\<close>

fun process_tags :: "Semaphore \<Rightarrow> (sem_tag \<times> u32) list \<Rightarrow> Semaphore res" where
  "process_tags s [] = Inr s"
| "process_tags s ((tag, arg) # tags) =
     (case icsem_c s tag arg of Inl e \<Rightarrow> Inl e | Inr s \<Rightarrow> process_tags s tags)"

text \<open>The new semaphore is also inserted in the kernel's list of semaphores, which is given and
  returned as the list of semaphore items by descending priority.\<close>

definition internalCreateSemaphore ::
    "Semaphore \<Rightarrow> (sem_tag \<times> u32) list \<Rightarrow> (int \<Rightarrow> u8) \<Rightarrow> int list \<Rightarrow> (int \<times> Semaphore \<times> int list) res" where
  "internalCreateSemaphore s tags pri kb_Semaphores =
     (case process_tags s tags of
        Inl e \<Rightarrow> Inl e
      | Inr s \<Rightarrow>
          let s = s\<lparr>sem_TaskWaitingList := [], sem_SharedLockers := []\<rparr>;
              before = takeWhile (\<lambda>i. \<not> pri i \<ge> pri (sem_Item s)) (rev kb_Semaphores);
              after = dropWhile (\<lambda>i. \<not> pri i \<ge> pri (sem_Item s)) (rev kb_Semaphores)
          in Inr (sem_Item s, s, rev (before @ sem_Item s # after)))"

text \<open>The list after \<open>GetSharedLocker\<close>, which holds a node of the task; \<open>None\<close> when there is
  none and memory for one cannot be allocated. \<open>with_locker\<close> updates the node it returns.\<close>

definition GetSharedLocker :: "SharedLocker list \<Rightarrow> task \<Rightarrow> bool \<Rightarrow> SharedLocker list option" where
  "GetSharedLocker ls t allocated =
     (if \<exists>sl \<in> set ls. sl_Task sl = t then Some ls
      else if \<not> allocated then None
      else Some (\<lparr>sl_Task = t, sl_NestCnt = 0\<rparr> # ls))"

fun with_locker :: "task \<Rightarrow> (SharedLocker \<Rightarrow> SharedLocker) \<Rightarrow> SharedLocker list \<Rightarrow> SharedLocker list" where
  "with_locker t f [] = []"
| "with_locker t f (sl # ls) = (if sl_Task sl = t then f sl # ls else sl # with_locker t f ls)"

definition find_locker :: "SharedLocker list \<Rightarrow> task \<Rightarrow> SharedLocker option" where
  "find_locker ls t = find (\<lambda>sl. sl_Task sl = t) ls"

abbreviation bump :: "SharedLocker \<Rightarrow> SharedLocker" where
  "bump sl \<equiv> sl\<lparr>sl_NestCnt := sl_NestCnt sl + 1\<rparr>"

text \<open>What a call that may sleep does: it returns, or the task sleeps.\<close>

datatype outcome = Returned "int res" | Sleeping

definition sleep_on :: "task \<Rightarrow> bool \<Rightarrow> World \<Rightarrow> outcome \<times> World" where
  "sleep_on ct sharedReq w =
     (Sleeping, w\<lparr>sem := (sem w)\<lparr>sem_TaskWaitingList :=
          sem_TaskWaitingList (sem w) @ [\<lparr>swn_Task = ct, swn_Shared = sharedReq\<rparr>]\<rparr>,
        t_WaitItem := (t_WaitItem w)(ct := WaitItem (sem_Item (sem w))),
        asleep := insert ct (asleep w)\<rparr>)"

definition internalLockSemaphore :: "task \<Rightarrow> u32 \<Rightarrow> bool \<Rightarrow> World \<Rightarrow> outcome \<times> World" where
  "internalLockSemaphore ct flags allocated w =
     (let s = sem w; sharedReq = (flags AND SEM_SHAREDREAD \<noteq> 0) in
      if sem_Locker s = None then
        let s = s\<lparr>sem_Locker := Some ct, sem_NestCnt := 1\<rparr>;
            s = (if sharedReq then s\<lparr>sem_SharedRead := True\<rparr> else s)
        in (Returned (Inr 1), w\<lparr>sem := s\<rparr>)
      else
        let sharedState = sem_SharedRead s in
        if sem_Locker s = Some ct then
          if sharedState = sharedReq \<or> (sharedReq \<and> \<not> sharedState)
          then (Returned (Inr 1), w\<lparr>sem := s\<lparr>sem_NestCnt := sem_NestCnt s + 1\<rparr>\<rparr>)
          else (Returned (Inl ER_Kr_BadLockArg), w)
        else
          let wait = (\<lambda>w. if flags AND SEM_WAIT = 0 then (Returned (Inr 0), w)
                          else sleep_on ct sharedReq w)
          in if sharedReq \<and> sharedState then
               case GetSharedLocker (sem_SharedLockers s) ct allocated of
                 None \<Rightarrow> (Returned (Inl NOMEM), w)
               | Some ls \<Rightarrow>
                   let nested = (case find_locker ls ct of None \<Rightarrow> False | Some sl \<Rightarrow> sl_NestCnt sl \<noteq> 0)
                   in if nested \<or> sem_TaskWaitingList s = []
                      then (Returned (Inr 1), w\<lparr>sem := s\<lparr>sem_SharedLockers := with_locker ct bump ls\<rparr>\<rparr>)
                      else wait (w\<lparr>sem := s\<lparr>sem_SharedLockers := ls\<rparr>\<rparr>)
             else wait w)"

text \<open>The end of \<open>internalLockSemaphore\<close>, run by the task when it has been woken.\<close>

definition internalLockSemaphore_woken :: "task \<Rightarrow> World \<Rightarrow> int res \<times> World" where
  "internalLockSemaphore_woken ct w =
     (let result = t_WaitItem w ct; w = w\<lparr>t_WaitItem := (t_WaitItem w)(ct := WaitItem (-1))\<rparr>
      in (case result of WaitErr e \<Rightarrow> Inl e | WaitItem _ \<Rightarrow> Inr 1, w))"

definition externalLockSemaphore :: "bool \<Rightarrow> task \<Rightarrow> u32 \<Rightarrow> bool \<Rightarrow> World \<Rightarrow> outcome \<times> World" where
  "externalLockSemaphore is_semaphore ct flags allocated w =
     (if \<not> is_semaphore then (Returned (Inl BADITEM), w)
      else if flags AND NOT (SEM_WAIT OR SEM_SHAREDREAD) \<noteq> 0 then (Returned (Inl ER_Kr_BadLockArg), w)
      else internalLockSemaphore ct flags allocated w)"

definition NewReadyTask :: "task \<Rightarrow> World \<Rightarrow> World" where
  "NewReadyTask t w = w\<lparr>asleep := asleep w - {t}\<rparr>"

text \<open>The loop that wakes the shared clients at the head of the queue. \<open>allocated t\<close> says
  whether the memory for a locker node of task \<open>t\<close> can be had.\<close>

fun wake_shared :: "(task \<Rightarrow> bool) \<Rightarrow> SemaphoreWaitNode list \<Rightarrow> World \<Rightarrow> World" where
  "wake_shared allocated [] w = w\<lparr>sem := (sem w)\<lparr>sem_TaskWaitingList := []\<rparr>\<rparr>"
| "wake_shared allocated (swn # q) w =
     (if \<not> swn_Shared swn then w\<lparr>sem := (sem w)\<lparr>sem_TaskWaitingList := swn # q\<rparr>\<rparr>
      else
        let t = swn_Task swn;
            w = (case GetSharedLocker (sem_SharedLockers (sem w)) t (allocated t) of
                   None \<Rightarrow> w\<lparr>t_WaitItem := (t_WaitItem w)(t := WaitErr NOMEM)\<rparr>
                 | Some ls \<Rightarrow> w\<lparr>sem := (sem w)\<lparr>sem_SharedLockers := with_locker t bump ls\<rparr>\<rparr>)
        in wake_shared allocated q (NewReadyTask t w))"

text \<open>The first shared locker with a nest count becomes the primary locker.\<close>

fun promote :: "SharedLocker list \<Rightarrow> (SharedLocker \<times> SharedLocker list) option" where
  "promote [] = None"
| "promote (sl # ls) =
     (if sl_NestCnt sl \<noteq> 0 then Some (sl, sl\<lparr>sl_NestCnt := 0\<rparr> # ls)
      else case promote ls of None \<Rightarrow> None | Some (p, ls) \<Rightarrow> Some (p, sl # ls))"

definition release :: "(task \<Rightarrow> bool) \<Rightarrow> World \<Rightarrow> World" where
  "release allocated w =
     (let s = sem w in
      case promote (sem_SharedLockers s) of
        Some (sl, ls) \<Rightarrow>
          w\<lparr>sem := s\<lparr>sem_Locker := Some (sl_Task sl), sem_NestCnt := sl_NestCnt sl, sem_SharedLockers := ls\<rparr>\<rparr>
      | None \<Rightarrow>
          (case sem_TaskWaitingList s of
             swn # q \<Rightarrow>
               let s = s\<lparr>sem_Locker := Some (swn_Task swn), sem_NestCnt := 1, sem_TaskWaitingList := q\<rparr>;
                   w = NewReadyTask (swn_Task swn) (w\<lparr>sem := s\<rparr>)
               in if swn_Shared swn then wake_shared allocated q (w\<lparr>sem := (sem w)\<lparr>sem_SharedRead := True\<rparr>\<rparr>)
                  else w\<lparr>sem := (sem w)\<lparr>sem_SharedRead := False\<rparr>\<rparr>
           | [] \<Rightarrow> w\<lparr>sem := s\<lparr>sem_SharedRead := False, sem_Locker := None\<rparr>\<rparr>))"

definition internalUnlockSemaphore :: "task \<Rightarrow> (task \<Rightarrow> bool) \<Rightarrow> World \<Rightarrow> int res \<times> World" where
  "internalUnlockSemaphore ct allocated w =
     (let s = sem w in
      if sem_Locker s = Some ct then
        let w = w\<lparr>sem := s\<lparr>sem_NestCnt := sem_NestCnt s - 1\<rparr>\<rparr>
        in if sem_NestCnt (sem w) \<noteq> 0 then (Inr 0, w) else (Inr 0, release allocated w)
      else
        case find_locker (sem_SharedLockers s) ct of
          None \<Rightarrow> (Inl NOTOWNER, w)
        | Some sl \<Rightarrow>
            if sl_NestCnt sl = 0 then (Inl NOTOWNER, w)
            else (Inr 0, w\<lparr>sem := s\<lparr>sem_SharedLockers :=
                    with_locker ct (\<lambda>sl. sl\<lparr>sl_NestCnt := sl_NestCnt sl - 1\<rparr>) (sem_SharedLockers s)\<rparr>\<rparr>))"

definition externalUnlockSemaphore :: "bool \<Rightarrow> task \<Rightarrow> (task \<Rightarrow> bool) \<Rightarrow> World \<Rightarrow> int res \<times> World" where
  "externalUnlockSemaphore is_semaphore ct allocated w =
     (if \<not> is_semaphore then (Inl BADITEM, w) else internalUnlockSemaphore ct allocated w)"

text \<open>Deleting a semaphore wakes every waiter with an error and frees the locker nodes; the
  semaphore leaves the kernel's list.\<close>

fun fail_waiters :: "SemaphoreWaitNode list \<Rightarrow> World \<Rightarrow> World" where
  "fail_waiters [] w = w\<lparr>sem := (sem w)\<lparr>sem_TaskWaitingList := []\<rparr>\<rparr>"
| "fail_waiters (swn # q) w =
     fail_waiters q (NewReadyTask (swn_Task swn)
       (w\<lparr>t_WaitItem := (t_WaitItem w)(swn_Task swn := WaitErr BADITEM)\<rparr>))"

definition internalDeleteSemaphore :: "int list \<Rightarrow> World \<Rightarrow> int list \<times> World" where
  "internalDeleteSemaphore kb_Semaphores w =
     (let w = fail_waiters (sem_TaskWaitingList (sem w)) w
      in (removeAll (sem_Item (sem w)) kb_Semaphores, w\<lparr>sem := (sem w)\<lparr>sem_SharedLockers := []\<rparr>\<rparr>))"

definition internalSetSemaphoreOwner :: "World \<Rightarrow> unit res" where
  "internalSetSemaphoreOwner w = (if sem_Locker (sem w) = None then Inr () else Inl ER_Kr_CantSetOwner)"

section \<open>Locks held\<close>

text \<open>The nest count of a task in the list of shared lockers, and the number of locks it holds.\<close>

definition cnt :: "SharedLocker list \<Rightarrow> task \<Rightarrow> nat" where
  "cnt ls t = (case find_locker ls t of None \<Rightarrow> 0 | Some sl \<Rightarrow> unat (sl_NestCnt sl))"

definition holds :: "World \<Rightarrow> task \<Rightarrow> nat" where
  "holds w t = (if sem_Locker (sem w) = Some t then unat (sem_NestCnt (sem w)) else 0)
     + cnt (sem_SharedLockers (sem w)) t"

definition tasks_of :: "SharedLocker list \<Rightarrow> task list" where
  "tasks_of ls = map sl_Task ls"

lemma find_locker_simps [simp]:
  "find_locker [] t = None"
  "find_locker (sl # ls) t = (if sl_Task sl = t then Some sl else find_locker ls t)"
  by (simp_all add: find_locker_def)

lemma cnt_simps [simp]:
  "cnt [] t = 0"
  "cnt (sl # ls) t = (if sl_Task sl = t then unat (sl_NestCnt sl) else cnt ls t)"
  by (simp_all add: cnt_def)

lemma tasks_of_simps [simp]: "tasks_of [] = []" "tasks_of (sl # ls) = sl_Task sl # tasks_of ls"
  by (simp_all add: tasks_of_def)

lemma cnt_notin: "t \<notin> set (tasks_of ls) \<Longrightarrow> cnt ls t = 0"
  by (induction ls) auto

lemma tasks_with_locker [simp]:
  "(\<And>sl. sl_Task (f sl) = sl_Task sl) \<Longrightarrow> tasks_of (with_locker t f ls) = tasks_of ls"
  by (induction ls) auto

lemma cnt_with_locker:
  assumes "\<And>sl. sl_Task (f sl) = sl_Task sl"
  shows "cnt (with_locker t f ls) u = (if u = t then (case find_locker ls t of None \<Rightarrow> 0
      | Some sl \<Rightarrow> unat (sl_NestCnt (f sl))) else cnt ls u)"
  using assms by (induction ls) auto

lemma find_locker_None: "find_locker ls t = None \<longleftrightarrow> t \<notin> set (tasks_of ls)"
  by (induction ls) auto

lemma GetSharedLocker_SomeD:
  assumes "GetSharedLocker ls t a = Some ls'" and "distinct (tasks_of ls)"
  shows "distinct (tasks_of ls')" and "cnt ls' u = cnt ls u" and "find_locker ls' t \<noteq> None"
    and "u \<noteq> t \<Longrightarrow> find_locker ls' u = find_locker ls u"
proof -
  have "distinct (tasks_of ls') \<and> cnt ls' u = cnt ls u \<and> find_locker ls' t \<noteq> None
    \<and> (u \<noteq> t \<longrightarrow> find_locker ls' u = find_locker ls u)"
  proof (cases "t \<in> set (tasks_of ls)")
    case True
    then have "\<exists>sl \<in> set ls. sl_Task sl = t" by (auto simp: tasks_of_def)
    then have "ls' = ls" using assms(1) by (simp add: GetSharedLocker_def)
    then show ?thesis using assms(2) True by (metis find_locker_None)
  next
    case False
    then have "ls' = \<lparr>sl_Task = t, sl_NestCnt = 0\<rparr> # ls"
      using assms(1) by (auto simp: GetSharedLocker_def tasks_of_def split: if_splits)
    then show ?thesis using assms(2) False cnt_notin [OF False] by auto
  qed
  then show "distinct (tasks_of ls')" "cnt ls' u = cnt ls u" "find_locker ls' t \<noteq> None"
    "u \<noteq> t \<Longrightarrow> find_locker ls' u = find_locker ls u" by simp_all
qed

lemma unat_add_1: "unat (n :: u32) < 2 ^ 32 - 1 \<Longrightarrow> unat (n + 1) = unat n + 1"
  by (subst unat_add_small) simp_all

lemma cnt_bump:
  assumes "find_locker ls t \<noteq> None" and "cnt ls t < 2 ^ 32 - 1"
  shows "cnt (with_locker t bump ls) u = (if u = t then cnt ls t + 1 else cnt ls u)"
proof -
  obtain sl where sl: "find_locker ls t = Some sl" using assms(1) by auto
  then have c: "cnt ls t = unat (sl_NestCnt sl)" by (simp add: cnt_def)
  then have "unat (sl_NestCnt sl + 1) = unat (sl_NestCnt sl) + 1"
    using assms(2) by (intro unat_add_1) simp
  moreover have "cnt (with_locker t bump ls) u = (if u = t then (case find_locker ls t of None \<Rightarrow> 0
      | Some sl \<Rightarrow> unat (sl_NestCnt (bump sl))) else cnt ls u)"
    by (rule cnt_with_locker) simp
  ultimately show ?thesis by (simp add: sl c)
qed

lemma cnt_drop:
  assumes "find_locker ls t = Some sl" and "sl_NestCnt sl \<noteq> 0"
  shows "cnt (with_locker t (\<lambda>sl. sl\<lparr>sl_NestCnt := sl_NestCnt sl - 1\<rparr>) ls) u
    = (if u = t then cnt ls t - 1 else cnt ls u)"
  using assms by (subst cnt_with_locker) (simp_all add: cnt_def unat_minus_one)

lemma cnt_promote_None: "promote ls = None \<Longrightarrow> cnt ls t = 0"
  by (induction ls) (auto split: if_splits option.splits prod.splits)

lemma promote_SomeD:
  assumes "promote ls = Some (p, ls')" and "distinct (tasks_of ls)"
  shows "tasks_of ls' = tasks_of ls" and "sl_NestCnt p \<noteq> 0" and "cnt ls (sl_Task p) = unat (sl_NestCnt p)"
    and "cnt ls' t = (if t = sl_Task p then 0 else cnt ls t)"
proof -
  have "tasks_of ls' = tasks_of ls \<and> sl_NestCnt p \<noteq> 0 \<and> cnt ls (sl_Task p) = unat (sl_NestCnt p)
    \<and> cnt ls' t = (if t = sl_Task p then 0 else cnt ls t) \<and> sl_Task p \<in> set (tasks_of ls)"
    using assms
  proof (induction ls arbitrary: ls')
    case (Cons sl ls)
    show ?case
    proof (cases "sl_NestCnt sl = 0")
      case False
      then have "p = sl" "ls' = sl\<lparr>sl_NestCnt := 0\<rparr> # ls" using Cons.prems(1) by auto
      then show ?thesis using False by simp
    next
      case True
      then obtain ls1 where ls1: "promote ls = Some (p, ls1)" "ls' = sl # ls1"
        using Cons.prems(1) by (auto split: option.splits)
      from Cons.IH [OF ls1(1)] Cons.prems(2)
      have "tasks_of ls1 = tasks_of ls \<and> sl_NestCnt p \<noteq> 0 \<and> cnt ls (sl_Task p) = unat (sl_NestCnt p)
        \<and> cnt ls1 t = (if t = sl_Task p then 0 else cnt ls t) \<and> sl_Task p \<in> set (tasks_of ls)" by simp
      moreover have "sl_Task sl \<notin> set (tasks_of ls)" using Cons.prems(2) by simp
      ultimately show ?thesis using True ls1(2) by auto
    qed
  qed simp
  then show "tasks_of ls' = tasks_of ls" "sl_NestCnt p \<noteq> 0" "cnt ls (sl_Task p) = unat (sl_NestCnt p)"
    "cnt ls' t = (if t = sl_Task p then 0 else cnt ls t)" by simp_all
qed

section \<open>The invariant\<close>

definition waiters :: "World \<Rightarrow> SemaphoreWaitNode list" where
  "waiters w = sem_TaskWaitingList (sem w)"

definition lockers_ok :: "Semaphore \<Rightarrow> bool" where
  "lockers_ok s \<longleftrightarrow> distinct (tasks_of (sem_SharedLockers s))
     \<and> (sem_Locker s = None \<longrightarrow> sem_TaskWaitingList s = [] \<and> \<not> sem_SharedRead s)
     \<and> (\<forall>t. sem_Locker s = Some t \<longrightarrow> sem_NestCnt s \<noteq> 0 \<and> cnt (sem_SharedLockers s) t = 0)
     \<and> (\<not> sem_SharedRead s \<longrightarrow> (\<forall>t. cnt (sem_SharedLockers s) t = 0))
     \<and> (sem_SharedRead s \<and> sem_TaskWaitingList s \<noteq> [] \<longrightarrow> \<not> swn_Shared (hd (sem_TaskWaitingList s)))"

definition sem_inv :: "World \<Rightarrow> bool" where
  "sem_inv w \<longleftrightarrow> lockers_ok (sem w) \<and> distinct (map swn_Task (waiters w))
     \<and> asleep w = swn_Task ` set (waiters w)"

lemma nest_no_wrap: "unat (n :: u32) < 2 ^ 32 - 1 \<Longrightarrow> n + 1 \<noteq> 0"
proof
  assume "unat n < 2 ^ 32 - 1" and "n + 1 = 0"
  then have "n = -1" by (simp add: eq_neg_iff_add_eq_0)
  moreover have "unat (-1 :: u32) = 2 ^ 32 - 1" by (simp add: unsigned_minus_1_eq_mask mask_eq_exp_minus_1)
  ultimately show False using \<open>unat n < 2 ^ 32 - 1\<close> by simp
qed

lemma sleep_on_inv:
  assumes "sem_inv w" and "ct \<notin> asleep w" and "sem_Locker (sem w) \<noteq> None"
    and "sem_SharedRead (sem w) \<Longrightarrow> sem_TaskWaitingList (sem w) = [] \<Longrightarrow> \<not> r"
  shows "sem_inv (snd (sleep_on ct r w))"
  using assms by (auto simp: sem_inv_def lockers_ok_def waiters_def sleep_on_def hd_append)

lemma lock_inv:
  assumes "sem_inv w" and "ct \<notin> asleep w" and "holds w ct < 2 ^ 32 - 1"
  shows "sem_inv (snd (internalLockSemaphore ct flags a w))"
proof (cases "sem_Locker (sem w)")
  case None
  then show ?thesis
    using assms by (auto simp: internalLockSemaphore_def sem_inv_def lockers_ok_def waiters_def Let_def)
next
  case (Some t)
  note L = Some
  show ?thesis
  proof (cases "t = ct")
    case True
    have "sem_NestCnt (sem w) + 1 \<noteq> 0"
      using assms(3) L True by (intro nest_no_wrap) (simp add: holds_def)
    then show ?thesis
      using assms(1) L True by (auto simp: internalLockSemaphore_def sem_inv_def lockers_ok_def waiters_def Let_def)
  next
    case False
    have d: "distinct (tasks_of (sem_SharedLockers (sem w)))"
      using assms(1) by (simp add: sem_inv_def lockers_ok_def)
    show ?thesis
    proof (cases "flags AND SEM_SHAREDREAD \<noteq> 0 \<and> sem_SharedRead (sem w)")
      case False
      then show ?thesis
        using assms(1,2) L \<open>t \<noteq> ct\<close> sleep_on_inv [of w ct "flags AND SEM_SHAREDREAD \<noteq> 0"]
        by (auto simp: internalLockSemaphore_def Let_def)
    next
      case True
      show ?thesis
      proof (cases "GetSharedLocker (sem_SharedLockers (sem w)) ct a")
        case None
        then show ?thesis using assms(1) L \<open>t \<noteq> ct\<close> True by (simp add: internalLockSemaphore_def Let_def)
      next
        case (Some ls)
        note G = GetSharedLocker_SomeD [OF Some d]
        have "cnt ls ct < 2 ^ 32 - 1" using assms(3) G(2) [of ct] by (simp add: holds_def)
        note B = cnt_bump [OF G(3) this]
        let ?w = "w\<lparr>sem := (sem w)\<lparr>sem_SharedLockers := ls\<rparr>\<rparr>"
        have w1: "sem_inv ?w"
          using assms(1) G(1,2) by (auto simp: sem_inv_def lockers_ok_def waiters_def)
        moreover have "sem_inv (w\<lparr>sem := (sem w)\<lparr>sem_SharedLockers := with_locker ct bump ls\<rparr>\<rparr>)"
          using assms(1) L \<open>t \<noteq> ct\<close> True G B by (auto simp: sem_inv_def lockers_ok_def waiters_def)
        moreover have "sem_inv (snd (sleep_on ct r ?w))" if "sem_TaskWaitingList (sem w) \<noteq> []" for r
          using w1 assms(2) L that by (intro sleep_on_inv) auto
        ultimately show ?thesis
          using L \<open>t \<noteq> ct\<close> True Some by (auto simp: internalLockSemaphore_def Let_def)
      qed
    qed
  qed
qed

lemma wake_shared_inv:
  assumes "distinct (tasks_of (sem_SharedLockers (sem w)))" and "sem_SharedRead (sem w)"
    and "sem_Locker (sem w) = Some p" and "sem_NestCnt (sem w) \<noteq> 0" and "cnt (sem_SharedLockers (sem w)) p = 0"
    and "distinct (p # map swn_Task q)" and "\<And>t. t \<in> swn_Task ` set q \<Longrightarrow> cnt (sem_SharedLockers (sem w)) t = 0"
    and "asleep w = swn_Task ` set q"
  shows "sem_inv (wake_shared al q w)"
  using assms
proof (induction q arbitrary: w)
  case Nil
  then show ?case by (simp add: sem_inv_def lockers_ok_def waiters_def)
next
  case (Cons swn q)
  let ?t = "swn_Task swn"
  show ?case
  proof (cases "swn_Shared swn")
    case False
    then show ?thesis using Cons.prems by (auto simp: sem_inv_def lockers_ok_def waiters_def)
  next
    case True
    show ?thesis
    proof (cases "GetSharedLocker (sem_SharedLockers (sem w)) ?t (al ?t)")
      case None
      show ?thesis
        unfolding wake_shared.simps
        using True None Cons.prems by (simp add: Let_def NewReadyTask_def) (intro Cons.IH; auto simp: image_iff)
    next
      case (Some ls)
      note G = GetSharedLocker_SomeD [OF Some Cons.prems(1)]
      have "cnt ls ?t = 0" using Cons.prems(7) [of ?t] G(2) by simp
      then have "cnt ls ?t < 2 ^ 32 - 1" by simp
      note B = cnt_bump [OF G(3) this]
      show ?thesis
        using True Some Cons.prems G(1,2) B
        by (simp add: Let_def NewReadyTask_def) (intro Cons.IH; auto simp: image_iff)
    qed
  qed
qed

lemma release_inv:
  assumes "sem_inv w" and "sem_Locker (sem w) \<noteq> None"
  shows "sem_inv (release al (w\<lparr>sem := (sem w)\<lparr>sem_NestCnt := n\<rparr>\<rparr>))"
proof (cases "promote (sem_SharedLockers (sem w))")
  case (Some pr)
  obtain p ls where pr: "pr = (p, ls)" by fastforce
  have d: "distinct (tasks_of (sem_SharedLockers (sem w)))"
    using assms(1) by (simp add: sem_inv_def lockers_ok_def)
  note P = promote_SomeD [OF Some [unfolded pr] d]
  have "sem_SharedRead (sem w)"
  proof (rule ccontr)
    assume "\<not> sem_SharedRead (sem w)"
    then have "cnt (sem_SharedLockers (sem w)) (sl_Task p) = 0"
      using assms(1) by (simp add: sem_inv_def lockers_ok_def)
    then show False using P(2,3) by (simp add: unat_eq_zero)
  qed
  then show ?thesis
    using assms Some pr P by (auto simp: release_def sem_inv_def lockers_ok_def waiters_def Let_def)
next
  case None
  note z = cnt_promote_None [OF None]
  show ?thesis
  proof (cases "sem_TaskWaitingList (sem w)")
    case Nil
    then show ?thesis
      using assms None z by (auto simp: release_def sem_inv_def lockers_ok_def waiters_def Let_def)
  next
    case (Cons swn q)
    then have q: "distinct (swn_Task swn # map swn_Task q)" "asleep w = swn_Task ` set (swn # q)"
      and d: "distinct (tasks_of (sem_SharedLockers (sem w)))"
      using assms(1) by (simp_all add: sem_inv_def lockers_ok_def waiters_def)
    show ?thesis
    proof (cases "swn_Shared swn")
      case True
      then show ?thesis
        using None Cons
        by (simp add: release_def Let_def NewReadyTask_def)
          (intro wake_shared_inv [where p = "swn_Task swn"]; use d z q in auto)
    next
      case False
      then show ?thesis
        using None Cons z d q
        by (auto simp: release_def sem_inv_def lockers_ok_def waiters_def Let_def NewReadyTask_def)
    qed
  qed
qed

lemma unlock_inv:
  assumes "sem_inv w"
  shows "sem_inv (snd (internalUnlockSemaphore ct al w))"
proof (cases "sem_Locker (sem w) = Some ct")
  case True
  then show ?thesis
    using assms release_inv [OF assms, of al "sem_NestCnt (sem w) - 1"]
    by (auto simp: internalUnlockSemaphore_def sem_inv_def lockers_ok_def waiters_def Let_def)
next
  case False
  show ?thesis
  proof (cases "find_locker (sem_SharedLockers (sem w)) ct")
    case (Some sl)
    show ?thesis
    proof (cases "sl_NestCnt sl = 0")
      case nz: False
      show ?thesis
        using assms False Some nz cnt_drop [OF Some nz]
        by (auto simp: internalUnlockSemaphore_def sem_inv_def lockers_ok_def waiters_def Let_def)
    qed (use assms False Some in \<open>simp add: internalUnlockSemaphore_def Let_def\<close>)
  qed (use assms False in \<open>simp add: internalUnlockSemaphore_def Let_def\<close>)
qed

section \<open>All interleavings\<close>

text \<open>Any task that is not asleep may lock, unlock or finish a lock it was woken from, with any
  flags and any outcome of the allocations. A task is assumed not to nest \<open>2 ^ 32 - 1\<close> locks,
  where its count would wrap to zero.\<close>

inductive sem_step :: "World \<Rightarrow> World \<Rightarrow> bool" where
  Lock: "ct \<notin> asleep w \<Longrightarrow> holds w ct < 2 ^ 32 - 1 \<Longrightarrow>
    sem_step w (snd (internalLockSemaphore ct flags a w))"
| Unlock: "ct \<notin> asleep w \<Longrightarrow> sem_step w (snd (internalUnlockSemaphore ct al w))"
| Woken: "ct \<notin> asleep w \<Longrightarrow> sem_step w (snd (internalLockSemaphore_woken ct w))"

definition unlocked :: "int \<Rightarrow> (task \<Rightarrow> wait_item) \<Rightarrow> World" where
  "unlocked item wi = \<lparr>sem = \<lparr>sem_Item = item, sem_Locker = None, sem_NestCnt = 0, sem_SharedRead = False,
     sem_UserData = 0, sem_TaskWaitingList = [], sem_SharedLockers = []\<rparr>, t_WaitItem = wi, asleep = {}\<rparr>"

lemma sem_step_inv: "sem_step w w' \<Longrightarrow> sem_inv w \<Longrightarrow> sem_inv w'"
proof (induction rule: sem_step.induct)
  case (Woken ct w)
  then show ?case by (simp add: internalLockSemaphore_woken_def Let_def sem_inv_def waiters_def)
qed (simp_all add: lock_inv unlock_inv)

lemma unlocked_inv: "sem_inv (unlocked item wi)"
  by (simp add: sem_inv_def lockers_ok_def waiters_def unlocked_def)

lemma reachable_inv: "sem_step\<^sup>*\<^sup>* (unlocked item wi) w \<Longrightarrow> sem_inv w"
  by (induction rule: rtranclp_induct) (auto intro: unlocked_inv sem_step_inv)


section \<open>Accounting\<close>

lemma holds_sleep_on [simp]: "holds (snd (sleep_on ct r w)) u = holds w u"
  by (simp add: sleep_on_def holds_def)

lemma holds_nodes:
  "(\<And>u. cnt ls u = cnt (sem_SharedLockers (sem w)) u) \<Longrightarrow>
    holds (w\<lparr>sem := (sem w)\<lparr>sem_SharedLockers := ls\<rparr>\<rparr>) u = holds w u"
  by (simp add: holds_def)

text \<open>When a lock is granted at once.\<close>

definition grantable :: "World \<Rightarrow> task \<Rightarrow> bool \<Rightarrow> bool" where
  "grantable w ct shared \<longleftrightarrow>
     sem_Locker (sem w) = None
   \<or> (sem_Locker (sem w) = Some ct \<and> (shared \<or> \<not> sem_SharedRead (sem w)))
   \<or> (sem_Locker (sem w) \<noteq> Some ct \<and> shared \<and> sem_SharedRead (sem w)
        \<and> (holds w ct > 0 \<or> waiters w = []))"

lemma lock_outcome:
  assumes inv: "sem_inv w" and bound: "holds w ct < 2 ^ 32 - 1"
    and r: "internalLockSemaphore ct flags True w = (out, w')"
  shows "(if grantable w ct (flags AND SEM_SHAREDREAD \<noteq> 0)
      then out = Returned (Inr 1) \<and> holds w' ct = holds w ct + 1 \<and> (\<forall>u. u \<noteq> ct \<longrightarrow> holds w' u = holds w u)
      else (\<forall>u. holds w' u = holds w u) \<and>
        (if sem_Locker (sem w) = Some ct then out = Returned (Inl ER_Kr_BadLockArg)
         else if flags AND SEM_WAIT = 0 then out = Returned (Inr 0)
         else out = Sleeping \<and> waiters w' = waiters w @ [\<lparr>swn_Task = ct, swn_Shared = (flags AND SEM_SHAREDREAD \<noteq> 0)\<rparr>]))"
proof -
  let ?sh = "flags AND SEM_SHAREDREAD \<noteq> 0"
  have d: "distinct (tasks_of (sem_SharedLockers (sem w)))"
    using inv by (simp add: sem_inv_def lockers_ok_def)
  consider (free) "sem_Locker (sem w) = None" | (own) "sem_Locker (sem w) = Some ct"
    | (other) t where "sem_Locker (sem w) = Some t" "t \<noteq> ct" by (cases "sem_Locker (sem w)") auto
  then show ?thesis
  proof cases
    case free
    have "cnt (sem_SharedLockers (sem w)) u = 0" for u
      using inv free by (auto simp: sem_inv_def lockers_ok_def)
    then show ?thesis
      using free r by (auto simp: internalLockSemaphore_def grantable_def holds_def Let_def split: if_splits)
  next
    case own
    have "unat (sem_NestCnt (sem w) + 1) = unat (sem_NestCnt (sem w)) + 1"
      using bound own by (intro unat_add_1) (simp add: holds_def)
    then show ?thesis
      using own r by (auto simp: internalLockSemaphore_def grantable_def holds_def Let_def split: if_splits)
  next
    case other
    show ?thesis
    proof (cases "?sh \<and> sem_SharedRead (sem w)")
      case False
      then show ?thesis
        using other r by (auto simp: internalLockSemaphore_def grantable_def sleep_on_def waiters_def
            holds_def Let_def split: if_splits)
    next
      case True
      have "GetSharedLocker (sem_SharedLockers (sem w)) ct True \<noteq> None"
        by (simp add: GetSharedLocker_def)
      then obtain ls where ls: "GetSharedLocker (sem_SharedLockers (sem w)) ct True = Some ls" by blast
      note G = GetSharedLocker_SomeD [OF ls d]
      obtain sl where sl: "find_locker ls ct = Some sl" using G(3) by auto
      have nz: "sl_NestCnt sl \<noteq> 0 \<longleftrightarrow> holds w ct > 0"
      proof -
        have "cnt (sem_SharedLockers (sem w)) ct = unat (sl_NestCnt sl)"
          using sl G(2) [of ct] by (simp add: cnt_def)
        then show ?thesis using other unat_gt_0 [of "sl_NestCnt sl"] by (simp add: holds_def)
      qed
      have "cnt ls ct < 2 ^ 32 - 1" using bound G(2) [of ct] by (simp add: holds_def)
      note B = cnt_bump [OF G(3) this]
      show ?thesis
        using other True r ls sl nz G(2) B
        by (auto simp: internalLockSemaphore_def grantable_def sleep_on_def waiters_def
            holds_def Let_def split: if_splits)
    qed
  qed
qed

lemma wake_shared_holds:
  assumes "distinct (tasks_of (sem_SharedLockers (sem w)))" and "distinct (map swn_Task q)"
    and "\<And>t. t \<in> swn_Task ` set q \<Longrightarrow> cnt (sem_SharedLockers (sem w)) t = 0"
    and "asleep w = swn_Task ` set q"
    and r: "wake_shared al q w = w'"
  shows "\<exists>k. sem_TaskWaitingList (sem w') = drop k q
      \<and> (\<forall>u. u \<notin> swn_Task ` set (take k q) \<longrightarrow> holds w' u = holds w u \<and> t_WaitItem w' u = t_WaitItem w u)
      \<and> (\<forall>u. u \<in> swn_Task ` set (take k q) \<longrightarrow>
            holds w' u = holds w u + 1 \<and> t_WaitItem w' u = t_WaitItem w u
          \<or> holds w' u = holds w u \<and> t_WaitItem w' u = WaitErr NOMEM)"
  using assms
proof (induction q arbitrary: w)
  case Nil
  then show ?case by (auto simp: holds_def)
next
  case (Cons swn q)
  let ?t = "swn_Task swn"
  show ?case
  proof (cases "swn_Shared swn")
    case False
    then show ?thesis using Cons.prems by (intro exI [of _ 0]) (auto simp: holds_def)
  next
    case True
    obtain w1 where w1: "wake_shared al (swn # q) w = wake_shared al q w1"
      "distinct (tasks_of (sem_SharedLockers (sem w1)))"
      "\<And>u. u \<noteq> ?t \<Longrightarrow> cnt (sem_SharedLockers (sem w1)) u = cnt (sem_SharedLockers (sem w)) u"
      "asleep w1 = asleep w - {?t}"
      "\<And>u. u \<noteq> ?t \<Longrightarrow> holds w1 u = holds w u \<and> t_WaitItem w1 u = t_WaitItem w u"
      "holds w1 ?t = holds w ?t + 1 \<and> t_WaitItem w1 ?t = t_WaitItem w ?t
        \<or> holds w1 ?t = holds w ?t \<and> t_WaitItem w1 ?t = WaitErr NOMEM"
    proof (cases "GetSharedLocker (sem_SharedLockers (sem w)) ?t (al ?t)")
      case None
      show ?thesis
        by (rule that [of "NewReadyTask ?t (w\<lparr>t_WaitItem := (t_WaitItem w)(?t := WaitErr NOMEM)\<rparr>)"])
          (use None True Cons.prems in \<open>auto simp: Let_def NewReadyTask_def holds_def\<close>)
    next
      case (Some ls)
      note G = GetSharedLocker_SomeD [OF Some Cons.prems(1)]
      have "cnt ls ?t = 0" using Cons.prems(3) [of ?t] G(2) by simp
      then have "cnt ls ?t < 2 ^ 32 - 1" by simp
      note B = cnt_bump [OF G(3) this]
      show ?thesis
        by (rule that [of "NewReadyTask ?t (w\<lparr>sem := (sem w)\<lparr>sem_SharedLockers := with_locker ?t bump ls\<rparr>\<rparr>)"])
          (use Some True G B Cons.prems in \<open>auto simp: Let_def NewReadyTask_def holds_def\<close>)
    qed
    have as: "swn_Task ` set q = asleep w1" and nt: "?t \<notin> swn_Task ` set q"
      using Cons.prems(2,4) w1(4) by (auto simp: image_iff)
    have z: "cnt (sem_SharedLockers (sem w1)) t = 0" if "t \<in> swn_Task ` set q" for t
    proof -
      have "t \<noteq> ?t" using that nt by blast
      then show ?thesis using that Cons.prems(3) [of t] w1(3) [of t] by simp
    qed
    have "wake_shared al q w1 = w'" using w1(1) Cons.prems(5) by simp
    moreover have "distinct (map swn_Task q)" using Cons.prems(2) by simp
    ultimately obtain k where k: "sem_TaskWaitingList (sem w') = drop k q"
      "\<forall>u. u \<notin> swn_Task ` set (take k q) \<longrightarrow> holds w' u = holds w1 u \<and> t_WaitItem w' u = t_WaitItem w1 u"
      "\<forall>u. u \<in> swn_Task ` set (take k q) \<longrightarrow>
          holds w' u = holds w1 u + 1 \<and> t_WaitItem w' u = t_WaitItem w1 u
        \<or> holds w' u = holds w1 u \<and> t_WaitItem w' u = WaitErr NOMEM"
      using Cons.IH [OF w1(2) _ z as [symmetric]] by blast
    have tk: "?t \<notin> swn_Task ` set (take k q)" using nt set_take_subset [of k q] by auto
    have "holds w' u = holds w u \<and> t_WaitItem w' u = t_WaitItem w u"
      if "u \<notin> swn_Task ` set (take (Suc k) (swn # q))" for u
      using that k(2) w1(5) by simp
    moreover have "holds w' u = holds w u + 1 \<and> t_WaitItem w' u = t_WaitItem w u
        \<or> holds w' u = holds w u \<and> t_WaitItem w' u = WaitErr NOMEM"
      if u: "u \<in> swn_Task ` set (take (Suc k) (swn # q))" for u
    proof (cases "u = ?t")
      case True
      have "holds w' ?t = holds w1 ?t \<and> t_WaitItem w' ?t = t_WaitItem w1 ?t"
        by (rule k(2) [rule_format, OF tk])
      then show ?thesis using w1(6) True by metis
    next
      case False
      then have "u \<in> swn_Task ` set (take k q)" using u by simp
      from k(3) [rule_format, OF this] show ?thesis using w1(5) [OF False] by metis
    qed
    moreover have "sem_TaskWaitingList (sem w') = drop (Suc k) (swn # q)" using k(1) by simp
    ultimately show ?thesis by blast
  qed
qed

text \<open>What an unlock does: the number of waiters it wakes, and the effect on every task.\<close>

lemma unlock_outcome:
  assumes inv: "sem_inv w" and ct: "ct \<notin> asleep w"
    and r: "internalUnlockSemaphore ct al w = (res, w')"
  shows "if holds w ct = 0 then res = Inl NOTOWNER \<and> w' = w
    else res = Inr 0 \<and> holds w' ct = holds w ct - 1 \<and>
      (\<exists>k. waiters w' = drop k (waiters w)
        \<and> (\<forall>u. u \<noteq> ct \<and> u \<notin> swn_Task ` set (take k (waiters w)) \<longrightarrow>
              holds w' u = holds w u \<and> t_WaitItem w' u = t_WaitItem w u)
        \<and> (\<forall>u. u \<in> swn_Task ` set (take k (waiters w)) \<longrightarrow>
              holds w' u = holds w u + 1 \<and> t_WaitItem w' u = t_WaitItem w u
            \<or> holds w' u = holds w u \<and> t_WaitItem w' u = WaitErr NOMEM)
        \<and> (k > 0 \<longrightarrow> (\<forall>u. u \<noteq> ct \<longrightarrow> holds w u = 0) \<and> holds w ct = 1 \<and> holds w' (swn_Task (hd (waiters w))) = 1))"
proof -
  have d: "distinct (tasks_of (sem_SharedLockers (sem w)))"
    and dq: "distinct (map swn_Task (waiters w))" and as: "asleep w = swn_Task ` set (waiters w)"
    using inv by (simp_all add: sem_inv_def lockers_ok_def)
  consider (own) "sem_Locker (sem w) = Some ct" "sem_NestCnt (sem w) \<noteq> 1"
    | (last) "sem_Locker (sem w) = Some ct" "sem_NestCnt (sem w) = 1"
    | (other) "sem_Locker (sem w) \<noteq> Some ct" by blast
  then show ?thesis
  proof cases
    case own
    then have nz: "sem_NestCnt (sem w) \<noteq> 0" "sem_NestCnt (sem w) - 1 \<noteq> 0"
      using inv by (auto simp: sem_inv_def lockers_ok_def)
    have "unat (sem_NestCnt (sem w)) \<noteq> 0" using nz by (simp add: unat_eq_zero)
    then show ?thesis
      using own nz r
      by (auto simp: internalUnlockSemaphore_def Let_def holds_def waiters_def unat_minus_one intro!: exI [of _ 0])
  next
    case other
    show ?thesis
    proof (cases "find_locker (sem_SharedLockers (sem w)) ct")
      case None
      then show ?thesis
        using other r by (auto simp: internalUnlockSemaphore_def Let_def holds_def cnt_def)
    next
      case (Some sl)
      show ?thesis
      proof (cases "sl_NestCnt sl = 0")
        case True
        then show ?thesis
          using other r Some by (auto simp: internalUnlockSemaphore_def Let_def holds_def cnt_def)
      next
        case False
        have "cnt (sem_SharedLockers (sem w)) ct \<noteq> 0" using Some False by (simp add: cnt_def unat_eq_zero)
        then show ?thesis
          using other r Some False cnt_drop [OF Some False]
          by (auto simp: internalUnlockSemaphore_def Let_def holds_def waiters_def intro!: exI [of _ 0])
      qed
    qed
  next
    case last
    have c0: "cnt (sem_SharedLockers (sem w)) ct = 0"
      using inv last by (simp add: sem_inv_def lockers_ok_def)
    have h1: "holds w ct = 1" using last c0 by (simp add: holds_def)
    let ?w = "w\<lparr>sem := (sem w)\<lparr>sem_NestCnt := 0\<rparr>\<rparr>"
    have R: "res = Inr 0" "w' = release al ?w"
      using last r by (auto simp: internalUnlockSemaphore_def Let_def)
    show ?thesis
    proof (cases "promote (sem_SharedLockers (sem w))")
      case (Some pr)
      obtain p ls where pr: "pr = (p, ls)" by fastforce
      note P = promote_SomeD [OF Some [unfolded pr] d]
      have "sl_Task p \<noteq> ct" using P(2,3) c0 by (auto simp: unat_eq_zero)
      then show ?thesis
        using h1 R last c0 Some pr P(3,4)
        by (auto simp: release_def Let_def holds_def waiters_def intro!: exI [of _ 0])
    next
      case None
      note z = cnt_promote_None [OF None]
      have h0: "holds w u = 0" if "u \<noteq> ct" for u using that last z by (simp add: holds_def)
      show ?thesis
      proof (cases "waiters w")
        case Nil
        then show ?thesis
          using h1 h0 R last None z
          by (auto simp: release_def Let_def holds_def waiters_def intro!: exI [of _ 0])
      next
        case (Cons swn q)
        let ?t = "swn_Task swn"
        have tq: "?t \<notin> swn_Task ` set q" "?t \<noteq> ct" "ct \<notin> swn_Task ` set q"
          using dq as ct Cons by auto
        define w1 where "w1 = w\<lparr>asleep := asleep w - {?t}, sem := (sem w)\<lparr>sem_Locker := Some ?t,
          sem_NestCnt := 1, sem_TaskWaitingList := q, sem_SharedRead := swn_Shared swn\<rparr>\<rparr>"
        have H1: "holds w1 u = (if u = ?t then 1 else 0)" "t_WaitItem w1 u = t_WaitItem w u" for u
          using z by (auto simp: w1_def holds_def NewReadyTask_def)
        have w': "w' = (if swn_Shared swn then wake_shared al q w1 else w1)"
          using R None Cons by (auto simp: release_def Let_def waiters_def w1_def NewReadyTask_def)
        obtain k where k: "waiters w' = drop k q"
          "\<forall>u. u \<notin> swn_Task ` set (take k q) \<longrightarrow> holds w' u = holds w1 u \<and> t_WaitItem w' u = t_WaitItem w1 u"
          "\<forall>u. u \<in> swn_Task ` set (take k q) \<longrightarrow>
              holds w' u = holds w1 u + 1 \<and> t_WaitItem w' u = t_WaitItem w1 u
            \<or> holds w' u = holds w1 u \<and> t_WaitItem w' u = WaitErr NOMEM"
        proof (cases "swn_Shared swn")
          case True
          have "\<exists>k. sem_TaskWaitingList (sem w') = drop k q
              \<and> (\<forall>u. u \<notin> swn_Task ` set (take k q) \<longrightarrow> holds w' u = holds w1 u \<and> t_WaitItem w' u = t_WaitItem w1 u)
              \<and> (\<forall>u. u \<in> swn_Task ` set (take k q) \<longrightarrow>
                    holds w' u = holds w1 u + 1 \<and> t_WaitItem w' u = t_WaitItem w1 u
                  \<or> holds w' u = holds w1 u \<and> t_WaitItem w' u = WaitErr NOMEM)"
            by (rule wake_shared_holds [where al = al])
              (use d dq as Cons tq z w' True in \<open>auto simp: w1_def NewReadyTask_def\<close>)
          then show ?thesis using that unfolding waiters_def by blast
        next
          case False
          then show ?thesis
            by (intro that [of 0]) (simp_all add: w' w1_def NewReadyTask_def waiters_def)
        qed
        have "swn_Task ` set (take k q) \<subseteq> swn_Task ` set q" using set_take_subset [of k q] by auto
        then have tk: "?t \<notin> swn_Task ` set (take k q)" "ct \<notin> swn_Task ` set (take k q)" using tq by blast+
        have "holds w' u = holds w u \<and> t_WaitItem w' u = t_WaitItem w u"
          if "u \<noteq> ct" "u \<notin> swn_Task ` set (take (Suc k) (waiters w))" for u
          using that k(2) H1 h0 [of u] Cons by auto
        moreover have "holds w' u = holds w u + 1 \<and> t_WaitItem w' u = t_WaitItem w u
            \<or> holds w' u = holds w u \<and> t_WaitItem w' u = WaitErr NOMEM"
          if u: "u \<in> swn_Task ` set (take (Suc k) (waiters w))" for u
        proof (cases "u = ?t")
          case True
          then show ?thesis using k(2) tk(1) tq(2) H1 h0 [of ?t] by simp
        next
          case False
          then have "u \<in> swn_Task ` set (take k q)" using u Cons by auto
          moreover from this have "u \<noteq> ct" using tk(2) by blast
          ultimately show ?thesis using k(3) H1 h0 [of u] False by auto
        qed
        moreover have "holds w' ct = 0" "holds w' ?t = 1"
          using k(2) tk tq(2) H1 by simp_all
        ultimately show ?thesis
          using h1 h0 R k(1) Cons by (intro if_not_P [THEN iffD2] conjI exI [of _ "Suc k"] |simp)+
      qed
    qed
  qed
qed


lemma lock_no_memory:
  "internalLockSemaphore ct flags False w = internalLockSemaphore ct flags True w
   \<or> internalLockSemaphore ct flags False w = (Returned (Inl NOMEM), w)"
proof (cases "GetSharedLocker (sem_SharedLockers (sem w)) ct False")
  case None
  then show ?thesis by (simp add: internalLockSemaphore_def Let_def)
next
  case (Some ls)
  then have "GetSharedLocker (sem_SharedLockers (sem w)) ct True = Some ls"
    by (auto simp: GetSharedLocker_def split: if_splits)
  with Some show ?thesis by (simp add: internalLockSemaphore_def Let_def)
qed

lemma lock_cases:
  assumes "sem_inv w" and "holds w ct < 2 ^ 32 - 1" and "internalLockSemaphore ct flags a w = (out, w')"
  shows "(\<exists>new. waiters w' = waiters w @ new) \<and> (\<forall>u. u \<noteq> ct \<longrightarrow> holds w' u = holds w u) \<and> holds w ct \<le> holds w' ct"
proof -
  have same: ?thesis if "w' = w" using that by simp
  obtain out2 w2 where r: "internalLockSemaphore ct flags True w = (out2, w2)" by fastforce
  have "(w' = w) \<or> w' = w2" using lock_no_memory [of ct flags w] r assms(3) by (cases a) auto
  moreover have "(\<exists>new. waiters w2 = waiters w @ new) \<and> (\<forall>u. u \<noteq> ct \<longrightarrow> holds w2 u = holds w u) \<and> holds w ct \<le> holds w2 ct"
  proof -
    have "\<exists>new. waiters w2 = waiters w @ new"
      using r by (auto simp: internalLockSemaphore_def Let_def sleep_on_def waiters_def GetSharedLocker_def
          split: if_splits option.splits)
    then show ?thesis
      using lock_outcome [OF assms(1,2) r] by (auto split: if_splits)
  qed
  ultimately show ?thesis using same by auto
qed

lemma step_fifo:
  assumes "sem_step w w'" and "sem_inv w"
  shows "\<exists>k new. waiters w' = drop k (waiters w) @ new"
  using assms
proof (induction rule: sem_step.induct)
  case (Lock ct w flags a)
  obtain out w' where r: "internalLockSemaphore ct flags a w = (out, w')" by fastforce
  from lock_cases [OF Lock(3,2) r] show ?case using r by (metis append.right_neutral drop_0 snd_conv)
next
  case (Unlock ct w al)
  obtain res w' where r: "internalUnlockSemaphore ct al w = (res, w')" by fastforce
  have "\<exists>k. waiters w' = drop k (waiters w)"
    using unlock_outcome [OF Unlock(2,1) r] by (metis drop_0)
  then show ?case using r by (metis append.right_neutral snd_conv)
next
  case (Woken ct w)
  have "waiters (snd (internalLockSemaphore_woken ct w)) = drop 0 (waiters w) @ []"
    by (simp add: internalLockSemaphore_woken_def Let_def waiters_def)
  then show ?case by blast
qed

lemma stuck_step:
  assumes "sem_step w w'" and "sem_inv w" and "t \<in> asleep w" and "holds w t > 0"
  shows "t \<in> asleep w' \<and> holds w' t > 0"
  using assms
proof (induction rule: sem_step.induct)
  case (Lock ct w flags a)
  obtain out w' where r: "internalLockSemaphore ct flags a w = (out, w')" by fastforce
  have "sem_inv w'" using lock_inv [OF Lock(3,1,2), of flags a] r by simp
  moreover have "t \<noteq> ct" using Lock by blast
  ultimately show ?case
    using lock_cases [OF Lock(3,2) r] Lock(3,4,5) r by (auto simp: sem_inv_def)
next
  case (Unlock ct w al)
  obtain res w' where r: "internalUnlockSemaphore ct al w = (res, w')" by fastforce
  have inv': "sem_inv w'" using unlock_inv [OF Unlock(2), of ct al] r by simp
  have ne: "t \<noteq> ct" using Unlock by blast
  note O = unlock_outcome [OF Unlock(2,1) r]
  show ?case
  proof (cases "holds w ct = 0")
    case False
    then obtain k where k: "waiters w' = drop k (waiters w)"
      "\<forall>u. u \<noteq> ct \<and> u \<notin> swn_Task ` set (take k (waiters w)) \<longrightarrow> holds w' u = holds w u \<and> t_WaitItem w' u = t_WaitItem w u"
      "k > 0 \<longrightarrow> (\<forall>u. u \<noteq> ct \<longrightarrow> holds w u = 0)"
      using O by auto
    then have "k = 0" using Unlock(4) ne by (metis gr_zeroI less_irrefl)
    then show ?thesis using k inv' Unlock(2-4) ne r by (auto simp: sem_inv_def)
  qed (use O Unlock r in simp)
next
  case (Woken ct w)
  then show ?case by (auto simp: internalLockSemaphore_woken_def Let_def holds_def split: if_splits)
qed

section \<open>Properties\<close>

text \<open>C7: mutual exclusion and no lost wake-up, in every interleaving of locks, unlocks and
  wake-ups of any number of tasks, with any allocation failures. Two tasks hold the semaphore
  together only in shared mode; when nobody is the primary locker then nobody holds it and
  nobody waits for it; and the tasks that sleep are exactly those in the queue, each once.\<close>

theorem semaphore_exclusion:
  assumes "sem_step\<^sup>*\<^sup>* (unlocked item wi) w"
  shows "(\<forall>t u. t \<noteq> u \<and> holds w t > 0 \<and> holds w u > 0 \<longrightarrow> sem_SharedRead (sem w))
    \<and> (sem_Locker (sem w) = None \<longrightarrow> waiters w = [] \<and> (\<forall>t. holds w t = 0))
    \<and> (\<forall>t. sem_Locker (sem w) = Some t \<longrightarrow> holds w t > 0)
    \<and> asleep w = swn_Task ` set (waiters w) \<and> distinct (map swn_Task (waiters w))"
proof -
  have inv: "sem_inv w" by (rule reachable_inv [OF assms])
  have "sem_SharedRead (sem w)" if "t \<noteq> u" "holds w t > 0" "holds w u > 0" for t u
  proof (rule ccontr)
    assume "\<not> sem_SharedRead (sem w)"
    then have "cnt (sem_SharedLockers (sem w)) t = 0" "cnt (sem_SharedLockers (sem w)) u = 0"
      using inv by (simp_all add: sem_inv_def lockers_ok_def)
    then show False using that by (auto simp: holds_def split: if_splits)
  qed
  moreover have "holds w t = 0" if "sem_Locker (sem w) = None" for t
    using inv that by (auto simp: sem_inv_def lockers_ok_def holds_def)
  moreover have "holds w t > 0" if "sem_Locker (sem w) = Some t" for t
    using inv that by (auto simp: sem_inv_def lockers_ok_def holds_def unat_gt_0)
  ultimately show ?thesis using inv by (auto simp: sem_inv_def lockers_ok_def waiters_def)
qed

text \<open>Task 10 and task 20 both have a shared lock, task 30 waits for an exclusive one.\<close>

definition shared_world :: World where
  "shared_world =
     snd (internalLockSemaphore 30 1 True (snd (internalLockSemaphore 20 3 True
       (snd (internalLockSemaphore 10 3 True (unlocked 7 (\<lambda>_. WaitItem (-1))))))))"

lemma shared_world_eval:
  "shared_world = \<lparr>sem = \<lparr>sem_Item = 7, sem_Locker = Some 10, sem_NestCnt = 1, sem_SharedRead = True,
     sem_UserData = 0, sem_TaskWaitingList = [\<lparr>swn_Task = 30, swn_Shared = False\<rparr>],
     sem_SharedLockers = [\<lparr>sl_Task = 20, sl_NestCnt = 1\<rparr>]\<rparr>,
     t_WaitItem = (\<lambda>_. WaitItem (-1))(30 := WaitItem 7), asleep = {30}\<rparr>"
  by (simp add: shared_world_def internalLockSemaphore_def unlocked_def SEM_WAIT_def SEM_SHAREDREAD_def
      GetSharedLocker_def sleep_on_def)

lemma shared_world_reachable: "sem_step\<^sup>*\<^sup>* (unlocked 7 (\<lambda>_. WaitItem (-1))) shared_world"
proof -
  let ?w0 = "unlocked 7 (\<lambda>_. WaitItem (-1))"
  let ?w1 = "snd (internalLockSemaphore 10 3 True ?w0)"
  let ?w2 = "snd (internalLockSemaphore 20 3 True ?w1)"
  have "asleep ?w0 = {}" "holds ?w0 10 = 0" by (simp_all add: unlocked_def holds_def)
  then have s1: "sem_step ?w0 ?w1" by (intro sem_step.Lock) simp_all
  have e1: "?w1 = \<lparr>sem = \<lparr>sem_Item = 7, sem_Locker = Some 10, sem_NestCnt = 1, sem_SharedRead = True,
     sem_UserData = 0, sem_TaskWaitingList = [], sem_SharedLockers = []\<rparr>,
     t_WaitItem = (\<lambda>_. WaitItem (-1)), asleep = {}\<rparr>"
    by (simp add: internalLockSemaphore_def unlocked_def SEM_SHAREDREAD_def)
  have "asleep ?w1 = {}" "holds ?w1 20 = 0" unfolding e1 by (simp_all add: holds_def)
  then have s2: "sem_step ?w1 ?w2" by (intro sem_step.Lock) simp_all
  have e2: "?w2 = \<lparr>sem = \<lparr>sem_Item = 7, sem_Locker = Some 10, sem_NestCnt = 1, sem_SharedRead = True,
     sem_UserData = 0, sem_TaskWaitingList = [], sem_SharedLockers = [\<lparr>sl_Task = 20, sl_NestCnt = 1\<rparr>]\<rparr>,
     t_WaitItem = (\<lambda>_. WaitItem (-1)), asleep = {}\<rparr>"
    unfolding e1 by (simp add: internalLockSemaphore_def SEM_SHAREDREAD_def GetSharedLocker_def)
  have "asleep ?w2 = {}" "holds ?w2 30 = 0" unfolding e2 by (simp_all add: holds_def)
  then have s3: "sem_step ?w2 shared_world" unfolding shared_world_def by (intro sem_step.Lock) simp_all
  show ?thesis
    by (rule rtranclp.rtrancl_into_rtrancl [OF rtranclp.rtrancl_into_rtrancl [OF r_into_rtranclp [of sem_step, OF s1] s2] s3])
qed

theorem semaphore_exclusion_witness: "sem_SharedRead (sem shared_world)"
  by (rule semaphore_exclusion [OF shared_world_reachable, THEN conjunct1, rule_format, of 10 20])
    (simp add: shared_world_eval holds_def)









end
