(* ===== verification/Timers.thy ===== *)
theory Timers
  imports Kernel Lists Dates
begin

text \<open>
  Time values and the timer queue (\<open>folios/kernel/timer.c\<close>, the tick arithmetic of
  \<open>folios/kernel/timer.s\<close>, \<open>libs/c/timer\<close>). Timers are named by numbers; the queue of
  waiting timers and the list of idle ones are lists of them. The time base register is read
  through a clock, a parameter: its \<open>n\<close>-th reading. The handlers of the timers are a
  parameter too; the calls made are logged in \<open>ran\<close>.
\<close>

section \<open>Time values\<close>

definition AddTimes :: "TimeVal \<Rightarrow> TimeVal \<Rightarrow> TimeVal" where
  "AddTimes tv1 tv2 =
     (let secs = tv_Seconds tv1 + tv_Seconds tv2;
          micros = tv_Microseconds tv1 + tv_Microseconds tv2
      in if micros \<ge> 1000000
         then \<lparr>tv_Seconds = secs + 1, tv_Microseconds = micros - 1000000\<rparr>
         else \<lparr>tv_Seconds = secs, tv_Microseconds = micros\<rparr>)"

text \<open>The fields are signed: they are compared with \<open>sint\<close>. The result is \<open>tv2 - tv1\<close>.\<close>

definition SubTimes :: "TimeVal \<Rightarrow> TimeVal \<Rightarrow> TimeVal" where
  "SubTimes tv1 tv2 =
     (if sint (tv_Microseconds tv2) \<ge> sint (tv_Microseconds tv1)
      then \<lparr>tv_Seconds = tv_Seconds tv2 - tv_Seconds tv1,
            tv_Microseconds = tv_Microseconds tv2 - tv_Microseconds tv1\<rparr>
      else \<lparr>tv_Seconds = tv_Seconds tv2 - tv_Seconds tv1 - 1,
            tv_Microseconds = 1000000 - (tv_Microseconds tv1 - tv_Microseconds tv2)\<rparr>)"

definition CompareTimes :: "TimeVal \<Rightarrow> TimeVal \<Rightarrow> int" where
  "CompareTimes tv1 tv2 =
     (if sint (tv_Seconds tv1) < sint (tv_Seconds tv2) then -1
      else if sint (tv_Seconds tv1) > sint (tv_Seconds tv2) then 1
      else if sint (tv_Microseconds tv1) < sint (tv_Microseconds tv2) then -1
      else if sint (tv_Microseconds tv1) > sint (tv_Microseconds tv2) then 1
      else 0)"

section \<open>Timer ticks\<close>

type_synonym ticks = u64

definition AddTimerTicks :: "ticks \<Rightarrow> ticks \<Rightarrow> ticks" where
  "AddTimerTicks tt1 tt2 = tt1 + tt2"

text \<open>The result is \<open>tt2 - tt1\<close>, or zero where its upper word is negative as a signed one.\<close>

definition SubTimerTicks :: "ticks \<Rightarrow> ticks \<Rightarrow> ticks" where
  "SubTimerTicks tt1 tt2 = (if sint (tt2 - tt1) < 0 then 0 else tt2 - tt1)"

definition CompareTimerTicks :: "ticks \<Rightarrow> ticks \<Rightarrow> int" where
  "CompareTimerTicks tt1 tt2 = (if tt1 < tt2 then -1 else if tt1 > tt2 then 1 else 0)"

definition ConvertTimeValToTimerTicks :: "ticks \<Rightarrow> TimeVal \<Rightarrow> ticks" where
  "ConvertTimeValToTimerTicks ticksPerSecond tv =
     scast (tv_Seconds tv) * ticksPerSecond + (scast (tv_Microseconds tv) * ticksPerSecond) div 1000000"

definition ConvertTimerTicksToTimeVal :: "ticks \<Rightarrow> ticks \<Rightarrow> TimeVal" where
  "ConvertTimerTicksToTimeVal ticksPerSecond ticks =
     \<lparr>tv_Seconds = ucast (ticks div ticksPerSecond),
      tv_Microseconds = ucast (((ticks mod ticksPerSecond) * 1000000) div ticksPerSecond)\<rparr>"

section \<open>The timer queue\<close>

type_synonym timer = nat

record TState =
  waitq :: "timer list"
  expiredq :: "timer list"
  tm_WakeTime :: "timer \<Rightarrow> ticks"
  tm_Period :: "timer \<Rightarrow> ticks"
  tm_Periodic :: "timer \<Rightarrow> bool"
  decrementer :: u32
  reads :: nat
  ran :: "timer list"

type_synonym clock = "nat \<Rightarrow> ticks"

definition SampleSystemTimeTT :: "clock \<Rightarrow> TState \<Rightarrow> ticks \<times> TState" where
  "SampleSystemTimeTT clk s = (clk (reads s), s\<lparr>reads := reads s + 1\<rparr>)"

definition CmpWakeTimes :: "TState \<Rightarrow> timer \<Rightarrow> timer \<Rightarrow> bool" where
  "CmpWakeTimes s n m \<longleftrightarrow> CompareTimerTicks (tm_WakeTime s n) (tm_WakeTime s m) < 0"

text \<open>\<open>UniversalInsertNode\<close> on the waiting queue: in front of the first timer that wakes later.\<close>

definition insert_waitq :: "timer \<Rightarrow> TState \<Rightarrow> TState" where
  "insert_waitq t s = s\<lparr>waitq := insert_at (CmpWakeTimes s t) t (waitq s)\<rparr>"

text \<open>\<open>REMOVENODE\<close>: the timer leaves whichever of the two lists it is on.\<close>

definition unlink :: "timer \<Rightarrow> TState \<Rightarrow> TState" where
  "unlink t s = s\<lparr>waitq := removeAll t (waitq s), expiredq := removeAll t (expiredq s)\<rparr>"

definition StartDecrementer :: "clock \<Rightarrow> timer \<Rightarrow> TState \<Rightarrow> TState" where
  "StartDecrementer clk t s =
     (let (tt, s) = SampleSystemTimeTT clk s;
          tt = SubTimerTicks tt (tm_WakeTime s t)
      in if drop_bit 32 tt \<noteq> 0 then s\<lparr>decrementer := 0x7fffffff\<rparr>
         else s\<lparr>decrementer := ucast tt\<rparr>)"

partial_function (option) ServiceDecrementer_loop ::
    "clock \<Rightarrow> (timer \<Rightarrow> TState \<Rightarrow> TState) \<Rightarrow> TState \<Rightarrow> TState option" where
  "ServiceDecrementer_loop clk tm_Code s =
     (case waitq s of
        [] \<Rightarrow> Some s
      | t # q \<Rightarrow>
          let (tt, s) = SampleSystemTimeTT clk s in
          if CompareTimerTicks tt (tm_WakeTime s t) < 0 then Some (StartDecrementer clk t s)
          else
            let s = unlink t s;
                s = (if tm_Periodic s t
                     then insert_waitq t (s\<lparr>tm_WakeTime := (tm_WakeTime s)
                            (t := AddTimerTicks (tm_WakeTime s t) (tm_Period s t))\<rparr>)
                     else s\<lparr>expiredq := expiredq s @ [t]\<rparr>);
                s = tm_Code t (s\<lparr>ran := ran s @ [t]\<rparr>)
            in ServiceDecrementer_loop clk tm_Code s)"

definition ServiceDecrementer ::
    "bool \<Rightarrow> clock \<Rightarrow> (timer \<Rightarrow> TState \<Rightarrow> TState) \<Rightarrow> TState \<Rightarrow> TState option" where
  "ServiceDecrementer slave clk tm_Code s =
     (if slave then Some s else ServiceDecrementer_loop clk tm_Code s)"

definition LoadTimer :: "clock \<Rightarrow> timer \<Rightarrow> ticks \<Rightarrow> TState \<Rightarrow> TState" where
  "LoadTimer clk t tt s =
     (let (now, s) = SampleSystemTimeTT clk s;
          s = s\<lparr>tm_WakeTime := (tm_WakeTime s)(t := AddTimerTicks now tt)\<rparr>;
          s = insert_waitq t (unlink t s)
      in if hd (waitq s) = t then StartDecrementer clk t s else s)"

text \<open>\<open>head\<close> is the first node of the queue, or its anchor, which is no timer.\<close>

definition UnloadTimer :: "clock \<Rightarrow> timer \<Rightarrow> TState \<Rightarrow> TState" where
  "UnloadTimer clk t s =
     (let was_head = (case waitq s of [] \<Rightarrow> False | h # _ \<Rightarrow> h = t);
          s = unlink t s;
          s = s\<lparr>expiredq := expiredq s @ [t]\<rparr>
      in if was_head then
           case waitq s of
             h # _ \<Rightarrow> StartDecrementer clk h s
           | [] \<Rightarrow> s\<lparr>decrementer := 0x7fffffff\<rparr>
         else s)"

datatype timer_tag = CREATETIMER_TAG_HNDLR | CREATETIMER_TAG_PERIOD ticks | CREATETIMER_TAG_USERDATA | OTHER_TIMER_TAG

text \<open>The tags of a new timer: whether a handler was given, and the period.\<close>

fun ict_c :: "timer_tag list \<Rightarrow> bool \<times> ticks option \<Rightarrow> (bool \<times> ticks option) res" where
  "ict_c [] r = Inr r"
| "ict_c (CREATETIMER_TAG_HNDLR # tags) (_, p) = ict_c tags (True, p)"
| "ict_c (CREATETIMER_TAG_PERIOD p # tags) (h, _) = ict_c tags (h, Some p)"
| "ict_c (CREATETIMER_TAG_USERDATA # tags) r = ict_c tags r"
| "ict_c (OTHER_TIMER_TAG # tags) r = Inl BADTAG"

definition internalCreateTimer :: "bool option \<Rightarrow> timer \<Rightarrow> timer_tag list \<Rightarrow> TState \<Rightarrow> unit res \<times> TState" where
  "internalCreateTimer current_privileged t tags s =
     (if current_privileged = Some False then (Inl BADPRIV, s)
      else case ict_c tags (False, None) of
        Inl e \<Rightarrow> (Inl e, s)
      | Inr (handler, period) \<Rightarrow>
          if \<not> handler then (Inl BADTAGVAL, s)
          else (Inr (), s\<lparr>tm_Periodic := (tm_Periodic s)(t := (period \<noteq> None)),
                 tm_Period := (case period of None \<Rightarrow> tm_Period s | Some p \<Rightarrow> (tm_Period s)(t := p)),
                 expiredq := expiredq s @ [t]\<rparr>))"

definition internalDeleteTimer :: "clock \<Rightarrow> timer \<Rightarrow> TState \<Rightarrow> TState" where
  "internalDeleteTimer clk t s =
     (let s = unlink t s in
      case waitq s of [] \<Rightarrow> s | h # _ \<Rightarrow> StartDecrementer clk h s)"

definition SuperSetSystemTimeTT :: "ticks \<Rightarrow> TState \<Rightarrow> TState" where
  "SuperSetSystemTimeTT new s =
     s\<lparr>decrementer := 1, tm_WakeTime := (\<lambda>t. if t \<in> set (waitq s) \<and> tm_Periodic s t then new else tm_WakeTime s t)\<rparr>"

section \<open>The queue invariant\<close>

definition queue_ok :: "TState \<Rightarrow> bool" where
  "queue_ok s \<longleftrightarrow> sorted_wrt (\<lambda>a b. tm_WakeTime s a \<le> tm_WakeTime s b) (waitq s)
     \<and> distinct (waitq s @ expiredq s)"

definition timers_of :: "TState \<Rightarrow> timer set" where
  "timers_of s = set (waitq s) \<union> set (expiredq s)"

lemma StartDecrementer_fields [simp]:
  "waitq (StartDecrementer clk t s) = waitq s" "expiredq (StartDecrementer clk t s) = expiredq s"
  "tm_WakeTime (StartDecrementer clk t s) = tm_WakeTime s" "ran (StartDecrementer clk t s) = ran s"
  "tm_Periodic (StartDecrementer clk t s) = tm_Periodic s" "tm_Period (StartDecrementer clk t s) = tm_Period s"
  by (simp_all add: StartDecrementer_def SampleSystemTimeTT_def Let_def)

lemma queue_ok_cong:
  "waitq s' = waitq s \<Longrightarrow> expiredq s' = expiredq s \<Longrightarrow> tm_WakeTime s' = tm_WakeTime s \<Longrightarrow> queue_ok s' = queue_ok s"
  by (simp add: queue_ok_def)

lemma set_insert_at [simp]: "set (insert_at stop n xs) = insert n (set xs)"
  by (auto simp: insert_at_def) (metis Un_iff set_append takeWhile_dropWhile_id)+

lemma distinct_insert_at: "distinct (insert_at stop n xs) \<longleftrightarrow> n \<notin> set xs \<and> distinct xs"
proof -
  obtain us vs where "xs = us @ vs" "insert_at stop n xs = us @ n # vs"
    by (metis insert_at_def takeWhile_dropWhile_id)
  then show ?thesis by auto
qed

lemma sorted_insert_at:
  fixes f :: "'a \<Rightarrow> 'b :: linorder"
  assumes "sorted_wrt (\<lambda>a b. f a \<le> f b) xs"
  shows "sorted_wrt (\<lambda>a b. f a \<le> f b) (insert_at (\<lambda>m. f n < f m) n xs)"
proof -
  let ?P = "\<lambda>m. \<not> f n < f m"
  have "takeWhile ?P xs = filter ?P xs" "dropWhile ?P xs = filter (\<lambda>m. \<not> ?P m) xs"
    using sorted_takeWhile_filter [OF assms, of ?P] by (meson leD leI order_trans)+
  then show ?thesis
    using assms by (auto simp: insert_at_def sorted_wrt_append sorted_wrt_filter)
qed

lemma CmpWakeTimes_less: "CmpWakeTimes s n = (\<lambda>m. tm_WakeTime s n < tm_WakeTime s m)"
  by (simp add: CmpWakeTimes_def CompareTimerTicks_def fun_eq_iff)

lemma insert_waitq_ok:
  assumes "sorted_wrt (\<lambda>a b. tm_WakeTime s a \<le> tm_WakeTime s b) (waitq s)"
    and "distinct (waitq s @ expiredq s)" and "t \<notin> timers_of s"
  shows "queue_ok (insert_waitq t s)" and "timers_of (insert_waitq t s) = insert t (timers_of s)"
  using assms sorted_insert_at [OF assms(1), of t]
  by (auto simp: queue_ok_def insert_waitq_def CmpWakeTimes_less distinct_insert_at timers_of_def)

lemma unlink_ok:
  assumes "queue_ok s"
  shows "sorted_wrt (\<lambda>a b. tm_WakeTime s a \<le> tm_WakeTime s b) (waitq (unlink t s))"
    and "distinct (waitq (unlink t s) @ expiredq (unlink t s))" and "t \<notin> timers_of (unlink t s)"
    and "timers_of (unlink t s) = timers_of s - {t}"
  using assms by (auto simp: queue_ok_def unlink_def timers_of_def removeAll_filter_not_eq sorted_wrt_filter)

lemma sorted_upd:
  assumes "sorted_wrt (\<lambda>a b. f a \<le> f b) xs" and "t \<notin> set xs"
  shows "sorted_wrt (\<lambda>a b. (f(t := v)) a \<le> (f(t := v)) b) xs"
  using assms(1) by (rule sorted_wrt_mono_rel [rotated]) (use assms(2) in auto)

lemma LoadTimer_ok:
  assumes "queue_ok s"
  shows "queue_ok (LoadTimer clk t tt s)" and "timers_of (LoadTimer clk t tt s) = insert t (timers_of s)"
    and "t \<in> set (waitq (LoadTimer clk t tt s))"
proof -
  let ?w = "(tm_WakeTime s)(t := clk (reads s) + tt)"
  let ?s = "unlink t (s\<lparr>reads := reads s + 1, tm_WakeTime := ?w\<rparr>)"
  note U = unlink_ok [OF assms, of t]
  have s: "waitq ?s = waitq (unlink t s)" "expiredq ?s = expiredq (unlink t s)" "tm_WakeTime ?s = ?w"
    by (simp_all add: unlink_def)
  have n: "t \<notin> set (waitq (unlink t s))" using U(3) by (simp add: timers_of_def)
  have "queue_ok (insert_waitq t ?s)" "timers_of (insert_waitq t ?s) = insert t (timers_of ?s)"
    using insert_waitq_ok [of ?s t] U sorted_upd [OF U(1) n] unfolding s timers_of_def by blast+
  moreover have "timers_of ?s = timers_of s - {t}" using U(4) unfolding timers_of_def s by simp
  moreover have "t \<in> set (waitq (insert_waitq t ?s))" by (simp add: insert_waitq_def)
  ultimately show "queue_ok (LoadTimer clk t tt s)" "timers_of (LoadTimer clk t tt s) = insert t (timers_of s)"
    "t \<in> set (waitq (LoadTimer clk t tt s))"
    by (auto simp: LoadTimer_def SampleSystemTimeTT_def AddTimerTicks_def Let_def timers_of_def queue_ok_def)
qed

lemma UnloadTimer_ok:
  assumes "queue_ok s"
  shows "queue_ok (UnloadTimer clk t s)" and "timers_of (UnloadTimer clk t s) = insert t (timers_of s)"
    and "t \<notin> set (waitq (UnloadTimer clk t s))"
proof -
  note U = unlink_ok [OF assms, of t]
  define s1 where "s1 = (unlink t s)\<lparr>expiredq := expiredq (unlink t s) @ [t]\<rparr>"
  have "queue_ok s1" "timers_of s1 = insert t (timers_of s)" "t \<notin> set (waitq s1)"
    using U by (auto simp: s1_def queue_ok_def timers_of_def unlink_def)
  moreover have "waitq (UnloadTimer clk t s) = waitq s1 \<and> expiredq (UnloadTimer clk t s) = expiredq s1
      \<and> tm_WakeTime (UnloadTimer clk t s) = tm_WakeTime s1"
    by (simp add: UnloadTimer_def s1_def Let_def split: list.splits)
  ultimately show "queue_ok (UnloadTimer clk t s)" "timers_of (UnloadTimer clk t s) = insert t (timers_of s)"
    "t \<notin> set (waitq (UnloadTimer clk t s))"
    by (auto simp: queue_ok_def timers_of_def)
qed


lemma dec_bound:
  "unat (decrementer (StartDecrementer clk t s)) \<le> unat (SubTimerTicks (clk (reads s)) (tm_WakeTime s t))"
proof -
  let ?d = "SubTimerTicks (clk (reads s)) (tm_WakeTime s t)"
  have "unat (ucast ?d :: u32) \<le> unat ?d"
    by (simp add: unsigned_ucast_eq unsigned_take_bit_eq take_bit_nat_less_eq_self)
  moreover have "unat (0x7fffffff :: u32) \<le> unat ?d" if "drop_bit 32 ?d \<noteq> 0"
  proof -
    have "unat (drop_bit 32 ?d) \<noteq> 0" using that by (simp add: unat_eq_zero)
    then have "unat ?d div 2 ^ 32 \<noteq> 0" by (simp add: unat_drop_bit_eq drop_bit_eq_div unat_div)
    then have "2 ^ 32 \<le> unat ?d" by (simp add: div_eq_0_iff)
    then show ?thesis by simp
  qed
  ultimately show ?thesis by (auto simp: StartDecrementer_def SampleSystemTimeTT_def Let_def)
qed

section \<open>Servicing the queue\<close>

text \<open>One pass over the head of the queue, for a handler that leaves the timers alone.\<close>

definition serve_head :: "TState \<Rightarrow> TState" where
  "serve_head s = (let t = hd (waitq s); s = unlink t (s\<lparr>reads := reads s + 1\<rparr>);
     s = (if tm_Periodic s t
          then insert_waitq t (s\<lparr>tm_WakeTime := (tm_WakeTime s)
                 (t := AddTimerTicks (tm_WakeTime s t) (tm_Period s t))\<rparr>)
          else s\<lparr>expiredq := expiredq s @ [t]\<rparr>)
     in s\<lparr>ran := ran s @ [t]\<rparr>)"

definition due :: "ticks \<Rightarrow> TState \<Rightarrow> bool" where
  "due now s \<longleftrightarrow> waitq s \<noteq> [] \<and> tm_WakeTime s (hd (waitq s)) \<le> now"

lemma ServiceDecrementer_unfold:
  assumes "\<And>n. clk n = now"
  shows "ServiceDecrementer_loop clk (\<lambda>_ s. s) s =
    (if waitq s = [] then Some s
     else if due now s then ServiceDecrementer_loop clk (\<lambda>_ s. s) (serve_head s)
     else Some (StartDecrementer clk (hd (waitq s)) (s\<lparr>reads := reads s + 1\<rparr>)))"
  by (subst ServiceDecrementer_loop.simps)
    (auto simp: SampleSystemTimeTT_def CompareTimerTicks_def serve_head_def due_def assms Let_def not_le
      split: list.splits)

text \<open>The periods do not wrap the 64-bit clock and are not zero.\<close>

definition periods_ok :: "ticks \<Rightarrow> TState \<Rightarrow> bool" where
  "periods_ok now s \<longleftrightarrow> (\<forall>t. tm_Periodic s t \<longrightarrow> tm_Period s t \<noteq> 0 \<and> unat now + unat (tm_Period s t) < 2 ^ 64)"

definition lag :: "ticks \<Rightarrow> (timer \<Rightarrow> ticks) \<Rightarrow> timer \<Rightarrow> nat" where
  "lag now w t = (unat now + 1) - unat (w t)"

definition work :: "ticks \<Rightarrow> TState \<Rightarrow> nat" where
  "work now s = sum_list (map (lag now (tm_WakeTime s)) (waitq s))"

lemma serve_head_ok:
  assumes "queue_ok s" and "due now s" and "periods_ok now s"
  shows "queue_ok (serve_head s)" and "periods_ok now (serve_head s)"
    and "work now (serve_head s) < work now s" and "timers_of (serve_head s) = timers_of s"
    and "tm_Periodic (serve_head s) = tm_Periodic s"
    and "ran (serve_head s) = ran s @ [hd (waitq s)]"
proof -
  obtain t q where q: "waitq s = t # q" using assms(2) by (cases "waitq s") (auto simp: due_def)
  have tq: "t \<notin> set q" "t \<notin> set (expiredq s)" using assms(1) q by (simp_all add: queue_ok_def)
  have le: "tm_WakeTime s t \<le> now" using assms(2) q by (simp add: due_def)
  define w where "w = (if tm_Periodic s t then (tm_WakeTime s)(t := tm_WakeTime s t + tm_Period s t) else tm_WakeTime s)"
  define s0 where "s0 = s\<lparr>reads := reads s + 1, waitq := q, tm_WakeTime := w\<rparr>"
  have un: "removeAll t (waitq s) = q" "removeAll t (expiredq s) = expiredq s"
    using tq q by simp_all
  have sh: "waitq (serve_head s) = (if tm_Periodic s t then waitq (insert_waitq t s0) else q)"
    "expiredq (serve_head s) = (if tm_Periodic s t then expiredq s else expiredq s @ [t])"
    "tm_WakeTime (serve_head s) = w" "tm_Periodic (serve_head s) = tm_Periodic s"
    "tm_Period (serve_head s) = tm_Period s" "ran (serve_head s) = ran s @ [t]"
    using un by (simp_all add: serve_head_def q Let_def unlink_def s0_def w_def insert_waitq_def
        AddTimerTicks_def CmpWakeTimes_less)
  have srt: "sorted_wrt (\<lambda>a b. tm_WakeTime s a \<le> tm_WakeTime s b) q" using assms(1) q by (simp add: queue_ok_def)
  then have srt': "sorted_wrt (\<lambda>a b. w a \<le> w b) q" using sorted_upd [OF srt tq(1)] by (simp add: w_def)
  have ins: "queue_ok (insert_waitq t s0)"
    using assms(1) q srt' tq by (intro insert_waitq_ok) (auto simp: s0_def queue_ok_def timers_of_def)
  show "queue_ok (serve_head s)"
  proof (cases "tm_Periodic s t")
    case True
    then show ?thesis using ins sh by (simp add: queue_ok_def s0_def insert_waitq_def)
  next
    case False
    then show ?thesis using assms(1) q srt' sh by (auto simp: queue_ok_def)
  qed
  show "periods_ok now (serve_head s)" using assms(3) sh by (simp add: periods_ok_def)
  show "tm_Periodic (serve_head s) = tm_Periodic s" "ran (serve_head s) = ran s @ [hd (waitq s)]"
    using sh q by simp_all
  show "timers_of (serve_head s) = timers_of s"
    using sh q by (auto simp: timers_of_def insert_waitq_def s0_def split: if_splits)
  have same: "map (lag now w) q = map (lag now (tm_WakeTime s)) q"
    using tq(1) by (auto simp: lag_def w_def)
  have "sum_list (map f (insert_at stop t q)) = f t + sum_list (map f q)" for f :: "timer \<Rightarrow> nat" and stop
  proof -
    obtain us vs where "q = us @ vs" "insert_at stop t q = us @ t # vs"
      by (metis insert_at_def takeWhile_dropWhile_id)
    then show ?thesis by simp
  qed
  then have W: "work now (serve_head s) = (if tm_Periodic s t then lag now w t else 0) + sum_list (map (lag now w) q)"
    using sh by (simp add: work_def insert_waitq_def s0_def)
  have "lag now w t < lag now (tm_WakeTime s) t" if p: "tm_Periodic s t"
  proof -
    have b: "unat (tm_WakeTime s t) \<le> unat now" "tm_Period s t \<noteq> 0" "unat now + unat (tm_Period s t) < 2 ^ 64"
      using le p assms(3) by (simp_all add: word_le_nat_alt periods_ok_def)
    have "unat (tm_WakeTime s t + tm_Period s t) = unat (tm_WakeTime s t) + unat (tm_Period s t)"
      using b by (subst unat_add_small) simp_all
    moreover have "unat (tm_Period s t) > 0" using b(2) by (simp add: unat_gt_0)
    ultimately show ?thesis using p b(1) by (simp add: lag_def w_def)
  qed
  moreover have "0 < lag now (tm_WakeTime s) t" using le by (simp add: lag_def word_le_nat_alt)
  ultimately show "work now (serve_head s) < work now s"
  proof -
    assume a: "tm_Periodic s t \<Longrightarrow> lag now w t < lag now (tm_WakeTime s) t" "0 < lag now (tm_WakeTime s) t"
    have "work now s = lag now (tm_WakeTime s) t + sum_list (map (lag now w) q)"
      unfolding work_def q same by simp
    then show ?thesis using W a by simp
  qed
qed

lemma ServiceDecrementer_ends:
  assumes "\<And>n. clk n = now" and "queue_ok s" and "periods_ok now s"
  shows "\<exists>s'. ServiceDecrementer_loop clk (\<lambda>_ s. s) s = Some s' \<and> queue_ok s' \<and> timers_of s' = timers_of s
    \<and> tm_Periodic s' = tm_Periodic s
    \<and> (\<forall>t \<in> set (waitq s'). now < tm_WakeTime s' t)
    \<and> (waitq s' \<noteq> [] \<longrightarrow> unat (decrementer s') \<le> unat (tm_WakeTime s' (hd (waitq s'))) - unat now)
    \<and> (\<exists>called. ran s' = ran s @ called
        \<and> set (expiredq s') = set (expiredq s) \<union> {t \<in> set called. \<not> tm_Periodic s t}
        \<and> (\<forall>t \<in> set (waitq s). t \<in> set called \<longleftrightarrow> tm_WakeTime s t \<le> now)
        \<and> set called \<subseteq> set (waitq s))"
  using assms(2,3)
proof (induction "work now s" arbitrary: s rule: less_induct)
  case less
  consider (empty) "waitq s = []" | (due) "due now s" "waitq s \<noteq> []" | (wait) "\<not> due now s" "waitq s \<noteq> []" by blast
  then show ?case
  proof cases
    case empty
    then show ?thesis using less.prems by (subst ServiceDecrementer_unfold [OF assms(1)]) auto
  next
    case wait
    let ?s = "StartDecrementer clk (hd (waitq s)) (s\<lparr>reads := reads s + 1\<rparr>)"
    obtain t q where q: "waitq s = t # q" using wait(2) by (cases "waitq s") auto
    have gt: "now < tm_WakeTime s u" if "u \<in> set (waitq s)" for u
      using less.prems(1) that wait q by (auto simp: queue_ok_def due_def)
    have d: "unat (decrementer ?s) \<le> unat (tm_WakeTime s t) - unat now"
    proof -
      have "now < tm_WakeTime s t" using gt q by simp
      then have "unat (SubTimerTicks now (tm_WakeTime s t)) \<le> unat (tm_WakeTime s t) - unat now"
        by (simp add: SubTimerTicks_def unat_sub_le not_less)
      then show ?thesis using dec_bound [of clk t "s\<lparr>reads := reads s + 1\<rparr>"] q by (simp add: assms(1))
    qed
    have "queue_ok ?s" using less.prems(1) by (simp add: queue_ok_def)
    then show ?thesis
      using wait gt d q less.prems
      by (subst ServiceDecrementer_unfold [OF assms(1)])
        (auto simp: timers_of_def not_le intro!: exI [of _ "[]"])
  next
    case due
    note S = serve_head_ok [OF less.prems(1) due(1) less.prems(2)]
    obtain t q where q: "waitq s = t # q" using due(2) by (cases "waitq s") auto
    from less.hyps [OF S(3,1,2)] obtain s' called where
      r: "ServiceDecrementer_loop clk (\<lambda>_ s. s) (serve_head s) = Some s'" "queue_ok s'"
      "timers_of s' = timers_of (serve_head s)" "tm_Periodic s' = tm_Periodic (serve_head s)"
      "\<forall>t \<in> set (waitq s'). now < tm_WakeTime s' t"
      "waitq s' \<noteq> [] \<longrightarrow> unat (decrementer s') \<le> unat (tm_WakeTime s' (hd (waitq s'))) - unat now"
      "ran s' = ran (serve_head s) @ called"
      "set (expiredq s') = set (expiredq (serve_head s)) \<union> {t \<in> set called. \<not> tm_Periodic (serve_head s) t}"
      "\<forall>t \<in> set (waitq (serve_head s)). t \<in> set called \<longleftrightarrow> tm_WakeTime (serve_head s) t \<le> now"
      "set called \<subseteq> set (waitq (serve_head s))" by blast
    have tq: "t \<notin> set q" "t \<notin> set (expiredq s)" using less.prems(1) q by (simp_all add: queue_ok_def)
    have sets: "set (waitq (serve_head s)) = (if tm_Periodic s t then insert t (set q) else set q)"
      "set (expiredq (serve_head s)) = (if tm_Periodic s t then set (expiredq s) else insert t (set (expiredq s)))"
      "\<And>u. u \<noteq> t \<Longrightarrow> tm_WakeTime (serve_head s) u = tm_WakeTime s u"
      using tq q by (auto simp: serve_head_def Let_def unlink_def insert_waitq_def)
    have tle: "tm_WakeTime s t \<le> now" using due(1) q by (simp add: due_def)
    have "\<forall>u \<in> set (waitq s). u \<in> set (t # called) \<longleftrightarrow> tm_WakeTime s u \<le> now"
    proof
      fix u assume u: "u \<in> set (waitq s)"
      show "u \<in> set (t # called) \<longleftrightarrow> tm_WakeTime s u \<le> now"
      proof (cases "u = t")
        case False
        then have "u \<in> set (waitq (serve_head s))" using u sets(1) q by auto
        then show ?thesis using r(9) sets(3) [OF False] False by simp
      qed (simp add: tle)
    qed
    moreover have "set (expiredq s') = set (expiredq s) \<union> {u \<in> set (t # called). \<not> tm_Periodic s u}"
      using r(8) S(5) sets(2) by (auto split: if_splits)
    moreover have "set (t # called) \<subseteq> set (waitq s)" using r(10) sets(1) q by (auto split: if_splits)
    moreover have "ran s' = ran s @ t # called" using r(7) S(6) q by simp
    moreover have "ServiceDecrementer_loop clk (\<lambda>_ s. s) s = Some s'"
      using r(1) due by (subst ServiceDecrementer_unfold [OF assms(1)]) simp
    ultimately show ?thesis using r(2-6) S(4,5) by (intro exI [of _ s'] conjI exI [of _ "t # called"]) simp_all
  qed
qed


section \<open>Conversions\<close>

lemma unat_scast_nonneg:
  assumes "0 \<le> sint (w :: u32)"
  shows "unat (scast w :: u64) = unat w"
proof -
  have b: "unat w < 2 ^ 31" by (rule nonneg_small [OF assms])
  have "(scast w :: u64) = word_of_nat (unat w)" using sint_small [OF b] by (simp add: scast_eq)
  then show ?thesis
    using b by (simp add: unsigned_ucast_eq unsigned_take_bit_eq take_bit_nat_eq_self_iff)
qed

lemma ticks_roundtrip_nat:
  fixes s m t :: nat
  assumes "1000000 \<le> t" and "m < 1000000"
  shows "(s * t + m * t div 1000000) div t = s"
    and "((s * t + m * t div 1000000) mod t) * 1000000 div t \<le> m"
    and "m \<le> ((s * t + m * t div 1000000) mod t) * 1000000 div t + 1"
proof -
  let ?f = "m * t div 1000000"
  have "m * t < 1000000 * t" using assms by simp
  then have f: "?f < t" by (simp add: div_less_iff_less_mult mult.commute)
  then show "(s * t + ?f) div t = s" using assms(1) by simp
  have md: "(s * t + ?f) mod t = ?f" using f by simp
  have up: "?f * 1000000 \<le> m * t" by (rule div_times_less_eq_dividend)
  have "?f * 1000000 div t \<le> m * t div t" using up by (rule div_le_mono)
  then show "((s * t + ?f) mod t) * 1000000 div t \<le> m" using assms(1) md by simp
  have "m * t < ?f * 1000000 + 1000000" by (metis dividend_less_div_times zero_less_numeral add.commute)
  then have "m * t \<le> (?f * 1000000) + t" using assms(1) by linarith
  then have "m * t div t \<le> (?f * 1000000 + t) div t" by (rule div_le_mono)
  moreover have "t \<noteq> 0" using assms(1) by simp
  moreover from this have "(?f * 1000000 + t) div t = ?f * 1000000 div t + 1" by (rule div_add_self2)
  ultimately show "m \<le> ((s * t + ?f) mod t) * 1000000 div t + 1" unfolding md by simp
qed

section \<open>Properties\<close>

definition example_timers :: TState where
  "example_timers = \<lparr>waitq = [1, 2], expiredq = [3], tm_WakeTime = (\<lambda>_. 0)(1 := 50, 2 := 90),
     tm_Period = (\<lambda>_. 0)(1 := 100), tm_Periodic = (\<lambda>_. False)(1 := True), decrementer = 0, reads = 0, ran = []\<rparr>"

lemma example_timers_ok: "queue_ok example_timers"
  by (simp add: queue_ok_def example_timers_def)

text \<open>C12: the timer queue stays in order. From a queue sorted by wake time with no timer twice,
  loading, unloading and deleting a timer give such a queue again and lose no other timer; a
  loaded timer waits, an unloaded one does not, and no operation calls a handler.\<close>

theorem timer_queue_invariant:
  assumes "queue_ok s"
  shows "queue_ok (LoadTimer clk t tt s) \<and> timers_of (LoadTimer clk t tt s) = insert t (timers_of s)
      \<and> t \<in> set (waitq (LoadTimer clk t tt s))
    \<and> queue_ok (UnloadTimer clk t s) \<and> timers_of (UnloadTimer clk t s) = insert t (timers_of s)
      \<and> t \<notin> set (waitq (UnloadTimer clk t s))
    \<and> queue_ok (internalDeleteTimer clk t s) \<and> timers_of (internalDeleteTimer clk t s) = timers_of s - {t}"
proof -
  have "queue_ok (internalDeleteTimer clk t s) \<and> timers_of (internalDeleteTimer clk t s) = timers_of s - {t}"
  proof -
    have "waitq (internalDeleteTimer clk t s) = waitq (unlink t s) \<and> expiredq (internalDeleteTimer clk t s) = expiredq (unlink t s)
        \<and> tm_WakeTime (internalDeleteTimer clk t s) = tm_WakeTime s"
      by (simp add: internalDeleteTimer_def Let_def unlink_def split: list.split)
    then show ?thesis using unlink_ok [OF assms, of t] by (simp add: queue_ok_def timers_of_def)
  qed
  then show ?thesis using LoadTimer_ok [OF assms] UnloadTimer_ok [OF assms] by simp
qed

theorem timer_queue_invariant_witness:
  "queue_ok (LoadTimer (\<lambda>n. of_nat n) 3 60 example_timers)"
  by (rule conjunct1 [OF timer_queue_invariant [OF example_timers_ok]])

text \<open>C13: servicing the decrementer ends and serves exactly the timers that are due. With the
  clock at \<open>now\<close>, handlers that leave the queue alone and periods that are neither zero nor
  wrap the clock, the loop returns; of the timers that waited it has called exactly those whose wake
  time had come, those that are not periodic are now idle, every timer left waits for a
  time after \<open>now\<close>, no timer is lost, and the decrementer is loaded with at most the time
  left until the first wake time.\<close>

theorem ServiceDecrementer_serves:
  assumes "\<forall>n. clk n = now" and "queue_ok s" and "periods_ok now s"
  shows "\<exists>s'. ServiceDecrementer False clk (\<lambda>_ s. s) s = Some s' \<and> queue_ok s' \<and> timers_of s' = timers_of s
    \<and> (\<forall>t \<in> set (waitq s'). now < tm_WakeTime s' t)
    \<and> (waitq s' \<noteq> [] \<longrightarrow> unat (decrementer s') \<le> unat (tm_WakeTime s' (hd (waitq s'))) - unat now)
    \<and> (\<exists>called. ran s' = ran s @ called
        \<and> set (expiredq s') = set (expiredq s) \<union> {t \<in> set called. \<not> tm_Periodic s t}
        \<and> (\<forall>t \<in> set (waitq s). t \<in> set called \<longleftrightarrow> tm_WakeTime s t \<le> now))"
proof -
  have "clk n = now" for n using assms(1) by blast
  from ServiceDecrementer_ends [of clk now s, OF this assms(2,3)]
  show ?thesis unfolding ServiceDecrementer_def if_False by blast
qed

theorem ServiceDecrementer_serves_witness:
  "\<exists>s'. ServiceDecrementer False (\<lambda>_. 70) (\<lambda>_ s. s) example_timers = Some s'
    \<and> (\<exists>called. ran s' = called \<and> 1 \<in> set called \<and> 2 \<notin> set called)"
proof -
  have "periods_ok 70 example_timers" by (simp add: periods_ok_def example_timers_def)
  from ServiceDecrementer_serves [OF _ example_timers_ok this, of "\<lambda>_. 70"]
  show ?thesis by (auto simp: example_timers_def)
qed

text \<open>Converting a time value to timer ticks and back returns the same seconds and loses at
  most one microsecond, for a normalised time value that is not negative and a clock of at least a
  million ticks per second whose count does not overflow 64 bits.\<close>

theorem TimerTicks_roundtrip:
  assumes "0 \<le> sint (tv_Seconds tv)" and "unat (tv_Microseconds tv) < 1000000"
    and "1000000 \<le> unat t" and "unat t < 2 ^ 32"
  shows "tv_Seconds (ConvertTimerTicksToTimeVal t (ConvertTimeValToTimerTicks t tv)) = tv_Seconds tv
    \<and> unat (tv_Microseconds (ConvertTimerTicksToTimeVal t (ConvertTimeValToTimerTicks t tv))) \<le> unat (tv_Microseconds tv)
    \<and> unat (tv_Microseconds tv) \<le> unat (tv_Microseconds (ConvertTimerTicksToTimeVal t (ConvertTimeValToTimerTicks t tv))) + 1"
proof -
  define S M T where "S = unat (tv_Seconds tv)" and "M = unat (tv_Microseconds tv)" and "T = unat t"
  have S: "S < 2 ^ 31" unfolding S_def by (rule nonneg_small [OF assms(1)])
  have M: "M < 1000000" and T: "1000000 \<le> T" "T < 2 ^ 32" using assms by (simp_all add: M_def T_def)
  have "0 \<le> sint (tv_Microseconds tv)" using M by (subst sint_small) (simp_all add: M_def)
  then have um: "unat (scast (tv_Microseconds tv) :: u64) = M" by (simp add: unat_scast_nonneg M_def)
  have us: "unat (scast (tv_Seconds tv) :: u64) = S" using assms(1) by (simp add: unat_scast_nonneg S_def)
  have "S * T < 2 ^ 31 * 2 ^ 32" "M * T < 2 ^ 20 * 2 ^ 32" using S M T by (intro mult_strict_mono; simp)+
  then have st: "S * T < 2 ^ 63" "M * T < 2 ^ 52" by simp_all
  note R = ticks_roundtrip_nat [OF T(1) M, of S]
  have fr: "M * T div 1000000 < 2 ^ 52" using st(2) div_le_dividend [of "M * T" 1000000] by linarith
  have u1: "unat (scast (tv_Microseconds tv) * t) = M * T"
    using st(2) by (subst unat_mult_small) (simp_all add: um T_def)
  have u2: "unat (scast (tv_Seconds tv) * t) = S * T"
    using st(1) by (subst unat_mult_small) (simp_all add: us T_def)
  have u3: "unat (scast (tv_Microseconds tv) * t div 1000000) = M * T div 1000000"
    by (simp add: unat_div u1)
  have ticks: "unat (ConvertTimeValToTimerTicks t tv) = S * T + M * T div 1000000"
    unfolding ConvertTimeValToTimerTicks_def using st fr by (subst unat_add_small) (simp_all add: u2 u3)
  let ?n = "S * T + M * T div 1000000"
  have md: "?n mod T < 2 ^ 32" using T by (meson less_trans mod_less_divisor zero_less_numeral less_le_trans)
  have "?n mod T * 1000000 < 2 ^ 32 * 2 ^ 20" using md by (intro mult_strict_mono) simp_all
  then have "unat (ConvertTimeValToTimerTicks t tv mod t * 1000000) = ?n mod T * 1000000"
    by (subst unat_mult_small) (simp_all add: unat_mod ticks T_def)
  then have mic: "unat (ConvertTimeValToTimerTicks t tv mod t * 1000000 div t) = ?n mod T * 1000000 div T"
    by (simp add: unat_div T_def)
  have c: "unat (ucast w :: u32) = unat w" if "unat w < 2 ^ 32" for w :: u64
    using that by (simp add: unsigned_ucast_eq unsigned_take_bit_eq take_bit_nat_eq_self_iff)
  have "?n mod T * 1000000 div T < 2 ^ 32" using R(2) M by simp
  then have mic': "unat (tv_Microseconds (ConvertTimerTicksToTimeVal t (ConvertTimeValToTimerTicks t tv)))
      = ?n mod T * 1000000 div T"
    by (simp add: ConvertTimerTicksToTimeVal_def c mic)
  have "unat (ConvertTimeValToTimerTicks t tv div t) = S" using R(1) by (simp add: unat_div ticks T_def)
  then have "unat (tv_Seconds (ConvertTimerTicksToTimeVal t (ConvertTimeValToTimerTicks t tv))) = S"
    using S by (simp add: ConvertTimerTicksToTimeVal_def c)
  then have "tv_Seconds (ConvertTimerTicksToTimeVal t (ConvertTimeValToTimerTicks t tv)) = tv_Seconds tv"
    by (simp add: S_def word_unat_eq_iff)
  then show ?thesis using R(2,3) mic' by (simp add: M_def)
qed

theorem TimerTicks_roundtrip_witness:
  "tv_Seconds (ConvertTimerTicksToTimeVal 16500000 (ConvertTimeValToTimerTicks 16500000
     \<lparr>tv_Seconds = 12, tv_Microseconds = 345678\<rparr>)) = 12"
  using TimerTicks_roundtrip [of "\<lparr>tv_Seconds = 12, tv_Microseconds = 345678\<rparr>" 16500000] by simp

text \<open>Normalised time values, and their total in microseconds.\<close>

definition tv_ok :: "TimeVal \<Rightarrow> bool" where
  "tv_ok tv \<longleftrightarrow> unat (tv_Microseconds tv) < 1000000"

definition total :: "TimeVal \<Rightarrow> nat" where
  "total tv = unat (tv_Seconds tv) * 1000000 + unat (tv_Microseconds tv)"

lemma AddTimes_total:
  assumes "tv_ok a" and "tv_ok b" and "unat (tv_Seconds a) + unat (tv_Seconds b) < 2 ^ 31 - 1"
  shows "tv_ok (AddTimes a b) \<and> total (AddTimes a b) = total a + total b
    \<and> unat (tv_Seconds (AddTimes a b)) < 2 ^ 31"
proof -
  have m: "unat (tv_Microseconds a + tv_Microseconds b) = unat (tv_Microseconds a) + unat (tv_Microseconds b)"
    using assms(1,2) by (subst unat_add_small) (simp_all add: tv_ok_def)
  have s: "unat (tv_Seconds a + tv_Seconds b) = unat (tv_Seconds a) + unat (tv_Seconds b)"
    using assms(3) by (subst unat_add_small) simp_all
  show ?thesis
  proof (cases "tv_Microseconds a + tv_Microseconds b \<ge> 1000000")
    case True
    then have ge: "1000000 \<le> unat (tv_Microseconds a) + unat (tv_Microseconds b)"
      using m by (simp add: word_le_nat_alt)
    have "unat (tv_Microseconds a + tv_Microseconds b - 1000000) = unat (tv_Microseconds a) + unat (tv_Microseconds b) - 1000000"
      using True m by (simp add: unat_sub_le)
    moreover have "unat (tv_Seconds a + tv_Seconds b + 1) = unat (tv_Seconds a) + unat (tv_Seconds b) + 1"
      using assms(3) s by (subst unat_add_small) simp_all
    ultimately show ?thesis
      using True assms ge by (simp add: AddTimes_def Let_def tv_ok_def total_def)
  next
    case False
    then have "unat (tv_Microseconds a) + unat (tv_Microseconds b) < 1000000"
      using m by (simp add: word_le_nat_alt not_le)
    then show ?thesis
      using False assms m s by (simp add: AddTimes_def Let_def tv_ok_def total_def algebra_simps)
  qed
qed

lemma total_unique:
  assumes "tv_ok a" and "tv_ok b" and "total a = total b"
  shows "a = b"
proof -
  have "total a div 1000000 = unat (tv_Seconds a)" "total a mod 1000000 = unat (tv_Microseconds a)"
    "total b div 1000000 = unat (tv_Seconds b)" "total b mod 1000000 = unat (tv_Microseconds b)"
    using assms(1,2) by (simp_all add: total_def tv_ok_def)
  then have "unat (tv_Seconds a) = unat (tv_Seconds b)" "unat (tv_Microseconds a) = unat (tv_Microseconds b)"
    using assms(3) by metis+
  then show ?thesis by (intro TimeVal.equality) (simp_all add: word_unat_eq_iff)
qed

lemma SubTimes_total:
  assumes "tv_ok a" and "tv_ok b" and "unat (tv_Seconds b) < 2 ^ 31" and "total a \<le> total b"
  shows "tv_ok (SubTimes a b) \<and> total (SubTimes a b) = total b - total a"
proof -
  have "sint (tv_Microseconds a) = int (unat (tv_Microseconds a))"
    "sint (tv_Microseconds b) = int (unat (tv_Microseconds b))"
    using assms(1,2) by (simp_all add: sint_small tv_ok_def)
  then have c: "sint (tv_Microseconds b) \<ge> sint (tv_Microseconds a)
      \<longleftrightarrow> unat (tv_Microseconds a) \<le> unat (tv_Microseconds b)"
    by (simp only: of_nat_le_iff)
  show ?thesis
  proof (cases "unat (tv_Microseconds a) \<le> unat (tv_Microseconds b)")
    case True
    have sec: "unat (tv_Seconds a) \<le> unat (tv_Seconds b)"
      using assms True by (simp add: total_def tv_ok_def)
    have "unat (tv_Seconds b - tv_Seconds a) = unat (tv_Seconds b) - unat (tv_Seconds a)"
      "unat (tv_Microseconds b - tv_Microseconds a) = unat (tv_Microseconds b) - unat (tv_Microseconds a)"
      using sec True by (simp_all add: unat_sub_le word_le_nat_alt)
    then show ?thesis
      using True sec c assms(2) by (simp add: SubTimes_def total_def tv_ok_def diff_mult_distrib)
  next
    case False
    have sec: "unat (tv_Seconds a) < unat (tv_Seconds b)"
      using assms False by (simp add: total_def tv_ok_def)
    have "unat (tv_Seconds b - tv_Seconds a) = unat (tv_Seconds b) - unat (tv_Seconds a)"
      using sec by (simp add: unat_sub_le word_le_nat_alt)
    then have s1: "unat (tv_Seconds b - tv_Seconds a - 1) = unat (tv_Seconds b) - unat (tv_Seconds a) - 1"
      using sec by (subst unat_sub_le) (simp_all add: word_le_nat_alt)
    have d: "unat (tv_Microseconds a - tv_Microseconds b) = unat (tv_Microseconds a) - unat (tv_Microseconds b)"
      using False by (simp add: unat_sub_le word_le_nat_alt)
    have "unat (1000000 - (tv_Microseconds a - tv_Microseconds b))
        = 1000000 - (unat (tv_Microseconds a) - unat (tv_Microseconds b))"
      using d assms(1) by (subst unat_sub_le) (simp_all add: word_le_nat_alt tv_ok_def)
    moreover obtain k where "unat (tv_Seconds b) = unat (tv_Seconds a) + 1 + k"
      using sec by (metis less_iff_Suc_add add.assoc add.commute plus_1_eq_Suc)
    ultimately show ?thesis
      using False sec c s1 assms(1,2) by (simp add: SubTimes_def total_def tv_ok_def) (intro conjI; linarith)
  qed
qed

lemma CompareTimes_total:
  assumes "tv_ok a" and "tv_ok b" and "unat (tv_Seconds a) < 2 ^ 31" and "unat (tv_Seconds b) < 2 ^ 31"
  shows "CompareTimes a b = (if total a < total b then -1 else if total a > total b then 1 else 0)"
proof -
  have r: "sint (tv_Microseconds a) = int (unat (tv_Microseconds a))" "sint (tv_Seconds a) = int (unat (tv_Seconds a))"
    "sint (tv_Microseconds b) = int (unat (tv_Microseconds b))" "sint (tv_Seconds b) = int (unat (tv_Seconds b))"
    using assms by (simp_all add: sint_small tv_ok_def)
  have "unat (tv_Microseconds a) < 1000000" "unat (tv_Microseconds b) < 1000000"
    using assms(1,2) by (simp_all add: tv_ok_def)
  then show ?thesis unfolding CompareTimes_def total_def r of_nat_less_iff by (cases rule: linorder_cases [of "unat (tv_Seconds a)" "unat (tv_Seconds b)"]) simp_all
qed

text \<open>The arithmetic of time values. For normalised time values that are not negative and whose
  sum of seconds does not overflow, \<open>AddTimes\<close> is normalised and exact in microseconds,
  \<open>SubTimes\<close> takes back what was added, and \<open>CompareTimes\<close> orders by the total.\<close>

theorem TimeVal_arithmetic:
  assumes "tv_ok a" and "tv_ok b" and "unat (tv_Seconds a) + unat (tv_Seconds b) < 2 ^ 31 - 1"
  shows "tv_ok (AddTimes a b) \<and> total (AddTimes a b) = total a + total b
    \<and> SubTimes a (AddTimes a b) = b
    \<and> CompareTimes a b = (if total a < total b then -1 else if total a > total b then 1 else 0)"
proof -
  note A = AddTimes_total [OF assms]
  have "tv_ok (SubTimes a (AddTimes a b)) \<and> total (SubTimes a (AddTimes a b)) = total (AddTimes a b) - total a"
    using A assms(1) by (intro SubTimes_total) simp_all
  then have "SubTimes a (AddTimes a b) = b" using A assms(2) by (intro total_unique) simp_all
  then show ?thesis using A CompareTimes_total [OF assms(1,2)] assms(3) by simp
qed

theorem TimeVal_arithmetic_witness:
  "SubTimes \<lparr>tv_Seconds = 3, tv_Microseconds = 700000\<rparr>
     (AddTimes \<lparr>tv_Seconds = 3, tv_Microseconds = 700000\<rparr> \<lparr>tv_Seconds = 5, tv_Microseconds = 600000\<rparr>)
   = \<lparr>tv_Seconds = 5, tv_Microseconds = 600000\<rparr>"
  by (rule TimeVal_arithmetic [THEN conjunct2, THEN conjunct2, THEN conjunct1]) (simp_all add: tv_ok_def)

end
