(* ===== verification/Scheduler.thy ===== *)
theory Scheduler
  imports Timers
begin

text \<open>
  The task scheduler (\<open>folios/kernel/taskswap.c\<close>, \<open>IdleLoop\<close> of \<open>task.s\<close>). The part of the
  kernel base and of the task control blocks it uses is a record; the ready queue is the list of
  its tasks, and the flag bits of a task are booleans. A function that ends in \<open>Launch\<close> or
  \<open>IdleLoop\<close> never returns to its caller, so the state it leaves is the state in which the next
  task runs. Registers are saved and loaded by assembly code and are not part of the state.
\<close>

section \<open>The state\<close>

record TCB =
  t_Priority :: u8
  TASK_READY :: bool
  TASK_WAITING :: bool
  TASK_RUNNING :: bool
  TASK_QUANTUM_EXPIRED :: bool
  TASK_SUSPENDED :: bool
  t_Quantum :: ticks
  t_QuantumRemainder :: ticks
  t_ElapsedTime :: ticks
  t_NumTaskLaunch :: u32
  t_Forbid :: u8
  t_SigBits :: u32
  t_WaitBits :: u32
  t_AllocatedSigs :: u32

record KState =
  tcb :: "task \<Rightarrow> TCB"
  kb_TaskReadyQ :: "task list"
  kb_CurrentTask :: "task option"
  kb_PleaseReschedule :: bool
  kb_NumTaskSwitches :: u32
  kb_FPOwner :: "task option"
  timerArmed :: bool
  taskStartTime :: ticks
  timers :: TState

text \<open>\<open>_quantaclock\<close>: the timer that ends a quantum.\<close>

definition quantaclock :: timer where
  "quantaclock = 0"

definition upd_tcb :: "task \<Rightarrow> (TCB \<Rightarrow> TCB) \<Rightarrow> KState \<Rightarrow> KState" where
  "upd_tcb t f s = s\<lparr>tcb := (tcb s)(t := f (tcb s t))\<rparr>"

definition pri :: "KState \<Rightarrow> task \<Rightarrow> u8" where
  "pri s t = t_Priority (tcb s t)"

text \<open>The time of the clock, read once more.\<close>

definition sample :: "clock \<Rightarrow> KState \<Rightarrow> ticks \<times> KState" where
  "sample clk s = (let (tt, ts) = SampleSystemTimeTT clk (timers s) in (tt, s\<lparr>timers := ts\<rparr>))"

text \<open>\<open>InsertNodeFromTail\<close> and \<open>InsertNodeFromHead\<close> on the ready queue.\<close>

definition ready_from_tail :: "task \<Rightarrow> KState \<Rightarrow> KState" where
  "ready_from_tail t s =
     s\<lparr>kb_TaskReadyQ := rev (insert_at (\<lambda>x. pri s t \<le> pri s x) t (rev (kb_TaskReadyQ s)))\<rparr>"

definition ready_from_head :: "task \<Rightarrow> KState \<Rightarrow> KState" where
  "ready_from_head t s =
     s\<lparr>kb_TaskReadyQ := insert_at (\<lambda>x. pri s x \<le> pri s t) t (kb_TaskReadyQ s)\<rparr>"

text \<open>\<open>REMOVENODE\<close>, \<open>RemNode\<close> on the ready queue.\<close>

definition unready :: "task \<Rightarrow> KState \<Rightarrow> KState" where
  "unready t s = s\<lparr>kb_TaskReadyQ := remove1 t (kb_TaskReadyQ s)\<rparr>"

section \<open>Landing and launching\<close>

definition LandReady :: "clock \<Rightarrow> task \<Rightarrow> KState \<Rightarrow> KState" where
  "LandReady clk t s =
     (let s = upd_tcb t (\<lambda>k. k\<lparr>TASK_READY := True, TASK_RUNNING := False\<rparr>) s;
          (tt, s) = sample clk s;
          tt = SubTimerTicks (taskStartTime s) tt;
          s = upd_tcb t (\<lambda>k. k\<lparr>t_ElapsedTime := AddTimerTicks (t_ElapsedTime k) tt\<rparr>) s
      in if TASK_QUANTUM_EXPIRED (tcb s t)
         then ready_from_tail t (upd_tcb t (\<lambda>k. k\<lparr>t_QuantumRemainder := t_Quantum k,
                                                 TASK_QUANTUM_EXPIRED := False\<rparr>) s)
         else ready_from_head t (upd_tcb t (\<lambda>k. k\<lparr>t_QuantumRemainder :=
                                                 SubTimerTicks tt (t_QuantumRemainder k)\<rparr>) s))"

definition LandWaiter :: "clock \<Rightarrow> task \<Rightarrow> KState \<Rightarrow> KState" where
  "LandWaiter clk t s =
     (let s = upd_tcb t (\<lambda>k. k\<lparr>TASK_WAITING := True, TASK_READY := False, TASK_RUNNING := False,
                               TASK_QUANTUM_EXPIRED := False, t_QuantumRemainder := t_Quantum k\<rparr>) s;
          (tt, s) = sample clk s;
          tt = SubTimerTicks (taskStartTime s) tt
      in upd_tcb t (\<lambda>k. k\<lparr>t_ElapsedTime := AddTimerTicks (t_ElapsedTime k) tt\<rparr>) s)"

definition Launch :: "clock \<Rightarrow> task \<Rightarrow> KState \<Rightarrow> KState" where
  "Launch clk t s =
     (let s = (case kb_TaskReadyQ s of
                 first # _ \<Rightarrow>
                   if pri s first = pri s t
                   then s\<lparr>timerArmed := True,
                          timers := LoadTimer clk quantaclock (t_QuantumRemainder (tcb s t)) (timers s)\<rparr>
                   else if timerArmed s
                   then s\<lparr>timerArmed := False, timers := UnloadTimer clk quantaclock (timers s)\<rparr>
                   else s
               | [] \<Rightarrow>
                   if timerArmed s
                   then s\<lparr>timerArmed := False, timers := UnloadTimer clk quantaclock (timers s)\<rparr>
                   else s);
          (tt, s) = sample clk s;
          s = s\<lparr>taskStartTime := tt\<rparr>;
          s = upd_tcb t (\<lambda>k. k\<lparr>TASK_RUNNING := True, TASK_WAITING := False, TASK_READY := False,
                               t_NumTaskLaunch := t_NumTaskLaunch k + 1\<rparr>) s
      in s\<lparr>kb_CurrentTask := Some t, kb_PleaseReschedule := False,
           kb_NumTaskSwitches := kb_NumTaskSwitches s + 1\<rparr>)"

definition IdleLoop :: "KState \<Rightarrow> KState" where
  "IdleLoop s = s\<lparr>kb_CurrentTask := None\<rparr>"

definition ScheduleNewTask :: "clock \<Rightarrow> KState \<Rightarrow> KState" where
  "ScheduleNewTask clk s =
     (case kb_TaskReadyQ s of
        t # q \<Rightarrow> Launch clk t (s\<lparr>kb_TaskReadyQ := q\<rparr>)
      | [] \<Rightarrow> IdleLoop s)"

definition SleepTask :: "clock \<Rightarrow> task \<Rightarrow> KState \<Rightarrow> KState" where
  "SleepTask clk t s = ScheduleNewTask clk (LandWaiter clk t s)"

section \<open>Giving up the processor\<close>

text \<open>The switch that three functions make: the current task lands, the first ready one runs.\<close>

definition switch_to :: "clock \<Rightarrow> task \<Rightarrow> task \<Rightarrow> KState \<Rightarrow> KState" where
  "switch_to clk ct t s = Launch clk t (unready t (LandReady clk ct s))"

text \<open>\<open>Yield\<close>, \<open>SwapTasks\<close> and \<open>Permit\<close> are called by the current task.\<close>

definition internalYield :: "clock \<Rightarrow> KState \<Rightarrow> KState" where
  "internalYield clk s =
     (case (kb_TaskReadyQ s, kb_CurrentTask s) of
        (t # _, Some ct) \<Rightarrow>
          if pri s t \<ge> pri s ct
          then switch_to clk ct t (upd_tcb ct (\<lambda>k. k\<lparr>TASK_QUANTUM_EXPIRED := True\<rparr>) s)
          else s
      | _ \<Rightarrow> s)"

definition CheckForTaskSwap :: "clock \<Rightarrow> KState \<Rightarrow> KState" where
  "CheckForTaskSwap clk s =
     (if \<not> kb_PleaseReschedule s then s
      else case kb_TaskReadyQ s of
        t # _ \<Rightarrow>
          (case kb_CurrentTask s of
             None \<Rightarrow> Launch clk t (unready t s)
           | Some ct \<Rightarrow>
               if pri s t \<ge> pri s ct
               then (if t_Forbid (tcb s ct) = 0 then switch_to clk ct t s else s)
               else s\<lparr>kb_PleaseReschedule := False\<rparr>)
      | [] \<Rightarrow> s\<lparr>kb_PleaseReschedule := False\<rparr>)"

definition SwapTasks :: "clock \<Rightarrow> KState \<Rightarrow> KState" where
  "SwapTasks clk s =
     (case (kb_TaskReadyQ s, kb_CurrentTask s) of
        (t # _, Some ct) \<Rightarrow>
          if pri s t \<ge> pri s ct then switch_to clk ct t s
          else s\<lparr>kb_PleaseReschedule := False\<rparr>
      | _ \<Rightarrow> s\<lparr>kb_PleaseReschedule := False\<rparr>)"

definition Forbid :: "task \<Rightarrow> KState \<Rightarrow> KState" where
  "Forbid ct s = upd_tcb ct (\<lambda>k. k\<lparr>t_Forbid := t_Forbid k + 1\<rparr>) s"

definition Permit :: "clock \<Rightarrow> task \<Rightarrow> KState \<Rightarrow> KState" where
  "Permit clk ct s =
     (let s = upd_tcb ct (\<lambda>k. k\<lparr>t_Forbid := t_Forbid k - 1\<rparr>) s
      in if kb_PleaseReschedule s \<and> t_Forbid (tcb s ct) = 0 then SwapTasks clk s else s)"

text \<open>The handler of the quantum timer.\<close>

definition cblank :: "KState \<Rightarrow> KState" where
  "cblank s =
     (let s = (case kb_CurrentTask s of
                 Some ct \<Rightarrow> (upd_tcb ct (\<lambda>k. k\<lparr>TASK_QUANTUM_EXPIRED := True\<rparr>) s)\<lparr>kb_PleaseReschedule := True\<rparr>
               | None \<Rightarrow> s)
      in s\<lparr>timerArmed := False\<rparr>)"

section \<open>Waking, suspending and resuming\<close>

definition NewReadyTask :: "clock \<Rightarrow> task \<Rightarrow> KState \<Rightarrow> KState" where
  "NewReadyTask clk t s =
     (if \<not> TASK_WAITING (tcb s t) then s
      else
        let s = upd_tcb t (\<lambda>k. k\<lparr>TASK_READY := True, TASK_WAITING := False\<rparr>) s in
        if TASK_SUSPENDED (tcb s t) then s
        else
          let s = ready_from_tail t s in
          case kb_CurrentTask s of
            None \<Rightarrow> s\<lparr>kb_PleaseReschedule := True\<rparr>
          | Some ct \<Rightarrow>
              if pri s t > pri s ct then s\<lparr>kb_PleaseReschedule := True\<rparr>
              else if pri s t = pri s ct then
                if TASK_QUANTUM_EXPIRED (tcb s ct) then s\<lparr>kb_PleaseReschedule := True\<rparr>
                else if \<not> timerArmed s then
                  let (tt, s) = sample clk s;
                      tt = SubTimerTicks (taskStartTime s) tt;
                      s = upd_tcb ct (\<lambda>k. k\<lparr>t_QuantumRemainder := SubTimerTicks tt (t_QuantumRemainder k)\<rparr>) s
                  in if t_QuantumRemainder (tcb s ct) \<noteq> 0
                     then s\<lparr>timerArmed := True,
                            timers := LoadTimer clk quantaclock (t_QuantumRemainder (tcb s ct)) (timers s)\<rparr>
                     else (upd_tcb ct (\<lambda>k. k\<lparr>TASK_QUANTUM_EXPIRED := True\<rparr>) s)\<lparr>kb_PleaseReschedule := True\<rparr>
                else s
              else s)"

definition SuspendTask :: "clock \<Rightarrow> task \<Rightarrow> KState \<Rightarrow> KState" where
  "SuspendTask clk t s =
     (if TASK_SUSPENDED (tcb s t) then s
      else
        let s = (if kb_CurrentTask s = Some t
                 then LandReady clk t (s\<lparr>kb_CurrentTask := None, kb_PleaseReschedule := True\<rparr>)
                 else s);
            s = (if TASK_READY (tcb s t) then unready t s else s)
        in upd_tcb t (\<lambda>k. k\<lparr>TASK_SUSPENDED := True\<rparr>) s)"

definition ResumeTask :: "clock \<Rightarrow> task \<Rightarrow> KState \<Rightarrow> KState" where
  "ResumeTask clk t s =
     (if \<not> TASK_SUSPENDED (tcb s t) then s
      else
        let s = upd_tcb t (\<lambda>k. k\<lparr>TASK_SUSPENDED := False\<rparr>) s in
        if TASK_READY (tcb s t)
        then NewReadyTask clk t (upd_tcb t (\<lambda>k. k\<lparr>TASK_WAITING := True\<rparr>) s)
        else s)"

definition internalInvalidateFPState :: "KState \<Rightarrow> KState" where
  "internalInvalidateFPState s = (if kb_FPOwner s = kb_CurrentTask s then s\<lparr>kb_FPOwner := None\<rparr> else s)"

text \<open>
  \<open>ChangeTaskPri\<close> (\<open>task.c\<close>). A task that neither runs nor waits is taken off the ready queue:
  the code assumes that it is there, so it is called for no task that is suspended while ready.
\<close>

definition internalChangeTaskPri :: "clock \<Rightarrow> bool \<Rightarrow> task \<Rightarrow> u8 \<Rightarrow> KState \<Rightarrow> (u8 res) \<times> KState" where
  "internalChangeTaskPri clk privileged t newpri s =
     (if \<not> privileged \<and> (newpri > 199 \<or> newpri < 10) then (Inl ER_Kr_BadPriority, s)
      else
        let oldpri = pri s t;
            wake = (\<lambda>u s. NewReadyTask clk u (upd_tcb u (\<lambda>k. k\<lparr>TASK_WAITING := True\<rparr>) s));
            set_pri = upd_tcb t (\<lambda>k. k\<lparr>t_Priority := newpri\<rparr>)
        in (Inr oldpri,
            if kb_CurrentTask s = Some t then
              let s = set_pri s in
              if newpri < oldpri then
                case kb_TaskReadyQ s of
                  u # q \<Rightarrow> wake u (s\<lparr>kb_TaskReadyQ := q\<rparr>)
                | [] \<Rightarrow> s
              else s
            else if TASK_WAITING (tcb s t) then set_pri s
            else wake t (set_pri (unready t s))))"

section \<open>The invariant\<close>

definition queue_inv :: "KState \<Rightarrow> bool" where
  "queue_inv s \<longleftrightarrow> sorted_wrt (\<lambda>a b. pri s b \<le> pri s a) (kb_TaskReadyQ s) \<and> distinct (kb_TaskReadyQ s)
     \<and> (\<forall>t. t \<in> set (kb_TaskReadyQ s) \<longleftrightarrow> TASK_READY (tcb s t) \<and> \<not> TASK_SUSPENDED (tcb s t))"

text \<open>The states of a task, and which one runs.\<close>

definition flags_ok :: "bool \<Rightarrow> TCB \<Rightarrow> bool" where
  "flags_ok current k \<longleftrightarrow> (TASK_RUNNING k \<longleftrightarrow> current)
     \<and> (if current then \<not> TASK_READY k \<and> \<not> TASK_WAITING k \<and> \<not> TASK_SUSPENDED k
        else TASK_READY k \<noteq> TASK_WAITING k)"

definition flags_inv :: "task option \<Rightarrow> KState \<Rightarrow> bool" where
  "flags_inv c s \<longleftrightarrow> (\<forall>t. flags_ok (c = Some t) (tcb s t))"

text \<open>Unless a reschedule is asked for, the current task may run on.\<close>

definition resched_inv :: "KState \<Rightarrow> bool" where
  "resched_inv s \<longleftrightarrow> kb_PleaseReschedule s \<or>
     (case kb_CurrentTask s of
        None \<Rightarrow> kb_TaskReadyQ s = []
      | Some c \<Rightarrow> \<forall>t \<in> set (kb_TaskReadyQ s). pri s t < pri s c \<or> pri s t = pri s c \<and> timerArmed s)"

definition timer_inv :: "KState \<Rightarrow> bool" where
  "timer_inv s \<longleftrightarrow> queue_ok (timers s) \<and> (timerArmed s \<longrightarrow> quantaclock \<in> set (waitq (timers s)))"

definition sched_ok :: "KState \<Rightarrow> bool" where
  "sched_ok s \<longleftrightarrow> queue_inv s \<and> flags_inv (kb_CurrentTask s) s \<and> resched_inv s \<and> timer_inv s"

lemmas sched_defs = queue_inv_def flags_inv_def flags_ok_def resched_inv_def timer_inv_def

section \<open>Frames of the building blocks\<close>

lemma upd_tcb_sel [simp]:
  "tcb (upd_tcb t f s) = (tcb s)(t := f (tcb s t))"
  "kb_TaskReadyQ (upd_tcb t f s) = kb_TaskReadyQ s" "kb_CurrentTask (upd_tcb t f s) = kb_CurrentTask s"
  "kb_PleaseReschedule (upd_tcb t f s) = kb_PleaseReschedule s" "timerArmed (upd_tcb t f s) = timerArmed s"
  "taskStartTime (upd_tcb t f s) = taskStartTime s" "timers (upd_tcb t f s) = timers s"
  by (simp_all add: upd_tcb_def)

lemma upd_tcb_twice: "upd_tcb t f (upd_tcb t g s) = upd_tcb t (\<lambda>k. f (g k)) s"
  by (simp add: upd_tcb_def)

lemma queue_sel [simp]:
  "tcb (ready_from_tail t s) = tcb s" "kb_CurrentTask (ready_from_tail t s) = kb_CurrentTask s"
  "kb_PleaseReschedule (ready_from_tail t s) = kb_PleaseReschedule s"
  "timerArmed (ready_from_tail t s) = timerArmed s" "timers (ready_from_tail t s) = timers s"
  "taskStartTime (ready_from_tail t s) = taskStartTime s"
  "tcb (ready_from_head t s) = tcb s" "kb_CurrentTask (ready_from_head t s) = kb_CurrentTask s"
  "kb_PleaseReschedule (ready_from_head t s) = kb_PleaseReschedule s"
  "timerArmed (ready_from_head t s) = timerArmed s" "timers (ready_from_head t s) = timers s"
  "taskStartTime (ready_from_head t s) = taskStartTime s"
  "tcb (unready t s) = tcb s" "kb_CurrentTask (unready t s) = kb_CurrentTask s"
  "kb_PleaseReschedule (unready t s) = kb_PleaseReschedule s"
  "timerArmed (unready t s) = timerArmed s" "timers (unready t s) = timers s"
  "taskStartTime (unready t s) = taskStartTime s" "kb_TaskReadyQ (unready t s) = remove1 t (kb_TaskReadyQ s)"
  by (simp_all add: ready_from_tail_def ready_from_head_def unready_def)

text \<open>Both insertions keep the queue sorted.\<close>

lemma insert_both_filter:
  fixes p :: "'a \<Rightarrow> 'b :: linorder"
  assumes "sorted_wrt (\<lambda>a b. p b \<le> p a) xs"
  shows "rev (insert_at (\<lambda>x. k \<le> p x) n (rev xs)) = filter (\<lambda>x. k \<le> p x) xs @ n # filter (\<lambda>x. p x < k) xs"
    and "insert_at (\<lambda>x. p x \<le> k) n xs = filter (\<lambda>x. k < p x) xs @ n # filter (\<lambda>x. p x \<le> k) xs"
proof -
  have r: "sorted_wrt (\<lambda>a b. p a \<le> p b) (rev xs)" using assms by (simp add: sorted_wrt_rev)
  have "takeWhile (\<lambda>x. \<not> k \<le> p x) (rev xs) = filter (\<lambda>x. \<not> k \<le> p x) (rev xs)
      \<and> dropWhile (\<lambda>x. \<not> k \<le> p x) (rev xs) = filter (\<lambda>x. \<not> \<not> k \<le> p x) (rev xs)"
    using sorted_takeWhile_filter [OF r, of "\<lambda>x. \<not> k \<le> p x"] by (meson order_trans)
  then show "rev (insert_at (\<lambda>x. k \<le> p x) n (rev xs)) = filter (\<lambda>x. k \<le> p x) xs @ n # filter (\<lambda>x. p x < k) xs"
    by (simp add: insert_at_def rev_filter not_le not_less)
  have "takeWhile (\<lambda>x. \<not> p x \<le> k) xs = filter (\<lambda>x. \<not> p x \<le> k) xs
      \<and> dropWhile (\<lambda>x. \<not> p x \<le> k) xs = filter (\<lambda>x. \<not> \<not> p x \<le> k) xs"
    using sorted_takeWhile_filter [OF assms, of "\<lambda>x. \<not> p x \<le> k"] by (meson order_trans)
  then show "insert_at (\<lambda>x. p x \<le> k) n xs = filter (\<lambda>x. k < p x) xs @ n # filter (\<lambda>x. p x \<le> k) xs"
    by (simp add: insert_at_def not_le not_less)
qed

lemma sorted_insert_both:
  fixes p :: "'a \<Rightarrow> 'b :: linorder"
  assumes "sorted_wrt (\<lambda>a b. p b \<le> p a) xs"
  shows "sorted_wrt (\<lambda>a b. p b \<le> p a) (filter (\<lambda>x. p n \<le> p x) xs @ n # filter (\<lambda>x. p x < p n) xs)"
    and "sorted_wrt (\<lambda>a b. p b \<le> p a) (filter (\<lambda>x. p n < p x) xs @ n # filter (\<lambda>x. p x \<le> p n) xs)"
  using assms by (auto simp: sorted_wrt_append sorted_wrt_filter)

lemma ready_queue:
  assumes "sorted_wrt (\<lambda>a b. pri s b \<le> pri s a) (kb_TaskReadyQ s)"
  shows "kb_TaskReadyQ (ready_from_tail t s)
      = filter (\<lambda>x. pri s t \<le> pri s x) (kb_TaskReadyQ s) @ t # filter (\<lambda>x. pri s x < pri s t) (kb_TaskReadyQ s)"
    and "kb_TaskReadyQ (ready_from_head t s)
      = filter (\<lambda>x. pri s t < pri s x) (kb_TaskReadyQ s) @ t # filter (\<lambda>x. pri s x \<le> pri s t) (kb_TaskReadyQ s)"
  using insert_both_filter [OF assms, of "pri s t" t] by (simp_all add: ready_from_tail_def ready_from_head_def)

lemma pri_cong: "tcb s' = tcb s \<Longrightarrow> pri s' = pri s"
  by (simp add: pri_def fun_eq_iff)

lemma set_rev_insert_at [simp]: "set (rev (insert_at f t (rev xs))) = insert t (set xs)"
  by simp

lemma ready_insert_ok:
  assumes "sorted_wrt (\<lambda>a b. pri s b \<le> pri s a) (kb_TaskReadyQ s)" and "distinct (kb_TaskReadyQ s)"
    and "t \<notin> set (kb_TaskReadyQ s)" and "f = ready_from_tail \<or> f = ready_from_head"
  shows "sorted_wrt (\<lambda>a b. pri (f t s) b \<le> pri (f t s) a) (kb_TaskReadyQ (f t s))"
    and "distinct (kb_TaskReadyQ (f t s))" and "set (kb_TaskReadyQ (f t s)) = insert t (set (kb_TaskReadyQ s))"
proof -
  have p: "pri (f t s) = pri s" using assms(4) by (auto intro!: pri_cong)
  have "kb_TaskReadyQ (f t s) \<in> {filter (\<lambda>x. pri s t \<le> pri s x) (kb_TaskReadyQ s) @ t # filter (\<lambda>x. pri s x < pri s t) (kb_TaskReadyQ s),
      filter (\<lambda>x. pri s t < pri s x) (kb_TaskReadyQ s) @ t # filter (\<lambda>x. pri s x \<le> pri s t) (kb_TaskReadyQ s)}"
    using ready_queue [OF assms(1), of t] assms(4) by blast
  then show "sorted_wrt (\<lambda>a b. pri (f t s) b \<le> pri (f t s) a) (kb_TaskReadyQ (f t s))"
    "distinct (kb_TaskReadyQ (f t s))" "set (kb_TaskReadyQ (f t s)) = insert t (set (kb_TaskReadyQ s))"
    unfolding p using sorted_insert_both [OF assms(1), of t] assms(2,3) by auto
qed

section \<open>Every operation keeps the invariant\<close>

lemma sample_sel [simp]:
  "tcb (snd (sample clk s)) = tcb s" "kb_TaskReadyQ (snd (sample clk s)) = kb_TaskReadyQ s"
  "kb_CurrentTask (snd (sample clk s)) = kb_CurrentTask s"
  "kb_PleaseReschedule (snd (sample clk s)) = kb_PleaseReschedule s"
  "timerArmed (snd (sample clk s)) = timerArmed s" "taskStartTime (snd (sample clk s)) = taskStartTime s"
  "waitq (timers (snd (sample clk s))) = waitq (timers s)" "queue_ok (timers (snd (sample clk s))) = queue_ok (timers s)"
  by (simp_all add: sample_def SampleSystemTimeTT_def queue_ok_def)

text \<open>The state between a landing and a launch: no task runs.\<close>

definition landed :: "KState \<Rightarrow> bool" where
  "landed s \<longleftrightarrow> queue_inv s \<and> flags_inv None s \<and> timer_inv s"

lemma sorted_pri_upd:
  assumes "sorted_wrt (\<lambda>a b. pri s b \<le> pri s a) q" and "t \<notin> set q \<or> t_Priority k = pri s t"
    and "tcb s' = (tcb s)(t := k)"
  shows "sorted_wrt (\<lambda>a b. pri s' b \<le> pri s' a) q"
  using assms(1) by (rule sorted_wrt_mono_rel [rotated]) (use assms(2,3) in \<open>auto simp: pri_def\<close>)

lemma LandReady_split:
  "\<exists>k u. LandReady clk t s = (if TASK_QUANTUM_EXPIRED (tcb s t) then ready_from_tail t u else ready_from_head t u)
     \<and> tcb u = (tcb s)(t := k) \<and> t_Priority k = pri s t \<and> \<not> TASK_RUNNING k \<and> TASK_READY k
     \<and> TASK_WAITING k = TASK_WAITING (tcb s t) \<and> TASK_SUSPENDED k = TASK_SUSPENDED (tcb s t)
     \<and> kb_TaskReadyQ u = kb_TaskReadyQ s \<and> kb_CurrentTask u = kb_CurrentTask s
     \<and> kb_PleaseReschedule u = kb_PleaseReschedule s \<and> timerArmed u = timerArmed s
     \<and> (timer_inv s \<longrightarrow> timer_inv u)"
  by (cases "TASK_QUANTUM_EXPIRED (tcb s t)")
    (rule exI [where x = "tcb (LandReady clk t s) t"],
      rule exI [where x = "(LandReady clk t s)\<lparr>kb_TaskReadyQ := kb_TaskReadyQ s\<rparr>"],
      simp add: LandReady_def Let_def split_beta timer_inv_def ready_from_tail_def ready_from_head_def pri_def)+

lemma LandReady_ok:
  assumes "queue_inv s" and "flags_inv (Some t) s" and "timer_inv s"
  shows "landed (LandReady clk t s)"
    and "set (kb_TaskReadyQ (LandReady clk t s)) = insert t (set (kb_TaskReadyQ s))"
    and "pri (LandReady clk t s) = pri s"
proof -
  obtain k u f where L: "LandReady clk t s = f t u" and f: "f = ready_from_tail \<or> f = ready_from_head"
    and u: "tcb u = (tcb s)(t := k)" "t_Priority k = pri s t" "\<not> TASK_RUNNING k" "TASK_READY k"
      "TASK_WAITING k = TASK_WAITING (tcb s t)" "TASK_SUSPENDED k = TASK_SUSPENDED (tcb s t)"
      "kb_TaskReadyQ u = kb_TaskReadyQ s" "timer_inv u"
    using LandReady_split [of clk t s] assms(3) by (metis (full_types))
  have n: "t \<notin> set (kb_TaskReadyQ u)" "\<not> TASK_WAITING k" "\<not> TASK_SUSPENDED k"
    using assms(1,2) u by (auto simp: queue_inv_def flags_inv_def flags_ok_def)
  have so: "sorted_wrt (\<lambda>a b. pri u b \<le> pri u a) (kb_TaskReadyQ u)"
    unfolding u(7) by (rule sorted_pri_upd [of s _ t k]) (use assms(1) u in \<open>auto simp: queue_inv_def\<close>)
  have d: "distinct (kb_TaskReadyQ u)" using assms(1) u(7) by (simp add: queue_inv_def)
  note R = ready_insert_ok [OF so d n(1) f]
  have t: "tcb (f t u) = tcb u" "timer_inv (f t u)" using f u(8) by (auto simp: timer_inv_def)
  have "queue_inv (f t u)" unfolding queue_inv_def
  proof (intro conjI allI)
    show "x \<in> set (kb_TaskReadyQ (f t u)) \<longleftrightarrow> TASK_READY (tcb (f t u) x) \<and> \<not> TASK_SUSPENDED (tcb (f t u) x)" for x
      using assms(1) n u(4) unfolding R(3) t u(1,7) by (simp add: queue_inv_def)
  qed (use R in auto)
  moreover have "flags_inv None (f t u)"
    using assms(2) n(2) u(3,4) unfolding flags_inv_def t u(1)
    by (auto simp: flags_ok_def split: if_splits)
  ultimately show "landed (LandReady clk t s)" by (simp add: L landed_def t(2))
  show "set (kb_TaskReadyQ (LandReady clk t s)) = insert t (set (kb_TaskReadyQ s))"
    using R(3) u(7) by (simp add: L)
  show "pri (LandReady clk t s) = pri s"
    unfolding L using t(1) u(1,2) by (auto simp: pri_def fun_eq_iff)
qed

lemma LandReady_sel [simp]:
  "kb_CurrentTask (LandReady clk t s) = kb_CurrentTask s" "kb_PleaseReschedule (LandReady clk t s) = kb_PleaseReschedule s"
  "TASK_SUSPENDED (tcb (LandReady clk t s) u) = TASK_SUSPENDED (tcb s u)"
  by (auto simp: LandReady_def Let_def split_beta)

lemma LandWaiter_ok:
  assumes "queue_inv s" and "flags_inv (Some t) s" and "timer_inv s"
  shows "landed (LandWaiter clk t s)" and "TASK_WAITING (tcb (LandWaiter clk t s) t)"
    and "kb_TaskReadyQ (LandWaiter clk t s) = kb_TaskReadyQ s"
    and "kb_CurrentTask (LandWaiter clk t s) = kb_CurrentTask s"
proof -
  obtain k where k: "tcb (LandWaiter clk t s) = (tcb s)(t := k)" "t_Priority k = pri s t" "TASK_WAITING k"
      "\<not> TASK_RUNNING k" "\<not> TASK_READY k" "TASK_SUSPENDED k = TASK_SUSPENDED (tcb s t)"
    by (auto simp: LandWaiter_def Let_def split_beta pri_def)
  have q: "kb_TaskReadyQ (LandWaiter clk t s) = kb_TaskReadyQ s" "timer_inv (LandWaiter clk t s)"
    using assms(3) by (simp_all add: LandWaiter_def Let_def split_beta timer_inv_def)
  have "queue_inv (LandWaiter clk t s)" unfolding queue_inv_def q(1)
  proof (intro conjI allI)
    show "sorted_wrt (\<lambda>a b. pri (LandWaiter clk t s) b \<le> pri (LandWaiter clk t s) a) (kb_TaskReadyQ s)"
      by (rule sorted_pri_upd [OF _ _ k(1)]) (use assms(1) k(2) in \<open>auto simp: queue_inv_def\<close>)
    show "x \<in> set (kb_TaskReadyQ s) \<longleftrightarrow> TASK_READY (tcb (LandWaiter clk t s) x) \<and> \<not> TASK_SUSPENDED (tcb (LandWaiter clk t s) x)" for x
      using assms(1,2) k by (auto simp: sched_defs)
  qed (use assms(1) in \<open>simp add: queue_inv_def\<close>)
  moreover have "flags_inv None (LandWaiter clk t s)"
    using assms(2) k by (auto simp: flags_inv_def flags_ok_def split: if_splits)
  ultimately show "landed (LandWaiter clk t s)" using q(2) by (simp add: landed_def)
  show "TASK_WAITING (tcb (LandWaiter clk t s) t)" using k by simp
  show "kb_TaskReadyQ (LandWaiter clk t s) = kb_TaskReadyQ s" by (rule q(1))
  show "kb_CurrentTask (LandWaiter clk t s) = kb_CurrentTask s" by (simp add: LandWaiter_def Let_def split_beta)
qed

text \<open>A task of the highest priority is launched.\<close>

lemma Launch_split:
  "\<exists>k. tcb (Launch clk t s) = (tcb s)(t := k) \<and> t_Priority k = pri s t \<and> TASK_RUNNING k \<and> \<not> TASK_READY k
     \<and> \<not> TASK_WAITING k \<and> TASK_SUSPENDED k = TASK_SUSPENDED (tcb s t)"
  "kb_TaskReadyQ (Launch clk t s) = kb_TaskReadyQ s" "kb_CurrentTask (Launch clk t s) = Some t"
  "\<not> kb_PleaseReschedule (Launch clk t s)"
  by (auto simp: Launch_def Let_def split_beta pri_def split: list.split)

lemma Launch_timer:
  assumes "timer_inv s"
  shows "timer_inv (Launch clk t s)"
    and "timerArmed (Launch clk t s) \<longleftrightarrow> (\<exists>u q. kb_TaskReadyQ s = u # q \<and> pri s u = pri s t)"
proof -
  show "timerArmed (Launch clk t s) \<longleftrightarrow> (\<exists>u q. kb_TaskReadyQ s = u # q \<and> pri s u = pri s t)"
    by (auto simp: Launch_def Let_def split_beta split: list.split)
  show "timer_inv (Launch clk t s)"
    using assms LoadTimer_ok [where clk = clk and t = quantaclock and s = "timers s"]
      UnloadTimer_ok [where clk = clk and t = quantaclock and s = "timers s"]
    by (auto simp: timer_inv_def Launch_def Let_def split_beta split: list.split)
qed

lemma sorted_remove1:
  assumes "sorted_wrt R xs"
  shows "sorted_wrt R (remove1 t xs)"
  using assms by (induction xs) (auto dest: set_mp [OF set_remove1_subset])

lemma Launch_ok:
  assumes "landed s" and "t \<in> set (kb_TaskReadyQ s)" and "\<forall>u \<in> set (kb_TaskReadyQ s). pri s u \<le> pri s t"
  shows "sched_ok (Launch clk t (unready t s))"
    and "kb_TaskReadyQ (Launch clk t (unready t s)) = remove1 t (kb_TaskReadyQ s)"
    and "kb_CurrentTask (Launch clk t (unready t s)) = Some t"
    and "pri (Launch clk t (unready t s)) = pri s"
    and "\<not> kb_PleaseReschedule (Launch clk t (unready t s))"
proof -
  let ?q = "remove1 t (kb_TaskReadyQ s)" and ?s = "Launch clk t (unready t s)"
  obtain k where k: "tcb ?s = (tcb s)(t := k)" "t_Priority k = pri s t" "TASK_RUNNING k" "\<not> TASK_READY k"
      "\<not> TASK_WAITING k" "TASK_SUSPENDED k = TASK_SUSPENDED (tcb s t)"
    using Launch_split(1) [where clk = clk and t = t and s = "unready t s"] by (auto simp: pri_def)
  note L = Launch_split(2,3,4) [where clk = clk and t = t and s = "unready t s", simplified]
  have q: "queue_inv s" "flags_inv None s" "timer_inv s" using assms(1) by (simp_all add: landed_def)
  have p: "pri ?s = pri s" using k(1,2) by (auto simp: pri_def fun_eq_iff)
  have set: "set ?q = set (kb_TaskReadyQ s) - {t}" using q(1) by (simp add: queue_inv_def)
  have ts: "TASK_READY (tcb s t)" "\<not> TASK_SUSPENDED (tcb s t)" using q(1) assms(2) by (auto simp: queue_inv_def)
  have T: "timer_inv ?s" "timerArmed ?s \<longleftrightarrow> (\<exists>u r. ?q = u # r \<and> pri s u = pri s t)"
    using Launch_timer [where clk = clk and t = t and s = "unready t s"] q(3) pri_cong [of "unready t s" s] by (simp_all add: timer_inv_def)
  have sorted: "sorted_wrt (\<lambda>a b. pri s b \<le> pri s a) ?q"
    using q(1) by (simp add: queue_inv_def sorted_remove1)
  have "queue_inv ?s"
    unfolding queue_inv_def p L(1) set k(1)
    using q(1) sorted k(4) by (auto simp: queue_inv_def)
  moreover have "flags_inv (kb_CurrentTask ?s) ?s"
    unfolding L(2) flags_inv_def k(1) using q(2) k ts(2) by (auto simp: flags_inv_def flags_ok_def)
  moreover have "resched_inv ?s"
  proof -
    have "pri s u < pri s t \<or> pri s u = pri s t \<and> timerArmed ?s" if u: "u \<in> set ?q" for u
    proof (cases "pri s u = pri s t")
      case True
      obtain v r where v: "?q = v # r" using u by (cases ?q) auto
      have "pri s u \<le> pri s v" using sorted u by (auto simp: v)
      moreover have "pri s v \<le> pri s t" using assms(3) set v by auto
      ultimately have "pri s v = pri s t" using True by auto
      then show ?thesis using True T(2) v by blast
    qed (use assms(3) set u in force)
    then show ?thesis by (simp add: resched_inv_def L p)
  qed
  ultimately show "sched_ok ?s" using T(1) by (simp add: sched_ok_def)
  show "kb_TaskReadyQ ?s = remove1 t (kb_TaskReadyQ s)" "kb_CurrentTask ?s = Some t" "pri ?s = pri s"
    "\<not> kb_PleaseReschedule ?s" using L p by simp_all
qed

lemma head_max:
  assumes "queue_inv s" and "kb_TaskReadyQ s = t # q"
  shows "t \<in> set (kb_TaskReadyQ s)" "\<forall>u \<in> set (kb_TaskReadyQ s). pri s u \<le> pri s t"
  using assms by (auto simp: queue_inv_def)

lemma unready_head: "kb_TaskReadyQ s = t # q \<Longrightarrow> s\<lparr>kb_TaskReadyQ := q\<rparr> = unready t s"
  by (simp add: unready_def)

lemma ScheduleNewTask_ok:
  assumes "landed s"
  shows "sched_ok (ScheduleNewTask clk s)"
proof (cases "kb_TaskReadyQ s")
  case Nil
  then show ?thesis using assms
    by (auto simp: ScheduleNewTask_def IdleLoop_def sched_ok_def landed_def sched_defs pri_def)
next
  case (Cons t q)
  have "queue_inv s" using assms by (simp add: landed_def)
  from Launch_ok(1) [OF assms head_max [OF this Cons], of clk]
  show ?thesis by (simp add: ScheduleNewTask_def Cons unready_head [OF Cons])
qed

lemma SleepTask_ok:
  assumes "sched_ok s" and "kb_CurrentTask s = Some t"
  shows "sched_ok (SleepTask clk t s)"
  unfolding SleepTask_def
  by (rule ScheduleNewTask_ok, rule LandWaiter_ok(1)) (use assms in \<open>auto simp: sched_ok_def\<close>)

lemma switch_to_ok:
  assumes "sched_ok s" and "kb_CurrentTask s = Some ct" and "kb_TaskReadyQ s = t # q" and "pri s ct \<le> pri s t"
  shows "sched_ok (switch_to clk ct t s)" and "kb_CurrentTask (switch_to clk ct t s) = Some t"
    and "pri (switch_to clk ct t s) = pri s"
    and "kb_TaskReadyQ (switch_to clk ct t s) = remove1 t (kb_TaskReadyQ (LandReady clk ct s))"
    and "\<not> kb_PleaseReschedule (switch_to clk ct t s)"
proof -
  let ?s = "LandReady clk ct s"
  have i: "queue_inv s" "flags_inv (Some ct) s" "timer_inv s" using assms(1,2) by (simp_all add: sched_ok_def)
  note L = LandReady_ok [OF i, of clk]
  have "t \<in> set (kb_TaskReadyQ ?s)" "\<forall>u \<in> set (kb_TaskReadyQ ?s). pri ?s u \<le> pri ?s t"
    using L(2,3) head_max [OF i(1) assms(3)] assms(4) by auto
  from Launch_ok [OF L(1) this, of clk] L(3)
  show "sched_ok (switch_to clk ct t s)" "kb_CurrentTask (switch_to clk ct t s) = Some t"
    "pri (switch_to clk ct t s) = pri s"
    "kb_TaskReadyQ (switch_to clk ct t s) = remove1 t (kb_TaskReadyQ (LandReady clk ct s))"
    "\<not> kb_PleaseReschedule (switch_to clk ct t s)"
    by (simp_all add: switch_to_def)
qed

text \<open>What the invariant depends on.\<close>

definition same_flags :: "TCB \<Rightarrow> TCB \<Rightarrow> bool" where
  "same_flags k k' \<longleftrightarrow> t_Priority k = t_Priority k' \<and> TASK_READY k = TASK_READY k' \<and> TASK_WAITING k = TASK_WAITING k'
     \<and> TASK_RUNNING k = TASK_RUNNING k' \<and> TASK_SUSPENDED k = TASK_SUSPENDED k'"

lemma flags_cong:
  assumes "\<forall>t. same_flags (tcb s' t) (tcb s t)"
  shows "pri s' = pri s" and "flags_inv c s' = flags_inv c s"
    and "kb_TaskReadyQ s' = kb_TaskReadyQ s \<Longrightarrow> queue_inv s' = queue_inv s"
proof -
  show p: "pri s' = pri s" using assms by (simp add: pri_def fun_eq_iff same_flags_def)
  show "flags_inv c s' = flags_inv c s" using assms by (simp add: same_flags_def flags_inv_def flags_ok_def)
  show "kb_TaskReadyQ s' = kb_TaskReadyQ s \<Longrightarrow> queue_inv s' = queue_inv s"
    using assms unfolding queue_inv_def p by (simp add: same_flags_def)
qed

lemma resched_cong:
  "pri s' = pri s \<Longrightarrow> kb_TaskReadyQ s' = kb_TaskReadyQ s \<Longrightarrow> kb_CurrentTask s' = kb_CurrentTask s
   \<Longrightarrow> kb_PleaseReschedule s' = kb_PleaseReschedule s \<Longrightarrow> timerArmed s' = timerArmed s
   \<Longrightarrow> resched_inv s' = resched_inv s"
  by (simp add: resched_inv_def cong: option.case_cong)

lemma sched_ok_cong:
  assumes "sched_ok s" and "\<forall>t. same_flags (tcb s' t) (tcb s t)"
    and "kb_TaskReadyQ s' = kb_TaskReadyQ s" and "kb_CurrentTask s' = kb_CurrentTask s"
    and "kb_PleaseReschedule s' \<or> kb_PleaseReschedule s' = kb_PleaseReschedule s \<and> timerArmed s' = timerArmed s"
    and "timer_inv s'"
  shows "sched_ok s'"
proof -
  have "resched_inv s'"
    using assms(1,3-5) unfolding sched_ok_def resched_inv_def flags_cong(1) [OF assms(2)]
    by (auto split: option.splits)
  then show ?thesis using assms(1,3,4,6) flags_cong(2,3) [OF assms(2)] by (simp add: sched_ok_def)
qed

lemma timer_inv_cong:
  "timer_inv s \<Longrightarrow> timers s' = timers s \<Longrightarrow> timerArmed s' = timerArmed s \<Longrightarrow> timer_inv s'"
  by (simp add: timer_inv_def)

lemma upd_same_flags_ok:
  assumes "sched_ok s" and "same_flags (f (tcb s t)) (tcb s t)"
  shows "sched_ok (upd_tcb t f s)" and "pri (upd_tcb t f s) = pri s"
proof -
  show "sched_ok (upd_tcb t f s)"
    by (rule sched_ok_cong [OF assms(1)])
      (use assms in \<open>auto simp: same_flags_def sched_ok_def elim: timer_inv_cong\<close>)
  show "pri (upd_tcb t f s) = pri s" using assms(2) by (auto simp: pri_def fun_eq_iff same_flags_def)
qed

lemma set_expired_ok:
  assumes "sched_ok s"
  shows "sched_ok (upd_tcb t (\<lambda>k. k\<lparr>TASK_QUANTUM_EXPIRED := b\<rparr>) s)"
    and "pri (upd_tcb t (\<lambda>k. k\<lparr>TASK_QUANTUM_EXPIRED := b\<rparr>) s) = pri s"
  by (rule upd_same_flags_ok [OF assms], simp add: same_flags_def)+

lemma internalYield_ok:
  assumes "sched_ok s"
  shows "sched_ok (internalYield clk s)"
  using assms set_expired_ok [OF assms] by (auto simp: internalYield_def intro!: switch_to_ok split: list.split option.split)

lemma stop_asking_ok:
  assumes "sched_ok s" and "\<forall>c t q. kb_CurrentTask s = Some c \<longrightarrow> kb_TaskReadyQ s = t # q \<longrightarrow> pri s t < pri s c"
    and "kb_CurrentTask s = None \<longrightarrow> kb_TaskReadyQ s = []"
  shows "sched_ok (s\<lparr>kb_PleaseReschedule := False\<rparr>)"
proof -
  have p: "pri (s\<lparr>kb_PleaseReschedule := False\<rparr>) = pri s" by (rule pri_cong) simp
  have "pri s u < pri s c" if "kb_CurrentTask s = Some c" "u \<in> set (kb_TaskReadyQ s)" for u c
    using assms(1,2) that by (cases "kb_TaskReadyQ s") (force simp: sched_ok_def queue_inv_def)+
  then have "resched_inv (s\<lparr>kb_PleaseReschedule := False\<rparr>)"
    using assms(3) by (auto simp: resched_inv_def p split: option.split)
  then show ?thesis
    using assms(1) unfolding sched_ok_def queue_inv_def timer_inv_def flags_inv_def p by simp
qed

lemma SwapTasks_ok:
  assumes "sched_ok s" and "kb_CurrentTask s \<noteq> None"
  shows "sched_ok (SwapTasks clk s)"
  using assms by (auto simp: SwapTasks_def not_le intro!: switch_to_ok stop_asking_ok split: list.split option.split)

lemma Permit_ok:
  assumes "sched_ok s" and "kb_CurrentTask s = Some ct"
  shows "sched_ok (Permit clk ct s)" and "sched_ok (Forbid ct s)"
proof -
  have "sched_ok (upd_tcb ct (\<lambda>k. k\<lparr>t_Forbid := f k\<rparr>) s)" for f
    by (rule upd_same_flags_ok(1) [OF assms(1)]) (simp add: same_flags_def)
  then show "sched_ok (Permit clk ct s)" "sched_ok (Forbid ct s)"
    using assms(2) by (auto simp: Permit_def Forbid_def Let_def intro!: SwapTasks_ok)
qed

lemma CheckForTaskSwap_ok:
  assumes "sched_ok s"
  shows "sched_ok (CheckForTaskSwap clk s)"
proof (cases "\<exists>t q. kb_PleaseReschedule s \<and> kb_TaskReadyQ s = t # q \<and> kb_CurrentTask s = None")
  case True
  then obtain t q where t: "kb_PleaseReschedule s" "kb_TaskReadyQ s = t # q" "kb_CurrentTask s = None" by blast
  have l: "landed s" using assms t(3) by (simp add: sched_ok_def landed_def)
  then have "queue_inv s" by (simp add: landed_def)
  from Launch_ok(1) [OF l head_max [OF this t(2)], of clk] t
  show ?thesis by (simp add: CheckForTaskSwap_def)
next
  case False
  then show ?thesis using assms
    by (auto simp: CheckForTaskSwap_def not_le intro!: switch_to_ok stop_asking_ok split: list.split option.split)
qed

lemma cblank_ok:
  assumes "sched_ok s"
  shows "sched_ok (cblank s)"
proof (cases "kb_CurrentTask s")
  case None
  have "pri (s\<lparr>timerArmed := False\<rparr>) = pri s" by (rule pri_cong) simp
  then show ?thesis using assms None
    by (simp add: cblank_def sched_ok_def queue_inv_def flags_inv_def resched_inv_def timer_inv_def)
next
  case (Some ct)
  show ?thesis
    by (rule sched_ok_cong [OF assms]) (use assms Some in \<open>auto simp: cblank_def same_flags_def timer_inv_def sched_ok_def\<close>)
qed

text \<open>A task joins the ready queue.\<close>

definition readied :: "task \<Rightarrow> KState \<Rightarrow> KState" where
  "readied t s = ready_from_tail t (upd_tcb t (\<lambda>k. k\<lparr>TASK_READY := True, TASK_WAITING := False\<rparr>) s)"

lemma readied_sel [simp]:
  "kb_CurrentTask (readied t s) = kb_CurrentTask s" "kb_PleaseReschedule (readied t s) = kb_PleaseReschedule s"
  "timerArmed (readied t s) = timerArmed s" "timers (readied t s) = timers s"
  "pri (readied t s) = pri s"
  "tcb (readied t s) = (tcb s)(t := (tcb s t)\<lparr>TASK_READY := True, TASK_WAITING := False\<rparr>)"
  by (auto simp: readied_def pri_def fun_eq_iff)

text \<open>
  The state a task is woken in: the invariant without its clause on rescheduling, for a task
  whose waiting flag may be set on top of the ready one.
\<close>

definition wakeable :: "task \<Rightarrow> KState \<Rightarrow> bool" where
  "wakeable t s \<longleftrightarrow> sorted_wrt (\<lambda>a b. pri s b \<le> pri s a) (kb_TaskReadyQ s) \<and> distinct (kb_TaskReadyQ s)
     \<and> (\<forall>u. u \<in> set (kb_TaskReadyQ s) \<longleftrightarrow> u \<noteq> t \<and> TASK_READY (tcb s u) \<and> \<not> TASK_SUSPENDED (tcb s u))
     \<and> (\<forall>u. u \<noteq> t \<longrightarrow> flags_ok (kb_CurrentTask s = Some u) (tcb s u))
     \<and> kb_CurrentTask s \<noteq> Some t \<and> \<not> TASK_RUNNING (tcb s t) \<and> TASK_WAITING (tcb s t) \<and> timer_inv s"

lemma wakeable_if_waiting:
  assumes "sched_ok s" and "TASK_WAITING (tcb s t)"
  shows "wakeable t s"
proof -
  have "kb_CurrentTask s \<noteq> Some t" using assms by (auto simp: sched_ok_def flags_inv_def flags_ok_def)
  then show ?thesis
    using assms by (auto simp: wakeable_def sched_ok_def queue_inv_def flags_inv_def flags_ok_def)
qed

lemma readied_ok:
  assumes "wakeable t s" and "\<not> TASK_SUSPENDED (tcb s t)"
  shows "queue_inv (readied t s)" and "flags_inv (kb_CurrentTask s) (readied t s)"
    and "timer_inv (readied t s)" and "set (kb_TaskReadyQ (readied t s)) = insert t (set (kb_TaskReadyQ s))"
proof -
  let ?s = "upd_tcb t (\<lambda>k. k\<lparr>TASK_READY := True, TASK_WAITING := False\<rparr>) s"
  have "pri ?s = pri s" by (auto simp: pri_def fun_eq_iff)
  then have so: "sorted_wrt (\<lambda>a b. pri ?s b \<le> pri ?s a) (kb_TaskReadyQ ?s)" "distinct (kb_TaskReadyQ ?s)"
    "t \<notin> set (kb_TaskReadyQ ?s)"
    using assms(1) by (simp_all add: wakeable_def)
  note R = ready_insert_ok [OF so, of ready_from_tail, simplified, folded readied_def, simplified]
  show set: "set (kb_TaskReadyQ (readied t s)) = insert t (set (kb_TaskReadyQ s))" using R(3) by simp
  show "queue_inv (readied t s)"
    unfolding queue_inv_def set using R assms by (auto simp: wakeable_def)
  show "flags_inv (kb_CurrentTask s) (readied t s)"
    using assms(1) by (auto simp: flags_inv_def wakeable_def flags_ok_def)
  show "timer_inv (readied t s)" using assms(1) by (simp add: wakeable_def timer_inv_def)
qed

text \<open>The ready tasks that may stay behind the current one once the woken task is queued.\<close>

definition covered :: "task \<Rightarrow> KState \<Rightarrow> bool" where
  "covered t s \<longleftrightarrow> kb_PleaseReschedule s \<or> (case kb_CurrentTask s of None \<Rightarrow> True
     | Some c \<Rightarrow> \<forall>v \<in> set (kb_TaskReadyQ s). pri s v \<le> pri s t \<or> pri s v < pri s c \<or> pri s v = pri s c \<and> timerArmed s)"

lemma covered_if_resched: "resched_inv s \<Longrightarrow> covered t s"
  by (auto simp: resched_inv_def covered_def split: option.splits)

lemma NewReadyTask_alt:
  assumes "TASK_WAITING (tcb s t)" and "\<not> TASK_SUSPENDED (tcb s t)"
  shows "NewReadyTask clk t s =
    (let r = readied t s in
     case kb_CurrentTask s of
       None \<Rightarrow> r\<lparr>kb_PleaseReschedule := True\<rparr>
     | Some ct \<Rightarrow>
         if pri r t > pri r ct then r\<lparr>kb_PleaseReschedule := True\<rparr>
         else if pri r t = pri r ct then
           if TASK_QUANTUM_EXPIRED (tcb r ct) then r\<lparr>kb_PleaseReschedule := True\<rparr>
           else if \<not> timerArmed r then
             let (tt, s) = sample clk r;
                 tt = SubTimerTicks (taskStartTime s) tt;
                 s = upd_tcb ct (\<lambda>k. k\<lparr>t_QuantumRemainder := SubTimerTicks tt (t_QuantumRemainder k)\<rparr>) s
             in if t_QuantumRemainder (tcb s ct) \<noteq> 0
                then s\<lparr>timerArmed := True,
                       timers := LoadTimer clk quantaclock (t_QuantumRemainder (tcb s ct)) (timers s)\<rparr>
                else (upd_tcb ct (\<lambda>k. k\<lparr>TASK_QUANTUM_EXPIRED := True\<rparr>) s)\<lparr>kb_PleaseReschedule := True\<rparr>
           else r
         else r)"
  using assms by (simp add: NewReadyTask_def readied_def Let_def cong: option.case_cong)

text \<open>Waking changes no priority, and no state but that of the woken task.\<close>

lemma NewReadyTask_frame:
  assumes "TASK_WAITING (tcb s t)" and "\<not> TASK_SUSPENDED (tcb s t)"
  shows "same_flags (tcb (NewReadyTask clk t s) u) (tcb (readied t s) u)"
    and "kb_TaskReadyQ (NewReadyTask clk t s) = kb_TaskReadyQ (readied t s)"
    and "kb_CurrentTask (NewReadyTask clk t s) = kb_CurrentTask s"
    and "timer_inv s \<Longrightarrow> timer_inv (NewReadyTask clk t s)"
    and "kb_PleaseReschedule (NewReadyTask clk t s) \<or>
      (\<exists>c. kb_CurrentTask s = Some c \<and> (pri s t < pri s c \<and> timerArmed (NewReadyTask clk t s) = timerArmed s
         \<or> pri s t = pri s c \<and> timerArmed (NewReadyTask clk t s)))"
  using LoadTimer_ok [where clk = clk and t = quantaclock and s = "timers (snd (sample clk (readied t s)))"]
  by (auto simp: NewReadyTask_alt [OF assms] same_flags_def timer_inv_def Let_def split_beta not_less less_le
      split: option.split)

lemma NewReadyTask_wakes:
  assumes "wakeable t s" and "\<not> TASK_SUSPENDED (tcb s t)" and "covered t s"
  shows "sched_ok (NewReadyTask clk t s)"
proof -
  have w: "TASK_WAITING (tcb s t)" and ti: "timer_inv s" using assms(1) by (simp_all add: wakeable_def)
  note F = NewReadyTask_frame [OF w assms(2), of clk]
  note R = readied_ok [OF assms(1,2)]
  let ?n = "NewReadyTask clk t s"
  have p: "pri ?n = pri s"
    using F(1) readied_sel(5) [of t s] by (simp add: pri_def fun_eq_iff same_flags_def)
  have "resched_inv ?n"
  proof (cases "kb_PleaseReschedule ?n")
    case False
    then obtain c where c: "kb_CurrentTask s = Some c"
      "pri s t < pri s c \<and> timerArmed ?n = timerArmed s \<or> pri s t = pri s c \<and> timerArmed ?n" using F(5) by blast
    have "\<not> kb_PleaseReschedule s"
      using False w assms(2) by (auto simp: NewReadyTask_alt Let_def split_beta split: option.splits if_splits)
    then have "pri s v \<le> pri s t \<or> pri s v < pri s c \<or> pri s v = pri s c \<and> timerArmed s"
      if "v \<in> set (kb_TaskReadyQ s)" for v
      using assms(3) c(1) that by (simp add: covered_def)
    then have "pri s v < pri s c \<or> pri s v = pri s c \<and> timerArmed ?n" if "v \<in> insert t (set (kb_TaskReadyQ s))" for v
      using that c(2) by fastforce
    then show ?thesis unfolding resched_inv_def p F(2,3) R(4) c(1) by simp
  qed (simp add: resched_inv_def)
  moreover have "queue_inv ?n" "flags_inv (kb_CurrentTask ?n) ?n"
    using flags_cong(2,3) [of ?n "readied t s"] F(1,2) R(1,2) unfolding F(3) by blast+
  ultimately show ?thesis using F(4) [OF ti] by (simp add: sched_ok_def)
qed

lemma NewReadyTask_suspended:
  assumes "TASK_WAITING (tcb s t)" and "TASK_SUSPENDED (tcb s t)"
  shows "NewReadyTask clk t s = upd_tcb t (\<lambda>k. k\<lparr>TASK_READY := True, TASK_WAITING := False\<rparr>) s"
  using assms by (simp add: NewReadyTask_def)

lemma NewReadyTask_ok:
  assumes "sched_ok s"
  shows "sched_ok (NewReadyTask clk t s)"
proof (cases "TASK_WAITING (tcb s t)")
  case True
  note w = wakeable_if_waiting [OF assms True]
  show ?thesis
  proof (cases "TASK_SUSPENDED (tcb s t)")
    case False
    then show ?thesis
      using NewReadyTask_wakes [OF w False] covered_if_resched assms by (simp add: sched_ok_def)
  next
    case susp: True
    let ?s = "upd_tcb t (\<lambda>k. k\<lparr>TASK_READY := True, TASK_WAITING := False\<rparr>) s"
    have p: "pri ?s = pri s" by (auto simp: pri_def fun_eq_iff)
    have "queue_inv ?s" "flags_inv (kb_CurrentTask ?s) ?s"
      using w susp unfolding queue_inv_def p by (auto simp: wakeable_def flags_inv_def flags_ok_def)
    moreover have "resched_inv ?s" "timer_inv ?s"
      using assms resched_cong [of ?s s] p by (simp_all add: sched_ok_def timer_inv_def)
    ultimately show ?thesis by (simp add: NewReadyTask_suspended [OF True susp] sched_ok_def)
  qed
qed (use assms in \<open>simp add: NewReadyTask_def\<close>)

lemma flags_inv_upd:
  assumes "flags_inv c s" and "c \<noteq> Some t" and "tcb s' = (tcb s)(t := (tcb s t)\<lparr>TASK_SUSPENDED := b\<rparr>)"
  shows "flags_inv c s'"
proof -
  have "flags_ok (c = Some u) (tcb s' u)" for u
    using assms(1,2) by (cases "u = t") (auto simp: flags_inv_def assms(3) flags_ok_def)
  then show ?thesis by (simp add: flags_inv_def)
qed

lemma SuspendTask_ok:
  assumes "sched_ok s"
  shows "sched_ok (SuspendTask clk t s)"
proof (cases "TASK_SUSPENDED (tcb s t)")
  case False
  define r where "r = (if kb_CurrentTask s = Some t
     then LandReady clk t (s\<lparr>kb_CurrentTask := None, kb_PleaseReschedule := True\<rparr>) else s)"
  let ?s = "s\<lparr>kb_CurrentTask := None, kb_PleaseReschedule := True\<rparr>"
  have "sched_ok r \<and> kb_CurrentTask r \<noteq> Some t \<and> TASK_SUSPENDED (tcb r t) = TASK_SUSPENDED (tcb s t)"
  proof (cases "kb_CurrentTask s = Some t")
    case True
    have "pri ?s = pri s" by (rule pri_cong) simp
    then have "queue_inv ?s" "flags_inv (Some t) ?s" "timer_inv ?s"
      using assms True by (simp_all add: sched_ok_def queue_inv_def flags_inv_def timer_inv_def)
    from LandReady_ok(1) [OF this, of clk] True
    show ?thesis by (simp add: r_def landed_def sched_ok_def resched_inv_def)
  qed (simp add: r_def assms)
  then have r: "sched_ok r" "kb_CurrentTask r \<noteq> Some t" "\<not> TASK_SUSPENDED (tcb r t)" using False by auto
  define u where "u = upd_tcb t (\<lambda>k. k\<lparr>TASK_SUSPENDED := True\<rparr>) (if TASK_READY (tcb r t) then unready t r else r)"
  have u: "tcb u = (tcb r)(t := (tcb r t)\<lparr>TASK_SUSPENDED := True\<rparr>)" "kb_TaskReadyQ u = remove1 t (kb_TaskReadyQ r)"
    "kb_CurrentTask u = kb_CurrentTask r" "kb_PleaseReschedule u = kb_PleaseReschedule r" "timerArmed u = timerArmed r"
    "timers u = timers r"
    using r(1) by (auto simp: u_def sched_ok_def queue_inv_def remove1_idem)
  have p: "pri u = pri r" by (auto simp: pri_def u(1) fun_eq_iff)
  have "queue_inv u"
    using r(1) unfolding sched_ok_def queue_inv_def p u(1,2) by (auto simp: sorted_remove1)
  moreover have "flags_inv (kb_CurrentTask u) u"
    unfolding u(3) using flags_inv_upd [OF _ r(2) u(1)] r(1) by (simp add: sched_ok_def)
  moreover have "resched_inv u"
    using r(1) unfolding sched_ok_def resched_inv_def p u
    by (auto split: option.splits dest: set_mp [OF set_remove1_subset])
  moreover have "timer_inv u" using r(1) by (simp add: sched_ok_def timer_inv_def u(5,6))
  ultimately have "sched_ok u" by (simp add: sched_ok_def)
  moreover have "SuspendTask clk t s = u"
    using False by (simp only: SuspendTask_def Let_def if_False r_def u_def)
  ultimately show ?thesis by simp
qed (use assms in \<open>simp add: SuspendTask_def\<close>)

lemma resumed_ok:
  assumes "sched_ok s" and "TASK_READY (tcb s t)" and "TASK_SUSPENDED (tcb s t)"
  shows "sched_ok (NewReadyTask clk t (upd_tcb t (\<lambda>k. k\<lparr>TASK_SUSPENDED := False, TASK_WAITING := True\<rparr>) s))"
proof -
  let ?s = "upd_tcb t (\<lambda>k. k\<lparr>TASK_SUSPENDED := False, TASK_WAITING := True\<rparr>) s"
  have p: "pri ?s = pri s" by (auto simp: pri_def fun_eq_iff)
  have "flags_ok (kb_CurrentTask s = Some t) (tcb s t)" using assms(1) by (simp add: sched_ok_def flags_inv_def)
  then have c: "kb_CurrentTask s \<noteq> Some t" "\<not> TASK_RUNNING (tcb s t)" using assms(2) by (auto simp: flags_ok_def)
  have "wakeable t ?s" unfolding wakeable_def p
    using assms c by (auto simp: sched_ok_def queue_inv_def flags_inv_def timer_inv_def)
  moreover have "resched_inv ?s" using assms(1) resched_cong [of ?s s] p by (simp add: sched_ok_def)
  ultimately show ?thesis by (simp add: NewReadyTask_wakes covered_if_resched)
qed

lemma ResumeTask_ok:
  assumes "sched_ok s"
  shows "sched_ok (ResumeTask clk t s)"
proof (cases "TASK_SUSPENDED (tcb s t)")
  case True
  show ?thesis
  proof (cases "TASK_READY (tcb s t)")
    case ready: True
    then have "ResumeTask clk t s
        = NewReadyTask clk t (upd_tcb t (\<lambda>k. k\<lparr>TASK_SUSPENDED := False, TASK_WAITING := True\<rparr>) s)"
      using True by (simp add: ResumeTask_def Let_def upd_tcb_twice)
    then show ?thesis using resumed_ok [OF assms ready True, of clk] by (simp only:)
  next
    case False
    let ?s = "upd_tcb t (\<lambda>k. k\<lparr>TASK_SUSPENDED := False\<rparr>) s"
    have p: "pri ?s = pri s" by (auto simp: pri_def fun_eq_iff)
    have "queue_inv ?s" using assms False unfolding queue_inv_def p by (auto simp: sched_ok_def queue_inv_def)
    moreover have "flags_inv (kb_CurrentTask ?s) ?s"
    proof -
      have c: "flags_inv (kb_CurrentTask s) s" using assms by (simp add: sched_ok_def)
      then have "flags_ok (kb_CurrentTask s = Some t) (tcb s t)" by (simp add: flags_inv_def)
      then have "kb_CurrentTask s \<noteq> Some t" using True by (auto simp: flags_ok_def)
      show ?thesis by (rule flags_inv_upd [of _ s t _ False]) (use c \<open>kb_CurrentTask s \<noteq> Some t\<close> in simp_all)
    qed
    moreover have "resched_inv ?s" "timer_inv ?s"
      using assms resched_cong [of ?s s] p by (simp_all add: sched_ok_def timer_inv_def)
    ultimately show ?thesis using True False by (simp add: ResumeTask_def Let_def sched_ok_def)
  qed
qed (use assms in \<open>simp add: ResumeTask_def\<close>)

text \<open>Changing the priority of a task that is not on the ready queue.\<close>

lemma set_pri_ok:
  assumes "sched_ok s" and "t \<notin> set (kb_TaskReadyQ s)"
  shows "queue_inv (upd_tcb t (\<lambda>k. k\<lparr>t_Priority := p\<rparr>) s)"
    and "flags_inv (kb_CurrentTask s) (upd_tcb t (\<lambda>k. k\<lparr>t_Priority := p\<rparr>) s)"
    and "timer_inv (upd_tcb t (\<lambda>k. k\<lparr>t_Priority := p\<rparr>) s)"
proof -
  let ?s = "upd_tcb t (\<lambda>k. k\<lparr>t_Priority := p\<rparr>) s"
  have "sorted_wrt (\<lambda>a b. pri ?s b \<le> pri ?s a) (kb_TaskReadyQ s)"
    by (rule sorted_pri_upd [of s _ t "(tcb s t)\<lparr>t_Priority := p\<rparr>"])
      (use assms in \<open>auto simp: sched_ok_def queue_inv_def\<close>)
  then show "queue_inv ?s" "flags_inv (kb_CurrentTask s) ?s" "timer_inv ?s"
    using assms by (auto simp: sched_ok_def queue_inv_def flags_inv_def flags_ok_def timer_inv_def)
qed

text \<open>The head of the queue is woken again, at a current task of a lower priority.\<close>

lemma requeue_head_ok:
  assumes "queue_inv s" and "flags_inv (kb_CurrentTask s) s" and "timer_inv s" and "kb_TaskReadyQ s = u # q"
  shows "sched_ok (NewReadyTask clk u (upd_tcb u (\<lambda>k. k\<lparr>TASK_WAITING := True\<rparr>) (s\<lparr>kb_TaskReadyQ := q\<rparr>)))"
proof -
  let ?s = "upd_tcb u (\<lambda>k. k\<lparr>TASK_WAITING := True\<rparr>) (s\<lparr>kb_TaskReadyQ := q\<rparr>)"
  have p: "pri ?s = pri s" by (auto simp: pri_def fun_eq_iff)
  have u: "TASK_READY (tcb s u)" "\<not> TASK_SUSPENDED (tcb s u)" using assms(1,4) by (auto simp: queue_inv_def)
  have "flags_ok (kb_CurrentTask s = Some u) (tcb s u)" using assms(2) by (simp add: flags_inv_def)
  then have c: "kb_CurrentTask s \<noteq> Some u" "\<not> TASK_RUNNING (tcb s u)" using u(1) by (auto simp: flags_ok_def)
  have "x \<in> set q \<longleftrightarrow> x \<noteq> u \<and> TASK_READY (tcb s x) \<and> \<not> TASK_SUSPENDED (tcb s x)" for x
  proof -
    have "x \<in> set (u # q) \<longleftrightarrow> TASK_READY (tcb s x) \<and> \<not> TASK_SUSPENDED (tcb s x)" "u \<notin> set q"
      using assms(1) unfolding queue_inv_def assms(4) by auto
    then show ?thesis by auto
  qed
  then have "wakeable u ?s" unfolding wakeable_def p
    using assms(1,2,3) c assms(4) by (auto simp: queue_inv_def flags_inv_def timer_inv_def)
  moreover have "covered u ?s"
    using head_max(2) [OF assms(1,4)] assms(4) by (auto simp: covered_def p split: option.split)
  ultimately show ?thesis using u(2) by (simp add: NewReadyTask_wakes)
qed

text \<open>The three ways to change a priority.\<close>

abbreviation set_pri :: "task \<Rightarrow> u8 \<Rightarrow> KState \<Rightarrow> KState" where
  "set_pri t p \<equiv> upd_tcb t (\<lambda>k. k\<lparr>t_Priority := p\<rparr>)"

lemma set_pri_other: "u \<noteq> t \<Longrightarrow> pri (set_pri t p s) u = pri s u"
  by (simp add: pri_def)

lemma raise_current_ok:
  assumes "sched_ok s" and "kb_CurrentTask s = Some t" and "t \<notin> set (kb_TaskReadyQ s)"
    and "pri s t \<le> newpri \<or> kb_TaskReadyQ s = []"
  shows "sched_ok (set_pri t newpri s)"
proof -
  have "pri s v < newpri \<or> pri s v = newpri \<and> timerArmed s"
    if v: "v \<in> set (kb_TaskReadyQ s)" and p: "\<not> kb_PleaseReschedule s" for v
  proof -
    have "pri s t \<le> newpri" using assms(4) v by auto
    moreover have "pri s v < pri s t \<or> pri s v = pri s t \<and> timerArmed s"
      using assms(1,2) p v by (simp add: sched_ok_def resched_inv_def)
    ultimately show ?thesis by auto
  qed
  moreover have "pri (set_pri t newpri s) t = newpri" by (simp add: pri_def)
  moreover have "pri (set_pri t newpri s) v = pri s v" if "v \<in> set (kb_TaskReadyQ s)" for v
    using that assms(3) by (intro set_pri_other) auto
  ultimately have "resched_inv (set_pri t newpri s)" using assms(2) by (auto simp: resched_inv_def)
  then show ?thesis using set_pri_ok [OF assms(1,3), of newpri] by (simp add: sched_ok_def assms(2))
qed

lemma set_waiting_pri_ok:
  assumes "sched_ok s" and "kb_CurrentTask s \<noteq> Some t" and "t \<notin> set (kb_TaskReadyQ s)"
  shows "sched_ok (set_pri t newpri s)"
proof -
  have "pri (set_pri t newpri s) v = pri s v" if "v \<in> set (kb_TaskReadyQ s)" for v
    using that assms(3) by (intro set_pri_other) auto
  moreover have "pri (set_pri t newpri s) c = pri s c" if "kb_CurrentTask s = Some c" for c
    using that assms(2) by (intro set_pri_other) auto
  ultimately have "resched_inv (set_pri t newpri s)"
    using assms(1) by (auto simp: sched_ok_def resched_inv_def split: option.splits)
  then show ?thesis using set_pri_ok [OF assms(1,3), of newpri] by (simp add: sched_ok_def)
qed

lemma requeue_ok:
  assumes "sched_ok s" and "kb_CurrentTask s \<noteq> Some t" and "TASK_READY (tcb s t)" and "\<not> TASK_SUSPENDED (tcb s t)"
  shows "sched_ok (NewReadyTask clk t (upd_tcb t (\<lambda>k. k\<lparr>t_Priority := newpri, TASK_WAITING := True\<rparr>) (unready t s)))"
proof -
  have q: "queue_inv s" "flags_inv (kb_CurrentTask s) s" "resched_inv s" "timer_inv s"
    using assms(1) by (simp_all add: sched_ok_def)
  have "flags_ok (kb_CurrentTask s = Some t) (tcb s t)" using q(2) by (simp add: flags_inv_def)
  then have r: "\<not> TASK_RUNNING (tcb s t)" using assms(2) by (simp add: flags_ok_def)
  let ?u = "upd_tcb t (\<lambda>k. k\<lparr>t_Priority := newpri, TASK_WAITING := True\<rparr>) (unready t s)"
  have others: "pri ?u v = pri s v" if "v \<noteq> t" for v using that by (auto simp: pri_def)
  have rem: "set (remove1 t (kb_TaskReadyQ s)) = set (kb_TaskReadyQ s) - {t}" "distinct (remove1 t (kb_TaskReadyQ s))"
    using q(1) by (simp_all add: queue_inv_def)
  have "sorted_wrt (\<lambda>a b. pri s b \<le> pri s a) (remove1 t (kb_TaskReadyQ s))"
    using q(1) by (simp add: queue_inv_def sorted_remove1)
  then have "sorted_wrt (\<lambda>a b. pri ?u b \<le> pri ?u a) (remove1 t (kb_TaskReadyQ s))"
    by (rule sorted_wrt_mono_rel [rotated]) (use rem(1) others in auto)
  then have "wakeable t ?u"
    using q rem r assms(2) by (auto simp: wakeable_def queue_inv_def flags_inv_def timer_inv_def)
  moreover have "covered t ?u"
    using q(3) rem(1) others assms(2) by (auto simp: covered_def resched_inv_def split: option.splits)
  ultimately show ?thesis using assms(4) by (simp add: NewReadyTask_wakes)
qed

lemma internalChangeTaskPri_ok:
  assumes "sched_ok s" and "\<not> (TASK_READY (tcb s t) \<and> TASK_SUSPENDED (tcb s t))"
  shows "sched_ok (snd (internalChangeTaskPri clk privileged t newpri s))"
proof (cases "\<not> privileged \<and> (newpri > 199 \<or> newpri < 10)")
  case False
  have f: "flags_ok (kb_CurrentTask s = Some t) (tcb s t)" and q: "queue_inv s"
    using assms(1) by (simp_all add: sched_ok_def flags_inv_def)
  consider (current) "kb_CurrentTask s = Some t" | (waiting) "kb_CurrentTask s \<noteq> Some t" "TASK_WAITING (tcb s t)"
    | (ready) "kb_CurrentTask s \<noteq> Some t" "\<not> TASK_WAITING (tcb s t)" by blast
  then show ?thesis
  proof cases
    case current
    have n: "t \<notin> set (kb_TaskReadyQ s)" using q f current by (auto simp: queue_inv_def flags_ok_def)
    show ?thesis
    proof (cases "newpri < pri s t \<and> kb_TaskReadyQ s \<noteq> []")
      case True
      note S = set_pri_ok [OF assms(1) n, of newpri]
      obtain u r where u: "kb_TaskReadyQ (set_pri t newpri s) = u # r"
        using True by (cases "kb_TaskReadyQ s") auto
      have "flags_inv (kb_CurrentTask (set_pri t newpri s)) (set_pri t newpri s)" using S(2) by simp
      from requeue_head_ok [OF S(1) this S(3) u, of clk] True current u False
      show ?thesis by (auto simp: internalChangeTaskPri_def Let_def)
    next
      case no: False
      then have "sched_ok (set_pri t newpri s)" by (intro raise_current_ok assms(1) current n) auto
      then show ?thesis using False no current by (auto simp: internalChangeTaskPri_def Let_def split: list.split)
    qed
  next
    case waiting
    have "t \<notin> set (kb_TaskReadyQ s)" using q f waiting by (auto simp: queue_inv_def flags_ok_def)
    from set_waiting_pri_ok [OF assms(1) waiting(1) this]
    show ?thesis using False waiting by (auto simp: internalChangeTaskPri_def Let_def)
  next
    case ready
    have "TASK_READY (tcb s t)" "\<not> TASK_SUSPENDED (tcb s t)" using f ready assms(2) by (auto simp: flags_ok_def)
    from requeue_ok [OF assms(1) ready(1) this, of clk newpri]
    show ?thesis using ready False by (auto simp: internalChangeTaskPri_def Let_def upd_tcb_twice)
  qed
qed (use assms(1) in \<open>simp add: internalChangeTaskPri_def\<close>)

section \<open>The scheduler as a step relation\<close>

text \<open>
  The decrementer interrupt: the timers that are due are served and, where the quantum timer is
  one of them, its handler runs. The handler leaves the timers alone.
\<close>

definition decrementer_interrupt :: "ticks \<Rightarrow> KState \<Rightarrow> KState option" where
  "decrementer_interrupt now s =
     (case ServiceDecrementer False (\<lambda>_. now) (\<lambda>_ ts. ts) (timers s) of
        None \<Rightarrow> None
      | Some ts \<Rightarrow>
          Some (if quantaclock \<in> set (drop (length (ran (timers s))) (ran ts))
                then cblank (s\<lparr>timers := ts\<rparr>) else s\<lparr>timers := ts\<rparr>))"

inductive sched_step :: "KState \<Rightarrow> KState \<Rightarrow> bool" where
  yield: "sched_step s (internalYield clk s)"
| wait: "kb_CurrentTask s = Some t \<Longrightarrow> sched_step s (SleepTask clk t s)"
| check: "sched_step s (CheckForTaskSwap clk s)"
| swap: "kb_CurrentTask s = Some t \<Longrightarrow> sched_step s (SwapTasks clk s)"
| forbid: "kb_CurrentTask s = Some t \<Longrightarrow> sched_step s (Forbid t s)"
| permit: "kb_CurrentTask s = Some t \<Longrightarrow> sched_step s (Permit clk t s)"
| tick: "decrementer_interrupt now s = Some s' \<Longrightarrow> periods_ok now (timers s) \<Longrightarrow> sched_step s s'"
| wake: "sched_step s (NewReadyTask clk t s)"
| suspend: "sched_step s (SuspendTask clk t s)"
| resume: "sched_step s (ResumeTask clk t s)"
| change: "\<not> (TASK_READY (tcb s t) \<and> TASK_SUSPENDED (tcb s t)) \<Longrightarrow>
    sched_step s (snd (internalChangeTaskPri clk privileged t newpri s))"

inductive_cases sched_stepE: "sched_step s s'"

lemma set_timers_ok:
  assumes "sched_ok s" and "queue_ok ts" and "timerArmed s \<longrightarrow> quantaclock \<in> set (waitq ts)"
  shows "sched_ok (s\<lparr>timers := ts\<rparr>)"
  by (rule sched_ok_cong [OF assms(1)]) (use assms in \<open>auto simp: same_flags_def timer_inv_def\<close>)

lemma decrementer_interrupt_ok:
  assumes "sched_ok s" and "periods_ok now (timers s)" and "decrementer_interrupt now s = Some s'"
  shows "sched_ok s'"
proof -
  have ti: "queue_ok (timers s)" "timerArmed s \<Longrightarrow> quantaclock \<in> set (waitq (timers s))"
    using assms(1) by (auto simp: sched_ok_def timer_inv_def)
  from ServiceDecrementer_ends [of "\<lambda>_. now" now, OF refl ti(1) assms(2)]
  obtain ts called where ts: "ServiceDecrementer_loop (\<lambda>_. now) (\<lambda>_ s. s) (timers s) = Some ts" "queue_ok ts"
      "timers_of ts = timers_of (timers s)" "ran ts = ran (timers s) @ called"
      "set (expiredq ts) = set (expiredq (timers s)) \<union> {t \<in> set called. \<not> tm_Periodic (timers s) t}"
    by blast
  have waits: "quantaclock \<in> set (waitq ts)" if "timerArmed s" "quantaclock \<notin> set called"
  proof -
    have "quantaclock \<notin> set (expiredq (timers s))" using ti that(1) by (auto simp: queue_ok_def)
    then have "quantaclock \<notin> set (expiredq ts)" using ts(5) that(2) by blast
    then show ?thesis using ts(3) ti(2) that(1) by (auto simp: timers_of_def)
  qed
  have s': "s' = (if quantaclock \<in> set called then cblank (s\<lparr>timers := ts\<rparr>) else s\<lparr>timers := ts\<rparr>)"
    using assms(3) ts(1,4) by (simp add: decrementer_interrupt_def ServiceDecrementer_def)
  show ?thesis
  proof (cases "quantaclock \<in> set called")
    case True
    have eq: "cblank (s\<lparr>timers := ts\<rparr>) = (cblank s)\<lparr>timers := ts\<rparr>"
      by (simp add: cblank_def Let_def upd_tcb_def split: option.split)
    have "\<not> timerArmed (cblank s)" by (simp add: cblank_def Let_def)
    then show ?thesis unfolding s' eq using True set_timers_ok [OF cblank_ok [OF assms(1)] ts(2)] by simp
  qed (use s' set_timers_ok [OF assms(1) ts(2)] waits in auto)
qed

lemma sched_step_ok: "sched_step s s' \<Longrightarrow> sched_ok s \<Longrightarrow> sched_ok s'"
  by (erule sched_stepE)
    (auto intro: internalYield_ok SleepTask_ok CheckForTaskSwap_ok SwapTasks_ok Permit_ok decrementer_interrupt_ok
      NewReadyTask_ok SuspendTask_ok ResumeTask_ok internalChangeTaskPri_ok)

lemma sched_steps_ok: "sched_step\<^sup>*\<^sup>* s s' \<Longrightarrow> sched_ok s \<Longrightarrow> sched_ok s'"
  by (induction rule: rtranclp_induct) (auto intro: sched_step_ok)

section \<open>Taking turns\<close>

text \<open>What a switch does to the queue: an expired task goes behind its equals, another stays in front of them.\<close>

lemma switch_to_queue:
  assumes "sched_ok s" and "kb_CurrentTask s = Some ct" and "kb_TaskReadyQ s = t # q" and "pri s ct \<le> pri s t"
  shows "kb_TaskReadyQ (switch_to clk ct t s) =
    (if TASK_QUANTUM_EXPIRED (tcb s ct)
     then filter (\<lambda>x. pri s ct \<le> pri s x) q @ ct # filter (\<lambda>x. pri s x < pri s ct) q
     else filter (\<lambda>x. pri s ct < pri s x) q @ ct # filter (\<lambda>x. pri s x \<le> pri s ct) q)"
proof -
  have i: "queue_inv s" "flags_inv (Some ct) s" using assms(1,2) by (simp_all add: sched_ok_def)
  obtain k u where u: "LandReady clk ct s = (if TASK_QUANTUM_EXPIRED (tcb s ct) then ready_from_tail ct u else ready_from_head ct u)"
      "tcb u = (tcb s)(ct := k)" "t_Priority k = pri s ct" "kb_TaskReadyQ u = kb_TaskReadyQ s"
    using LandReady_split [of clk ct s] by blast
  have p: "pri u = pri s" using u(2,3) by (auto simp: pri_def fun_eq_iff)
  have "flags_ok True (tcb s ct)" using i(2) by (metis flags_inv_def)
  moreover have "TASK_READY (tcb s t)" "t \<notin> set q" using i(1) assms(3) by (auto simp: queue_inv_def)
  ultimately have n: "ct \<noteq> t" "t \<notin> set q" by (auto simp: flags_ok_def)
  have "sorted_wrt (\<lambda>a b. pri u b \<le> pri u a) (kb_TaskReadyQ u)" using i(1) by (simp add: p u(4) queue_inv_def)
  from ready_queue [OF this, of ct]
  have "kb_TaskReadyQ (LandReady clk ct s) = (if TASK_QUANTUM_EXPIRED (tcb s ct)
      then filter (\<lambda>x. pri s ct \<le> pri s x) (t # q) @ ct # filter (\<lambda>x. pri s x < pri s ct) (t # q)
      else filter (\<lambda>x. pri s ct < pri s x) (t # q) @ ct # filter (\<lambda>x. pri s x \<le> pri s ct) (t # q))"
    by (simp add: u(1) p u(4) assms(3))
  moreover have "pri s t = pri s ct" if "\<not> pri s ct < pri s t" using that assms(4) by simp
  ultimately show ?thesis
    unfolding switch_to_ok(4) [OF assms]
    using assms(4) n by (auto simp: remove1_append split: if_splits)
qed

text \<open>The current task expires its quantum and the interrupt handler looks for a task to run.\<close>

definition next_quantum :: "clock \<Rightarrow> KState \<Rightarrow> KState" where
  "next_quantum clk s = CheckForTaskSwap clk (cblank s)"

lemma cblank_sel:
  assumes "kb_CurrentTask s = Some ct"
  shows "kb_TaskReadyQ (cblank s) = kb_TaskReadyQ s" and "kb_CurrentTask (cblank s) = Some ct"
    and "kb_PleaseReschedule (cblank s)" and "TASK_QUANTUM_EXPIRED (tcb (cblank s) ct)"
    and "pri (cblank s) = pri s" and "t_Forbid (tcb (cblank s) u) = t_Forbid (tcb s u)"
  using assms by (auto simp: cblank_def pri_def fun_eq_iff)

lemma switch_to_Forbid: "t_Forbid (tcb (switch_to clk ct t s) u) = t_Forbid (tcb s u)"
  by (auto simp: switch_to_def Launch_def LandReady_def Let_def split_beta split: list.split)

lemma next_quantum_turn:
  assumes "sched_ok s" and "kb_CurrentTask s = Some ct" and "kb_TaskReadyQ s = t # q" and "pri s ct \<le> pri s t"
    and "t_Forbid (tcb s ct) = 0"
  shows "sched_ok (next_quantum clk s)" and "kb_CurrentTask (next_quantum clk s) = Some t"
    and "pri (next_quantum clk s) = pri s"
    and "t_Forbid (tcb (next_quantum clk s) u) = t_Forbid (tcb s u)"
    and "kb_TaskReadyQ (next_quantum clk s)
      = filter (\<lambda>x. pri s ct \<le> pri s x) q @ ct # filter (\<lambda>x. pri s x < pri s ct) q"
proof -
  note c = cblank_sel [OF assms(2)]
  have b: "sched_ok (cblank s)" "kb_TaskReadyQ (cblank s) = t # q" "pri (cblank s) ct \<le> pri (cblank s) t"
    using assms(1,3,4) by (simp_all add: cblank_ok c)
  have eq: "next_quantum clk s = switch_to clk ct t (cblank s)"
    using assms(2-5) c by (simp add: next_quantum_def CheckForTaskSwap_def)
  show "sched_ok (next_quantum clk s)" "kb_CurrentTask (next_quantum clk s) = Some t"
    "pri (next_quantum clk s) = pri s" "t_Forbid (tcb (next_quantum clk s) u) = t_Forbid (tcb s u)"
    "kb_TaskReadyQ (next_quantum clk s)
      = filter (\<lambda>x. pri s ct \<le> pri s x) q @ ct # filter (\<lambda>x. pri s x < pri s ct) q"
    using switch_to_ok [OF b(1) c(2) b(2,3), of clk] switch_to_queue [OF b(1) c(2) b(2,3), of clk]
    by (simp_all add: eq c switch_to_Forbid)
qed

section \<open>Properties\<close>

definition example_tcb :: TCB where
  "example_tcb = \<lparr>t_Priority = 100, TASK_READY = False, TASK_WAITING = True, TASK_RUNNING = False,
     TASK_QUANTUM_EXPIRED = False, TASK_SUSPENDED = False, t_Quantum = 15, t_QuantumRemainder = 15,
     t_ElapsedTime = 0, t_NumTaskLaunch = 0, t_Forbid = 0, t_SigBits = 0, t_WaitBits = 0, t_AllocatedSigs = 0xFF\<rparr>"

text \<open>Tasks 1, 2 and 3 have priority 100; 1 runs, 2 and 3 are ready, as is 4 of priority 50.\<close>

definition example_kernel :: KState where
  "example_kernel = \<lparr>tcb = (\<lambda>_. example_tcb)(1 := example_tcb\<lparr>TASK_WAITING := False, TASK_RUNNING := True\<rparr>,
       2 := example_tcb\<lparr>TASK_WAITING := False, TASK_READY := True\<rparr>,
       3 := example_tcb\<lparr>TASK_WAITING := False, TASK_READY := True\<rparr>,
       4 := example_tcb\<lparr>TASK_WAITING := False, TASK_READY := True, t_Priority := 50\<rparr>),
     kb_TaskReadyQ = [2, 3, 4], kb_CurrentTask = Some 1, kb_PleaseReschedule = False, kb_NumTaskSwitches = 0,
     kb_FPOwner = None, timerArmed = True, taskStartTime = 0,
     timers = \<lparr>waitq = [quantaclock], expiredq = [], tm_WakeTime = (\<lambda>_. 15), tm_Period = (\<lambda>_. 0),
       tm_Periodic = (\<lambda>_. False), decrementer = 0, reads = 0, ran = []\<rparr>\<rparr>"

lemma example_kernel_ok: "sched_ok example_kernel"
  by (simp add: sched_ok_def sched_defs pri_def example_kernel_def example_tcb_def queue_ok_def)



text \<open>After an interrupt the task with the highest priority runs. When the current task does not
  forbid switches, \<open>CheckForTaskSwap\<close> leaves no pending reschedule, no ready task of a higher
  priority than the one that then runs, and the processor idle only if no task is ready.\<close>

theorem CheckForTaskSwap_runs_highest:
  assumes "sched_ok s" and "\<forall>ct. kb_CurrentTask s = Some ct \<longrightarrow> t_Forbid (tcb s ct) = 0"
  shows "\<not> kb_PleaseReschedule (CheckForTaskSwap clk s) \<and>
    (case kb_CurrentTask (CheckForTaskSwap clk s) of
       None \<Rightarrow> kb_TaskReadyQ (CheckForTaskSwap clk s) = []
     | Some c \<Rightarrow> TASK_RUNNING (tcb (CheckForTaskSwap clk s) c)
         \<and> (\<forall>t \<in> set (kb_TaskReadyQ (CheckForTaskSwap clk s)).
              pri (CheckForTaskSwap clk s) t \<le> pri (CheckForTaskSwap clk s) c))"
proof -
  let ?s = "CheckForTaskSwap clk s"
  have ok: "sched_ok ?s" by (rule CheckForTaskSwap_ok [OF assms(1)])
  have "\<not> kb_PleaseReschedule ?s"
    using assms(2) Launch_split(4) by (auto simp: CheckForTaskSwap_def switch_to_def split: list.split option.split)
  moreover have "TASK_RUNNING (tcb ?s c)" if "kb_CurrentTask ?s = Some c" for c
    using ok that by (auto simp: sched_ok_def flags_inv_def flags_ok_def)
  ultimately show ?thesis using ok by (fastforce simp: sched_ok_def resched_inv_def split: option.split)
qed

theorem CheckForTaskSwap_runs_highest_witness:
  "\<not> kb_PleaseReschedule (CheckForTaskSwap (\<lambda>_. 20) (cblank example_kernel))"
proof -
  have "\<forall>ct. kb_CurrentTask (cblank example_kernel) = Some ct \<longrightarrow> t_Forbid (tcb (cblank example_kernel) ct) = 0"
    by (simp add: cblank_def example_kernel_def example_tcb_def)
  from CheckForTaskSwap_runs_highest [OF cblank_ok [OF example_kernel_ok] this] show ?thesis by blast
qed

text \<open>C15: tasks of the same priority take turns. A ready task that has only tasks of the current
  priority before it in the queue, none of which forbids switches, runs after one quantum for
  each of them and one for the current task.\<close>

theorem round_robin:
  assumes "sched_ok s" and "kb_CurrentTask s = Some c" and "kb_TaskReadyQ s = us @ t # vs"
    and "\<forall>u \<in> set (us @ [t]). pri s u = pri s c" and "\<forall>u \<in> set (c # us). t_Forbid (tcb s u) = 0"
  shows "kb_CurrentTask ((next_quantum clk ^^ Suc (length us)) s) = Some t"
  using assms
proof (induction us arbitrary: s c vs)
  case Nil
  then show ?case using next_quantum_turn(2) [of s c t vs clk] by simp
next
  case (Cons u us)
  let ?s = "next_quantum clk s"
  have h: "kb_TaskReadyQ s = u # us @ t # vs" "pri s c \<le> pri s u" "t_Forbid (tcb s c) = 0" using Cons.prems by auto
  note N = next_quantum_turn [OF Cons.prems(1,2) h, of clk]
  have "filter (\<lambda>x. pri s c \<le> pri s x) us = us" using Cons.prems(4) by (auto simp: filter_id_conv)
  moreover have "filter (\<lambda>x. pri s x < pri s c) us = []" using Cons.prems(4) by (auto simp: filter_empty_conv)
  ultimately have q: "kb_TaskReadyQ ?s = us @ t # (filter (\<lambda>x. pri s c \<le> pri s x) vs @ c # filter (\<lambda>x. pri s x < pri s c) vs)"
    using N(5) Cons.prems(4) by simp
  have "kb_CurrentTask ((next_quantum clk ^^ Suc (length us)) ?s) = Some t"
    by (rule Cons.IH [OF N(1,2) q]) (use Cons.prems(4,5) N(3,4) in auto)
  then show ?case by (simp add: funpow_swap1)
qed

theorem round_robin_witness:
  "kb_CurrentTask ((next_quantum (\<lambda>_. 20) ^^ 2) example_kernel) = Some 3"
proof -
  have "kb_CurrentTask ((next_quantum (\<lambda>_. 20) ^^ Suc (length [2 :: task])) example_kernel) = Some 3"
    by (rule round_robin [OF example_kernel_ok, of 1 _ _ "[4]"]) (simp_all add: example_kernel_def example_tcb_def pri_def)
  then show ?thesis by (simp add: numeral_2_eq_2)
qed

end
