(* ===== verification/Signals.thy ===== *)
theory Signals
  imports Scheduler
begin

text \<open>
  Signals (\<open>folios/kernel/signal.c\<close>, \<open>SetSignals\<close> and \<open>ClearSignals\<close> of \<open>kernel/task.h\<close>) over the
  state of the scheduler. \<open>WaitSignal\<close> is split where its task sleeps: \<open>internalWait\<close> is the part
  up to the sleep, \<open>internalWait_woken\<close> what the task does once it runs again.
\<close>

abbreviation "SIGF_ABORT \<equiv> (4 :: u32)"
abbreviation "ILLEGAL_SIG \<equiv> (0x80000000 :: u32)"
abbreviation "SUPER_SIGS \<equiv> (0xFF :: u32)"
abbreviation "RESERVED_SIGBITS \<equiv> ILLEGAL_SIG OR SUPER_SIGS"

definition SetSignals :: "task \<Rightarrow> u32 \<Rightarrow> KState \<Rightarrow> KState" where
  "SetSignals t bits s = upd_tcb t (\<lambda>k. k\<lparr>t_SigBits := t_SigBits k OR bits\<rparr>) s"

definition ClearSignals :: "task \<Rightarrow> u32 \<Rightarrow> KState \<Rightarrow> KState" where
  "ClearSignals t bits s = upd_tcb t (\<lambda>k. k\<lparr>t_SigBits := t_SigBits k AND NOT bits\<rparr>) s"

text \<open>The result of a wait that returns at once; \<open>None\<close> where the task sleeps.\<close>

definition internalWait :: "clock \<Rightarrow> task \<Rightarrow> u32 \<Rightarrow> KState \<Rightarrow> u32 res option \<times> KState" where
  "internalWait clk ct bits s =
     (if bits AND NOT (t_AllocatedSigs (tcb s ct)) \<noteq> 0 then (Some (Inl ILLEGALSIGNAL), s)
      else
        let bits = bits OR SIGF_ABORT;
            res = bits AND t_SigBits (tcb s ct)
        in if res = 0
           then (None, SleepTask clk ct (upd_tcb ct (\<lambda>k. k\<lparr>t_WaitBits := bits\<rparr>) s))
           else (Some (Inr res), ClearSignals ct res s))"

definition internalWait_woken :: "task \<Rightarrow> u32 \<Rightarrow> KState \<Rightarrow> u32 \<times> KState" where
  "internalWait_woken ct bits s =
     (let s = upd_tcb ct (\<lambda>k. k\<lparr>t_WaitBits := 0\<rparr>) s;
          res = bits AND t_SigBits (tcb s ct)
      in (res, ClearSignals ct res s))"

text \<open>A free bit is asked for with 0; the result is 0 where there is none.\<close>

definition internalAllocSignal :: "u32 \<Rightarrow> task \<Rightarrow> KState \<Rightarrow> u32 res \<times> KState" where
  "internalAllocSignal sig t s =
     (let cursigs = t_AllocatedSigs (tcb s t) in
      if sig \<noteq> 0 then
        if sig AND RESERVED_SIGBITS \<noteq> 0 then (Inl ILLEGALSIGNAL, s)
        else if sig AND cursigs \<noteq> 0 then (Inr 0, s)
        else (Inr sig, ClearSignals t sig (upd_tcb t (\<lambda>k. k\<lparr>t_AllocatedSigs := cursigs OR sig\<rparr>) s))
      else
        let cursigs = NOT cursigs;
            sig = NOT (cursigs AND (cursigs - 1))
        in if sint sig < 0 then (Inr 0, ClearSignals t 0 s)
           else (Inr (sig AND cursigs),
                 ClearSignals t (sig AND cursigs) (upd_tcb t (\<lambda>k. k\<lparr>t_AllocatedSigs := sig\<rparr>) s)))"

definition externalAllocSignal :: "u32 \<Rightarrow> task \<Rightarrow> KState \<Rightarrow> u32 res \<times> KState" where
  "externalAllocSignal sigs ct s = internalAllocSignal sigs ct s"

definition internalFreeSignal :: "u32 \<Rightarrow> task \<Rightarrow> KState \<Rightarrow> unit res \<times> KState" where
  "internalFreeSignal sigs t s =
     (let cursigs = t_AllocatedSigs (tcb s t) in
      if sigs AND RESERVED_SIGBITS \<noteq> 0 then (Inl ILLEGALSIGNAL, s)
      else if NOT cursigs AND sigs \<noteq> 0 then (Inl ILLEGALSIGNAL, s)
      else (Inr (), ClearSignals t sigs (upd_tcb t (\<lambda>k. k\<lparr>t_AllocatedSigs := cursigs AND NOT sigs\<rparr>) s)))"

definition externalFreeSignal :: "u32 \<Rightarrow> task \<Rightarrow> KState \<Rightarrow> unit res \<times> KState" where
  "externalFreeSignal sigs ct s = internalFreeSignal sigs ct s"

definition internalSignal :: "clock \<Rightarrow> task \<Rightarrow> u32 \<Rightarrow> KState \<Rightarrow> unit res \<times> KState" where
  "internalSignal clk t bits s =
     (if bits AND NOT (t_AllocatedSigs (tcb s t)) \<noteq> 0 then (Inl ILLEGALSIGNAL, s)
      else
        let s = SetSignals t bits s;
            res = t_SigBits (tcb s t) AND t_WaitBits (tcb s t)
        in (Inr (), if res \<noteq> 0 then NewReadyTask clk t s else s))"

definition ValidateSignal :: "bool \<Rightarrow> u32 \<Rightarrow> unit res" where
  "ValidateSignal privileged bits =
     (if bits AND ILLEGAL_SIG \<noteq> 0 then Inl ILLEGALSIGNAL
      else if bits AND SUPER_SIGS \<noteq> 0 \<and> \<not> privileged then Inl BADPRIV
      else Inr ())"

text \<open>The task item is resolved by the item table (\<open>CheckItem\<close>), here a parameter.\<close>

definition externalSignal ::
    "clock \<Rightarrow> (int \<Rightarrow> task option) \<Rightarrow> task \<Rightarrow> bool \<Rightarrow> int \<Rightarrow> u32 \<Rightarrow> KState \<Rightarrow> unit res \<times> KState" where
  "externalSignal clk CheckTask ct privileged taskItem bits s =
     (case if taskItem = 0 then Some ct else CheckTask taskItem of
        None \<Rightarrow> (Inl BADITEM, s)
      | Some t \<Rightarrow>
          (case ValidateSignal privileged bits of
             Inl e \<Rightarrow> (Inl e, s)
           | Inr _ \<Rightarrow> internalSignal clk t bits s))"

section \<open>Operations that leave the signals alone\<close>

text \<open>No signal state changes, and no task starts to wait.\<close>

definition sig_frame :: "KState \<Rightarrow> KState \<Rightarrow> bool" where
  "sig_frame s s' \<longleftrightarrow> (\<forall>u. t_SigBits (tcb s' u) = t_SigBits (tcb s u) \<and> t_WaitBits (tcb s' u) = t_WaitBits (tcb s u)
     \<and> t_AllocatedSigs (tcb s' u) = t_AllocatedSigs (tcb s u)
     \<and> (TASK_WAITING (tcb s' u) \<longrightarrow> TASK_WAITING (tcb s u)))"

lemma sig_frame_refl [simp]: "sig_frame s s"
  by (simp add: sig_frame_def)

lemma sig_frame_trans: "sig_frame s s' \<Longrightarrow> sig_frame s' s'' \<Longrightarrow> sig_frame s s''"
  by (simp add: sig_frame_def)

lemma sig_frame_eq: "tcb s' = tcb s \<Longrightarrow> sig_frame s s'"
  by (simp add: sig_frame_def)

lemma sig_frame_upd:
  "t_SigBits (f (tcb s t)) = t_SigBits (tcb s t) \<Longrightarrow> t_WaitBits (f (tcb s t)) = t_WaitBits (tcb s t)
   \<Longrightarrow> t_AllocatedSigs (f (tcb s t)) = t_AllocatedSigs (tcb s t)
   \<Longrightarrow> (TASK_WAITING (f (tcb s t)) \<Longrightarrow> TASK_WAITING (tcb s t)) \<Longrightarrow> sig_frame s (upd_tcb t f s)"
  by (simp add: sig_frame_def)

lemma sig_frame_Launch: "sig_frame s (Launch clk t s)"
  by (auto simp: sig_frame_def Launch_def Let_def split_beta split: list.split)

lemma sig_frame_LandReady: "sig_frame s (LandReady clk t s)"
  by (auto simp: sig_frame_def LandReady_def Let_def split_beta)

lemma sig_frame_switch_to: "sig_frame s (switch_to clk ct t s)"
  unfolding switch_to_def
  by (rule sig_frame_trans [OF sig_frame_LandReady [of s clk ct]], rule sig_frame_trans [OF _ sig_frame_Launch])
    (simp add: sig_frame_eq)

lemma sig_frame_ScheduleNewTask: "sig_frame s (ScheduleNewTask clk s)"
  by (cases "kb_TaskReadyQ s")
    (auto simp: ScheduleNewTask_def IdleLoop_def intro: sig_frame_eq
      intro!: sig_frame_trans [OF _ sig_frame_Launch])

lemma sig_frame_NewReadyTask: "sig_frame s (NewReadyTask clk t s)"
  by (auto simp: sig_frame_def NewReadyTask_def Let_def split_beta split: option.split)

lemma sig_frame_SwapTasks: "sig_frame s (SwapTasks clk s)"
  by (auto simp: SwapTasks_def intro: sig_frame_eq sig_frame_switch_to split: list.split option.split)

lemma sig_frame_cblank: "sig_frame s (cblank s)"
  by (auto simp: sig_frame_def cblank_def split: option.split)

lemmas sig_frames = sig_frame_Launch sig_frame_LandReady sig_frame_switch_to sig_frame_ScheduleNewTask
  sig_frame_NewReadyTask sig_frame_SwapTasks sig_frame_cblank

text \<open>A task whose waiting flag is set to have it queued again stops waiting.\<close>

lemma NewReadyTask_not_waiting: "\<not> TASK_WAITING (tcb (NewReadyTask clk t s) t)"
  by (auto simp: NewReadyTask_def Let_def split_beta split: option.split)

lemma NewReadyTask_sel:
  "TASK_SUSPENDED (tcb (NewReadyTask clk t s) u) = TASK_SUSPENDED (tcb s u)"
  "kb_CurrentTask (NewReadyTask clk t s) = kb_CurrentTask s"
  by (auto simp: NewReadyTask_def Let_def split_beta split: option.split)

lemma sig_frame_requeue:
  assumes "t_SigBits (f (tcb s t)) = t_SigBits (tcb s t)" and "t_WaitBits (f (tcb s t)) = t_WaitBits (tcb s t)"
    and "t_AllocatedSigs (f (tcb s t)) = t_AllocatedSigs (tcb s t)"
    and "tcb s' = (tcb s)(t := f (tcb s t))"
  shows "sig_frame s (NewReadyTask clk t s')"
  unfolding sig_frame_def
proof
  fix u
  show "t_SigBits (tcb (NewReadyTask clk t s') u) = t_SigBits (tcb s u)
      \<and> t_WaitBits (tcb (NewReadyTask clk t s') u) = t_WaitBits (tcb s u)
      \<and> t_AllocatedSigs (tcb (NewReadyTask clk t s') u) = t_AllocatedSigs (tcb s u)
      \<and> (TASK_WAITING (tcb (NewReadyTask clk t s') u) \<longrightarrow> TASK_WAITING (tcb s u))"
    using sig_frame_NewReadyTask [of s' clk t] NewReadyTask_not_waiting [of clk t s'] assms
    by (cases "u = t") (auto simp: sig_frame_def)
qed

lemma sig_frame_decrementer:
  "decrementer_interrupt now s = Some s' \<Longrightarrow> sig_frame s s'"
  using sig_frame_trans [OF sig_frame_eq sig_frame_cblank, of "s\<lparr>timers := ts\<rparr>" s for ts]
  by (auto simp: decrementer_interrupt_def intro: sig_frame_eq split: option.splits if_splits)

lemma sig_frame_ChangeTaskPri: "sig_frame s (snd (internalChangeTaskPri clk privileged t newpri s))"
proof -
  have requeue: "sig_frame s (NewReadyTask clk u (upd_tcb u (\<lambda>k. k\<lparr>TASK_WAITING := True\<rparr>) (s\<lparr>kb_TaskReadyQ := q\<rparr>)))" for u q and s :: KState
    by (rule sig_frame_requeue [where f = "\<lambda>k. k\<lparr>TASK_WAITING := True\<rparr>"]) simp_all
  have set: "sig_frame s (set_pri t newpri s)" for s by (rule sig_frame_upd) simp_all
  have "sig_frame s (NewReadyTask clk t (upd_tcb t (\<lambda>k. k\<lparr>TASK_WAITING := True\<rparr>) (set_pri t newpri (unready t s))))"
    by (rule sig_frame_requeue [where f = "\<lambda>k. k\<lparr>t_Priority := newpri, TASK_WAITING := True\<rparr>"]) simp_all
  then show ?thesis
    using set sig_frame_trans [OF set requeue]
    by (auto simp: internalChangeTaskPri_def Let_def split: list.split)
qed

lemma sig_frame_Suspend_Resume: "sig_frame s (SuspendTask clk t s)" "sig_frame s (ResumeTask clk t s)"
proof -
  have "sig_frame s (LandReady clk t (s\<lparr>kb_CurrentTask := None, kb_PleaseReschedule := True\<rparr>))"
    by (rule sig_frame_trans [OF sig_frame_eq sig_frame_LandReady]) simp
  then show "sig_frame s (SuspendTask clk t s)" by (auto simp: SuspendTask_def Let_def sig_frame_def)
  have "sig_frame s (NewReadyTask clk t
      (upd_tcb t (\<lambda>k. k\<lparr>TASK_WAITING := True\<rparr>) (upd_tcb t (\<lambda>k. k\<lparr>TASK_SUSPENDED := False\<rparr>) s)))"
    by (rule sig_frame_requeue [where f = "\<lambda>k. k\<lparr>TASK_SUSPENDED := False, TASK_WAITING := True\<rparr>"]) simp_all
  then show "sig_frame s (ResumeTask clk t s)" by (auto simp: ResumeTask_def Let_def intro: sig_frame_upd)
qed

text \<open>Every scheduler step but a sleep leaves the signals alone.\<close>

lemma sched_step_sig_frame:
  assumes "sched_step s s'" and "\<nexists>clk t. kb_CurrentTask s = Some t \<and> s' = SleepTask clk t s"
  shows "sig_frame s s'"
  using assms(1)
proof cases
  case (yield clk)
  have "sig_frame s (upd_tcb ct (\<lambda>k. k\<lparr>TASK_QUANTUM_EXPIRED := True\<rparr>) s)" for ct by (rule sig_frame_upd) simp_all
  from sig_frame_trans [OF this sig_frame_switch_to]
  show ?thesis unfolding yield by (auto simp: internalYield_def split: list.split option.split)
next
  case (check clk)
  have "sig_frame s (Launch clk t (unready t s))" for t
    by (rule sig_frame_trans [OF sig_frame_eq sig_frame_Launch]) simp
  then show ?thesis unfolding check
    by (auto simp: CheckForTaskSwap_def intro: sig_frame_eq sig_frame_switch_to split: list.split option.split)
next
  case (permit t clk)
  have "sig_frame s (upd_tcb t (\<lambda>k. k\<lparr>t_Forbid := t_Forbid k - 1\<rparr>) s)" by (rule sig_frame_upd) simp_all
  then show ?thesis unfolding permit
    by (auto simp: Permit_def Let_def intro: sig_frame_trans [OF _ sig_frame_SwapTasks])
qed (use assms(2) in \<open>auto simp: Forbid_def intro: sig_frames sig_frame_decrementer sig_frame_ChangeTaskPri
    sig_frame_Suspend_Resume sig_frame_upd\<close>)

section \<open>No lost wake-ups\<close>

definition sig_ok :: "KState \<Rightarrow> bool" where
  "sig_ok s \<longleftrightarrow> (\<forall>t. TASK_WAITING (tcb s t) \<longrightarrow> t_SigBits (tcb s t) AND t_WaitBits (tcb s t) = 0)"

inductive sig_step :: "KState \<Rightarrow> KState \<Rightarrow> bool" where
  sched: "sched_step s s' \<Longrightarrow> \<nexists>clk t. kb_CurrentTask s = Some t \<and> s' = SleepTask clk t s \<Longrightarrow> sig_step s s'"
| wait: "kb_CurrentTask s = Some t \<Longrightarrow> t_WaitBits (tcb s t) = 0 \<Longrightarrow> sig_step s (snd (internalWait clk t bits s))"
| woken: "kb_CurrentTask s = Some t \<Longrightarrow> t_WaitBits (tcb s t) \<noteq> 0 \<Longrightarrow>
    sig_step s (snd (internalWait_woken t (t_WaitBits (tcb s t)) s))"
| sleep: "kb_CurrentTask s = Some t \<Longrightarrow> t_WaitBits (tcb s t) = 0 \<Longrightarrow> sig_step s (SleepTask clk t s)"
| signal: "sig_step s (snd (internalSignal clk t bits s))"
| alloc: "sig_step s (snd (internalAllocSignal sig t s))"
| free: "sig_step s (snd (internalFreeSignal sigs t s))"

inductive_cases sig_stepE: "sig_step s s'"

lemma sig_ok_frame: "sig_frame s s' \<Longrightarrow> sig_ok s \<Longrightarrow> sig_ok s'"
  by (simp add: sig_frame_def sig_ok_def)

lemma sig_ok_upd:
  assumes "sig_ok s" and "TASK_WAITING (f (tcb s t)) = TASK_WAITING (tcb s t)"
    and "t_SigBits (tcb s t) AND t_WaitBits (tcb s t) = 0 \<Longrightarrow> t_SigBits (f (tcb s t)) AND t_WaitBits (f (tcb s t)) = 0"
  shows "sig_ok (upd_tcb t f s)"
  using assms by (simp add: sig_ok_def)

lemma SleepTask_sig:
  assumes "sig_ok s" and "t_SigBits (tcb s t) AND t_WaitBits (tcb s t) = 0"
  shows "sig_ok (SleepTask clk t s)"
  unfolding SleepTask_def
proof (rule sig_ok_frame [OF sig_frame_ScheduleNewTask])
  show "sig_ok (LandWaiter clk t s)"
    using assms by (auto simp: sig_ok_def LandWaiter_def Let_def split_beta)
qed

lemma same_flags_upd_ok:
  assumes "sched_ok s" and "\<And>k. same_flags (f k) k"
  shows "sched_ok (upd_tcb t f s)"
  by (rule upd_same_flags_ok(1)) (use assms in auto)

lemma Set_Clear_ok:
  assumes "sched_ok s"
  shows "sched_ok (SetSignals t bits s)" and "sched_ok (ClearSignals t bits s)"
  unfolding SetSignals_def ClearSignals_def
  by (rule same_flags_upd_ok [OF assms], simp add: same_flags_def)+

lemma and_not_0: "(a :: u32) AND b = 0 \<Longrightarrow> (a AND NOT c) AND b = 0"
  by (simp add: bit_eq_iff bit_and_iff)

lemma ClearSignals_sig: "sig_ok s \<Longrightarrow> sig_ok (ClearSignals t bits s)"
  unfolding ClearSignals_def by (rule sig_ok_upd) (simp_all add: and_not_0)

lemma internalWait_keeps:
  assumes "sched_ok s" and "sig_ok s" and "kb_CurrentTask s = Some t"
  shows "sched_ok (snd (internalWait clk t bits s)) \<and> sig_ok (snd (internalWait clk t bits s))"
proof -
  let ?b = "bits OR SIGF_ABORT"
  let ?s = "upd_tcb t (\<lambda>k. k\<lparr>t_WaitBits := ?b\<rparr>) s"
  have "\<not> TASK_WAITING (tcb s t)" using assms(1,3) by (auto simp: sched_ok_def flags_inv_def flags_ok_def)
  then have "sig_ok ?s" using assms(2) by (simp add: sig_ok_def)
  moreover have "t_SigBits (tcb ?s t) AND t_WaitBits (tcb ?s t) = 0" if "?b AND t_SigBits (tcb s t) = 0"
    using that by (simp add: and.commute)
  moreover have "sched_ok ?s" by (rule same_flags_upd_ok [OF assms(1)]) (simp add: same_flags_def)
  ultimately show ?thesis
    using assms SleepTask_ok [of ?s t clk] SleepTask_sig [of ?s t clk]
    by (auto simp: internalWait_def Let_def Set_Clear_ok ClearSignals_sig)
qed

lemma internalWait_woken_keeps:
  assumes "sched_ok s" and "sig_ok s" and "kb_CurrentTask s = Some t"
  shows "sched_ok (snd (internalWait_woken t bits s)) \<and> sig_ok (snd (internalWait_woken t bits s))"
proof -
  let ?s = "upd_tcb t (\<lambda>k. k\<lparr>t_WaitBits := 0\<rparr>) s"
  have "sig_ok ?s" using assms(2) by (simp add: sig_ok_def)
  moreover have "sched_ok ?s" by (rule same_flags_upd_ok [OF assms(1)]) (simp add: same_flags_def)
  ultimately show ?thesis by (simp add: internalWait_woken_def Let_def Set_Clear_ok ClearSignals_sig)
qed

lemma internalSignal_keeps:
  assumes "sched_ok s" and "sig_ok s"
  shows "sched_ok (snd (internalSignal clk t bits s)) \<and> sig_ok (snd (internalSignal clk t bits s))"
proof -
  let ?s = "SetSignals t bits s"
  have ok: "sched_ok ?s" by (rule Set_Clear_ok [OF assms(1)])
  have "sig_ok (if t_SigBits (tcb ?s t) AND t_WaitBits (tcb ?s t) \<noteq> 0 then NewReadyTask clk t ?s else ?s)"
  proof (cases "t_SigBits (tcb ?s t) AND t_WaitBits (tcb ?s t) = 0")
    case True
    then show ?thesis using assms(2) by (auto simp: sig_ok_def SetSignals_def)
  next
    case False
    have "TASK_WAITING (tcb (NewReadyTask clk t ?s) u) \<longrightarrow>
        t_SigBits (tcb (NewReadyTask clk t ?s) u) AND t_WaitBits (tcb (NewReadyTask clk t ?s) u) = 0" for u
      using NewReadyTask_not_waiting [of clk t ?s] sig_frame_NewReadyTask [of ?s clk t] assms(2)
      by (cases "u = t") (auto simp: sig_frame_def sig_ok_def SetSignals_def)
    then show ?thesis using False by (simp add: sig_ok_def)
  qed
  then show ?thesis using assms NewReadyTask_ok [OF ok] ok by (simp add: internalSignal_def Let_def)
qed

lemma Alloc_Free_keeps:
  assumes "sched_ok s" and "sig_ok s"
  shows "sched_ok (snd (internalAllocSignal sig t s)) \<and> sig_ok (snd (internalAllocSignal sig t s))"
    and "sched_ok (snd (internalFreeSignal sig t s)) \<and> sig_ok (snd (internalFreeSignal sig t s))"
proof -
  have "sched_ok (upd_tcb t (\<lambda>k. k\<lparr>t_AllocatedSigs := a\<rparr>) s) \<and> sig_ok (upd_tcb t (\<lambda>k. k\<lparr>t_AllocatedSigs := a\<rparr>) s)" for a
    using assms by (intro conjI same_flags_upd_ok sig_ok_upd) (simp_all add: same_flags_def)
  then show "sched_ok (snd (internalAllocSignal sig t s)) \<and> sig_ok (snd (internalAllocSignal sig t s))"
    "sched_ok (snd (internalFreeSignal sig t s)) \<and> sig_ok (snd (internalFreeSignal sig t s))"
    using assms by (auto simp: internalAllocSignal_def internalFreeSignal_def Let_def Set_Clear_ok ClearSignals_sig)
qed

lemma sig_step_keeps:
  assumes "sig_step s s'" and "sched_ok s" and "sig_ok s"
  shows "sched_ok s' \<and> sig_ok s'"
  using assms(1)
proof cases
  case sched
  then show ?thesis using assms(2,3) sched_step_ok sig_ok_frame sched_step_sig_frame by blast
next
  case (sleep t clk)
  then show ?thesis using assms(2,3) SleepTask_ok SleepTask_sig by simp
qed (use assms(2,3) internalWait_keeps internalWait_woken_keeps internalSignal_keeps Alloc_Free_keeps in blast)+

section \<open>Allocation\<close>

text \<open>The lowest set bit of a word.\<close>

lemma lowest_bit:
  assumes "(x :: u32) \<noteq> 0"
  obtains k where "k < 32" "bit x k" "\<forall>j < k. \<not> bit x j" "\<forall>j. bit (x AND (x - 1)) j \<longleftrightarrow> bit x j \<and> j \<noteq> k"
proof -
  define k where "k = (LEAST k. bit x k)"
  have "\<exists>k. bit x k" using assms by (simp add: bit_eq_iff) (auto dest: bit_imp_le_length)
  then have k: "bit x k" unfolding k_def by (rule LeastI_ex)
  have low: "\<forall>j < k. \<not> bit x j" unfolding k_def using not_less_Least by blast
  have k32: "k < 32" using bit_imp_le_length [OF k] by simp
  define y where "y = drop_bit (Suc k) x"
  have x: "x = push_bit (Suc k) y OR push_bit k 1"
  proof (rule bit_eqI)
    fix j assume "possible_bit TYPE(u32) j"
    then have "j < 32" by simp
    then show "bit x j = bit (push_bit (Suc k) y OR push_bit k 1) j"
      using k low by (cases "j < k"; cases "j = k") (auto simp: bit_simps y_def le_Suc_eq not_less simp del: push_bit_Suc)
  qed
  have disj: "push_bit (Suc k) y AND push_bit k 1 = 0"
    by (rule bit_eqI) (auto simp: bit_simps simp del: push_bit_Suc)
  have "x = push_bit (Suc k) y + push_bit k 1"
    using x disj by (simp add: disjunctive_add_eq_or)
  then have "x - 1 = push_bit (Suc k) y + (push_bit k 1 - 1)" by simp
  also have "\<dots> = push_bit (Suc k) y + mask k" by (simp only: one_mask)
  also have "\<dots> = push_bit (Suc k) y OR mask k"
  proof -
    have "push_bit (Suc k) y AND mask k = 0"
      by (rule bit_eqI) (auto simp: bit_simps simp del: push_bit_Suc)
    then show ?thesis by (simp add: disjunctive_add_eq_or)
  qed
  finally have x1: "x - 1 = push_bit (Suc k) y OR mask k" .
  have b1: "bit (push_bit (Suc k) y OR mask k) j \<longleftrightarrow> (if j < k then True else bit x j \<and> j \<noteq> k)" if "j < 32" for j
    using that k low k32 by (auto simp: bit_simps y_def le_Suc_eq not_less simp del: push_bit_Suc)
  have "bit (x AND (x - 1)) j \<longleftrightarrow> bit x j \<and> j \<noteq> k" for j
  proof (cases "j < 32")
    case True
    then show ?thesis using b1 [OF True] low unfolding x1 bit_and_iff by auto
  qed (auto simp: bit_and_iff dest: bit_imp_le_length)
  then show thesis using that k k32 low by blast
qed

lemma free_bit_alloc:
  assumes "\<not> bit a 31" and "NOT (a :: u32) AND (NOT a - 1) = y"
  shows "(\<forall>k < 31. bit a k) \<and> sint (NOT y) < 0
    \<or> (\<exists>k < 31. \<not> bit a k \<and> (\<forall>j < k. bit a j) \<and> \<not> sint (NOT y) < 0
         \<and> NOT y = a OR push_bit k 1 \<and> NOT y AND NOT a = push_bit k 1)"
proof -
  have "bit (NOT a) 31" using assms(1) by (simp add: bit_not_iff)
  then have "NOT a \<noteq> 0" by auto
  then obtain k where k: "k < 32" "bit (NOT a) k" "\<forall>j < k. \<not> bit (NOT a) j"
      "\<forall>j. bit (NOT a AND (NOT a - 1)) j \<longleftrightarrow> bit (NOT a) j \<and> j \<noteq> k"
    using lowest_bit by blast
  have ny: "bit (NOT y) j \<longleftrightarrow> bit a j \<or> j = k" if "j < 32" for j
    using k(4) [THEN spec, of j] that unfolding assms(2) by (auto simp: bit_not_iff)
  show ?thesis
  proof (cases "k = 31")
    case True
    then show ?thesis using k ny [of 31] by (auto simp: bit_not_iff sint_neg_iff)
  next
    case False
    then have k31: "k < 31" using k(1) by simp
    moreover have "\<not> sint (NOT y) < 0" using ny [of 31] False assms(1) by (simp add: sint_neg_iff)
    moreover have "NOT y = a OR push_bit k 1"
      by (rule bit_eqI) (use ny k(1) in \<open>auto simp: bit_simps\<close>)
    moreover have "NOT y AND NOT a = push_bit k 1"
      by (rule bit_eqI) (use ny k(1,2) in \<open>auto simp: bit_simps\<close>)
    ultimately show ?thesis using k(2,3) by (auto simp: bit_not_iff)
  qed
qed

section \<open>Properties\<close>

definition example_waiting :: KState where
  "example_waiting = example_kernel\<lparr>tcb := (tcb example_kernel)(5 := example_tcb\<lparr>t_WaitBits := 0x104, t_AllocatedSigs := 0x1FF\<rparr>,
     1 := (tcb example_kernel 1)\<lparr>t_AllocatedSigs := 0x1FF\<rparr>)\<rparr>"

lemma example_waiting_ok: "sched_ok example_waiting" "sig_ok example_waiting"
proof -
  show "sched_ok example_waiting"
    by (rule sched_ok_cong [OF example_kernel_ok])
      (simp_all add: example_waiting_def same_flags_def timer_inv_def example_kernel_def example_tcb_def queue_ok_def)
  show "sig_ok example_waiting"
    by (simp add: sig_ok_def example_waiting_def example_kernel_def example_tcb_def)
qed

text \<open>C16: no wake-up is lost. In every interleaving of waits, sends, allocations, sleeps and scheduler
  steps, a task that sleeps has received none of the signals it waits for, and the scheduler's
  invariant holds.\<close>

theorem no_lost_wakeup:
  assumes "sched_ok s" and "sig_ok s" and "sig_step\<^sup>*\<^sup>* s s'"
  shows "sched_ok s' \<and> (\<forall>t. TASK_WAITING (tcb s' t) \<longrightarrow> t_SigBits (tcb s' t) AND t_WaitBits (tcb s' t) = 0)"
proof -
  have "sched_ok s' \<and> sig_ok s'"
    using assms(3) by (induction rule: rtranclp_induct) (use assms(1,2) sig_step_keeps in blast)+
  then show ?thesis by (simp add: sig_ok_def)
qed

theorem no_lost_wakeup_witness:
  "t_SigBits (tcb (snd (internalWait (\<lambda>_. 3) 1 0x100 example_waiting)) 1)
     AND t_WaitBits (tcb (snd (internalWait (\<lambda>_. 3) 1 0x100 example_waiting)) 1) = 0"
proof -
  have "sig_step example_waiting (snd (internalWait (\<lambda>_. 3) 1 0x100 example_waiting))"
    by (rule sig_step.wait) (simp_all add: example_waiting_def example_kernel_def example_tcb_def)
  moreover have "TASK_WAITING (tcb (snd (internalWait (\<lambda>_. 3) 1 0x100 example_waiting)) 1)"
    by (simp add: internalWait_def Let_def SleepTask_def ScheduleNewTask_def Launch_def LandWaiter_def split_beta
        example_waiting_def example_kernel_def example_tcb_def)
  ultimately show ?thesis using no_lost_wakeup [OF example_waiting_ok r_into_rtranclp] by blast
qed

text \<open>C17: a signal wakes the task that waits for it and is delivered. Sending allocated signals of
  which one is waited for makes the sleeping task ready, on the ready queue unless it is suspended;
  when it runs again, with no signal changed meanwhile, its wait returns all the
  waited-for signals received, clears exactly these and no longer waits.\<close>

theorem signal_delivery:
  assumes "sched_ok s" and "TASK_WAITING (tcb s t)"
    and "bits AND NOT (t_AllocatedSigs (tcb s t)) = 0" and "bits AND t_WaitBits (tcb s t) \<noteq> 0"
    and "internalSignal clk t bits s = (r, s')"
    and "sig_frame s' s''" and "internalWait_woken t (t_WaitBits (tcb s t)) s'' = (received, s3)"
  shows "r = Inr () \<and> \<not> TASK_WAITING (tcb s' t) \<and> TASK_READY (tcb s' t)
    \<and> (t \<in> set (kb_TaskReadyQ s') \<longleftrightarrow> \<not> TASK_SUSPENDED (tcb s t))
    \<and> received = t_WaitBits (tcb s t) AND (t_SigBits (tcb s t) OR bits)
    \<and> bits AND t_WaitBits (tcb s t) AND received = bits AND t_WaitBits (tcb s t)
    \<and> t_SigBits (tcb s3 t) = (t_SigBits (tcb s t) OR bits) AND NOT received \<and> t_WaitBits (tcb s3 t) = 0"
proof -
  let ?s = "SetSignals t bits s"
  have "(t_SigBits (tcb s t) OR bits) AND t_WaitBits (tcb s t) \<noteq> 0"
    using assms(4) by (metis and_zero_eq or_eq_0_iff bit.conj_disj_distrib2)
  then have s': "r = Inr ()" "s' = NewReadyTask clk t ?s"
    using assms(3,5) by (auto simp: internalSignal_def Let_def SetSignals_def)
  have ok: "sched_ok s'" unfolding s'(2) by (rule NewReadyTask_ok [OF Set_Clear_ok(1) [OF assms(1)]])
  have f: "sig_frame ?s s''" using sig_frame_trans [OF sig_frame_NewReadyTask] assms(6) s'(2) by blast
  have sus: "TASK_SUSPENDED (tcb s' t) = TASK_SUSPENDED (tcb s t)"
    unfolding s'(2) by (simp add: NewReadyTask_sel SetSignals_def)
  have w: "\<not> TASK_WAITING (tcb s' t)" unfolding s'(2) by (rule NewReadyTask_not_waiting)
  have c: "kb_CurrentTask s' = kb_CurrentTask s"
    unfolding s'(2) by (simp add: NewReadyTask_sel SetSignals_def)
  have "kb_CurrentTask s \<noteq> Some t" using assms(1,2) by (auto simp: sched_ok_def flags_inv_def flags_ok_def)
  moreover have "flags_ok (kb_CurrentTask s' = Some t) (tcb s' t)" using ok by (simp add: sched_ok_def flags_inv_def)
  ultimately have "TASK_READY (tcb s' t)" using w c by (simp add: flags_ok_def)
  moreover have "t \<in> set (kb_TaskReadyQ s') \<longleftrightarrow> \<not> TASK_SUSPENDED (tcb s t)"
    using ok calculation sus by (simp add: sched_ok_def queue_inv_def)
  moreover have "t_SigBits (tcb s'' t) = t_SigBits (tcb s t) OR bits" using f by (simp add: sig_frame_def SetSignals_def)
  moreover have "bits AND w AND (w AND (b OR bits)) = bits AND w" for w b
    by (rule bit_eqI) (auto simp: bit_simps)
  ultimately show ?thesis
    using assms(7) w s'(1) by (auto simp: internalWait_woken_def Let_def ClearSignals_def)
qed

theorem signal_delivery_witness:
  "fst (internalWait_woken 5 0x104 (snd (internalSignal (\<lambda>_. 3) 5 0x100 example_waiting))) = 0x100"
proof -
  have e: "t_WaitBits (tcb example_waiting 5) = 0x104" "t_SigBits (tcb example_waiting 5) = 0"
    "t_AllocatedSigs (tcb example_waiting 5) = 0x1FF" "TASK_WAITING (tcb example_waiting 5)"
    by (simp_all add: example_waiting_def example_kernel_def example_tcb_def)
  let ?r = "internalSignal (\<lambda>_. 3) 5 0x100 example_waiting"
  let ?w = "internalWait_woken 5 0x104 (snd ?r)"
  have "fst ?w = t_WaitBits (tcb example_waiting 5) AND (t_SigBits (tcb example_waiting 5) OR 0x100)"
    using signal_delivery [OF example_waiting_ok(1) e(4), of "0x100" "\<lambda>_. 3" "fst ?r" "snd ?r" "snd ?r" "fst ?w" "snd ?w"]
    by (simp add: e)
  then show ?thesis by (simp add: e)
qed

text \<open>\<open>AllocSignal\<close> with no particular bit asked for gives the lowest free signal and never the
  sign bit, or 0, with nothing changed, exactly when the other 31 are taken; with particular bits asked for it
  refuses the reserved ones, gives 0 when one of them is taken, and otherwise all of them. The
  signals it gives are no longer free and not pending.\<close>

theorem AllocSignal_exact:
  assumes "\<not> bit (t_AllocatedSigs (tcb s t)) 31"
    and "internalAllocSignal sig t s = (r, s')"
  shows "(sig AND RESERVED_SIGBITS \<noteq> 0 \<longrightarrow> r = Inl ILLEGALSIGNAL \<and> s' = s)
    \<and> (sig \<noteq> 0 \<and> sig AND RESERVED_SIGBITS = 0 \<longrightarrow>
         r = (if sig AND t_AllocatedSigs (tcb s t) = 0 then Inr sig else Inr 0))
    \<and> (sig = 0 \<longrightarrow> (if \<forall>k < 31. bit (t_AllocatedSigs (tcb s t)) k then r = Inr 0
         else \<exists>k < 31. r = Inr (push_bit k 1) \<and> \<not> bit (t_AllocatedSigs (tcb s t)) k
           \<and> (\<forall>j < k. bit (t_AllocatedSigs (tcb s t)) j)))
    \<and> (\<forall>given. r = Inr given \<longrightarrow> given AND t_AllocatedSigs (tcb s t) = 0
         \<and> t_AllocatedSigs (tcb s' t) = t_AllocatedSigs (tcb s t) OR given
         \<and> t_SigBits (tcb s' t) = t_SigBits (tcb s t) AND NOT given)"
proof (cases "sig = 0")
  case False
  then show ?thesis
    using assms(2) by (auto simp: internalAllocSignal_def Let_def ClearSignals_def or.commute split: if_splits)
next
  case True
  let ?a = "t_AllocatedSigs (tcb s t)"
  define y where "y = NOT ?a AND (NOT ?a - 1)"
  have r: "(r, s') = (if sint (NOT y) < 0 then (Inr 0, ClearSignals t 0 s)
      else (Inr (NOT y AND NOT ?a), ClearSignals t (NOT y AND NOT ?a) (upd_tcb t (\<lambda>k. k\<lparr>t_AllocatedSigs := NOT y\<rparr>) s)))"
    unfolding assms(2) [symmetric] True internalAllocSignal_def Let_def y_def by (simp only: simp_thms if_False)
  from free_bit_alloc [OF assms(1) y_def [symmetric]]
  consider (full) "\<forall>k < 31. bit ?a k" "sint (NOT y) < 0"
    | (free) k where "k < 31" "\<not> bit ?a k" "\<forall>j < k. bit ?a j" "\<not> sint (NOT y) < 0"
        "NOT y = ?a OR push_bit k 1" "NOT y AND NOT ?a = push_bit k 1" by blast
  then show ?thesis
  proof cases
    case full
    then show ?thesis using r True by (simp add: ClearSignals_def)
  next
    case free
    have "push_bit k 1 AND ?a = 0" by (rule bit_eqI) (use free(2) in \<open>auto simp: bit_simps\<close>)
    moreover have "\<not> (\<forall>k < 31. bit ?a k)" using free(1,2) by blast
    moreover have "r = Inr (push_bit k 1)" "s' = ClearSignals t (push_bit k 1) (upd_tcb t (\<lambda>k. k\<lparr>t_AllocatedSigs := NOT y\<rparr>) s)"
      using r free(4,6) by simp_all
    ultimately show ?thesis using True free(1-3,5) by (auto simp: ClearSignals_def)
  qed
qed

theorem AllocSignal_exact_witness:
  "fst (internalAllocSignal 0 1 example_waiting) = Inr 0x200"
proof -
  let ?r = "internalAllocSignal 0 1 example_waiting"
  have a: "t_AllocatedSigs (tcb example_waiting 1) = mask 9"
    by (simp add: example_waiting_def example_kernel_def example_tcb_def mask_eq_exp_minus_1)
  have low: "bit (mask 9 :: u32) j \<longleftrightarrow> j < 9" for j by (auto simp: bit_mask_iff)
  have "\<not> bit (t_AllocatedSigs (tcb example_waiting 1)) 31" unfolding a low by simp
  from AllocSignal_exact [OF this prod.collapse [symmetric], of 0]
  have "if \<forall>k < 31. k < (9 :: nat) then fst ?r = Inr 0
      else \<exists>k < 31. fst ?r = Inr (push_bit k 1) \<and> \<not> k < 9 \<and> (\<forall>j < k. j < 9)"
    unfolding a low by blast
  moreover have "\<not> (\<forall>k < 31. k < (9 :: nat))" by (intro notI) (drule spec [of _ 9], simp)
  ultimately obtain k where k: "fst ?r = Inr (push_bit k 1)" "\<not> k < 9" "\<forall>j < k. j < 9" by auto
  then have "k = 9" by (metis linorder_neqE_nat less_irrefl)
  then show ?thesis using k(1) by (simp add: push_bit_eq_mult)
qed

end
