(* ===== verification/ItemTable.thy ===== *)
theory ItemTable
  imports Kernel
begin

text \<open>
  The table of items and the resource tables of the tasks (\<open>folios/kernel/item.c\<close>,
  \<open>AllocateSizedNode\<close> and \<open>FreeNode\<close> of \<open>memutils.c\<close>). An item number is an index of 14 bits and
  a generation of 15 bits; the entries that are not used are linked by their indices. An item
  is a word, negative where bit 31 is set. Addresses of nodes are words, 0 is the null pointer;
  \<open>n_Item\<close> is the field of that name of the node at an address.
\<close>

type_synonym item = u32

abbreviation "MIN_ITEM \<equiv> 32 :: nat"
abbreviation "MAX_ITEMS \<equiv> 16384 :: nat"
abbreviation "ITEMS_PER_BLOCK \<equiv> 512 :: nat"
abbreviation "ITEM_INDX_MASK \<equiv> 0x3fff :: u32"
abbreviation "ITEM_GEN_MASK \<equiv> 0x7fff0000 :: u32"
abbreviation "ITEM_WAS_OPENED \<equiv> 0x4000 :: u32"

section \<open>The state\<close>

text \<open>The blocks of the table are one array of \<open>kb_MaxItem\<close> entries. \<open>t_FreeSlot\<close> is \<open>t_FreeResourceTableSlot\<close>.\<close>

record ItemState =
  ie_ItemAddr :: "nat \<Rightarrow> u32"
  ie_ItemInfo :: "nat \<Rightarrow> u32"
  firstFreeIndex :: nat
  lastFreeIndex :: nat
  kb_MaxItem :: nat
  n_Item :: "u32 \<Rightarrow> item"
  kb_TaskList :: "task list"
  t_ResourceTable :: "task \<Rightarrow> item list"
  t_FreeSlot :: "task \<Rightarrow> u32"

definition index_of :: "item \<Rightarrow> nat" where
  "index_of i = unat (i AND ITEM_INDX_MASK)"

section \<open>Slots of a resource table\<close>

text \<open>\<open>alloc\<close>: whether the allocation of memory succeeds.\<close>

definition internalIncreaseResourceTable :: "bool \<Rightarrow> task \<Rightarrow> nat \<Rightarrow> ItemState \<Rightarrow> (unit res \<times> ItemState)" where
  "internalIncreaseResourceTable alloc t numSlots s =
     (if \<not> alloc then (Inl NOMEM, s)
      else
        let tab = t_ResourceTable s t; oldCount = length tab;
            new = map (\<lambda>k. of_nat (oldCount + k + 1) OR 0x80000000) [0..<numSlots];
            new = new[numSlots - 1 := t_FreeSlot s t OR 0x80000000]
        in (Inr (), s\<lparr>t_ResourceTable := (t_ResourceTable s)(t := tab @ new),
                     t_FreeSlot := (t_FreeSlot s)(t := of_nat oldCount)\<rparr>))"

text \<open>\<open>None\<close> is the result -1.\<close>

definition AllocItemSlot :: "bool \<Rightarrow> task \<Rightarrow> ItemState \<Rightarrow> (nat option \<times> ItemState)" where
  "AllocItemSlot alloc t s =
     (let (r, s) = (if sint (t_FreeSlot s t) < 0 then internalIncreaseResourceTable alloc t 4 s else (Inr (), s)) in
      case r of
        Inl _ \<Rightarrow> (None, s)
      | Inr _ \<Rightarrow>
          let i = t_FreeSlot s t; e = t_ResourceTable s t ! unat i
          in (Some (unat i),
              s\<lparr>t_FreeSlot := (t_FreeSlot s)(t := if e = 0xffffffff then 0xffffffff else e AND 0x7fffffff)\<rparr>))"

definition FreeItemSlot :: "task \<Rightarrow> nat \<Rightarrow> ItemState \<Rightarrow> ItemState" where
  "FreeItemSlot t slot s =
     s\<lparr>t_ResourceTable := (t_ResourceTable s)(t := (t_ResourceTable s t)[slot := t_FreeSlot s t OR 0x80000000]),
       t_FreeSlot := (t_FreeSlot s)(t := of_nat slot)\<rparr>"

text \<open>The first slot whose content satisfies a test.\<close>

fun find_slot :: "(item \<Rightarrow> bool) \<Rightarrow> nat \<Rightarrow> item list \<Rightarrow> nat option" where
  "find_slot test i [] = None"
| "find_slot test i (x # xs) = (if test x then Some i else find_slot test (i + 1) xs)"

definition FindItemSlot :: "task \<Rightarrow> item \<Rightarrow> ItemState \<Rightarrow> nat option" where
  "FindItemSlot t it s = (if sint it < 0 then None else find_slot (\<lambda>x. x = it) 0 (t_ResourceTable s t))"

definition FindItemSlotNoGen :: "task \<Rightarrow> item \<Rightarrow> ItemState \<Rightarrow> nat option" where
  "FindItemSlotNoGen t it s =
     (if sint it < 0 then None
      else find_slot (\<lambda>x. x AND ITEM_INDX_MASK = it AND ITEM_INDX_MASK) 0 (t_ResourceTable s t))"

definition RemoveItem :: "task option \<Rightarrow> item \<Rightarrow> ItemState \<Rightarrow> ItemState" where
  "RemoveItem t item s =
     (case t of
        None \<Rightarrow> s
      | Some t \<Rightarrow> (case FindItemSlot t item s of None \<Rightarrow> s | Some slot \<Rightarrow> FreeItemSlot t slot s))"

definition RemoveItemReferences :: "item \<Rightarrow> ItemState \<Rightarrow> ItemState" where
  "RemoveItemReferences it s =
     (let it = it AND ITEM_INDX_MASK in
      foldl (\<lambda>s t. case FindItemSlotNoGen t it s of None \<Rightarrow> s | Some slot \<Rightarrow> FreeItemSlot t slot s) s (kb_TaskList s))"

section \<open>The table of items\<close>

definition NewItemTableBlock :: "bool \<Rightarrow> ItemState \<Rightarrow> ItemState option" where
  "NewItemTableBlock alloc s =
     (if kb_MaxItem s \<ge> MAX_ITEMS then None
      else if \<not> alloc then None
      else
        let base = kb_MaxItem s; new = {base..<base + ITEMS_PER_BLOCK} in
        Some (s\<lparr>ie_ItemAddr := (\<lambda>k. if k \<in> new then 0 else ie_ItemAddr s k),
               ie_ItemInfo := (\<lambda>k. if k = base + ITEMS_PER_BLOCK - 1 then of_nat (firstFreeIndex s)
                                   else if k \<in> new then of_nat (k + 1) else ie_ItemInfo s k),
               firstFreeIndex := if base = 0 then MIN_ITEM else base,
               kb_MaxItem := base + ITEMS_PER_BLOCK,
               lastFreeIndex := if lastFreeIndex s = 0 then base + ITEMS_PER_BLOCK - 1 else lastFreeIndex s\<rparr>))"

definition InitItemTable :: "bool \<Rightarrow> bool \<Rightarrow> ItemState \<Rightarrow> ItemState" where
  "InitItemTable alloc1 alloc2 s =
     (let s = s\<lparr>kb_MaxItem := 0\<rparr>;
          s = (case NewItemTableBlock alloc1 s of None \<Rightarrow> s | Some s \<Rightarrow> s)
      in case NewItemTableBlock alloc2 s of None \<Rightarrow> s | Some s \<Rightarrow> s)"

definition GetItemEntryPtr :: "item \<Rightarrow> ItemState \<Rightarrow> nat option" where
  "GetItemEntryPtr i s = (let k = index_of i in if k \<ge> kb_MaxItem s then None else Some k)"

definition AssignItem :: "u32 \<Rightarrow> item \<Rightarrow> ItemState \<Rightarrow> (item res \<times> ItemState)" where
  "AssignItem p i s =
     (case GetItemEntryPtr i s of
        None \<Rightarrow> (Inl BADITEM, s)
      | Some k \<Rightarrow> (Inr i, s\<lparr>ie_ItemAddr := (ie_ItemAddr s)(k := p), ie_ItemInfo := (ie_ItemInfo s)(k := i)\<rparr>))"

definition GetItem :: "bool \<Rightarrow> u32 \<Rightarrow> ItemState \<Rightarrow> (item res \<times> ItemState)" where
  "GetItem alloc p s =
     (case (if firstFreeIndex s = 0 then NewItemTableBlock alloc s else Some s) of
        None \<Rightarrow> (Inl NOMEM, s)
      | Some s \<Rightarrow>
          let iix = firstFreeIndex s; i = index_of (ie_ItemInfo s iix);
              s = (if i \<ge> MIN_ITEM then s\<lparr>firstFreeIndex := i\<rparr>
                   else if i = 0 then s\<lparr>firstFreeIndex := 0, lastFreeIndex := 0\<rparr> else s);
              info = (ie_ItemInfo s iix AND ITEM_GEN_MASK) OR of_nat iix
          in (Inr info, s\<lparr>ie_ItemAddr := (ie_ItemAddr s)(iix := p), ie_ItemInfo := (ie_ItemInfo s)(iix := info)\<rparr>))"

definition FreeItem :: "item \<Rightarrow> ItemState \<Rightarrow> ItemState" where
  "FreeItem i s =
     (case GetItemEntryPtr i s of
        None \<Rightarrow> s
      | Some k \<Rightarrow>
          let a = ie_ItemAddr s k in
          if a \<noteq> 0 \<and> n_Item s a = i then
            let s = s\<lparr>ie_ItemAddr := (ie_ItemAddr s)(k := 0)\<rparr> in
            if k \<ge> MIN_ITEM then
              let s = s\<lparr>ie_ItemInfo := (ie_ItemInfo s)(k := ie_ItemInfo s k + 0x10000)\<rparr>;
                  s = (if ie_ItemInfo s k AND 0x80000000 \<noteq> 0 then RemoveItemReferences (of_nat k) s else s);
                  s = s\<lparr>ie_ItemInfo := (ie_ItemInfo s)(k := ie_ItemInfo s k AND ITEM_GEN_MASK)\<rparr>;
                  s = (if lastFreeIndex s \<noteq> 0
                       then s\<lparr>ie_ItemInfo := (ie_ItemInfo s)(lastFreeIndex s := ie_ItemInfo s (lastFreeIndex s) OR of_nat k)\<rparr>
                       else s\<lparr>firstFreeIndex := k\<rparr>)
              in s\<lparr>lastFreeIndex := k\<rparr>
            else s
          else s)"

definition LookupItem :: "item \<Rightarrow> ItemState \<Rightarrow> u32" where
  "LookupItem i s =
     (case GetItemEntryPtr i s of
        None \<Rightarrow> 0
      | Some k \<Rightarrow> if ie_ItemAddr s k \<noteq> 0 \<and> n_Item s (ie_ItemAddr s k) = i then ie_ItemAddr s k else 0)"

text \<open>Making and releasing the node at \<open>p\<close>, as far as its item is concerned (\<open>AllocateSizedNode\<close>, \<open>FreeNode\<close>).\<close>

definition AllocateNode_item :: "bool \<Rightarrow> u32 \<Rightarrow> ItemState \<Rightarrow> (item res \<times> ItemState)" where
  "AllocateNode_item alloc p s =
     (case GetItem alloc p s of
        (Inl e, s) \<Rightarrow> (Inl e, s)
      | (Inr i, s) \<Rightarrow> (Inr i, s\<lparr>n_Item := (n_Item s)(p := i)\<rparr>))"

definition FreeNode_item :: "u32 \<Rightarrow> ItemState \<Rightarrow> ItemState" where
  "FreeNode_item p s = FreeItem (n_Item s p) s"

section \<open>Item numbers\<close>

text \<open>Generation \<open>g\<close> and index \<open>j\<close> in one word.\<close>

definition item_word :: "nat \<Rightarrow> nat \<Rightarrow> u32" where
  "item_word g j = of_nat (g * 65536 + j)"

definition item_gen :: "item \<Rightarrow> nat" where
  "item_gen i = unat i div 65536"

definition info_ok :: "u32 \<Rightarrow> bool" where
  "info_ok w \<longleftrightarrow> (\<exists>g j. g < 32768 \<and> j < MAX_ITEMS \<and> w = item_word g j)"

lemma unat_item_word: "g \<le> 32768 \<Longrightarrow> j < MAX_ITEMS \<Longrightarrow> unat (item_word g j) = g * 65536 + j"
  unfolding item_word_def by (rule unat_of_nat_small) simp

lemma item_word_sel [simp]:
  assumes "g \<le> 32768" and "j < MAX_ITEMS"
  shows "index_of (item_word g j) = j" and "item_gen (item_word g j) = g"
proof -
  have "index_of (item_word g j) = unat (item_word g j) mod 2 ^ 14"
    unfolding index_of_def using unat_and_mask [of "item_word g j" 14] by (simp add: mask_eq_exp_minus_1)
  also have "\<dots> = (g * 65536 + j) mod 16384" using assms by (simp add: unat_item_word)
  also have "\<dots> = j"
  proof -
    have "g * 65536 + j = j + 16384 * (g * 4)" by simp
    then show ?thesis using assms(2) by (simp only: mod_mult_self2 mod_less)
  qed
  finally show "index_of (item_word g j) = j" .
  show "item_gen (item_word g j) = g" using assms by (simp add: item_gen_def unat_item_word)
qed

lemma item_word_generation:
  assumes "g \<le> 32768" and "j < MAX_ITEMS"
  shows "item_word g j AND ITEM_GEN_MASK = item_word (g mod 32768) 0"
proof -
  have "(ITEM_GEN_MASK :: u32) = mask 31 AND NOT (mask 16)" by (simp add: mask_eq_exp_minus_1)
  then have "unat (item_word g j AND ITEM_GEN_MASK) = unat ((item_word g j AND mask 31) AND NOT (mask 16))"
    by (simp only: and.assoc)
  also have "\<dots> = (g * 65536 + j) mod 2 ^ 31 div 2 ^ 16 * 2 ^ 16"
    unfolding unat_and_not_mask [of 16, simplified] unat_and_mask unat_item_word [OF assms] by simp
  also have "\<dots> = g mod 32768 * 65536"
  proof (cases "g = 32768")
    case True
    then show ?thesis using assms(2) by simp
  next
    case False
    then have "g * 65536 + j < 2 ^ 31" using assms by simp
    then show ?thesis using assms False by simp
  qed
  also have "\<dots> = unat (item_word (g mod 32768) 0)"
    by (subst unat_item_word) (use assms(1) mod_less_divisor [of 32768 g] in simp_all)
  finally show ?thesis by (simp only: word_unat_eq_iff)
qed

lemma item_word_or:
  assumes "g < 32768" and "j < MAX_ITEMS"
  shows "item_word g 0 OR of_nat j = item_word g j"
proof -
  have "item_word g 0 = push_bit 16 (of_nat g)" by (simp add: item_word_def push_bit_eq_mult)
  moreover have "\<not> bit (of_nat j :: u32) n" if "16 \<le> n" for n
  proof -
    have "j < 2 ^ 16" using assms(2) by simp
    then have "take_bit 16 j = j" by (simp only: take_bit_nat_eq_self)
    then show ?thesis using that by (metis bit_of_nat_iff bit_take_bit_iff not_le)
  qed
  ultimately have "item_word g 0 OR of_nat j = item_word g 0 + of_nat j"
    by (intro disjunctive_add [symmetric]) (auto simp: bit_push_bit_iff)
  then show ?thesis by (simp add: item_word_def)
qed

lemma item_word_next: "item_word g j + 0x10000 = item_word (g + 1) j"
  by (simp add: item_word_def)

lemma item_word_wraps:
  assumes "g \<le> 32768" and "j < MAX_ITEMS"
  shows "item_word g j AND 0x80000000 \<noteq> 0 \<longleftrightarrow> g = 32768"
proof -
  have "(0x80000000 :: u32) = push_bit 31 1" by simp
  then have "item_word g j AND 0x80000000 \<noteq> 0 \<longleftrightarrow> bit (item_word g j) 31"
    by (metis and_exp_eq_0_iff_not_bit push_bit_of_1)
  also have "\<dots> \<longleftrightarrow> bit (unat (item_word g j)) 31" by (simp add: bit_unsigned_iff)
  also have "\<dots> \<longleftrightarrow> odd (unat (item_word g j) div 2 ^ 31)" by (rule bit_iff_odd)
  also have "\<dots> \<longleftrightarrow> g = 32768"
  proof (cases "g = 32768")
    case False
    then have "g * 65536 + j < 2 ^ 31" using assms by simp
    then show ?thesis using assms False by (simp add: unat_item_word)
  next
    case True
    have "(32768 * 65536 + j) div 2 ^ 31 = 1" using assms(2) by (intro div_nat_eqI) simp_all
    then show ?thesis using assms True by (simp only: unat_item_word) simp
  qed
  finally show ?thesis .
qed

section \<open>The list of free entries\<close>

text \<open>The entries \<open>ks\<close>, linked by the indices in their words, from \<open>n\<close> to \<open>e\<close>.\<close>

fun lseg :: "(nat \<Rightarrow> u32) \<Rightarrow> nat list \<Rightarrow> nat \<Rightarrow> nat \<Rightarrow> bool" where
  "lseg info [] n e \<longleftrightarrow> n = e"
| "lseg info (k # ks) n e \<longleftrightarrow> n = k \<and> lseg info ks (index_of (info k)) e"

lemma lseg_append: "lseg info (ks @ ls) n e \<longleftrightarrow> (\<exists>m. lseg info ks n m \<and> lseg info ls m e)"
  by (induction ks arbitrary: n) auto

lemma lseg_frame: "(\<And>k. k \<in> set ks \<Longrightarrow> info' k = info k) \<Longrightarrow> lseg info' ks n e = lseg info ks n e"
  by (induction ks arbitrary: n) auto

lemma lseg_upto:
  assumes "a \<le> b" and "\<And>k. a \<le> k \<Longrightarrow> k < b \<Longrightarrow> index_of (info k) = k + 1"
  shows "lseg info [a..<b] a b"
  using assms by (induction rule: dec_induct) (simp_all add: lseg_append)

text \<open>What holds of the table between operations; \<open>fs\<close> are the free entries in their order.\<close>

definition live :: "ItemState \<Rightarrow> nat \<Rightarrow> bool" where
  "live s k \<longleftrightarrow> k < kb_MaxItem s \<and> ie_ItemAddr s k \<noteq> 0"

definition free_entries :: "nat list \<Rightarrow> ItemState \<Rightarrow> bool" where
  "free_entries fs s \<longleftrightarrow>
     lseg (ie_ItemInfo s) fs (firstFreeIndex s) 0 \<and> distinct fs
     \<and> (\<forall>k. k \<in> set fs \<longleftrightarrow> MIN_ITEM \<le> k \<and> k < kb_MaxItem s \<and> ie_ItemAddr s k = 0)
     \<and> lastFreeIndex s = (if fs = [] then 0 else last fs)"

definition entries_ok :: "ItemState \<Rightarrow> bool" where
  "entries_ok s \<longleftrightarrow>
     ITEMS_PER_BLOCK dvd kb_MaxItem s \<and> 0 < kb_MaxItem s \<and> kb_MaxItem s \<le> MAX_ITEMS
     \<and> (\<forall>k < kb_MaxItem s. MIN_ITEM \<le> k \<longrightarrow> info_ok (ie_ItemInfo s k))
     \<and> (\<forall>k. live s k \<longrightarrow> n_Item s (ie_ItemAddr s k) = ie_ItemInfo s k \<and> index_of (ie_ItemInfo s k) = k)
     \<and> (\<forall>k l. live s k \<and> live s l \<and> ie_ItemAddr s k = ie_ItemAddr s l \<longrightarrow> k = l)"

definition item_ok :: "ItemState \<Rightarrow> bool" where
  "item_ok s \<longleftrightarrow> entries_ok s \<and> (\<exists>fs. free_entries fs s)"

lemma free_entriesD: "free_entries fs s \<Longrightarrow> k \<in> set fs \<Longrightarrow> MIN_ITEM \<le> k \<and> k < kb_MaxItem s \<and> ie_ItemAddr s k = 0"
  by (simp add: free_entries_def)

text \<open>An address that is no item's.\<close>

definition fresh_addr :: "u32 \<Rightarrow> ItemState \<Rightarrow> bool" where
  "fresh_addr p s \<longleftrightarrow> p \<noteq> 0 \<and> (\<forall>k. live s k \<longrightarrow> ie_ItemAddr s k \<noteq> p)"

lemma LookupItem_live:
  assumes "entries_ok s"
  shows "LookupItem i s = (if live s (index_of i) \<and> ie_ItemInfo s (index_of i) = i then ie_ItemAddr s (index_of i) else 0)"
  using assms by (auto simp: LookupItem_def GetItemEntryPtr_def Let_def entries_ok_def live_def)

lemma NewItemTableBlock_sel:
  assumes "NewItemTableBlock alloc s = Some s'" and "512 \<le> kb_MaxItem s"
  shows "kb_MaxItem s' = kb_MaxItem s + 512" and "firstFreeIndex s' = kb_MaxItem s" and "kb_MaxItem s < MAX_ITEMS"
    and "live s' k = live s k" and "ie_ItemAddr s' k = (if kb_MaxItem s \<le> k \<and> k < kb_MaxItem s + 512 then 0 else ie_ItemAddr s k)"
    and "ie_ItemInfo s' k = (if k = kb_MaxItem s + 511 then of_nat (firstFreeIndex s)
       else if kb_MaxItem s \<le> k \<and> k < kb_MaxItem s + 512 then of_nat (k + 1) else ie_ItemInfo s k)"
    and "n_Item s' = n_Item s" and "lastFreeIndex s' = (if lastFreeIndex s = 0 then kb_MaxItem s + 511 else lastFreeIndex s)"
  using assms by (auto simp: NewItemTableBlock_def Let_def live_def split: if_splits)

lemma index_of_nat: "k < MAX_ITEMS \<Longrightarrow> index_of (of_nat k) = k"
  using item_word_sel(1) [of 0 k] by (simp add: item_word_def)

lemma index_of_Suc: "Suc k < MAX_ITEMS \<Longrightarrow> index_of (1 + of_nat k) = Suc k"
  using index_of_nat [of "Suc k"] by simp

lemma info_ok_nat: "k < MAX_ITEMS \<Longrightarrow> info_ok (of_nat k)"
  unfolding info_ok_def by (rule exI [of _ 0]) (auto simp: item_word_def)

lemma block_room: "entries_ok s \<Longrightarrow> kb_MaxItem s < MAX_ITEMS \<Longrightarrow> 512 \<le> kb_MaxItem s \<and> kb_MaxItem s + 512 \<le> MAX_ITEMS"
  unfolding entries_ok_def by (auto elim!: dvdE)

text \<open>A new block, when there are no free entries.\<close>

lemma NewItemTableBlock_ok:
  assumes "entries_ok s" and "free_entries [] s" and "NewItemTableBlock alloc s = Some s'"
  shows "entries_ok s'" and "free_entries [kb_MaxItem s..<kb_MaxItem s + 512] s'"
proof -
  let ?M = "kb_MaxItem s"
  have "?M < MAX_ITEMS" using assms(3) by (auto simp: NewItemTableBlock_def split: if_splits)
  note M = block_room [OF assms(1) this]
  note sel = NewItemTableBlock_sel [OF assms(3) conjunct1 [OF M]]
  have first: "firstFreeIndex s = 0" "lastFreeIndex s = 0" using assms(2) by (auto simp: free_entries_def)
  have info: "info_ok (ie_ItemInfo s' k)" if "?M \<le> k" "k < ?M + 512" for k
    using that M info_ok_nat [of 0] info_ok_nat [of "k + 1"] unfolding sel(6) first(1) by auto
  have "info_ok (ie_ItemInfo s' k)" if "k < ?M + 512" "MIN_ITEM \<le> k" for k
    using info [of k] assms(1) that unfolding entries_ok_def by (cases "?M \<le> k") (simp_all add: sel(6))
  moreover have "ie_ItemAddr s' k = ie_ItemAddr s k \<and> ie_ItemInfo s' k = ie_ItemInfo s k" if "live s k" for k
    using that by (simp add: live_def sel(5,6))
  ultimately show "entries_ok s'"
    using assms(1) M unfolding entries_ok_def sel(1,4,7) by (simp add: dvd_add) metis
  have "lseg (ie_ItemInfo s') [?M..<?M + 511] ?M (?M + 511)"
    by (rule lseg_upto) (use M in \<open>auto simp: sel(6) index_of_Suc\<close>)
  moreover have "[?M..<?M + 512] = [?M..<?M + 511] @ [?M + 511]"
    using upt_Suc_append [of ?M "?M + 511"] by (simp add: add.commute del: upt_Suc)
  ultimately have "lseg (ie_ItemInfo s') [?M..<?M + 512] ?M 0"
    by (simp only: lseg_append) (auto simp: sel(6) first index_of_def)
  then show "free_entries [?M..<?M + 512] s'"
    using assms(2) M first unfolding free_entries_def sel(1,2,8) by (auto simp: sel(5) first)
qed

section \<open>Taking and returning an entry\<close>

text \<open>The first free entry is taken: its word keeps the generation and gets its own index.\<close>

definition take_first :: "nat \<Rightarrow> u32 \<Rightarrow> ItemState \<Rightarrow> ItemState" where
  "take_first n p s =
     (let k = firstFreeIndex s; i = item_word (item_gen (ie_ItemInfo s k)) k in
      s\<lparr>ie_ItemAddr := (ie_ItemAddr s)(k := p), ie_ItemInfo := (ie_ItemInfo s)(k := i),
        n_Item := (n_Item s)(p := i), firstFreeIndex := n, lastFreeIndex := if n = 0 then 0 else lastFreeIndex s\<rparr>)"

lemma info_ok_gen: "info_ok w \<Longrightarrow> item_gen w < 32768 \<and> index_of w < MAX_ITEMS \<and> w = item_word (item_gen w) (index_of w)"
  unfolding info_ok_def by (metis item_word_sel less_imp_le)

lemma AllocateNode_item_first:
  assumes "entries_ok s" and "free_entries (k # ks) s"
  shows "AllocateNode_item alloc p s =
    (Inr (item_word (item_gen (ie_ItemInfo s k)) k), take_first (if ks = [] then 0 else hd ks) p s)"
proof -
  have F: "firstFreeIndex s = k" "lseg (ie_ItemInfo s) ks (index_of (ie_ItemInfo s k)) 0"
    "\<And>l. l \<in> set (k # ks) \<Longrightarrow> MIN_ITEM \<le> l \<and> l < kb_MaxItem s"
    using assms(2) by (simp_all add: free_entries_def)
  have k: "MIN_ITEM \<le> k" "k < MAX_ITEMS" "info_ok (ie_ItemInfo s k)"
    using F(3) [of k] assms(1) by (auto simp: entries_ok_def)
  define g where "g = item_gen (ie_ItemInfo s k)"
  have g: "g < 32768" "ie_ItemInfo s k = item_word g (index_of (ie_ItemInfo s k))" "index_of (ie_ItemInfo s k) < MAX_ITEMS"
    using info_ok_gen [OF k(3)] by (simp_all add: g_def)
  have "ie_ItemInfo s k AND ITEM_GEN_MASK = item_word g 0"
    using item_word_generation [of g "index_of (ie_ItemInfo s k)"] g by simp
  then have i: "ie_ItemInfo s k AND ITEM_GEN_MASK OR of_nat k = item_word g k"
    using item_word_or [OF g(1) k(2)] by simp
  show ?thesis
  proof (cases ks)
    case Nil
    then have "index_of (ie_ItemInfo s k) = 0" using F(2) by simp
    then show ?thesis
      using F(1) k(1) i Nil by (simp add: AllocateNode_item_def GetItem_def Let_def take_first_def g_def)
  next
    case (Cons l ls)
    then have "index_of (ie_ItemInfo s k) = l" "MIN_ITEM \<le> l" using F(2) F(3) [of l] by simp_all
    then show ?thesis
      using F(1) k(1) i Cons by (simp add: AllocateNode_item_def GetItem_def Let_def take_first_def g_def)
  qed
qed

lemma take_first_ok:
  assumes "entries_ok s" and "free_entries (k # ks) s" and "fresh_addr p s"
  defines "s' \<equiv> take_first (if ks = [] then 0 else hd ks) p s"
  shows "entries_ok s'" and "free_entries ks s'"
    and "live s' l \<longleftrightarrow> live s l \<or> l = k" and "\<not> live s k"
    and "l \<noteq> k \<Longrightarrow> ie_ItemAddr s' l = ie_ItemAddr s l \<and> ie_ItemInfo s' l = ie_ItemInfo s l"
    and "ie_ItemAddr s' k = p" and "ie_ItemInfo s' k = item_word (item_gen (ie_ItemInfo s k)) k"
proof -
  have F: "firstFreeIndex s = k" "lseg (ie_ItemInfo s) ks (index_of (ie_ItemInfo s k)) 0" "distinct (k # ks)"
    "\<And>l. l \<in> set (k # ks) \<longleftrightarrow> MIN_ITEM \<le> l \<and> l < kb_MaxItem s \<and> ie_ItemAddr s l = 0" "lastFreeIndex s = last (k # ks)"
    using assms(2) by (simp_all add: free_entries_def)
  have k: "MIN_ITEM \<le> k" "k < kb_MaxItem s" "ie_ItemAddr s k = 0" using F(4) [of k] by simp_all
  have k': "k < MAX_ITEMS" "info_ok (ie_ItemInfo s k)" using k assms(1) by (auto simp: entries_ok_def)
  define i where "i = item_word (item_gen (ie_ItemInfo s k)) k"
  have i: "info_ok i" "index_of i = k"
    using info_ok_gen [OF k'(2)] k'(1) by (auto simp: i_def info_ok_def)
  have sel: "ie_ItemAddr s' = (ie_ItemAddr s)(k := p)" "ie_ItemInfo s' = (ie_ItemInfo s)(k := i)"
    "n_Item s' = (n_Item s)(p := i)" "kb_MaxItem s' = kb_MaxItem s" "firstFreeIndex s' = (if ks = [] then 0 else hd ks)"
    "lastFreeIndex s' = (if ks = [] \<or> hd ks = 0 then 0 else lastFreeIndex s)"
    by (simp_all add: s'_def take_first_def Let_def F(1) i_def)
  have p: "p \<noteq> 0" "\<And>l. live s l \<Longrightarrow> ie_ItemAddr s l \<noteq> p" using assms(3) by (simp_all add: fresh_addr_def)
  show lv: "live s' l \<longleftrightarrow> live s l \<or> l = k" for l using p(1) k(2) by (auto simp: live_def sel)
  show "\<not> live s k" using k(3) by (simp add: live_def)
  show "l \<noteq> k \<Longrightarrow> ie_ItemAddr s' l = ie_ItemAddr s l \<and> ie_ItemInfo s' l = ie_ItemInfo s l" by (simp add: sel)
  show "ie_ItemAddr s' k = p" "ie_ItemInfo s' k = item_word (item_gen (ie_ItemInfo s k)) k" by (simp_all add: sel i_def)
  have nk: "live s l \<Longrightarrow> l \<noteq> k" for l using k(3) by (auto simp: live_def)
  have "\<forall>l < kb_MaxItem s. MIN_ITEM \<le> l \<longrightarrow> info_ok (ie_ItemInfo s' l)"
    using assms(1) i(1) by (simp add: entries_ok_def sel)
  moreover have "n_Item s' (ie_ItemAddr s' l) = ie_ItemInfo s' l \<and> index_of (ie_ItemInfo s' l) = l" if "live s' l" for l
    using that assms(1) i(2) p(2) [of l] unfolding lv by (cases "l = k") (simp_all add: entries_ok_def sel)
  moreover have "l = j" if "live s' l" "live s' j" "ie_ItemAddr s' l = ie_ItemAddr s' j" for l j
    using that assms(1) p(2) [of l] p(2) [of j] unfolding lv
    by (cases "l = k"; cases "j = k") (simp_all add: entries_ok_def sel)
  ultimately show "entries_ok s'"
    using assms(1) unfolding entries_ok_def sel(4) by blast
  have "lseg ((ie_ItemInfo s)(k := i)) ks (if ks = [] then 0 else hd ks) 0"
    using F(2,3) by (subst lseg_frame [where info = "ie_ItemInfo s"]) (auto, cases ks, auto)
  moreover have "\<forall>l. l \<in> set ks \<longleftrightarrow> MIN_ITEM \<le> l \<and> l < kb_MaxItem s \<and> ((ie_ItemAddr s)(k := p)) l = 0"
    using F(3,4) p(1) by auto
  moreover have "ks \<noteq> [] \<Longrightarrow> hd ks \<noteq> 0" using F(4) [of "hd ks"] by auto
  moreover have "(if ks = [] \<or> hd ks = 0 then 0 else lastFreeIndex s) = (if ks = [] then 0 else last ks)"
    using F(5) calculation(3) by (cases "ks = []") simp_all
  ultimately show "free_entries ks s'" using F(3) unfolding free_entries_def sel by (simp only: distinct.simps simp_thms)
qed

text \<open>Slots are no part of the table.\<close>

lemma FreeItemSlot_frame:
  "ie_ItemAddr (FreeItemSlot t k s) = ie_ItemAddr s" "ie_ItemInfo (FreeItemSlot t k s) = ie_ItemInfo s"
  "firstFreeIndex (FreeItemSlot t k s) = firstFreeIndex s" "lastFreeIndex (FreeItemSlot t k s) = lastFreeIndex s"
  "kb_MaxItem (FreeItemSlot t k s) = kb_MaxItem s" "n_Item (FreeItemSlot t k s) = n_Item s"
  by (simp_all add: FreeItemSlot_def)

lemma RemoveItemReferences_frame [simp]:
  "ie_ItemAddr (RemoveItemReferences it s) = ie_ItemAddr s" "ie_ItemInfo (RemoveItemReferences it s) = ie_ItemInfo s"
  "firstFreeIndex (RemoveItemReferences it s) = firstFreeIndex s" "lastFreeIndex (RemoveItemReferences it s) = lastFreeIndex s"
  "kb_MaxItem (RemoveItemReferences it s) = kb_MaxItem s" "n_Item (RemoveItemReferences it s) = n_Item s"
proof -
  let ?same = "\<lambda>s' s. ie_ItemAddr s' = ie_ItemAddr s \<and> ie_ItemInfo s' = ie_ItemInfo s \<and> firstFreeIndex s' = firstFreeIndex s
    \<and> lastFreeIndex s' = lastFreeIndex s \<and> kb_MaxItem s' = kb_MaxItem s \<and> n_Item s' = n_Item s"
  have "?same (foldl (\<lambda>s t. case FindItemSlotNoGen t i s of None \<Rightarrow> s | Some slot \<Rightarrow> FreeItemSlot t slot s) s ts) s" for i ts
    by (induction ts arbitrary: s) (auto simp: FreeItemSlot_frame split: option.split)
  then have "?same (RemoveItemReferences it s) s" by (simp add: RemoveItemReferences_def Let_def)
  then show "ie_ItemAddr (RemoveItemReferences it s) = ie_ItemAddr s" "ie_ItemInfo (RemoveItemReferences it s) = ie_ItemInfo s"
    "firstFreeIndex (RemoveItemReferences it s) = firstFreeIndex s" "lastFreeIndex (RemoveItemReferences it s) = lastFreeIndex s"
    "kb_MaxItem (RemoveItemReferences it s) = kb_MaxItem s" "n_Item (RemoveItemReferences it s) = n_Item s" by simp_all
qed

text \<open>The words of the entries after \<open>k\<close> has been put behind the last free entry.\<close>

definition freed_info :: "nat \<Rightarrow> ItemState \<Rightarrow> nat \<Rightarrow> u32" where
  "freed_info k s l =
     (if l = k then item_word ((item_gen (ie_ItemInfo s k) + 1) mod 32768) 0
      else if lastFreeIndex s \<noteq> 0 \<and> l = lastFreeIndex s then item_word (item_gen (ie_ItemInfo s l)) k
      else ie_ItemInfo s l)"

lemma FreeItem_sel:
  assumes "entries_ok s" and "free_entries fs s" and "live s k" and "ie_ItemInfo s k = i" and "MIN_ITEM \<le> k"
  shows "ie_ItemAddr (FreeItem i s) = (ie_ItemAddr s)(k := 0)" and "ie_ItemInfo (FreeItem i s) = freed_info k s"
    and "firstFreeIndex (FreeItem i s) = (if fs = [] then k else firstFreeIndex s)"
    and "lastFreeIndex (FreeItem i s) = k" and "kb_MaxItem (FreeItem i s) = kb_MaxItem s" and "n_Item (FreeItem i s) = n_Item s"
proof -
  have k: "k < kb_MaxItem s" "ie_ItemAddr s k \<noteq> 0" "index_of i = k" "n_Item s (ie_ItemAddr s k) = i" "info_ok i" "k < MAX_ITEMS"
    using assms by (auto simp: live_def entries_ok_def)
  define g where "g = item_gen i"
  have g: "g < 32768" "i = item_word g k" using info_ok_gen [OF k(5)] k(3) by (simp_all add: g_def)
  have next_gen: "(item_word g k + 0x10000) AND ITEM_GEN_MASK = item_word ((g + 1) mod 32768) 0"
    using item_word_generation [of "g + 1" k] g(1) k(6) by (simp add: item_word_next)
  have E: "GetItemEntryPtr i s = Some k" using k by (simp add: GetItemEntryPtr_def)
  have last_word: "ie_ItemInfo s (last fs) OR of_nat k = item_word (item_gen (ie_ItemInfo s (last fs))) k"
    and last_ne: "last fs \<noteq> k" "last fs \<noteq> 0" if "fs \<noteq> []"
  proof -
    have l: "last fs \<in> set fs" using that by simp
    then have "MIN_ITEM \<le> last fs" "last fs < kb_MaxItem s" "ie_ItemAddr s (last fs) = 0"
      using assms(2) by (auto simp: free_entries_def)
    then have ok: "info_ok (ie_ItemInfo s (last fs))" and "last fs \<noteq> k" "last fs \<noteq> 0"
      using assms(1) k(2) by (auto simp: entries_ok_def)
    then show "last fs \<noteq> k" "last fs \<noteq> 0" by simp_all
    have "lseg (ie_ItemInfo s) (butlast fs @ [last fs]) (firstFreeIndex s) 0"
      using assms(2) that by (simp add: free_entries_def)
    then have "index_of (ie_ItemInfo s (last fs)) = 0" by (auto simp: lseg_append)
    then show "ie_ItemInfo s (last fs) OR of_nat k = item_word (item_gen (ie_ItemInfo s (last fs))) k"
      using info_ok_gen [OF ok] item_word_or [OF _ k(6)] by metis
  qed
  have lf: "lastFreeIndex s = (if fs = [] then 0 else last fs)" using assms(2) by (simp add: free_entries_def)
  show "ie_ItemAddr (FreeItem i s) = (ie_ItemAddr s)(k := 0)" "kb_MaxItem (FreeItem i s) = kb_MaxItem s"
    "n_Item (FreeItem i s) = n_Item s" "lastFreeIndex (FreeItem i s) = k"
    "firstFreeIndex (FreeItem i s) = (if fs = [] then k else firstFreeIndex s)"
    using k(2,4) assms(5) E lf last_ne by (cases "fs = []"; simp add: FreeItem_def Let_def)+
  show "ie_ItemInfo (FreeItem i s) = freed_info k s"
    using k(2,4) assms(4,5) E lf last_ne last_word next_gen g item_word_sel(2) [OF less_imp_le [OF g(1)] k(6)]
    by (auto simp: FreeItem_def Let_def freed_info_def fun_eq_iff)
qed

lemma FreeItem_ok:
  assumes "entries_ok s" and "free_entries fs s" and "live s k" and "ie_ItemInfo s k = i" and "MIN_ITEM \<le> k"
  shows "entries_ok (FreeItem i s)" and "free_entries (fs @ [k]) (FreeItem i s)"
    and "live (FreeItem i s) l \<longleftrightarrow> live s l \<and> l \<noteq> k"
    and "live (FreeItem i s) l \<Longrightarrow> ie_ItemAddr (FreeItem i s) l = ie_ItemAddr s l \<and> ie_ItemInfo (FreeItem i s) l = ie_ItemInfo s l"
    and "MIN_ITEM \<le> l \<Longrightarrow> l < kb_MaxItem s \<Longrightarrow> item_gen (ie_ItemInfo (FreeItem i s) l) =
      (if l = k then (item_gen (ie_ItemInfo s l) + 1) mod 32768 else item_gen (ie_ItemInfo s l))"
proof -
  let ?s = "FreeItem i s"
  note sel = FreeItem_sel [OF assms]
  have k: "k < kb_MaxItem s" "ie_ItemAddr s k \<noteq> 0" "k < MAX_ITEMS" "kb_MaxItem s \<le> MAX_ITEMS"
    using assms(1,3) by (auto simp: live_def entries_ok_def)
  have F: "lseg (ie_ItemInfo s) fs (firstFreeIndex s) 0" "distinct fs" "lastFreeIndex s = (if fs = [] then 0 else last fs)"
    "\<And>l. l \<in> set fs \<longleftrightarrow> MIN_ITEM \<le> l \<and> l < kb_MaxItem s \<and> ie_ItemAddr s l = 0"
    using assms(2) by (simp_all add: free_entries_def)
  have lv: "live ?s l \<longleftrightarrow> live s l \<and> l \<noteq> k" for l by (simp add: live_def sel)
  then show "live ?s l \<longleftrightarrow> live s l \<and> l \<noteq> k" .
  have last_free: "lastFreeIndex s = 0 \<or> lastFreeIndex s \<in> set fs" using F(3) by simp
  have keep: "ie_ItemAddr ?s l = ie_ItemAddr s l \<and> ie_ItemInfo ?s l = ie_ItemInfo s l" if "live ?s l" for l
    using that last_free F(4) [of "lastFreeIndex s"] by (auto simp: lv sel freed_info_def live_def)
  then show "live ?s l \<Longrightarrow> ie_ItemAddr ?s l = ie_ItemAddr s l \<and> ie_ItemInfo ?s l = ie_ItemInfo s l" .
  have ok: "info_ok (ie_ItemInfo s l) \<and> item_gen (ie_ItemInfo s l) < 32768" if "MIN_ITEM \<le> l" "l < kb_MaxItem s" for l
    using that assms(1) info_ok_gen by (auto simp: entries_ok_def)
  have mod: "(g + 1) mod 32768 < (32768 :: nat)" for g by simp
  have iw: "info_ok (item_word ((g + 1) mod 32768) 0)" "g < 32768 \<Longrightarrow> info_ok (item_word g k)" for g
    using mod [of g] k(3) unfolding info_ok_def by (metis zero_less_numeral)+
  have info: "info_ok (ie_ItemInfo ?s l)" if "MIN_ITEM \<le> l" "l < kb_MaxItem s" for l
    using ok [OF that] iw by (auto simp: sel(2) freed_info_def)
  show "MIN_ITEM \<le> l \<Longrightarrow> l < kb_MaxItem s \<Longrightarrow> item_gen (ie_ItemInfo ?s l) =
      (if l = k then (item_gen (ie_ItemInfo s l) + 1) mod 32768 else item_gen (ie_ItemInfo s l))"
    using ok [of l] k(3) mod [of "item_gen (ie_ItemInfo s k)"] by (auto simp: sel(2) freed_info_def less_imp_le)
  show "entries_ok ?s"
    using assms(1) info keep unfolding entries_ok_def sel(5,6) lv by (metis lv)
  have k0: "index_of (freed_info k s k) = 0"
    using mod [of "item_gen (ie_ItemInfo s k)"] by (simp add: freed_info_def less_imp_le)
  have "lseg (freed_info k s) (fs @ [k]) (if fs = [] then k else firstFreeIndex s) 0"
  proof (cases fs rule: rev_cases)
    case (snoc ls m)
    have m: "MIN_ITEM \<le> m" "m < kb_MaxItem s" "m \<noteq> k" using F(4) [of m] k(2) snoc by auto
    have "lseg (freed_info k s) ls (firstFreeIndex s) m"
      using F(1,2) F(4) [of k] k(2) unfolding snoc
      by (subst lseg_frame [where info = "ie_ItemInfo s"]) (auto simp: lseg_append freed_info_def F(3) snoc)
    moreover have "index_of (freed_info k s m) = k"
      using m ok [of m] k(3) by (simp add: freed_info_def F(3) snoc less_imp_le)
    ultimately show ?thesis using k0 snoc by (simp add: lseg_append)
  qed (use k0 in simp)
  moreover have "\<forall>l. l \<in> set (fs @ [k]) \<longleftrightarrow> MIN_ITEM \<le> l \<and> l < kb_MaxItem s \<and> ((ie_ItemAddr s)(k := 0)) l = 0"
    using F(4) k(1) assms(5) by auto
  moreover have "distinct (fs @ [k])" using F(2) F(4) [of k] k(2) by simp
  ultimately show "free_entries (fs @ [k]) ?s" unfolding free_entries_def sel by simp
qed

section \<open>Runs\<close>

text \<open>
  What can happen to the table: a node is made at an address, an item number is freed (any
  number, valid or not), a folio takes one of the reserved numbers, and memory that belongs to no
  item is written, which may change what looks like an item number there.
\<close>

datatype item_op = Create bool u32 | Free item | Assign u32 nat | Memory u32 item

fun do_op :: "item_op \<Rightarrow> ItemState \<Rightarrow> ItemState" where
  "do_op (Create alloc p) s = snd (AllocateNode_item alloc p s)"
| "do_op (Free i) s = FreeItem i s"
| "do_op (Assign p k) s = (let s = snd (AssignItem p (of_nat k) s) in s\<lparr>n_Item := (n_Item s)(p := of_nat k)\<rparr>)"
| "do_op (Memory p w) s = s\<lparr>n_Item := (n_Item s)(p := w)\<rparr>"

fun legal :: "item_op \<Rightarrow> ItemState \<Rightarrow> bool" where
  "legal (Create alloc p) s = fresh_addr p s"
| "legal (Free i) s = True"
| "legal (Assign p k) s = (fresh_addr p s \<and> k < MIN_ITEM \<and> ie_ItemAddr s k = 0)"
| "legal (Memory p w) s = (\<forall>k. live s k \<longrightarrow> ie_ItemAddr s k \<noteq> p)"

fun legal_run :: "item_op list \<Rightarrow> ItemState \<Rightarrow> bool" where
  "legal_run [] s = True"
| "legal_run (op # ops) s = (legal op s \<and> legal_run ops (do_op op s))"

abbreviation run :: "item_op list \<Rightarrow> ItemState \<Rightarrow> ItemState" where
  "run ops s \<equiv> fold do_op ops s"

fun frees :: "nat \<Rightarrow> item_op \<Rightarrow> bool" where
  "frees k (Free i) = (index_of i = k)"
| "frees k _ = False"

lemma FreeItem_other:
  assumes "entries_ok s" and "\<not> (live s (index_of i) \<and> ie_ItemInfo s (index_of i) = i)"
  shows "FreeItem i s = s"
  using assms by (auto simp: FreeItem_def GetItemEntryPtr_def Let_def entries_ok_def live_def)

text \<open>A reserved entry is not put on the free list.\<close>

lemma FreeItem_reserved:
  assumes "live s k" and "ie_ItemInfo s k = i" and "k < MIN_ITEM" and "entries_ok s"
  shows "FreeItem i s = s\<lparr>ie_ItemAddr := (ie_ItemAddr s)(k := 0)\<rparr>"
  using assms by (auto simp: FreeItem_def GetItemEntryPtr_def Let_def entries_ok_def live_def)

lemma clear_reserved_ok:
  assumes "entries_ok s" and "free_entries fs s" and "k < MIN_ITEM"
  shows "entries_ok (s\<lparr>ie_ItemAddr := (ie_ItemAddr s)(k := 0)\<rparr>)" "free_entries fs (s\<lparr>ie_ItemAddr := (ie_ItemAddr s)(k := 0)\<rparr>)"
proof -
  have "live (s\<lparr>ie_ItemAddr := (ie_ItemAddr s)(k := 0)\<rparr>) l \<longleftrightarrow> live s l \<and> l \<noteq> k" for l by (auto simp: live_def)
  then show "entries_ok (s\<lparr>ie_ItemAddr := (ie_ItemAddr s)(k := 0)\<rparr>)" "free_entries fs (s\<lparr>ie_ItemAddr := (ie_ItemAddr s)(k := 0)\<rparr>)"
    using assms by (simp_all add: entries_ok_def free_entries_def)
qed

text \<open>Making a node, whether or not a new block is needed.\<close>

lemma AllocateNode_item_cases:
  assumes "item_ok s"
  obtains (fails) "AllocateNode_item alloc p s = (Inl NOMEM, s)" "firstFreeIndex s = 0" "NewItemTableBlock alloc s = None"
  | (takes) s1 k ks where "entries_ok s1" "free_entries (k # ks) s1" "kb_MaxItem s \<le> kb_MaxItem s1"
      "live s1 = live s" "n_Item s1 = n_Item s"
      "\<And>l. l < kb_MaxItem s \<Longrightarrow> ie_ItemAddr s1 l = ie_ItemAddr s l \<and> ie_ItemInfo s1 l = ie_ItemInfo s l"
      "AllocateNode_item alloc p s = (Inr (item_word (item_gen (ie_ItemInfo s1 k)) k), take_first (if ks = [] then 0 else hd ks) p s1)"
proof -
  from assms obtain fs where fs: "entries_ok s" "free_entries fs s" by (auto simp: item_ok_def)
  show thesis
  proof (cases fs)
    case (Cons k ks)
    show thesis by (rule takes [OF fs(1) fs(2) [unfolded Cons]]) (use AllocateNode_item_first [OF fs(1) fs(2) [unfolded Cons]] in auto)
  next
    case Nil
    then have first: "firstFreeIndex s = 0" using fs(2) by (simp add: free_entries_def)
    show thesis
    proof (cases "NewItemTableBlock alloc s")
      case None
      then show thesis using first by (intro fails) (simp_all add: AllocateNode_item_def GetItem_def)
    next
      case (Some s1)
      have M: "kb_MaxItem s < MAX_ITEMS" using Some by (auto simp: NewItemTableBlock_def split: if_splits)
      note sel = NewItemTableBlock_sel [OF Some conjunct1 [OF block_room [OF fs(1) M]]]
      note ok = NewItemTableBlock_ok [OF fs(1) fs(2) [unfolded Nil] Some]
      let ?ks = "[Suc (kb_MaxItem s)..<kb_MaxItem s + 512]"
      have blk: "[kb_MaxItem s..<kb_MaxItem s + 512] = kb_MaxItem s # ?ks" by (rule upt_conv_Cons) simp
      have "firstFreeIndex s1 \<noteq> 0" using sel(2) block_room [OF fs(1) M] by simp
      then have "AllocateNode_item alloc p s = AllocateNode_item alloc p s1"
        using first Some by (simp add: AllocateNode_item_def GetItem_def)
      with AllocateNode_item_first [OF ok(1) ok(2) [unfolded blk], of alloc p] sel show thesis
        by (intro takes [OF ok(1) ok(2) [unfolded blk]]) (auto simp: fun_eq_iff)
    qed
  qed
qed

lemma Max_item: "entries_ok s \<Longrightarrow> 512 \<le> kb_MaxItem s \<and> kb_MaxItem s \<le> MAX_ITEMS"
  unfolding entries_ok_def by (auto elim!: dvdE)

lemma entry_gen: "entries_ok s \<Longrightarrow> MIN_ITEM \<le> k \<Longrightarrow> k < kb_MaxItem s \<Longrightarrow> item_gen (ie_ItemInfo s k) < 32768"
  using info_ok_gen by (auto simp: entries_ok_def)

lemma Assign_ok:
  assumes "entries_ok s" and "free_entries fs s" and "legal (Assign p k) s"
  shows "entries_ok (do_op (Assign p k) s)" and "free_entries fs (do_op (Assign p k) s)"
    and "do_op (Assign p k) s = s\<lparr>ie_ItemAddr := (ie_ItemAddr s)(k := p), ie_ItemInfo := (ie_ItemInfo s)(k := of_nat k),
      n_Item := (n_Item s)(p := of_nat k)\<rparr>"
proof -
  have k: "k < MIN_ITEM" "ie_ItemAddr s k = 0" "p \<noteq> 0" "\<And>l. live s l \<Longrightarrow> ie_ItemAddr s l \<noteq> p"
    using assms(3) by (simp_all add: fresh_addr_def)
  have M: "k < kb_MaxItem s" "k < MAX_ITEMS" using Max_item [OF assms(1)] k(1) by simp_all
  show op: "do_op (Assign p k) s = s\<lparr>ie_ItemAddr := (ie_ItemAddr s)(k := p), ie_ItemInfo := (ie_ItemInfo s)(k := of_nat k),
      n_Item := (n_Item s)(p := of_nat k)\<rparr>" (is "_ = ?s")
    using M by (simp add: AssignItem_def GetItemEntryPtr_def index_of_nat Let_def)
  have lv: "live ?s l \<longleftrightarrow> live s l \<or> l = k" for l using k(3) M(1) by (auto simp: live_def)
  have "n_Item ?s (ie_ItemAddr ?s l) = ie_ItemInfo ?s l \<and> index_of (ie_ItemInfo ?s l) = l" if "live ?s l" for l
    using that assms(1) k(4) [of l] M(2) unfolding lv by (cases "l = k") (simp_all add: entries_ok_def index_of_nat)
  moreover have "l = j" if "live ?s l" "live ?s j" "ie_ItemAddr ?s l = ie_ItemAddr ?s j" for l j
    using that assms(1) k(4) [of l] k(4) [of j] unfolding lv by (cases "l = k"; cases "j = k") (simp_all add: entries_ok_def)
  moreover have "\<forall>l < kb_MaxItem ?s. MIN_ITEM \<le> l \<longrightarrow> info_ok (ie_ItemInfo ?s l)"
    using assms(1) k(1) by (auto simp: entries_ok_def)
  moreover have "ITEMS_PER_BLOCK dvd kb_MaxItem ?s \<and> 0 < kb_MaxItem ?s \<and> kb_MaxItem ?s \<le> MAX_ITEMS"
    using assms(1) by (simp add: entries_ok_def)
  ultimately show "entries_ok (do_op (Assign p k) s)" unfolding op entries_ok_def by blast
  have F: "lseg (ie_ItemInfo s) fs (firstFreeIndex s) 0" "\<And>l. l \<in> set fs \<Longrightarrow> MIN_ITEM \<le> l"
    using assms(2) by (auto simp: free_entries_def)
  have "lseg ((ie_ItemInfo s)(k := of_nat k)) fs (firstFreeIndex s) 0"
    using F(1) F(2) [of k] k(1) by (subst lseg_frame [where info = "ie_ItemInfo s"]) auto
  then show "free_entries fs (do_op (Assign p k) s)"
    using assms(2) k(1) unfolding op by (auto simp: free_entries_def)
qed

lemma Memory_ok:
  assumes "entries_ok s" and "free_entries fs s" and "legal (Memory p w) s"
  shows "entries_ok (do_op (Memory p w) s)" and "free_entries fs (do_op (Memory p w) s)"
proof -
  have "live (do_op (Memory p w) s) l = live s l" for l by (simp add: live_def)
  with assms show "entries_ok (do_op (Memory p w) s)" "free_entries fs (do_op (Memory p w) s)"
    by (simp_all add: entries_ok_def free_entries_def)
qed

text \<open>Every operation keeps the table well formed, and raises a generation only when it frees an item of that index.\<close>

lemma do_op_keeps:
  assumes "item_ok s" and "legal op s"
  shows "item_ok (do_op op s) \<and> kb_MaxItem s \<le> kb_MaxItem (do_op op s)
    \<and> (\<forall>k. MIN_ITEM \<le> k \<and> k < kb_MaxItem s \<longrightarrow> (\<exists>c \<le> (if frees k op then 1 else 0).
          item_gen (ie_ItemInfo (do_op op s) k) = (item_gen (ie_ItemInfo s k) + c) mod 32768))"
proof -
  from assms(1) obtain fs where ok: "entries_ok s" and fs: "free_entries fs s" by (auto simp: item_ok_def)
  show ?thesis
  proof (cases op)
    case (Create alloc p)
    show ?thesis
    proof (rule AllocateNode_item_cases [OF assms(1), of alloc p])
      assume "AllocateNode_item alloc p s = (Inl NOMEM, s)"
      then show ?thesis using assms(1) Create entry_gen [OF ok] by simp
    next
      fix s1 k ks
      assume s1: "entries_ok s1" "free_entries (k # ks) s1" "kb_MaxItem s \<le> kb_MaxItem s1" "live s1 = live s" "n_Item s1 = n_Item s"
        and keep: "\<And>l. l < kb_MaxItem s \<Longrightarrow> ie_ItemAddr s1 l = ie_ItemAddr s l \<and> ie_ItemInfo s1 l = ie_ItemInfo s l"
        and A: "AllocateNode_item alloc p s = (Inr (item_word (item_gen (ie_ItemInfo s1 k)) k), take_first (if ks = [] then 0 else hd ks) p s1)"
      have "fresh_addr p s1" using assms(2) keep s1(4) Create by (auto simp: fresh_addr_def live_def)
      note T = take_first_ok [OF s1(1,2) this]
      have k: "MIN_ITEM \<le> k" "k < kb_MaxItem s1" using s1(2) by (auto simp: free_entries_def)
      have gen: "item_gen (ie_ItemInfo (do_op op s) l) = item_gen (ie_ItemInfo s l)" if "l < kb_MaxItem s" for l
        using T(5) [of l] T(7) keep [OF that] entry_gen [OF s1(1) k] k(2) Max_item [OF s1(1)] Create A
        by (cases "l = k") (simp_all add: less_imp_le)
      have "kb_MaxItem (do_op op s) = kb_MaxItem s1" using Create A by (simp add: take_first_def Let_def)
      moreover have "item_ok (do_op op s)" using T(1,2) Create A by (auto simp: item_ok_def)
      ultimately show ?thesis using s1(3) entry_gen [OF ok] gen Create by simp
    qed
  next
    case (Free i)
    let ?k = "index_of i"
    consider "\<not> (live s ?k \<and> ie_ItemInfo s ?k = i)" | "live s ?k" "ie_ItemInfo s ?k = i" "?k < MIN_ITEM"
      | "live s ?k" "ie_ItemInfo s ?k = i" "MIN_ITEM \<le> ?k" by linarith
    then show ?thesis
    proof cases
      case 1
      then show ?thesis using FreeItem_other [OF ok] assms(1) Free entry_gen [OF ok] by auto
    next
      case 2
      have "do_op op s = s\<lparr>ie_ItemAddr := (ie_ItemAddr s)(?k := 0)\<rparr>" using FreeItem_reserved [OF 2 ok] Free by simp
      then show ?thesis using clear_reserved_ok [OF ok fs 2(3)] entry_gen [OF ok] 2(3) Free by (auto simp: item_ok_def)
    next
      case 3
      note R = FreeItem_ok [OF ok fs 3] and sel = FreeItem_sel [OF ok fs 3]
      have "\<exists>c \<le> (if frees k op then 1 else 0).
          item_gen (ie_ItemInfo (do_op op s) k) = (item_gen (ie_ItemInfo s k) + c) mod 32768"
        if "MIN_ITEM \<le> k" "k < kb_MaxItem s" for k
      proof (cases "k = ?k")
        case True
        then show ?thesis using R(5) [OF that] Free by (intro exI [of _ 1]) simp
      next
        case False
        then show ?thesis using R(5) [OF that] Free entry_gen [OF ok that] by simp
      qed
      then show ?thesis using R(1,2) sel(5) Free by (auto simp: item_ok_def)
    qed
  next
    case (Assign p k)
    note A = Assign_ok [OF ok fs assms(2) [unfolded Assign]]
    then have "item_ok (do_op op s)" unfolding Assign item_ok_def by blast
    moreover have "kb_MaxItem (do_op op s) = kb_MaxItem s" unfolding Assign A(3) by simp
    moreover have "ie_ItemInfo (do_op op s) l = ie_ItemInfo s l" if "MIN_ITEM \<le> l" for l
      unfolding Assign A(3) using assms(2) Assign that by auto
    ultimately show ?thesis using entry_gen [OF ok] by auto
  next
    case (Memory p w)
    then have "item_ok (do_op op s)" unfolding Memory item_ok_def
      using Memory_ok [OF ok fs assms(2) [unfolded Memory]] by blast
    then show ?thesis using Memory entry_gen [OF ok] by simp
  qed
qed

lemma run_keeps:
  assumes "item_ok s" and "legal_run ops s" and "MIN_ITEM \<le> k" and "k < kb_MaxItem s"
  shows "item_ok (run ops s) \<and> k < kb_MaxItem (run ops s) \<and> (\<exists>c \<le> length (filter (frees k) ops).
    item_gen (ie_ItemInfo (run ops s) k) = (item_gen (ie_ItemInfo s k) + c) mod 32768)"
  using assms
proof (induction ops arbitrary: s)
  case Nil
  then have "item_gen (ie_ItemInfo s k) < 32768" using entry_gen by (auto simp: item_ok_def)
  then show ?case using Nil by simp
next
  case (Cons op ops)
  let ?s = "do_op op s"
  have K: "item_ok ?s" "k < kb_MaxItem ?s" using do_op_keeps [of s op] Cons.prems by auto
  obtain c where c: "c \<le> (if frees k op then 1 else 0)"
    "item_gen (ie_ItemInfo ?s k) = (item_gen (ie_ItemInfo s k) + c) mod 32768"
    using do_op_keeps [of s op] Cons.prems by auto
  from Cons.IH [OF K(1) _ Cons.prems(3) K(2)] Cons.prems(2) obtain d where
    d: "item_ok (run ops ?s)" "k < kb_MaxItem (run ops ?s)" "d \<le> length (filter (frees k) ops)"
    "item_gen (ie_ItemInfo (run ops ?s) k) = (item_gen (ie_ItemInfo ?s k) + d) mod 32768" by auto
  have "item_gen (ie_ItemInfo (run ops ?s) k) = (item_gen (ie_ItemInfo s k) + (c + d)) mod 32768"
    unfolding d(4) c(2) by (simp add: mod_simps add.assoc)
  moreover have "c + d \<le> length (filter (frees k) (op # ops))" using c(1) d(3) by (auto split: if_splits)
  ultimately show ?case using d(1,2) by auto
qed

text \<open>The table after start-up.\<close>

lemma InitItemTable_ok:
  assumes "firstFreeIndex s = 0" and "lastFreeIndex s = 0"
  shows "item_ok (InitItemTable True True s)"
proof -
  note [simp del] = upt_rec_numeral
  let ?s = "InitItemTable True True s"
  have sel: "kb_MaxItem ?s = 1024" "firstFreeIndex ?s = 512" "lastFreeIndex ?s = 511"
    "ie_ItemAddr ?s k = (if k < 1024 then 0 else ie_ItemAddr s k)"
    "k < 1024 \<Longrightarrow> ie_ItemInfo ?s k = (if k = 1023 then 32 else if k = 511 then 0 else of_nat (k + 1))" for k
    using assms by (auto simp: InitItemTable_def NewItemTableBlock_def Let_def)
  have dead: "\<not> live ?s k" for k by (simp add: live_def sel(1,4))
  have "info_ok (ie_ItemInfo ?s k)" if "k < 1024" for k
    using that info_ok_nat [of "k + 1"] info_ok_nat [of 32] info_ok_nat [of 0] by (auto simp: sel(5))
  then have "entries_ok ?s" using dead by (simp add: entries_ok_def sel(1))
  moreover have "free_entries ([512..<1024] @ [32..<512]) ?s"
  proof -
    have a: "lseg (ie_ItemInfo ?s) [512..<1023] 512 1023" and b: "lseg (ie_ItemInfo ?s) [32..<511] 32 511"
      by (rule lseg_upto; auto simp: sel(5) index_of_Suc)+
    have "lseg (ie_ItemInfo ?s) ([512..<1023] @ [1023]) 512 32"
      using a index_of_nat [of 32] by (auto simp: lseg_append sel(5))
    moreover have "lseg (ie_ItemInfo ?s) ([32..<511] @ [511]) 32 0"
      using b by (auto simp: lseg_append sel(5) index_of_def)
    moreover have "[512..<1024 :: nat] = [512..<1023] @ [1023]" "[32..<512 :: nat] = [32..<511] @ [511]"
      using upt_Suc_append [of 512 1023] upt_Suc_append [of 32 511] by (simp_all del: upt_Suc)
    ultimately have "lseg (ie_ItemInfo ?s) ([512..<1024] @ [32..<512]) 512 0" by (simp only: lseg_append) blast
    moreover have "distinct ([512..<1024] @ [32..<512 :: nat])" by auto
    moreover have "last ([512..<1024] @ [32..<512 :: nat]) = 511" by (simp add: last_append)
    ultimately show ?thesis unfolding free_entries_def sel(1-4) by auto
  qed
  ultimately show ?thesis by (auto simp: item_ok_def)
qed

section \<open>Lookups\<close>

text \<open>The effect of the two operations on every lookup.\<close>

lemma AllocateNode_lookup:
  assumes "item_ok s" and "fresh_addr p s" and "AllocateNode_item alloc p s = (r, s')"
  shows "(r = Inl NOMEM \<and> s' = s \<and> firstFreeIndex s = 0 \<and> (\<not> alloc \<or> kb_MaxItem s = MAX_ITEMS))
    \<or> (\<exists>i. r = Inr i \<and> 0 \<le> sint i \<and> MIN_ITEM \<le> index_of i \<and> LookupItem i s = 0
          \<and> (\<forall>j. LookupItem j s' = (if j = i then p else LookupItem j s)))"
proof (rule AllocateNode_item_cases [OF assms(1), of alloc p])
  assume "AllocateNode_item alloc p s = (Inl NOMEM, s)" "firstFreeIndex s = 0" "NewItemTableBlock alloc s = None"
  moreover have "kb_MaxItem s \<le> MAX_ITEMS" using assms(1) Max_item by (auto simp: item_ok_def)
  ultimately show ?thesis using assms(3) by (auto simp: NewItemTableBlock_def Let_def split: if_splits)
next
  fix s1 k ks
  assume s1: "entries_ok s1" "free_entries (k # ks) s1" "live s1 = live s" "n_Item s1 = n_Item s"
    and keep: "\<And>l. l < kb_MaxItem s \<Longrightarrow> ie_ItemAddr s1 l = ie_ItemAddr s l \<and> ie_ItemInfo s1 l = ie_ItemInfo s l"
    and A: "AllocateNode_item alloc p s = (Inr (item_word (item_gen (ie_ItemInfo s1 k)) k), take_first (if ks = [] then 0 else hd ks) p s1)"
  have "fresh_addr p s1" using assms(2) keep s1(3) by (auto simp: fresh_addr_def live_def)
  note T = take_first_ok [OF s1(1,2) this]
  let ?i = "item_word (item_gen (ie_ItemInfo s1 k)) k" and ?s = "take_first (if ks = [] then 0 else hd ks) p s1"
  have k: "MIN_ITEM \<le> k" "k < kb_MaxItem s1" "k < MAX_ITEMS" "item_gen (ie_ItemInfo s1 k) < 32768"
  proof -
    show k: "MIN_ITEM \<le> k" "k < kb_MaxItem s1" using free_entriesD [OF s1(2)] by simp_all
    then show "k < MAX_ITEMS" "item_gen (ie_ItemInfo s1 k) < 32768"
      using Max_item [OF s1(1)] entry_gen [OF s1(1)] by simp_all
  qed
  then have i: "index_of ?i = k" "unat ?i < 2 ^ 31" by (simp_all add: unat_item_word less_imp_le)
  have ok: "entries_ok s" using assms(1) by (auto simp: item_ok_def)
  have kl: "\<not> live s k" using T(4) s1(3) by simp
  then have "LookupItem ?i s = 0" using i(1) by (simp add: LookupItem_live [OF ok])
  moreover have "LookupItem j ?s = (if j = ?i then p else LookupItem j s)" for j
  proof (cases "index_of j = k")
    case True
    then show ?thesis
      using T(3) [of k] T(6,7) kl by (auto simp: LookupItem_live [OF ok] LookupItem_live [OF T(1)])
  next
    case False
    have "ie_ItemAddr ?s (index_of j) = ie_ItemAddr s (index_of j) \<and> ie_ItemInfo ?s (index_of j) = ie_ItemInfo s (index_of j)"
      if "live s (index_of j)"
      using that T(5) [OF False] keep [of "index_of j"] by (simp add: live_def)
    then show ?thesis
      using T(3) [of "index_of j"] False i(1) s1(3) by (auto simp: LookupItem_live [OF ok] LookupItem_live [OF T(1)])
  qed
  moreover have "0 \<le> sint ?i" using i(2) by (simp add: sint_small)
  ultimately show ?thesis using assms(3) A i(1) k(1) by auto
qed

lemma FreeItem_lookup:
  assumes "item_ok s"
  shows "LookupItem j (FreeItem i s) = (if j = i then 0 else LookupItem j s)"
proof -
  from assms obtain fs where ok: "entries_ok s" and fs: "free_entries fs s" by (auto simp: item_ok_def)
  let ?k = "index_of i"
  consider "\<not> (live s ?k \<and> ie_ItemInfo s ?k = i)" | "live s ?k" "ie_ItemInfo s ?k = i" "?k < MIN_ITEM"
    | "live s ?k" "ie_ItemInfo s ?k = i" "MIN_ITEM \<le> ?k" by linarith
  then show ?thesis
  proof cases
    case 1
    then have "LookupItem i s = 0" by (auto simp: LookupItem_live [OF ok])
    then show ?thesis by (simp add: FreeItem_other [OF ok 1])
  next
    case 2
    then show ?thesis
      unfolding FreeItem_reserved [OF 2 ok] LookupItem_live [OF clear_reserved_ok(1) [OF ok fs 2(3)]] LookupItem_live [OF ok]
      by (cases "j = i"; cases "index_of j = index_of i") (simp_all add: live_def)
  next
    case 3
    note R = FreeItem_ok [OF ok fs 3]
    show ?thesis
      using R(3) [of "index_of j"] R(4) [of "index_of j"] 3
      by (cases "j = i"; cases "index_of j = index_of i") (auto simp: LookupItem_live [OF ok] LookupItem_live [OF R(1)])
  qed
qed

section \<open>Properties\<close>

text \<open>C31: the table of items in every run after start-up. A node gets a number that no node had, is found
  under it from then on, and no other number changes its meaning; the only failure is
  that the table is full or cannot grow. Freeing a number makes that number, and no other, invalid.\<close>

theorem item_table_exact:
  assumes "firstFreeIndex s0 = 0" and "lastFreeIndex s0 = 0"
    and "legal_run ops (InitItemTable True True s0)" and "s = run ops (InitItemTable True True s0)"
    and "fresh_addr p s" and "AllocateNode_item alloc p s = (r, s')"
  shows "item_ok s
    \<and> ((r = Inl NOMEM \<and> s' = s \<and> firstFreeIndex s = 0 \<and> (\<not> alloc \<or> kb_MaxItem s = MAX_ITEMS))
      \<or> (\<exists>i. r = Inr i \<and> 0 \<le> sint i \<and> MIN_ITEM \<le> index_of i \<and> LookupItem i s = 0
            \<and> (\<forall>j. LookupItem j s' = (if j = i then p else LookupItem j s))))
    \<and> LookupItem j (FreeItem i s) = (if j = i then 0 else LookupItem j s)"
proof -
  have ok0: "item_ok (InitItemTable True True s0)" by (rule InitItemTable_ok [OF assms(1,2)])
  then have "32 < kb_MaxItem (InitItemTable True True s0)" using Max_item by (fastforce simp: item_ok_def)
  then have "item_ok s" using run_keeps [OF ok0 assms(3), of 32] assms(4) by simp
  with AllocateNode_lookup [OF this assms(5,6)] FreeItem_lookup [OF this] show ?thesis by blast
qed

definition no_items :: ItemState where
  "no_items = \<lparr>ie_ItemAddr = (\<lambda>_. 0), ie_ItemInfo = (\<lambda>_. 0), firstFreeIndex = 0, lastFreeIndex = 0, kb_MaxItem = 0,
     n_Item = (\<lambda>_. 0), kb_TaskList = [], t_ResourceTable = (\<lambda>_. []), t_FreeSlot = (\<lambda>_. 0xffffffff)\<rparr>"

lemma start_sel: "firstFreeIndex (InitItemTable True True no_items) = 512" "ie_ItemAddr (InitItemTable True True no_items) k = 0"
  by (auto simp: InitItemTable_def NewItemTableBlock_def Let_def no_items_def)

theorem item_table_exact_witness:
  "\<exists>i s'. AllocateNode_item True 0x1000 (run [Memory 0x3000 7] (InitItemTable True True no_items)) = (Inr i, s')
     \<and> LookupItem i s' = 0x1000 \<and> LookupItem i (FreeItem i s') = 0"
proof -
  let ?s = "run [Memory 0x3000 7] (InitItemTable True True no_items)"
  obtain r s' where A: "AllocateNode_item True 0x1000 ?s = (r, s')" by fastforce
  have f: "fresh_addr 0x1000 ?s" "legal_run [Memory 0x3000 7] (InitItemTable True True no_items)" "firstFreeIndex ?s \<noteq> 0"
    by (simp_all add: fresh_addr_def live_def start_sel)
  have z: "firstFreeIndex no_items = 0" "lastFreeIndex no_items = 0" by (simp_all add: no_items_def)
  from item_table_exact [where j = 0 and i = 0, OF z f(2) refl f(1) A] f(3) obtain i where
    i: "r = Inr i" "item_ok ?s" "\<forall>j. LookupItem j s' = (if j = i then 0x1000 else LookupItem j ?s)" by blast
  have "item_ok s'" using do_op_keeps [OF i(2), of "Create True 0x1000"] f(1) A by simp
  then have "LookupItem i (FreeItem i s') = 0" by (simp add: FreeItem_lookup)
  then show ?thesis using A i by auto
qed

text \<open>C32: a number that has been freed stays invalid. Whatever nodes are made and freed
  afterwards, and whatever is written to memory that belongs to no item, it names no node until
  its entry has been freed \<open>2 ^ 15 - 1\<close> more times.\<close>

theorem stale_items_refused:
  assumes "item_ok s" and "LookupItem i s \<noteq> 0" and "MIN_ITEM \<le> index_of i"
    and "legal_run ops (FreeItem i s)" and "length (filter (frees (index_of i)) ops) < 32767"
  shows "LookupItem i (run ops (FreeItem i s)) = 0"
proof -
  let ?k = "index_of i" and ?s = "FreeItem i s"
  from assms(1) obtain fs where ok: "entries_ok s" and fs: "free_entries fs s" by (auto simp: item_ok_def)
  have k: "live s ?k" "ie_ItemInfo s ?k = i" using assms(2) by (auto simp: LookupItem_live [OF ok] split: if_splits)
  then have M: "?k < kb_MaxItem s" by (simp add: live_def)
  note R = FreeItem_ok [OF ok fs k assms(3)]
  define g where "g = item_gen i"
  have g: "g < 32768" using entry_gen [OF ok assms(3) M] k(2) by (simp add: g_def)
  have g1: "item_gen (ie_ItemInfo ?s ?k) = (g + 1) mod 32768" using R(5) [OF assms(3) M] k(2) by (simp add: g_def)
  have "item_ok ?s" using R(1,2) by (auto simp: item_ok_def)
  from run_keeps [OF this assms(4,3)] FreeItem_sel(5) [OF ok fs k assms(3)] M
  obtain c where c: "item_ok (run ops ?s)" "c \<le> length (filter (frees ?k) ops)"
    "item_gen (ie_ItemInfo (run ops ?s) ?k) = (item_gen (ie_ItemInfo ?s ?k) + c) mod 32768" by auto
  have c2: "c < 32767" using c(2) assms(5) by (rule le_less_trans)
  have "item_gen (ie_ItemInfo (run ops ?s) ?k) = (g + 1 + c) mod 32768" unfolding c(3) g1 by (simp add: mod_simps)
  moreover have "(g + 1 + c) mod 32768 \<noteq> g"
  proof (cases "g + 1 + c < 32768")
    case False
    then have "(g + 1 + c) mod 32768 = g + 1 + c - 32768" using g c2 by (simp add: mod_if)
    then show ?thesis using c2 False by simp
  qed simp
  ultimately have "ie_ItemInfo (run ops ?s) ?k \<noteq> i" by (auto simp: g_def)
  then show ?thesis using c(1) by (auto simp: item_ok_def LookupItem_live)
qed

theorem stale_items_refused_witness:
  "\<exists>i s. LookupItem i s = 0x1000 \<and> LookupItem i (run [Free i, Free (i + 1)] (FreeItem i s)) = 0"
proof -
  let ?s = "InitItemTable True True no_items"
  have ok: "item_ok ?s" by (rule InitItemTable_ok) (simp_all add: no_items_def)
  obtain r s' where A: "AllocateNode_item True 0x1000 ?s = (r, s')" by fastforce
  have f: "fresh_addr 0x1000 ?s" "firstFreeIndex ?s \<noteq> 0" by (simp_all add: fresh_addr_def live_def start_sel)
  from AllocateNode_lookup [OF ok f(1) A] f(2) obtain i where
    "\<forall>j. LookupItem j s' = (if j = i then 0x1000 else LookupItem j ?s)" and i2: "MIN_ITEM \<le> index_of i" by blast
  then have i: "LookupItem i s' = 0x1000" "MIN_ITEM \<le> index_of i" by simp_all
  have s': "item_ok s'" using do_op_keeps [OF ok, of "Create True 0x1000"] f(1) A by simp
  have "LookupItem i (run [Free i, Free (i + 1)] (FreeItem i s')) = 0"
    by (rule stale_items_refused [OF s' _ i(2)]) (use i(1) in simp_all)
  then show ?thesis using i(1) by blast
qed

text \<open>A state for the last property, and two allocations of a slot in a row.\<close>

definition wrap_state :: ItemState where
  "wrap_state = no_items\<lparr>ie_ItemAddr := (\<lambda>k. if k = 33 then 0x1000 else 0),
     ie_ItemInfo := (\<lambda>k. if k = 33 then 0x7fff0021 else 0), kb_MaxItem := 1024,
     n_Item := (\<lambda>p. if p = 0x1000 then 0x7fff0021 else 0), kb_TaskList := [7],
     t_ResourceTable := (\<lambda>t. (map (\<lambda>k. of_nat (64 + k)) [0..<40])[5 := 0x80000021, 33 := 0xffffffff]),
     t_FreeSlot := (\<lambda>t. 5)\<rparr>"

definition alloc_two :: "ItemState \<Rightarrow> nat option \<times> nat option" where
  "alloc_two s = (let (a, s) = AllocItemSlot True 7 s; (b, s) = AllocItemSlot True 7 s in (a, b))"


end
