(* ===== verification/Ports.thy ===== *)
theory Ports
  imports Signals
begin

text \<open>
  Messages and message ports (\<open>folios/kernel/ports.c\<close>) on top of the scheduler and the signals.
  Items are integers; \<open>CheckItem\<close> of a message or a port is membership in the set of existing ones,
  a task is found by its item with a parameter. A list of messages is the list of their items, and
  \<open>REMOVENODE\<close> takes a message out of whatever list holds it. \<open>WaitPort\<close> is split where the task
  sleeps. The logging calls are empty, interrupts are disabled as the steps are atomic. The owner of
  a port is a task that exists; where it does not, the source follows a null pointer and the model
  answers \<open>BADITEM\<close>.
\<close>

record Message =
  msg_Owner :: int
  msg_Priority :: u8
  MESSAGE_SENT :: bool
  MESSAGE_REPLIED :: bool
  MESSAGE_SMALL :: bool
  MESSAGE_PASS_BY_VALUE :: bool
  msg_ReplyPort :: int
  msg_Result :: int
  msg_DataPtr :: u32
  msg_DataSize :: u32
  msg_Holder :: int
  msg_DataPtrSize :: u32
  msg_UserData :: u32

record MsgPort =
  mp_Owner :: int
  mp_Priority :: u8
  mp_Deleted :: bool
  MSGPORT_SIGNAL_ALLOCATED :: bool
  mp_Signal :: u32
  mp_Msgs :: "int list"
  mp_UserData :: u32

record PortState =
  ks :: KState
  msg_items :: "int set"
  port_items :: "int set"
  messages :: "int \<Rightarrow> Message"
  msgports :: "int \<Rightarrow> MsgPort"
  t_MessagesHeld :: "task \<Rightarrow> int list"
  t_WaitItem :: "task \<Rightarrow> wait_item"
  kb_MsgPorts :: "int list"
  kb_AllTasks :: "task list"
  bytes :: "u32 \<Rightarrow> u8"

text \<open>
  The clock, the items of tasks, families and privileges of tasks, the check of readable memory, and
  whether the resource table of the receiving task has room.
\<close>

record PortEnv =
  pe_clock :: clock
  TaskItem :: "task \<Rightarrow> int"
  LookupTask :: "int \<Rightarrow> task option"
  SameTaskFamily :: "task \<Rightarrow> task \<Rightarrow> bool"
  PrivTask :: "task \<Rightarrow> bool"
  MemReadable :: "u32 \<Rightarrow> u32 \<Rightarrow> bool"
  slot_free :: bool

definition upd_msg :: "int \<Rightarrow> (Message \<Rightarrow> Message) \<Rightarrow> PortState \<Rightarrow> PortState" where
  "upd_msg m f s = s\<lparr>messages := (messages s)(m := f (messages s m))\<rparr>"

definition upd_port :: "int \<Rightarrow> (MsgPort \<Rightarrow> MsgPort) \<Rightarrow> PortState \<Rightarrow> PortState" where
  "upd_port p f s = s\<lparr>msgports := (msgports s)(p := f (msgports s p))\<rparr>"

definition unlink_msg :: "int \<Rightarrow> PortState \<Rightarrow> PortState" where
  "unlink_msg m s = s\<lparr>msgports := (\<lambda>p. (msgports s p)\<lparr>mp_Msgs := remove1 m (mp_Msgs (msgports s p))\<rparr>),
                     t_MessagesHeld := (\<lambda>t. remove1 m (t_MessagesHeld s t))\<rparr>"

text \<open>\<open>ADDTAIL\<close> to the messages a task holds, and \<open>InsertNodeFromTail\<close> into the queue of a port.\<close>

definition hold_msg :: "PortEnv \<Rightarrow> task \<Rightarrow> int \<Rightarrow> PortState \<Rightarrow> PortState" where
  "hold_msg env t m s =
     upd_msg m (\<lambda>k. k\<lparr>msg_Holder := TaskItem env t\<rparr>)
       (s\<lparr>t_MessagesHeld := (t_MessagesHeld s)(t := t_MessagesHeld s t @ [m])\<rparr>)"

definition enqueue :: "int \<Rightarrow> int list \<Rightarrow> PortState \<Rightarrow> int list" where
  "enqueue m q s = rev (insert_at (\<lambda>x. msg_Priority (messages s m) \<le> msg_Priority (messages s x)) m (rev q))"

definition queue_msg :: "int \<Rightarrow> int \<Rightarrow> bool \<Rightarrow> PortState \<Rightarrow> PortState" where
  "queue_msg p m reply s =
     (let s = upd_msg m (\<lambda>k. (if reply then k\<lparr>MESSAGE_REPLIED := True\<rparr> else k\<lparr>MESSAGE_SENT := True\<rparr>)\<lparr>msg_Holder := p\<rparr>) s
      in upd_port p (\<lambda>k. k\<lparr>mp_Msgs := enqueue m (mp_Msgs k) s\<rparr>) s)"

section \<open>Ownership of messages\<close>

definition internalSetMsgOwner :: "PortEnv \<Rightarrow> task \<Rightarrow> int \<Rightarrow> task \<Rightarrow> PortState \<Rightarrow> unit res \<times> PortState" where
  "internalSetMsgOwner env ct m new s =
     (if msg_Holder (messages s m) \<noteq> TaskItem env ct then (Inl ER_Kr_MsgSent, s)
      else (Inr (), hold_msg env new m (unlink_msg m s)))"

text \<open>\<open>SetItemOwner\<close> of \<open>item.c\<close> for a message.\<close>

definition externalSetItemOwner :: "PortEnv \<Rightarrow> task \<Rightarrow> int \<Rightarrow> int \<Rightarrow> PortState \<Rightarrow> unit res \<times> PortState" where
  "externalSetItemOwner env ct m newOwner s =
     (case LookupTask env newOwner of
        None \<Rightarrow> (Inl BADITEM, s)
      | Some new \<Rightarrow>
          if \<not> (TaskItem env ct = msg_Owner (messages s m) \<or> PrivTask env ct) then (Inl BADPRIV, s)
          else if \<not> slot_free env then (Inl ER_Kr_RsrcTblOvrFlw, s)
          else case internalSetMsgOwner env ct m new s of
            (Inl e, s) \<Rightarrow> (Inl e, s)
          | (Inr _, s) \<Rightarrow> (Inr (), upd_msg m (\<lambda>k. k\<lparr>msg_Owner := newOwner\<rparr>) s))"

section \<open>Delivery\<close>

definition memcpy :: "u32 \<Rightarrow> u32 \<Rightarrow> u32 \<Rightarrow> (u32 \<Rightarrow> u8) \<Rightarrow> u32 \<Rightarrow> u8" where
  "memcpy dst src n b = (\<lambda>a. if a - dst < n then b (src + (a - dst)) else b a)"

definition put_data :: "int \<Rightarrow> u32 \<Rightarrow> u32 \<Rightarrow> PortState \<Rightarrow> PortState" where
  "put_data m dataptr datasize s =
     (let s = upd_msg m (\<lambda>k. k\<lparr>msg_DataSize := datasize\<rparr>) s; k = messages s m
      in if MESSAGE_PASS_BY_VALUE k
         then s\<lparr>bytes := memcpy (msg_DataPtr k) dataptr datasize (bytes s)\<rparr>
         else upd_msg m (\<lambda>k. k\<lparr>msg_DataPtr := dataptr\<rparr>) s)"

definition ready_task :: "PortEnv \<Rightarrow> task \<Rightarrow> PortState \<Rightarrow> PortState" where
  "ready_task env t s = s\<lparr>ks := NewReadyTask (pe_clock env) t (ks s)\<rparr>"

text \<open>The task \<open>t\<close> owns the port; the message is linked nowhere.\<close>

definition hand_over :: "PortEnv \<Rightarrow> task \<Rightarrow> int \<Rightarrow> int \<Rightarrow> bool \<Rightarrow> PortState \<Rightarrow> unit res \<times> PortState" where
  "hand_over env t p m reply s =
     (let wait = t_WaitItem s t in
      if wait = WaitItem p \<and> p \<ge> 0
      then (Inr (), ready_task env t (hold_msg env t m (s\<lparr>t_WaitItem := (t_WaitItem s)(t := WaitItem m)\<rparr>)))
      else if wait = WaitItem m \<and> m \<ge> 0
      then (Inr (), ready_task env t (hold_msg env t m s))
      else
        let s = queue_msg p m reply s;
            (r, k) = internalSignal (pe_clock env) t (mp_Signal (msgports s p)) (ks s)
        in (r, s\<lparr>ks := k\<rparr>))"

definition internalDeliverMsg ::
  "PortEnv \<Rightarrow> task \<Rightarrow> int \<Rightarrow> int \<Rightarrow> u32 \<Rightarrow> u32 \<Rightarrow> bool \<Rightarrow> bool \<Rightarrow> PortState \<Rightarrow> unit res \<times> PortState" where
  "internalDeliverMsg env ct p m dataptr datasize reply superDuperPrivilege s =
     (if mp_Deleted (msgports s p) then (Inl BADITEM, s)
      else
        let (r, s) = (if msg_ReplyPort (messages s m) = 0
                      then externalSetItemOwner env ct m (mp_Owner (msgports s p)) s else (Inr (), s))
        in case (r, superDuperPrivilege) of
             (Inl e, False) \<Rightarrow> (Inl e, s)
           | _ \<Rightarrow>
               (case LookupTask env (mp_Owner (msgports s p)) of
                  None \<Rightarrow> (Inl BADITEM, s)
                | Some t \<Rightarrow>
                    if MESSAGE_SENT (messages s m) \<or> MESSAGE_REPLIED (messages s m) then (Inl ER_Kr_MsgSent, s)
                    else
                      let (r, s) = hand_over env t p m reply (unlink_msg m s)
                      in (r, put_data m dataptr datasize s)))"

definition internalSendMsg :: "PortEnv \<Rightarrow> task \<Rightarrow> int \<Rightarrow> int \<Rightarrow> u32 \<Rightarrow> u32 \<Rightarrow> PortState \<Rightarrow> unit res \<times> PortState" where
  "internalSendMsg env ct p m dataptr datasize s = internalDeliverMsg env ct p m dataptr datasize False False s"

definition superinternalSendMsg :: "PortEnv \<Rightarrow> task \<Rightarrow> int \<Rightarrow> int \<Rightarrow> u32 \<Rightarrow> u32 \<Rightarrow> PortState \<Rightarrow> unit res \<times> PortState" where
  "superinternalSendMsg env ct p m dataptr datasize s = internalDeliverMsg env ct p m dataptr datasize False True s"

text \<open>The checks that \<open>SendMsg\<close> and \<open>ReplyMsg\<close> share: the data, and who holds the message.\<close>

definition check_data :: "PortEnv \<Rightarrow> Message \<Rightarrow> u32 \<Rightarrow> u32 \<Rightarrow> unit res" where
  "check_data env k dataptr datasize =
     (if MESSAGE_PASS_BY_VALUE k then
        if datasize > msg_DataPtrSize k then Inl BADSIZE
        else if \<not> MemReadable env dataptr datasize then Inl BADPTR else Inr ()
      else if \<not> MESSAGE_SMALL k then
        if \<not> MemReadable env dataptr datasize then Inl BADPTR else Inr ()
      else Inr ())"

definition check_holder :: "PortEnv \<Rightarrow> task \<Rightarrow> Message \<Rightarrow> unit res" where
  "check_holder env ct k =
     (if msg_Holder k \<noteq> TaskItem env ct then
        (case LookupTask env (msg_Holder k) of
           None \<Rightarrow> Inl ER_Kr_MsgSent
         | Some task \<Rightarrow> if \<not> SameTaskFamily env task ct then Inl NOTOWNER else Inr ())
      else Inr ())"

definition externalSendMsg :: "PortEnv \<Rightarrow> task \<Rightarrow> int \<Rightarrow> int \<Rightarrow> u32 \<Rightarrow> u32 \<Rightarrow> PortState \<Rightarrow> unit res \<times> PortState" where
  "externalSendMsg env ct p m dataptr datasize s =
     (if p \<notin> port_items s then (Inl BADITEM, s)
      else if m \<notin> msg_items s then (Inl BADITEM, s)
      else case check_data env (messages s m) dataptr datasize of
        Inl e \<Rightarrow> (Inl e, s)
      | Inr _ \<Rightarrow>
          (case check_holder env ct (messages s m) of
             Inl e \<Rightarrow> (Inl e, s)
           | Inr _ \<Rightarrow>
               internalDeliverMsg env ct p m dataptr datasize False False (upd_msg m (\<lambda>k. k\<lparr>msg_Result := 0\<rparr>) s)))"

definition internalReplyMsg :: "PortEnv \<Rightarrow> task \<Rightarrow> int \<Rightarrow> int \<Rightarrow> u32 \<Rightarrow> u32 \<Rightarrow> PortState \<Rightarrow> unit res \<times> PortState" where
  "internalReplyMsg env ct m result dataptr datasize s =
     (let p = msg_ReplyPort (messages s m) in
      if p \<notin> port_items s then (Inl ER_Kr_NoReplyPort, s)
      else internalDeliverMsg env ct p m dataptr datasize True False (upd_msg m (\<lambda>k. k\<lparr>msg_Result := result\<rparr>) s))"

definition externalReplyMsg :: "PortEnv \<Rightarrow> task \<Rightarrow> int \<Rightarrow> int \<Rightarrow> u32 \<Rightarrow> u32 \<Rightarrow> PortState \<Rightarrow> unit res \<times> PortState" where
  "externalReplyMsg env ct m result dataptr datasize s =
     (if m \<notin> msg_items s then (Inl BADITEM, s)
      else if msg_ReplyPort (messages s m) = 0 then (Inl ER_Kr_ReplyPortNeeded, s)
      else case check_data env (messages s m) dataptr datasize of
        Inl e \<Rightarrow> (Inl e, s)
      | Inr _ \<Rightarrow>
          (case check_holder env ct (messages s m) of
             Inl e \<Rightarrow> (Inl e, s)
           | Inr _ \<Rightarrow> internalReplyMsg env ct m result dataptr datasize s))"

section \<open>Receiving\<close>

definition got :: "PortEnv \<Rightarrow> task \<Rightarrow> int \<Rightarrow> PortState \<Rightarrow> PortState" where
  "got env ct m s =
     hold_msg env ct m (upd_msg m (\<lambda>k. k\<lparr>MESSAGE_SENT := False, MESSAGE_REPLIED := False\<rparr>) (unlink_msg m s))"

text \<open>A result is the item of the message; 0 stands for no message.\<close>

definition internalGetThisMsg :: "PortEnv \<Rightarrow> task \<Rightarrow> int \<Rightarrow> PortState \<Rightarrow> int res \<times> PortState" where
  "internalGetThisMsg env ct m s =
     (let p = msg_Holder (messages s m) in
      if p \<in> port_items s then
        if TaskItem env ct = msg_Owner (messages s m) \<or> TaskItem env ct = mp_Owner (msgports s p)
          \<or> (case LookupTask env (msg_Owner (messages s m)) of None \<Rightarrow> False | Some w \<Rightarrow> SameTaskFamily env ct w)
          \<or> (case LookupTask env (mp_Owner (msgports s p)) of None \<Rightarrow> False | Some w \<Rightarrow> SameTaskFamily env ct w)
        then (Inr m, got env ct m s)
        else (Inl NOTOWNER, s)
      else (Inl ER_Kr_MsgNotOnPort, s))"

definition externalGetThisMsg :: "PortEnv \<Rightarrow> task \<Rightarrow> int \<Rightarrow> PortState \<Rightarrow> int res \<times> PortState" where
  "externalGetThisMsg env ct m s =
     (if m \<notin> msg_items s then (Inl BADITEM, s) else internalGetThisMsg env ct m s)"

definition internalGetMsg :: "PortEnv \<Rightarrow> task \<Rightarrow> int \<Rightarrow> PortState \<Rightarrow> int \<times> PortState" where
  "internalGetMsg env ct p s =
     (case mp_Msgs (msgports s p) of [] \<Rightarrow> (0, s) | m # _ \<Rightarrow> (m, got env ct m s))"

definition externalGetMsg :: "PortEnv \<Rightarrow> task \<Rightarrow> int \<Rightarrow> PortState \<Rightarrow> int res \<times> PortState" where
  "externalGetMsg env ct p s =
     (if p \<notin> port_items s then (Inl BADITEM, s)
      else if mp_Owner (msgports s p) \<noteq> TaskItem env ct then (Inl NOTOWNER, s)
      else let (m, s) = internalGetMsg env ct p s in (Inr m, s))"

text \<open>\<open>None\<close>: the task sleeps; \<open>WaitPort_woken\<close> is the rest of the call.\<close>

definition internalWaitPort :: "PortEnv \<Rightarrow> task \<Rightarrow> int \<Rightarrow> int option \<Rightarrow> PortState \<Rightarrow> int res option \<times> PortState" where
  "internalWaitPort env ct p msg s =
     (let sleep = (\<lambda>i. (None, s\<lparr>t_WaitItem := (t_WaitItem s)(ct := WaitItem i), ks := SleepTask (pe_clock env) ct (ks s)\<rparr>)) in
      case msg of
        Some m \<Rightarrow>
          if msg_Holder (messages s m) = p then (let (r, s) = internalGetThisMsg env ct m s in (Some r, s))
          else sleep m
      | None \<Rightarrow>
          if mp_Msgs (msgports s p) \<noteq> [] then (let (m, s) = internalGetMsg env ct p s in (Some (Inr m), s))
          else sleep p)"

definition WaitPort_woken :: "task \<Rightarrow> PortState \<Rightarrow> wait_item \<times> PortState" where
  "WaitPort_woken ct s = (t_WaitItem s ct, s\<lparr>t_WaitItem := (t_WaitItem s)(ct := WaitItem (- 1))\<rparr>)"

definition externalWaitPort :: "PortEnv \<Rightarrow> task \<Rightarrow> int \<Rightarrow> int \<Rightarrow> PortState \<Rightarrow> int res option \<times> PortState" where
  "externalWaitPort env ct p msgItem s =
     (if p \<notin> port_items s then (Some (Inl BADITEM), s)
      else if mp_Owner (msgports s p) \<noteq> TaskItem env ct then (Some (Inl NOTOWNER), s)
      else if msgItem \<noteq> 0 \<and> msgItem \<notin> msg_items s then (Some (Inl BADITEM), s)
      else internalWaitPort env ct p (if msgItem = 0 then None else Some msgItem) s)"

section \<open>Making and deleting messages and ports\<close>

datatype msg_tag =
    CREATEMSG_TAG_REPLYPORT int | CREATEMSG_TAG_MSG_IS_SMALL | CREATEMSG_TAG_DATA_SIZE u32 | CREATEMSG_TAG_USERDATA u32
  | CREATEMSG_TAG_OTHER

text \<open>The data of a message passed by value lies behind its structure, at \<open>behind\<close>.\<close>

fun icm_c :: "u32 \<Rightarrow> msg_tag \<Rightarrow> Message \<Rightarrow> Message res" where
  "icm_c behind (CREATEMSG_TAG_REPLYPORT p) k = Inr (k\<lparr>msg_ReplyPort := p\<rparr>)"
| "icm_c behind CREATEMSG_TAG_MSG_IS_SMALL k = Inr (k\<lparr>MESSAGE_SMALL := True\<rparr>)"
| "icm_c behind (CREATEMSG_TAG_DATA_SIZE n) k =
     Inr (k\<lparr>msg_DataPtrSize := n, msg_DataPtr := behind, MESSAGE_PASS_BY_VALUE := True\<rparr>)"
| "icm_c behind (CREATEMSG_TAG_USERDATA u) k = Inr (k\<lparr>msg_UserData := u\<rparr>)"
| "icm_c behind CREATEMSG_TAG_OTHER k = Inl BADTAG"

fun process_tags :: "('t \<Rightarrow> 'k \<Rightarrow> 'k res) \<Rightarrow> 't list \<Rightarrow> 'k \<Rightarrow> 'k res" where
  "process_tags f [] k = Inr k"
| "process_tags f (t # ts) k = (case f t k of Inl e \<Rightarrow> Inl e | Inr k \<Rightarrow> process_tags f ts k)"

definition data_size_tag :: "msg_tag list \<Rightarrow> u32 option" where
  "data_size_tag ts = (case filter (\<lambda>t. case t of CREATEMSG_TAG_DATA_SIZE _ \<Rightarrow> True | _ \<Rightarrow> False) ts of
     CREATEMSG_TAG_DATA_SIZE n # _ \<Rightarrow> Some n | _ \<Rightarrow> None)"

text \<open>An \<open>ItemNode\<close> has 36 bytes, the fields of a message behind it 28.\<close>

definition sizeof_Message :: u32 where
  "sizeof_Message = 64"

text \<open>
  \<open>AllocateSizedNode\<close> gives a node filled with zeros and its item, or nothing; the priority is set by
  the tags of all items and the owner by \<open>CreateItem\<close>, which are part of the new node here.
\<close>

definition new_msg :: "int \<Rightarrow> u8 \<Rightarrow> Message" where
  "new_msg owner pr = \<lparr>msg_Owner = owner, msg_Priority = pr, MESSAGE_SENT = False, MESSAGE_REPLIED = False, MESSAGE_SMALL = False,
     MESSAGE_PASS_BY_VALUE = False, msg_ReplyPort = 0, msg_Result = 0, msg_DataPtr = 0, msg_DataSize = 0, msg_Holder = 0,
     msg_DataPtrSize = 0, msg_UserData = 0\<rparr>"

definition externalCreateMsg ::
  "PortEnv \<Rightarrow> task \<Rightarrow> (u32 \<Rightarrow> (int \<times> u32) option) \<Rightarrow> u8 \<Rightarrow> msg_tag list \<Rightarrow> PortState \<Rightarrow> int res \<times> PortState" where
  "externalCreateMsg env ct alloc pr tags s =
     (let (r, sz) = (case data_size_tag tags of
                       Some n \<Rightarrow> (if sizeof_Message + n < sizeof_Message then Inl BADTAGVAL else Inr (), sizeof_Message + n)
                     | None \<Rightarrow> (Inr (), sizeof_Message))
      in case r of
           Inl e \<Rightarrow> (Inl e, s)
         | Inr _ \<Rightarrow>
             (case alloc sz of
                None \<Rightarrow> (Inl NOMEM, s)
              | Some (m, a) \<Rightarrow>
                  (case process_tags (icm_c (a + sizeof_Message)) tags (new_msg (TaskItem env ct) pr) of
                     Inl e \<Rightarrow> (Inl e, s)
                   | Inr k \<Rightarrow>
                       if MESSAGE_SMALL k \<and> MESSAGE_PASS_BY_VALUE k then (Inl BADTAGVAL, s)
                       else if msg_ReplyPort k \<noteq> 0 \<and> msg_ReplyPort k \<notin> port_items s then (Inl BADITEM, s)
                       else (Inr m, hold_msg env ct m (upd_msg m (\<lambda>_. k) (s\<lparr>msg_items := insert m (msg_items s)\<rparr>))))))"

text \<open>Waking the tasks that wait for a message that goes away.\<close>

definition abort_waiters :: "PortEnv \<Rightarrow> int \<Rightarrow> PortState \<Rightarrow> PortState" where
  "abort_waiters env m s =
     foldl (\<lambda>s t. if t_WaitItem s t = WaitItem m
                  then ready_task env t (s\<lparr>t_WaitItem := (t_WaitItem s)(t := WaitErr ABORTED)\<rparr>) else s) s (kb_AllTasks s)"

definition internalDeleteMsg :: "PortEnv \<Rightarrow> int \<Rightarrow> PortState \<Rightarrow> PortState" where
  "internalDeleteMsg env m s = abort_waiters env m (upd_msg m (\<lambda>k. k\<lparr>MESSAGE_SENT := True\<rparr>) (unlink_msg m s))"

text \<open>Every message of the port is gotten, and sent back to its sender unless the port's task owns it.\<close>

partial_function (option) return_messages :: "PortEnv \<Rightarrow> task \<Rightarrow> int \<Rightarrow> int \<Rightarrow> PortState \<Rightarrow> PortState option" where
  "return_messages env ct p taskItem s =
     (let (m, s) = internalGetMsg env ct p s in
      if m = 0 then Some s
      else if msg_Owner (messages s m) \<noteq> taskItem
      then return_messages env ct p taskItem (snd (internalReplyMsg env ct m (- 1) 0 0 s))
      else return_messages env ct p taskItem s)"

text \<open>The result of a returned message is the code of \<open>BADITEM\<close>, here -1.\<close>

definition internalDeleteMsgPort :: "PortEnv \<Rightarrow> task \<Rightarrow> int \<Rightarrow> int \<Rightarrow> PortState \<Rightarrow> PortState option" where
  "internalDeleteMsgPort env ct p taskItem s =
     (case return_messages env ct p taskItem (s\<lparr>kb_MsgPorts := remove1 p (kb_MsgPorts s)\<rparr>) of
        None \<Rightarrow> None
      | Some s \<Rightarrow>
          Some (case LookupTask env (mp_Owner (msgports s p)) of
                  None \<Rightarrow> s
                | Some t \<Rightarrow>
                    if MSGPORT_SIGNAL_ALLOCATED (msgports s p)
                    then s\<lparr>ks := snd (internalFreeSignal (mp_Signal (msgports s p)) t (ks s))\<rparr> else s))"

datatype port_tag = CREATEPORT_TAG_SIGNAL u32 | CREATEPORT_TAG_USERDATA u32 | CREATEPORT_TAG_OTHER

fun icmp_c :: "port_tag \<Rightarrow> MsgPort \<Rightarrow> MsgPort res" where
  "icmp_c (CREATEPORT_TAG_SIGNAL sig) k = Inr (k\<lparr>mp_Signal := sig\<rparr>)"
| "icmp_c (CREATEPORT_TAG_USERDATA u) k = Inr (k\<lparr>mp_UserData := u\<rparr>)"
| "icmp_c CREATEPORT_TAG_OTHER k = Inl BADTAG"

text \<open>The port \<open>p\<close> has been allocated, with its owner and priority; it is linked into the list of ports by priority.\<close>

definition publish_port :: "int \<Rightarrow> MsgPort \<Rightarrow> PortState \<Rightarrow> PortState" where
  "publish_port p k s =
     s\<lparr>port_items := insert p (port_items s), msgports := (msgports s)(p := k\<lparr>mp_Msgs := []\<rparr>),
       kb_MsgPorts := rev (insert_at (\<lambda>x. mp_Priority k \<le> mp_Priority (msgports s x)) p (rev (kb_MsgPorts s)))\<rparr>"

definition internalCreateMsgPort :: "PortEnv \<Rightarrow> task \<Rightarrow> int \<Rightarrow> MsgPort \<Rightarrow> port_tag list \<Rightarrow> PortState \<Rightarrow> int res \<times> PortState" where
  "internalCreateMsgPort env ct p k tags s =
     (case process_tags icmp_c tags k of
        Inl e \<Rightarrow> (Inl e, s)
      | Inr k \<Rightarrow>
          if mp_Signal k = 0 then
            (case externalAllocSignal 0 ct (ks s) of
               (Inl e, ks') \<Rightarrow> (Inl NOSIGNALS, s\<lparr>ks := ks'\<rparr>)
             | (Inr sig, ks') \<Rightarrow>
                 if sig = 0 then (Inl NOSIGNALS, s\<lparr>ks := ks'\<rparr>)
                 else (Inr p, publish_port p (k\<lparr>mp_Signal := sig, MSGPORT_SIGNAL_ALLOCATED := True\<rparr>) (s\<lparr>ks := ks'\<rparr>)))
          else
            (case ValidateSignal (PrivTask env ct) (mp_Signal k) of
               Inl e \<Rightarrow> (Inl e, s)
             | Inr _ \<Rightarrow> (Inr p, publish_port p k s)))"

definition internalSetMsgPortOwner :: "PortEnv \<Rightarrow> task \<Rightarrow> int \<Rightarrow> task \<Rightarrow> PortState \<Rightarrow> unit res \<times> PortState" where
  "internalSetMsgPortOwner env ct p new s =
     (if \<not> MSGPORT_SIGNAL_ALLOCATED (msgports s p) then (Inl ER_Kr_CantSetOwner, s)
      else
        let (r, ks') = internalAllocSignal 0 new (ks s); s = s\<lparr>ks := ks'\<rparr> in
        case r of
          Inl e \<Rightarrow> (Inl e, s)
        | Inr sigs \<Rightarrow>
            if sigs = 0 then (Inl NOSIGNALS, s)
            else
              let oldsigs = mp_Signal (msgports s p) in
              if mp_Msgs (msgports s p) = []
              then (Inr (), (upd_port p (\<lambda>k. k\<lparr>mp_Signal := sigs\<rparr>) s)\<lparr>ks := snd (externalFreeSignal oldsigs ct (ks s))\<rparr>)
              else (Inl ER_Kr_MsgPortNotEmpty, s\<lparr>ks := snd (internalFreeSignal sigs new (ks s))\<rparr>))"

text \<open>The messages a dying task still holds are replied; after each reply that works the scan starts again.\<close>

fun first_reply :: "PortEnv \<Rightarrow> task \<Rightarrow> int list \<Rightarrow> PortState \<Rightarrow> bool \<times> PortState" where
  "first_reply env ct [] s = (False, s)"
| "first_reply env ct (m # ms) s =
     (case internalReplyMsg env ct m (- 2) 0 0 s of (Inr _, s) \<Rightarrow> (True, s) | (Inl _, s) \<Rightarrow> first_reply env ct ms s)"

partial_function (option) ReplyHeldMessages :: "PortEnv \<Rightarrow> task \<Rightarrow> task \<Rightarrow> PortState \<Rightarrow> PortState option" where
  "ReplyHeldMessages env ct t s =
     (let (again, s) = first_reply env ct (t_MessagesHeld s t) s in
      if again then ReplyHeldMessages env ct t s else Some s)"

section \<open>Where the messages are\<close>

text \<open>A message is held by a task when it is neither sent nor replied, and in the queue of a port otherwise.\<close>

definition flagged :: "Message \<Rightarrow> bool" where
  "flagged k \<longleftrightarrow> MESSAGE_SENT k \<or> MESSAGE_REPLIED k"

definition at_home :: "PortEnv \<Rightarrow> PortState \<Rightarrow> int \<Rightarrow> bool" where
  "at_home env s m \<longleftrightarrow>
     (let k = messages s m in
      if flagged k then msg_Holder k \<in> port_items s \<and> m \<in> set (mp_Msgs (msgports s (msg_Holder k)))
      else \<exists>t. msg_Holder k = TaskItem env t \<and> m \<in> set (t_MessagesHeld s t))"

text \<open>The lists hold only the messages whose holder they are, each once, and queues are in order of priority.\<close>

definition lists_ok :: "PortEnv \<Rightarrow> PortState \<Rightarrow> bool" where
  "lists_ok env s \<longleftrightarrow>
     (\<forall>t m. m \<in> set (t_MessagesHeld s t) \<longrightarrow> m \<in> msg_items s \<and> \<not> flagged (messages s m) \<and> msg_Holder (messages s m) = TaskItem env t)
     \<and> (\<forall>p m. m \<in> set (mp_Msgs (msgports s p)) \<longrightarrow>
          p \<in> port_items s \<and> m \<in> msg_items s \<and> flagged (messages s m) \<and> msg_Holder (messages s m) = p)
     \<and> (\<forall>t. distinct (t_MessagesHeld s t)) \<and> (\<forall>p. distinct (mp_Msgs (msgports s p)))
     \<and> (\<forall>p. sorted_wrt (\<lambda>x y. msg_Priority (messages s y) \<le> msg_Priority (messages s x)) (mp_Msgs (msgports s p)))"

definition items_ok :: "PortEnv \<Rightarrow> PortState \<Rightarrow> bool" where
  "items_ok env s \<longleftrightarrow> inj (TaskItem env) \<and> (\<forall>i t. LookupTask env i = Some t \<longrightarrow> TaskItem env t = i)
     \<and> (\<forall>p \<in> port_items s. 0 < p \<and> p \<notin> range (TaskItem env))
     \<and> (\<forall>m \<in> msg_items s. 0 < m \<and> m \<notin> port_items s)"

text \<open>No task waits for a port of its own that has messages.\<close>

definition quiet :: "PortEnv \<Rightarrow> PortState \<Rightarrow> bool" where
  "quiet env s \<longleftrightarrow> (\<forall>t p. t_WaitItem s t = WaitItem p \<and> p \<in> port_items s \<and> mp_Owner (msgports s p) = TaskItem env t
     \<longrightarrow> mp_Msgs (msgports s p) = [])"

definition ports_ok :: "PortEnv \<Rightarrow> PortState \<Rightarrow> bool" where
  "ports_ok env s \<longleftrightarrow> items_ok env s \<and> lists_ok env s \<and> (\<forall>m \<in> msg_items s. at_home env s m) \<and> quiet env s"

text \<open>While a message is moved: it is in no list, and all others are at home.\<close>

definition loose :: "PortEnv \<Rightarrow> int \<Rightarrow> PortState \<Rightarrow> bool" where
  "loose env m s \<longleftrightarrow> items_ok env s \<and> lists_ok env s \<and> (\<forall>m' \<in> msg_items s - {m}. at_home env s m') \<and> quiet env s
     \<and> m \<in> msg_items s \<and> (\<forall>t. m \<notin> set (t_MessagesHeld s t)) \<and> (\<forall>p. m \<notin> set (mp_Msgs (msgports s p)))"

lemmas ports_defs = ports_ok_def loose_def items_ok_def lists_ok_def quiet_def at_home_def

text \<open>What these notions depend on.\<close>

definition placing :: "PortState \<Rightarrow> (int \<Rightarrow> bool \<times> int \<times> u8) \<times> (int \<Rightarrow> int list \<times> int) \<times> (task \<Rightarrow> int list) \<times> int set \<times> int set" where
  "placing s = (\<lambda>m. (flagged (messages s m), msg_Holder (messages s m), msg_Priority (messages s m)),
     \<lambda>p. (mp_Msgs (msgports s p), mp_Owner (msgports s p)), t_MessagesHeld s, msg_items s, port_items s)"

lemma placing_cong:
  assumes "placing s' = placing s"
  shows "lists_ok env s' = lists_ok env s" and "at_home env s' m = at_home env s m" and "items_ok env s' = items_ok env s"
    and "msg_items s' = msg_items s" and "port_items s' = port_items s" and "t_MessagesHeld s' = t_MessagesHeld s"
    and "mp_Msgs (msgports s' p) = mp_Msgs (msgports s p)" and "mp_Owner (msgports s' p) = mp_Owner (msgports s p)"
    and "flagged (messages s' m) = flagged (messages s m)" and "msg_Holder (messages s' m) = msg_Holder (messages s m)"
proof -
  have eq: "flagged (messages s' k) = flagged (messages s k)" "msg_Holder (messages s' k) = msg_Holder (messages s k)"
    "msg_Priority (messages s' k) = msg_Priority (messages s k)" "mp_Msgs (msgports s' p) = mp_Msgs (msgports s p)"
    "mp_Owner (msgports s' p) = mp_Owner (msgports s p)" "t_MessagesHeld s' = t_MessagesHeld s"
    "msg_items s' = msg_items s" "port_items s' = port_items s" for k p
    using assms by (auto simp: placing_def fun_eq_iff)
  show "lists_ok env s' = lists_ok env s" "at_home env s' m = at_home env s m" "items_ok env s' = items_ok env s"
    "msg_items s' = msg_items s" "port_items s' = port_items s" "t_MessagesHeld s' = t_MessagesHeld s"
    "mp_Msgs (msgports s' p) = mp_Msgs (msgports s p)" "mp_Owner (msgports s' p) = mp_Owner (msgports s p)"
    "flagged (messages s' m) = flagged (messages s m)" "msg_Holder (messages s' m) = msg_Holder (messages s m)"
    unfolding lists_ok_def at_home_def items_ok_def Let_def eq by (rule refl)+
qed

lemma ports_ok_cong:
  assumes "placing s' = placing s" and "t_WaitItem s' = t_WaitItem s"
  shows "ports_ok env s' = ports_ok env s" and "loose env m s' = loose env m s" and "quiet env s' = quiet env s"
  unfolding ports_ok_def loose_def quiet_def placing_cong [OF assms(1)] assms(2) by (rule refl)+

lemma unlink_loose:
  assumes "ports_ok env s" and "m \<in> msg_items s"
  shows "loose env m (unlink_msg m s)"
proof -
  let ?s = "unlink_msg m s"
  have L: "lists_ok env s" "items_ok env s" "quiet env s" "\<And>m'. m' \<in> msg_items s \<Longrightarrow> at_home env s m'"
    using assms(1) by (auto simp: ports_ok_def)
  have sel: "messages ?s = messages s" "msg_items ?s = msg_items s" "port_items ?s = port_items s"
    "mp_Msgs (msgports ?s p) = remove1 m (mp_Msgs (msgports s p))" "mp_Owner (msgports ?s p) = mp_Owner (msgports s p)"
    "t_MessagesHeld ?s t = remove1 m (t_MessagesHeld s t)" "t_WaitItem ?s = t_WaitItem s" for p t
    by (simp_all add: unlink_msg_def)
  have d: "distinct (t_MessagesHeld s t)" "distinct (mp_Msgs (msgports s p))" for t p using L(1) by (auto simp: lists_ok_def)
  have "lists_ok env ?s"
    using L(1) unfolding lists_ok_def sel by (auto simp: d notin_set_remove1 intro: sorted_remove1 dest: set_remove1_subset [THEN subsetD])
  moreover have "at_home env ?s m'" if "m' \<in> msg_items s - {m}" for m'
    using L(4) [of m'] that unfolding at_home_def sel Let_def by (auto split: if_splits)
  moreover have "quiet env ?s" using L(3) unfolding quiet_def sel by auto
  ultimately show ?thesis using L(2) assms(2) d unfolding loose_def items_ok_def sel by auto
qed


text \<open>Steps that leave the places alone.\<close>

lemma upd_msg_placing [simp]:
  "(\<And>k. flagged (f k) = flagged k) \<Longrightarrow> (\<And>k. msg_Holder (f k) = msg_Holder k) \<Longrightarrow> (\<And>k. msg_Priority (f k) = msg_Priority k)
   \<Longrightarrow> placing (upd_msg m f s) = placing s"
  by (auto simp: placing_def upd_msg_def fun_eq_iff)

lemma other_placing [simp]:
  "placing (s\<lparr>ks := k\<rparr>) = placing s" "placing (s\<lparr>bytes := b\<rparr>) = placing s" "placing (s\<lparr>t_WaitItem := w\<rparr>) = placing s"
  "placing (s\<lparr>kb_MsgPorts := l\<rparr>) = placing s" "placing (ready_task env t s) = placing s"
  by (simp_all add: placing_def ready_task_def)

lemma upd_msg_sel [simp]:
  "t_WaitItem (upd_msg m f s) = t_WaitItem s" "t_MessagesHeld (upd_msg m f s) = t_MessagesHeld s" "msgports (upd_msg m f s) = msgports s"
  "msg_items (upd_msg m f s) = msg_items s" "port_items (upd_msg m f s) = port_items s" "ks (upd_msg m f s) = ks s"
  "messages (upd_msg m f s) = (messages s)(m := f (messages s m))"
  "kb_AllTasks (upd_msg m f s) = kb_AllTasks s"
  by (simp_all add: upd_msg_def)

lemma ready_task_sel [simp]:
  "t_WaitItem (ready_task env t s) = t_WaitItem s" "msg_items (ready_task env t s) = msg_items s"
  "messages (ready_task env t s) = messages s" "msgports (ready_task env t s) = msgports s"
  "t_MessagesHeld (ready_task env t s) = t_MessagesHeld s" "port_items (ready_task env t s) = port_items s"
  "kb_AllTasks (ready_task env t s) = kb_AllTasks s"
  by (simp_all add: ready_task_def)

lemma put_data_placing [simp]: "placing (put_data m a n s) = placing s" "t_WaitItem (put_data m a n s) = t_WaitItem s"
  "ks (put_data m a n s) = ks s" "t_MessagesHeld (put_data m a n s) = t_MessagesHeld s"
  "msgports (put_data m a n s) = msgports s" "msg_items (put_data m a n s) = msg_items s"
  by (simp_all add: put_data_def Let_def flagged_def)

lemma wait_quiet:
  assumes "quiet env s" and "\<And>p. w = WaitItem p \<Longrightarrow> p \<in> port_items s \<Longrightarrow> mp_Owner (msgports s p) = TaskItem env t \<Longrightarrow> mp_Msgs (msgports s p) = []"
  shows "quiet env (s\<lparr>t_WaitItem := (t_WaitItem s)(t := w)\<rparr>)"
  using assms by (auto simp: quiet_def)

lemma wait_ok:
  assumes "\<And>p. w = WaitItem p \<Longrightarrow> p \<in> port_items s \<Longrightarrow> mp_Owner (msgports s p) = TaskItem env t \<Longrightarrow> mp_Msgs (msgports s p) = []"
  shows "ports_ok env s \<Longrightarrow> ports_ok env (s\<lparr>t_WaitItem := (t_WaitItem s)(t := w)\<rparr>)"
    and "loose env m s \<Longrightarrow> loose env m (s\<lparr>t_WaitItem := (t_WaitItem s)(t := w)\<rparr>)"
  using wait_quiet [of env s w t] assms by (simp_all add: ports_ok_def loose_def placing_cong [where s = s, OF other_placing(3)])

lemma hold_ok:
  assumes "loose env m s" and "\<not> flagged (messages s m)"
  shows "ports_ok env (hold_msg env t m s)"
proof -
  let ?s = "hold_msg env t m s"
  have L: "lists_ok env s" "items_ok env s" "quiet env s" "\<And>m'. m' \<in> msg_items s \<Longrightarrow> m' \<noteq> m \<Longrightarrow> at_home env s m'"
    "m \<in> msg_items s" "\<And>t. m \<notin> set (t_MessagesHeld s t)" "\<And>p. m \<notin> set (mp_Msgs (msgports s p))"
    using assms(1) by (auto simp: loose_def)
  have sel: "messages ?s k = (if k = m then (messages s m)\<lparr>msg_Holder := TaskItem env t\<rparr> else messages s k)" "msg_items ?s = msg_items s"
    "port_items ?s = port_items s" "msgports ?s = msgports s" "t_WaitItem ?s = t_WaitItem s"
    "t_MessagesHeld ?s u = (if u = t then t_MessagesHeld s t @ [m] else t_MessagesHeld s u)" for k u
    by (simp_all add: hold_msg_def)
  have fl: "flagged (k\<lparr>msg_Holder := h\<rparr>) = flagged k" for k h by (simp add: flagged_def)
  have pri: "msg_Priority (if x = m then (messages s m)\<lparr>msg_Holder := TaskItem env t\<rparr> else messages s x) = msg_Priority (messages s x)" for x
    by simp
  have "lists_ok env ?s"
    using L(1) L(5-7) assms(2) unfolding lists_ok_def sel pri by (auto simp: fl)
  moreover have "at_home env ?s m'" if "m' \<in> msg_items s" for m'
    using L(4) [of m'] that assms(2) unfolding at_home_def sel Let_def by (auto simp: fl split: if_splits)
  moreover have "quiet env ?s" using L(3) unfolding quiet_def sel .
  ultimately show ?thesis using L(2) unfolding ports_ok_def items_ok_def sel by blast
qed

lemma enqueue_set [simp]: "set (enqueue m q s) = insert m (set q)"
  by (simp add: enqueue_def)

lemma enqueue_distinct: "distinct q \<Longrightarrow> m \<notin> set q \<Longrightarrow> distinct (enqueue m q s)"
  by (simp add: enqueue_def distinct_insert_at)

lemma enqueue_sorted:
  assumes "sorted_wrt (\<lambda>x y. msg_Priority (messages s y) \<le> msg_Priority (messages s x)) q"
  shows "sorted_wrt (\<lambda>x y. msg_Priority (messages s y) \<le> msg_Priority (messages s x)) (enqueue m q s)"
  unfolding enqueue_def insert_both_filter(1) [OF assms] by (rule sorted_insert_both(1) [OF assms])

lemma queue_ok:
  assumes "loose env m s" and "p \<in> port_items s"
    and "\<And>t. TaskItem env t = mp_Owner (msgports s p) \<Longrightarrow> t_WaitItem s t \<noteq> WaitItem p"
  shows "ports_ok env (queue_msg p m reply s)"
proof -
  let ?s = "queue_msg p m reply s"
  have L: "lists_ok env s" "items_ok env s" "quiet env s" "\<And>m'. m' \<in> msg_items s \<Longrightarrow> m' \<noteq> m \<Longrightarrow> at_home env s m'"
    "m \<in> msg_items s" "\<And>t. m \<notin> set (t_MessagesHeld s t)" "\<And>p. m \<notin> set (mp_Msgs (msgports s p))"
    using assms(1) by (auto simp: loose_def)
  define k where "k = (if reply then (messages s m)\<lparr>MESSAGE_REPLIED := True\<rparr> else (messages s m)\<lparr>MESSAGE_SENT := True\<rparr>)\<lparr>msg_Holder := p\<rparr>"
  then have k: "flagged k" "msg_Holder k = p" "msg_Priority k = msg_Priority (messages s m)" "messages ?s = (messages s)(m := k)"
    "mp_Msgs (msgports ?s p) = enqueue m (mp_Msgs (msgports s p)) (s\<lparr>messages := (messages s)(m := k)\<rparr>)"
    by (simp_all add: queue_msg_def upd_msg_def upd_port_def Let_def flagged_def)
  have sel: "messages ?s x = (if x = m then k else messages s x)" "msg_items ?s = msg_items s"
    "port_items ?s = port_items s" "t_WaitItem ?s = t_WaitItem s" "t_MessagesHeld ?s = t_MessagesHeld s"
    "mp_Msgs (msgports ?s q) = (if q = p then enqueue m (mp_Msgs (msgports s p)) (s\<lparr>messages := (messages s)(m := k)\<rparr>) else mp_Msgs (msgports s q))"
    "mp_Owner (msgports ?s q) = mp_Owner (msgports s q)" for x q
    using k(4,5) by (auto simp: queue_msg_def upd_port_def Let_def)
  have pri: "msg_Priority (if x = m then k else messages s x) = msg_Priority (messages s x)" for x using k(3) by simp
  have "sorted_wrt (\<lambda>x y. msg_Priority (messages s y) \<le> msg_Priority (messages s x)) (enqueue m (mp_Msgs (msgports s p)) (s\<lparr>messages := (messages s)(m := k)\<rparr>))"
    using enqueue_sorted [of "s\<lparr>messages := (messages s)(m := k)\<rparr>" "mp_Msgs (msgports s p)" m] L(1) by (simp add: pri lists_ok_def)
  then have "lists_ok env ?s"
    using L(1) L(5-7) assms(2) k(1,2) unfolding lists_ok_def sel pri by (auto intro!: enqueue_distinct)
  moreover have "at_home env ?s m'" if "m' \<in> msg_items s" for m'
    using L(4) [of m'] that assms(2) k(1,2) unfolding at_home_def sel Let_def by (auto split: if_splits)
  moreover have "quiet env ?s" using L(3) assms(3) unfolding quiet_def sel by auto
  ultimately show ?thesis using L(2) unfolding ports_ok_def items_ok_def sel by blast
qed


section \<open>Every operation keeps the messages in place\<close>

text \<open>What all operations leave alone, apart from making and deleting.\<close>

definition same_items :: "PortState \<Rightarrow> PortState \<Rightarrow> bool" where
  "same_items s s' \<longleftrightarrow> msg_items s' = msg_items s \<and> port_items s' = port_items s
     \<and> (\<forall>p. mp_Owner (msgports s' p) = mp_Owner (msgports s p) \<and> mp_Deleted (msgports s' p) = mp_Deleted (msgports s p))"

lemma same_items_refl [simp]: "same_items s s"
  by (simp add: same_items_def)

lemma same_items_trans: "same_items s s' \<Longrightarrow> same_items s' s'' \<Longrightarrow> same_items s s''"
  by (simp add: same_items_def)

lemma same_items_basic [simp]:
  "same_items s (upd_msg m f s)" "same_items s (unlink_msg m s)" "same_items s (hold_msg env t m s)"
  "same_items s (queue_msg p m reply s)" "same_items s (put_data m a n s)" "same_items s (ready_task env t s)"
  "same_items s (s\<lparr>ks := k\<rparr>)" "same_items s (s\<lparr>t_WaitItem := w\<rparr>)" "same_items s (s\<lparr>kb_MsgPorts := l\<rparr>)"
  by (simp_all add: same_items_def upd_msg_def unlink_msg_def hold_msg_def queue_msg_def upd_port_def put_data_def ready_task_def Let_def)

text \<open>A message in a queue is flagged, since the holder of an unflagged one is a task.\<close>

lemma holder_flagged:
  assumes "ports_ok env s" and "m \<in> msg_items s"
  shows "flagged (messages s m) \<longleftrightarrow> msg_Holder (messages s m) \<in> port_items s"
    and "msg_Holder (messages s m) = TaskItem env t \<Longrightarrow> \<not> flagged (messages s m) \<and> m \<in> set (t_MessagesHeld s t)"
proof -
  have A: "at_home env s m" "items_ok env s" using assms by (auto simp: ports_ok_def)
  show "flagged (messages s m) \<longleftrightarrow> msg_Holder (messages s m) \<in> port_items s"
    using A by (auto simp: at_home_def items_ok_def Let_def split: if_splits)
  show "\<not> flagged (messages s m) \<and> m \<in> set (t_MessagesHeld s t)" if "msg_Holder (messages s m) = TaskItem env t"
    using A that by (auto simp: at_home_def items_ok_def Let_def inj_eq split: if_splits)
qed

lemma unlink_sel [simp]:
  "messages (unlink_msg m s) = messages s" "t_WaitItem (unlink_msg m s) = t_WaitItem s" "ks (unlink_msg m s) = ks s"
  "mp_Owner (msgports (unlink_msg m s) p) = mp_Owner (msgports s p)" "port_items (unlink_msg m s) = port_items s"
  "mp_Signal (msgports (unlink_msg m s) p) = mp_Signal (msgports s p)" "msg_items (unlink_msg m s) = msg_items s"
  "kb_AllTasks (unlink_msg m s) = kb_AllTasks s"
  by (simp_all add: unlink_msg_def)

lemma SetMsgOwner_ok:
  assumes "ports_ok env s" and "m \<in> msg_items s"
  shows "ports_ok env (snd (internalSetMsgOwner env ct m new s)) \<and> same_items s (snd (internalSetMsgOwner env ct m new s))"
proof (cases "msg_Holder (messages s m) = TaskItem env ct")
  case True
  then have "\<not> flagged (messages s m)" using holder_flagged(2) [OF assms] by blast
  then have "ports_ok env (hold_msg env new m (unlink_msg m s))" by (intro hold_ok unlink_loose assms) simp_all
  moreover have "same_items s (hold_msg env new m (unlink_msg m s))" by (rule same_items_trans [OF same_items_basic(2) same_items_basic(3)])
  ultimately show ?thesis using True by (simp add: internalSetMsgOwner_def)
qed (use assms in \<open>simp add: internalSetMsgOwner_def\<close>)

lemma SetItemOwner_ok:
  assumes "ports_ok env s" and "m \<in> msg_items s" and "externalSetItemOwner env ct m newOwner s = (r, s')"
  shows "ports_ok env s' \<and> same_items s s'"
proof (cases "LookupTask env newOwner")
  case (Some new)
  obtain q s2 where I: "internalSetMsgOwner env ct m new s = (q, s2)" by fastforce
  let ?s = "upd_msg m (\<lambda>k. k\<lparr>msg_Owner := newOwner\<rparr>) s2"
  have s2: "ports_ok env s2" "same_items s s2" using SetMsgOwner_ok [OF assms(1,2), of ct new] I by auto
  have p: "placing ?s = placing s2" by (rule upd_msg_placing) (simp_all add: flagged_def)
  have "ports_ok env ?s" "same_items s ?s"
    using s2 ports_ok_cong(1) [OF p] same_items_trans [OF s2(2) same_items_basic(1)] by simp_all
  then show ?thesis
    using assms(1,3) s2 I Some by (cases q) (auto simp: externalSetItemOwner_def split: if_splits)
qed (use assms in \<open>auto simp: externalSetItemOwner_def\<close>)

lemma hand_over_ok:
  assumes "loose env m s" and "\<not> flagged (messages s m)" and "p \<in> port_items s" and "mp_Owner (msgports s p) = TaskItem env t"
    and "hand_over env t p m reply s = (r, s')"
  shows "ports_ok env s' \<and> same_items s s'"
proof -
  have items: "items_ok env s" "m \<in> msg_items s" using assms(1) by (auto simp: loose_def)
  then have mp: "m \<notin> port_items s" "0 < p" "inj (TaskItem env)" using assms(3) by (auto simp: items_ok_def)
  let ?w = "s\<lparr>t_WaitItem := (t_WaitItem s)(t := WaitItem m)\<rparr>"
  have w: "loose env m ?w" by (rule wait_ok(2) [OF _ assms(1)]) (use mp(1) in auto)
  have r: "ports_ok env (ready_task env t (hold_msg env t m s'))" if "loose env m s'" "messages s' m = messages s m" for s'
    using hold_ok [OF that(1), of t] that(2) assms(2) by (simp add: ports_ok_cong(1) [OF other_placing(5)])
  have i: "same_items s (ready_task env t (hold_msg env t m ?w))" "same_items s (ready_task env t (hold_msg env t m s))"
    by (rule same_items_trans [OF same_items_trans [OF same_items_basic(8) same_items_basic(3)] same_items_basic(6)],
        rule same_items_trans [OF same_items_basic(3) same_items_basic(6)])
  have q: "ports_ok env ((queue_msg p m reply s)\<lparr>ks := k\<rparr>)" if "t_WaitItem s t \<noteq> WaitItem p" for k
    using queue_ok [OF assms(1,3)] that assms(4) mp(3) by (simp add: ports_ok_cong(1) [OF other_placing(1)] inj_eq)
  have qi: "same_items s ((queue_msg p m reply s)\<lparr>ks := k\<rparr>)" for k
    by (rule same_items_trans [OF same_items_basic(4) same_items_basic(7)])
  show ?thesis
  proof (cases "t_WaitItem s t = WaitItem p")
    case True
    then show ?thesis using assms(5) mp(2) r [OF w] i(1) by (auto simp: hand_over_def Let_def)
  next
    case False
    then show ?thesis using assms(5) r [OF assms(1)] i(2) q [OF False] qi
      by (auto simp: hand_over_def Let_def split_beta split: if_splits)
  qed
qed


text \<open>An operation keeps everything in place and makes and deletes nothing.\<close>

definition keeps :: "PortEnv \<Rightarrow> PortState \<Rightarrow> PortState \<Rightarrow> bool" where
  "keeps env s s' \<longleftrightarrow> ports_ok env s' \<and> same_items s s'"

lemma keeps_refl: "ports_ok env s \<Longrightarrow> keeps env s s"
  by (simp add: keeps_def)

lemma keeps_trans: "keeps env s s' \<Longrightarrow> keeps env s' s'' \<Longrightarrow> keeps env s s''"
  by (auto simp: keeps_def intro: same_items_trans)

lemma keeps_items: "keeps env s s' \<Longrightarrow> msg_items s' = msg_items s \<and> port_items s' = port_items s"
  by (simp add: keeps_def same_items_def)

lemma keeps_placing:
  "keeps env s s' \<Longrightarrow> placing s'' = placing s' \<Longrightarrow> t_WaitItem s'' = t_WaitItem s' \<Longrightarrow> same_items s' s'' \<Longrightarrow> keeps env s s''"
  unfolding keeps_def by (metis ports_ok_cong(1) same_items_trans)

lemma result_keeps:
  assumes "ports_ok env s"
  shows "keeps env s (upd_msg m (\<lambda>k. k\<lparr>msg_Result := r\<rparr>) s)"
  by (rule keeps_placing [OF keeps_refl [OF assms] upd_msg_placing]) (simp_all add: flagged_def)

lemma DeliverMsg_ok:
  assumes "ports_ok env s" and "m \<in> msg_items s" and "p \<in> port_items s"
  shows "keeps env s (snd (internalDeliverMsg env ct p m a n reply super s))"
proof (cases "mp_Deleted (msgports s p)")
  case False
  have lk: "LookupTask env i = Some t \<Longrightarrow> TaskItem env t = i" for i t using assms(1) by (auto simp: ports_ok_def items_ok_def)
  obtain r1 s1 where O: "(if msg_ReplyPort (messages s m) = 0 then externalSetItemOwner env ct m (mp_Owner (msgports s p)) s
      else (Inr (), s)) = (r1, s1)" by fastforce
  have s1: "keeps env s s1"
    using SetItemOwner_ok [OF assms(1,2)] O keeps_refl [OF assms(1)] by (auto simp: keeps_def split: if_splits)
  then have i1: "ports_ok env s1" "m \<in> msg_items s1" "p \<in> port_items s1" "same_items s s1"
    using assms(2,3) by (simp_all add: keeps_def same_items_def)
  have "keeps env s (snd (let (r, s) = hand_over env t p m reply (unlink_msg m s1) in (r, put_data m a n s)))"
    if "LookupTask env (mp_Owner (msgports s1 p)) = Some t" and "\<not> flagged (messages s1 m)" for t
  proof -
    obtain r2 s2 where H: "hand_over env t p m reply (unlink_msg m s1) = (r2, s2)" by fastforce
    have "ports_ok env s2 \<and> same_items (unlink_msg m s1) s2"
      by (rule hand_over_ok [OF unlink_loose [OF i1(1,2)] _ _ _ H]) (use that i1 lk [OF that(1)] in simp_all)
    then have "keeps env s s2"
      using i1(4) by (auto simp: keeps_def intro: same_items_trans [OF _ same_items_trans [OF same_items_basic(2)]])
    then have "keeps env s (put_data m a n s2)" by (rule keeps_placing) simp_all
    then show ?thesis using H by simp
  qed
  then show ?thesis
    using s1 O False
    by (cases r1; cases super; cases "LookupTask env (mp_Owner (msgports s1 p))")
      (simp_all add: internalDeliverMsg_def flagged_def del: Let_def)
qed (use keeps_refl [OF assms(1)] in \<open>simp add: internalDeliverMsg_def\<close>)


lemma SendMsg_ok:
  assumes "ports_ok env s"
  shows "keeps env s (snd (externalSendMsg env ct p m a n s))"
proof (cases "p \<in> port_items s \<and> m \<in> msg_items s")
  case True
  let ?s = "upd_msg m (\<lambda>k. k\<lparr>msg_Result := 0\<rparr>) s"
  have "keeps env s ?s" by (rule result_keeps [OF assms])
  moreover from this have "keeps env ?s (snd (internalDeliverMsg env ct p m a n False False ?s))"
    by (intro DeliverMsg_ok) (use True in \<open>simp_all add: keeps_def\<close>)
  ultimately have "keeps env s (snd (internalDeliverMsg env ct p m a n False False ?s))" by (rule keeps_trans)
  then show ?thesis using True keeps_refl [OF assms] by (simp add: externalSendMsg_def split: sum.splits)
qed (use keeps_refl [OF assms] in \<open>auto simp: externalSendMsg_def\<close>)

lemma ReplyMsg_internal_ok:
  assumes "ports_ok env s" and "m \<in> msg_items s"
  shows "keeps env s (snd (internalReplyMsg env ct m r a n s))"
proof (cases "msg_ReplyPort (messages s m) \<in> port_items s")
  case True
  let ?s = "upd_msg m (\<lambda>k. k\<lparr>msg_Result := r\<rparr>) s"
  have "keeps env s ?s" by (rule result_keeps [OF assms(1)])
  moreover from this have "keeps env ?s (snd (internalDeliverMsg env ct (msg_ReplyPort (messages s m)) m a n True False ?s))"
    by (intro DeliverMsg_ok) (use True assms(2) in \<open>simp_all add: keeps_def\<close>)
  ultimately have "keeps env s (snd (internalDeliverMsg env ct (msg_ReplyPort (messages s m)) m a n True False ?s))" by (rule keeps_trans)
  then show ?thesis using True by (simp add: internalReplyMsg_def Let_def)
qed (use keeps_refl [OF assms(1)] in \<open>simp add: internalReplyMsg_def Let_def\<close>)

lemma ReplyMsg_ok: "ports_ok env s \<Longrightarrow> keeps env s (snd (externalReplyMsg env ct m r a n s))"
  by (simp add: externalReplyMsg_def keeps_refl ReplyMsg_internal_ok split: sum.split)

lemma loose_upd:
  assumes "loose env m s"
  shows "loose env m (upd_msg m f s)"
proof -
  let ?s = "upd_msg m f s"
  have L: "lists_ok env s" "m \<in> msg_items s" "\<And>t. m \<notin> set (t_MessagesHeld s t)" "\<And>p. m \<notin> set (mp_Msgs (msgports s p))"
    "\<And>m'. m' \<in> msg_items s - {m} \<Longrightarrow> at_home env s m'" "items_ok env s" "quiet env s"
    using assms(1) by (auto simp: loose_def)
  have other: "m' \<noteq> m \<Longrightarrow> messages ?s m' = messages s m'" for m' by simp
  have "sorted_wrt (\<lambda>x y. msg_Priority (messages ?s y) \<le> msg_Priority (messages ?s x)) (mp_Msgs (msgports ?s p))" for p
  proof (rule sorted_wrt_mono_rel)
    show "sorted_wrt (\<lambda>x y. msg_Priority (messages s y) \<le> msg_Priority (messages s x)) (mp_Msgs (msgports ?s p))"
      using L(1) by (simp add: lists_ok_def)
  qed (use L(4) [of p] other in auto)
  then have "lists_ok env ?s" using L(1,3,4) unfolding lists_ok_def by auto
  moreover have "at_home env ?s m'" if "m' \<in> msg_items s - {m}" for m' using L(5) [OF that] that by (simp add: at_home_def Let_def)
  ultimately show ?thesis using L(2-4,6,7) by (simp add: loose_def items_ok_def quiet_def)
qed

lemma got_ok:
  assumes "ports_ok env s" and "m \<in> msg_items s"
  shows "keeps env s (got env ct m s)"
proof -
  let ?s = "upd_msg m (\<lambda>k. k\<lparr>MESSAGE_SENT := False, MESSAGE_REPLIED := False\<rparr>) (unlink_msg m s)"
  have "loose env m ?s" by (rule loose_upd [OF unlink_loose [OF assms]])
  then have "ports_ok env (hold_msg env ct m ?s)" by (rule hold_ok) (simp add: flagged_def)
  moreover have "same_items s (hold_msg env ct m ?s)"
    by (rule same_items_trans [OF same_items_basic(2) same_items_trans [OF same_items_basic(1) same_items_basic(3)]])
  ultimately show ?thesis by (simp add: keeps_def got_def)
qed

lemma GetThisMsg_ok: "ports_ok env s \<Longrightarrow> m \<in> msg_items s \<Longrightarrow> keeps env s (snd (internalGetThisMsg env ct m s))"
  by (simp add: internalGetThisMsg_def Let_def keeps_refl got_ok)

lemma externalGetThisMsg_ok: "ports_ok env s \<Longrightarrow> keeps env s (snd (externalGetThisMsg env ct m s))"
  by (simp add: externalGetThisMsg_def keeps_refl GetThisMsg_ok)

lemma queued_item: "ports_ok env s \<Longrightarrow> m \<in> set (mp_Msgs (msgports s p)) \<Longrightarrow> m \<in> msg_items s \<and> p \<in> port_items s \<and> 0 < m"
  by (auto simp: ports_ok_def lists_ok_def items_ok_def)

lemma GetMsg_ok: "ports_ok env s \<Longrightarrow> keeps env s (snd (internalGetMsg env ct p s))"
  by (auto simp: internalGetMsg_def keeps_refl split: list.split intro!: got_ok dest: queued_item [where p = p])

lemma externalGetMsg_ok: "ports_ok env s \<Longrightarrow> keeps env s (snd (externalGetMsg env ct p s))"
  using GetMsg_ok [of env s ct p] by (simp add: externalGetMsg_def keeps_refl split_beta)

lemma waiting_keeps:
  assumes "ports_ok env s" and "\<And>p. w = WaitItem p \<Longrightarrow> p \<in> port_items s \<Longrightarrow> mp_Owner (msgports s p) = TaskItem env t \<Longrightarrow> mp_Msgs (msgports s p) = []"
  shows "keeps env s (s\<lparr>t_WaitItem := (t_WaitItem s)(t := w)\<rparr>)"
    and "keeps env s (s\<lparr>t_WaitItem := (t_WaitItem s)(t := w), ks := k\<rparr>)"
proof -
  have w: "keeps env s (s\<lparr>t_WaitItem := (t_WaitItem s)(t := w)\<rparr>)" using wait_ok(1) [OF assms(2) assms(1)] by (simp add: keeps_def)
  show "keeps env s (s\<lparr>t_WaitItem := (t_WaitItem s)(t := w)\<rparr>)" by (rule w)
  have "s\<lparr>t_WaitItem := (t_WaitItem s)(t := w), ks := k\<rparr> = (s\<lparr>t_WaitItem := (t_WaitItem s)(t := w)\<rparr>)\<lparr>ks := k\<rparr>" by simp
  then show "keeps env s (s\<lparr>t_WaitItem := (t_WaitItem s)(t := w), ks := k\<rparr>)"
    using keeps_placing [OF w other_placing(1)] by simp
qed

lemma WaitPort_ok:
  assumes "ports_ok env s"
  shows "keeps env s (snd (externalWaitPort env ct p m s))" and "keeps env s (snd (WaitPort_woken ct s))"
proof -
  have m: "m \<in> msg_items s \<Longrightarrow> m \<notin> port_items s" "- 1 \<notin> port_items s" for m
    using assms by (auto simp: ports_ok_def items_ok_def)
  show "keeps env s (snd (WaitPort_woken ct s))"
    unfolding WaitPort_woken_def snd_conv by (rule waiting_keeps(1) [OF assms]) (use m(2) in auto)
  have sleep: "keeps env s (s\<lparr>t_WaitItem := (t_WaitItem s)(ct := WaitItem i), ks := k\<rparr>)"
    if "i \<in> msg_items s \<or> mp_Msgs (msgports s i) = []" for i k
    by (rule waiting_keeps(2) [OF assms]) (use that m(1) in auto)
  have one: "keeps env s (snd (internalWaitPort env ct p (Some m) s))" if "m \<in> msg_items s"
    using that assms sleep [of m] GetThisMsg_ok [OF assms that, of ct] by (simp add: internalWaitPort_def split_beta)
  have any: "keeps env s (snd (internalWaitPort env ct p None s))"
    using assms sleep [of p] GetMsg_ok [OF assms, of ct p] by (simp add: internalWaitPort_def split_beta)
  show "keeps env s (snd (externalWaitPort env ct p m s))"
    using one any keeps_refl [OF assms] by (simp add: externalWaitPort_def)
qed


section \<open>Making and deleting keep the messages in place\<close>

text \<open>An item that no message, port or task has.\<close>

definition fresh_item :: "PortEnv \<Rightarrow> int \<Rightarrow> PortState \<Rightarrow> bool" where
  "fresh_item env i s \<longleftrightarrow> 0 < i \<and> i \<notin> msg_items s \<and> i \<notin> port_items s \<and> i \<notin> range (TaskItem env)"

lemma fresh_loose:
  assumes "ports_ok env s" and "fresh_item env m s"
  shows "loose env m (s\<lparr>msg_items := insert m (msg_items s)\<rparr>)"
proof -
  let ?s = "s\<lparr>msg_items := insert m (msg_items s)\<rparr>"
  have L: "lists_ok env s" "m \<notin> msg_items s" "items_ok env s" "quiet env s" "\<And>m'. m' \<in> msg_items s \<Longrightarrow> at_home env s m'"
    using assms by (auto simp: ports_ok_def fresh_item_def)
  then have n: "m \<notin> set (t_MessagesHeld s t)" "m \<notin> set (mp_Msgs (msgports s p))" for t p by (auto simp: lists_ok_def)
  have "at_home env ?s m' = at_home env s m'" "quiet env ?s = quiet env s" for m' by (simp_all add: at_home_def quiet_def)
  moreover have "lists_ok env ?s" using L(1) by (simp add: lists_ok_def)
  moreover have "items_ok env ?s" using L(3) assms(2) by (simp add: items_ok_def fresh_item_def)
  ultimately show ?thesis using L(4,5) n by (auto simp: loose_def)
qed

lemma process_tags_fields:
  "process_tags (icm_c b) ts k = Inr k' \<Longrightarrow> flagged k' = flagged k"
proof (induction ts arbitrary: k)
  case (Cons t ts)
  then show ?case by (cases t) (auto simp: flagged_def)
qed simp

lemma CreateMsg_ok:
  assumes "ports_ok env s" and "\<And>sz m a. alloc sz = Some (m, a) \<Longrightarrow> fresh_item env m s"
  shows "ports_ok env (snd (externalCreateMsg env ct alloc pr tags s))"
proof -
  have "ports_ok env (hold_msg env ct m (upd_msg m (\<lambda>_. k) (s\<lparr>msg_items := insert m (msg_items s)\<rparr>)))"
    if "alloc sz = Some (m, a)" and "process_tags (icm_c b) tags (new_msg o1 pr) = Inr k" for sz m a b k o1
  proof (rule hold_ok)
    show "loose env m (upd_msg m (\<lambda>_. k) (s\<lparr>msg_items := insert m (msg_items s)\<rparr>))"
      by (rule loose_upd [OF fresh_loose [OF assms(1) assms(2) [OF that(1)]]])
  qed (use process_tags_fields [OF that(2)] in \<open>simp add: flagged_def new_msg_def\<close>)
  then show ?thesis
    using assms(1) by (simp add: externalCreateMsg_def split_beta Let_def split: option.split sum.split)
qed

lemma abort_waiters_loose:
  assumes "loose env m s"
  shows "loose env m (abort_waiters env m s)"
proof -
  have "loose env m (foldl (\<lambda>s t. if t_WaitItem s t = WaitItem m
      then ready_task env t (s\<lparr>t_WaitItem := (t_WaitItem s)(t := WaitErr ABORTED)\<rparr>) else s) s ts)" if "loose env m s" for ts s
    using that
  proof (induction ts arbitrary: s)
    case (Cons t ts)
    have "loose env m (ready_task env t (s\<lparr>t_WaitItem := (t_WaitItem s)(t := WaitErr ABORTED)\<rparr>))"
      using wait_ok(2) [OF _ Cons.prems, of "WaitErr ABORTED" t] by (simp add: ports_ok_cong(2) [OF other_placing(5)])
    then show ?case using Cons.IH Cons.prems by simp
  qed simp
  then show ?thesis using assms by (simp add: abort_waiters_def)
qed

lemma DeleteMsg_ok:
  assumes "ports_ok env s" and "m \<in> msg_items s"
  shows "ports_ok env ((internalDeleteMsg env m s)\<lparr>msg_items := msg_items s - {m}\<rparr>)"
proof -
  let ?s = "internalDeleteMsg env m s"
  have L: "loose env m ?s"
    unfolding internalDeleteMsg_def by (intro abort_waiters_loose loose_upd unlink_loose assms)
  have "msg_items (foldl (\<lambda>s t. if t_WaitItem s t = WaitItem m
      then ready_task env t (s\<lparr>t_WaitItem := (t_WaitItem s)(t := WaitErr ABORTED)\<rparr>) else s) s ts) = msg_items s" for ts s
    by (induction ts arbitrary: s) auto
  then have i: "msg_items s = msg_items ?s" by (simp add: internalDeleteMsg_def abort_waiters_def)
  let ?t = "?s\<lparr>msg_items := msg_items ?s - {m}\<rparr>"
  have h: "at_home env ?t m' = at_home env ?s m'" "quiet env ?t = quiet env ?s" for m' by (simp_all add: at_home_def quiet_def)
  have n: "m \<notin> set (t_MessagesHeld ?s t)" "m \<notin> set (mp_Msgs (msgports ?s p))" for t p using L by (simp_all add: loose_def)
  have "lists_ok env ?t" using L n by (auto simp: loose_def lists_ok_def)
  moreover have "items_ok env ?t" using L by (simp add: loose_def items_ok_def)
  ultimately show ?thesis using L unfolding i ports_ok_def h by (simp add: loose_def)
qed


lemma ks_keeps: "ports_ok env s \<Longrightarrow> keeps env s (s\<lparr>ks := k\<rparr>)"
  by (rule keeps_placing [OF keeps_refl]) simp_all

lemma process_port_tags: "process_tags icmp_c ts k = Inr k' \<Longrightarrow> mp_Owner k' = mp_Owner k"
proof (induction ts arbitrary: k)
  case (Cons t ts)
  then show ?case by (cases t) auto
qed simp

lemma publish_ok:
  assumes "ports_ok env s" and "fresh_item env p s"
  shows "ports_ok env (publish_port p k s)"
proof -
  let ?s = "publish_port p k s"
  have L: "lists_ok env s" "items_ok env s" "quiet env s" "\<And>m. m \<in> msg_items s \<Longrightarrow> at_home env s m" and p: "p \<notin> port_items s"
    using assms by (auto simp: ports_ok_def fresh_item_def)
  have e: "mp_Msgs (msgports s p) = []"
    using L(1) p by (cases "mp_Msgs (msgports s p)") (auto simp: lists_ok_def, metis list.set_intros(1))
  have q: "mp_Msgs (msgports ?s q) = mp_Msgs (msgports s q)" for q using e by (simp add: publish_port_def)
  have sel: "messages ?s = messages s" "t_MessagesHeld ?s = t_MessagesHeld s" "t_WaitItem ?s = t_WaitItem s" "msg_items ?s = msg_items s"
    "port_items ?s = insert p (port_items s)" "q \<noteq> p \<Longrightarrow> msgports ?s q = msgports s q" for q
    by (simp_all add: publish_port_def)
  have "lists_ok env ?s" using L(1) unfolding lists_ok_def q sel by blast
  moreover have "at_home env ?s m" if "m \<in> msg_items s" for m using L(4) [OF that] unfolding at_home_def q sel Let_def by auto
  moreover have "quiet env ?s" using L(3) e sel unfolding quiet_def q by (metis insert_iff)
  moreover have "items_ok env ?s" using L(2) assms(2) unfolding items_ok_def fresh_item_def sel by auto
  ultimately show ?thesis by (simp add: ports_ok_def sel)
qed

lemma CreateMsgPort_ok:
  assumes "ports_ok env s" and "fresh_item env p s"
  shows "ports_ok env (snd (internalCreateMsgPort env ct p k tags s))"
proof -
  have "ports_ok env (publish_port p k' (s\<lparr>ks := k2\<rparr>))" for k' k2
    by (rule publish_ok) (use ks_keeps [OF assms(1)] assms(2) in \<open>simp_all add: keeps_def fresh_item_def\<close>)
  then show ?thesis
    using publish_ok [OF assms] assms(1) ks_keeps [OF assms(1)]
    by (simp add: internalCreateMsgPort_def keeps_def split_beta split: sum.split prod.split)
qed

text \<open>\<open>SetItemOwner\<close> of a port, which records the new owner when the routine of the folio succeeds.\<close>

definition give_port :: "PortEnv \<Rightarrow> task \<Rightarrow> int \<Rightarrow> task \<Rightarrow> PortState \<Rightarrow> PortState" where
  "give_port env ct p new s =
     (case internalSetMsgPortOwner env ct p new s of
        (Inl e, s) \<Rightarrow> s
      | (Inr _, s) \<Rightarrow> upd_port p (\<lambda>k. k\<lparr>mp_Owner := TaskItem env new\<rparr>) s)"

lemma give_port_ok:
  assumes "ports_ok env s"
  shows "ports_ok env (give_port env ct p new s)"
proof -
  have "ports_ok env (upd_port p f s')" if "ports_ok env s'" and "mp_Msgs (msgports s' p) = []" and "\<And>k. mp_Msgs (f k) = mp_Msgs k" for f s'
  proof -
    let ?s = "upd_port p f s'"
    have sel: "messages ?s = messages s'" "t_MessagesHeld ?s = t_MessagesHeld s'" "t_WaitItem ?s = t_WaitItem s'" "msg_items ?s = msg_items s'"
      "port_items ?s = port_items s'" "mp_Msgs (msgports ?s q) = mp_Msgs (msgports s' q)" for q
      using that(3) by (simp_all add: upd_port_def)
    have "quiet env ?s" using that(1,2) unfolding ports_ok_def quiet_def by (auto simp: upd_port_def that(3))
    then show ?thesis using that(1) unfolding ports_ok_def lists_ok_def items_ok_def at_home_def Let_def sel by blast
  qed
  note U = this
  have "ports_ok env (s\<lparr>ks := k\<rparr>)" for k using ks_keeps [OF assms] by (simp add: keeps_def)
  then have "ports_ok env (upd_port p f (s\<lparr>ks := k\<rparr>))" if "mp_Msgs (msgports s p) = []" "\<And>k. mp_Msgs (f k) = mp_Msgs k" for f k
    using U that by simp
  moreover have "(upd_port p f s)\<lparr>ks := k\<rparr> = upd_port p f (s\<lparr>ks := k\<rparr>)" "upd_port p f (upd_port p g s) = upd_port p (\<lambda>k. f (g k)) s"
    for f g k s by (simp_all add: upd_port_def)
  ultimately show ?thesis
    using assms ks_keeps [OF assms]
    by (simp add: give_port_def internalSetMsgPortOwner_def keeps_def split_beta Let_def split: sum.split)
qed

section \<open>Deleting a port\<close>

lemmas return_messages_induct = return_messages.raw_induct [rotated, consumes 1, case_names step]

lemma return_messages_ok:
  assumes "return_messages env ct p taskItem s = Some s'" and "ports_ok env s"
  shows "keeps env s s' \<and> mp_Msgs (msgports s' p) = []"
  using assms
proof (induction rule: return_messages_induct)
  case (step f env ct p taskItem s s')
  obtain m s1 where G: "internalGetMsg env ct p s = (m, s1)" by fastforce
  have k1: "keeps env s s1" using GetMsg_ok [OF step.prems(1), of ct p] G by simp
  show ?case
  proof (cases "mp_Msgs (msgports s p)")
    case Nil
    then show ?thesis using step.hyps G keeps_refl [OF step.prems(1)] by (auto simp: internalGetMsg_def)
  next
    case (Cons x xs)
    then have m: "m \<in> msg_items s" "m \<noteq> 0" using G queued_item [OF step.prems(1), of m p] by (auto simp: internalGetMsg_def)
    obtain s2 where s2: "keeps env s1 s2" "f env ct p taskItem s2 = Some s'"
    proof (cases "msg_Owner (messages s1 m) = taskItem")
      case False
      have "keeps env s1 (snd (internalReplyMsg env ct m (- 1) 0 0 s1))"
        using ReplyMsg_internal_ok m(1) k1 by (simp add: keeps_def same_items_def)
      then show ?thesis using that False step.hyps G m(2) by simp
    next
      case True
      then have "f env ct p taskItem s1 = Some s'" using step.hyps G m(2) by simp
      then show ?thesis using k1 by (intro that [of s1] keeps_refl) (simp_all add: keeps_def)
    qed
    have "keeps env s2 s' \<and> mp_Msgs (msgports s' p) = []" by (rule step.IH [OF s2(2)]) (use s2(1) in \<open>simp add: keeps_def\<close>)
    then show ?thesis using keeps_trans [OF keeps_trans [OF k1 s2(1)]] by blast
  qed
qed


text \<open>A reply cannot add to a port that is being deleted, so the loop ends.\<close>

lemma SetItemOwner_msgports:
  "externalSetItemOwner env ct m newOwner s = (r, s') \<Longrightarrow> msgports s' = msgports s \<or> msgports s' = msgports (unlink_msg m s)"
  by (auto simp: externalSetItemOwner_def internalSetMsgOwner_def hold_msg_def split: option.splits if_splits)

lemma hand_over_msgports:
  "hand_over env t q m reply s = (r, s') \<Longrightarrow> p \<noteq> q \<Longrightarrow> mp_Msgs (msgports s' p) = mp_Msgs (msgports s p)"
  by (auto simp: hand_over_def hold_msg_def queue_msg_def upd_port_def Let_def split_beta split: if_splits)

lemma unlink_msgports: "length (mp_Msgs (msgports (unlink_msg m s) p)) \<le> length (mp_Msgs (msgports s p))"
  by (simp add: unlink_msg_def length_remove1)

lemma DeliverMsg_shrinks:
  assumes "p \<noteq> q"
  shows "length (mp_Msgs (msgports (snd (internalDeliverMsg env ct q m a n reply super s)) p)) \<le> length (mp_Msgs (msgports s p))"
proof -
  obtain r1 s1 where O: "(if msg_ReplyPort (messages s m) = 0 then externalSetItemOwner env ct m (mp_Owner (msgports s q)) s
      else (Inr (), s)) = (r1, s1)" by fastforce
  have s1: "length (mp_Msgs (msgports s1 p)) \<le> length (mp_Msgs (msgports s p))"
    using O SetItemOwner_msgports [of env ct m "mp_Owner (msgports s q)" s r1 s1] unlink_msgports [of m s p]
    by (auto split: if_splits)
  have h: "length (mp_Msgs (msgports (snd (hand_over env t q m reply (unlink_msg m s1))) p)) \<le> length (mp_Msgs (msgports s p))" for t
    using hand_over_msgports [OF _ assms, of env t m reply "unlink_msg m s1"] unlink_msgports [of m s1 p] s1
    by (metis order_trans prod.collapse)
  show ?thesis
    using s1 h O by (cases r1; cases super; cases "LookupTask env (mp_Owner (msgports s1 q))")
      (simp_all add: internalDeliverMsg_def split_beta del: Let_def)
qed

lemma ReplyMsg_shrinks:
  assumes "mp_Deleted (msgports s p)"
  shows "length (mp_Msgs (msgports (snd (internalReplyMsg env ct m r a n s)) p)) \<le> length (mp_Msgs (msgports s p))"
proof (cases "msg_ReplyPort (messages s m) = p")
  case True
  then show ?thesis using assms by (simp add: internalReplyMsg_def internalDeliverMsg_def Let_def)
next
  case False
  then show ?thesis using DeliverMsg_shrinks [of p "msg_ReplyPort (messages s m)" env ct m a n True False "upd_msg m (\<lambda>k. k\<lparr>msg_Result := r\<rparr>) s"]
    by (simp add: internalReplyMsg_def Let_def)
qed

lemma return_messages_ends:
  assumes "ports_ok env s" and "mp_Deleted (msgports s p)"
  shows "\<exists>s'. return_messages env ct p taskItem s = Some s'"
  using assms
proof (induction "length (mp_Msgs (msgports s p))" arbitrary: s rule: less_induct)
  case less
  show ?case
  proof (cases "mp_Msgs (msgports s p)")
    case Nil
    then show ?thesis by (subst return_messages.simps) (simp add: internalGetMsg_def)
  next
    case (Cons m ms)
    let ?s = "got env ct m s"
    have m: "m \<in> msg_items s" "m \<noteq> 0" using queued_item [OF less.prems(1), of m p] Cons by auto
    have k: "keeps env s ?s" by (rule got_ok [OF less.prems(1) m(1)])
    have l: "length (mp_Msgs (msgports ?s p)) < length (mp_Msgs (msgports s p))"
      using Cons by (simp add: got_def hold_msg_def unlink_msg_def)
    let ?r = "snd (internalReplyMsg env ct m (- 1) 0 0 ?s)"
    have r: "keeps env ?s ?r" "length (mp_Msgs (msgports ?r p)) \<le> length (mp_Msgs (msgports ?s p))"
      using k m(1) less.prems(2) by (intro ReplyMsg_internal_ok ReplyMsg_shrinks; simp add: keeps_def same_items_def)+
    have G: "internalGetMsg env ct p s = (m, ?s)" using Cons by (simp add: internalGetMsg_def)
    have "\<exists>s'. return_messages env ct p taskItem ?s = Some s'"
      by (rule less.hyps [OF l]) (use k less.prems(2) in \<open>simp_all add: keeps_def same_items_def\<close>)
    moreover have "\<exists>s'. return_messages env ct p taskItem ?r = Some s'"
      by (rule less.hyps) (use k r l less.prems(2) in \<open>simp_all add: keeps_def same_items_def\<close>)
    ultimately show ?thesis using G m(2) by (subst return_messages.simps) simp
  qed
qed

lemma DeleteMsgPort_ok:
  assumes "internalDeleteMsgPort env ct p taskItem s = Some s'" and "ports_ok env s"
  shows "ports_ok env (s'\<lparr>port_items := port_items s - {p}\<rparr>)"
proof -
  let ?s = "s\<lparr>kb_MsgPorts := remove1 p (kb_MsgPorts s)\<rparr>"
  have s0: "ports_ok env ?s" using assms(2) ports_ok_cong(1) [OF other_placing(4)] by simp
  obtain s1 where R: "return_messages env ct p taskItem ?s = Some s1" and s': "s' = s1 \<or> (\<exists>k. s' = s1\<lparr>ks := k\<rparr>)"
    using assms(1) by (auto simp: internalDeleteMsgPort_def split: option.splits if_splits)
  note K = return_messages_ok [OF R s0]
  have k: "keeps env s1 s'" using s' keeps_refl ks_keeps K by (auto simp: keeps_def)
  have S: "ports_ok env s'" "port_items s' = port_items s" using k K by (auto simp: keeps_def same_items_def)
  have e: "mp_Msgs (msgports s' p) = []" using s' K by auto
  let ?t = "s'\<lparr>port_items := port_items s' - {p}\<rparr>"
  have L: "lists_ok env s'" "items_ok env s'" "quiet env s'" "\<And>m. m \<in> msg_items s' \<Longrightarrow> at_home env s' m" using S(1) by (auto simp: ports_ok_def)
  have "lists_ok env ?t" using L(1) e unfolding lists_ok_def by auto
  moreover have "at_home env ?t m" if "m \<in> msg_items s'" for m using L(4) [OF that] e by (auto simp: at_home_def Let_def split: if_splits)
  moreover have "quiet env ?t" using L(3) unfolding quiet_def by auto
  moreover have "items_ok env ?t" using L(2) unfolding items_ok_def by auto
  ultimately show ?thesis unfolding S(2) [symmetric] by (simp add: ports_ok_def)
qed


lemma first_reply_ok:
  assumes "ports_ok env s" and "set ms \<subseteq> msg_items s"
  shows "keeps env s (snd (first_reply env ct ms s))"
  using assms
proof (induction ms arbitrary: s)
  case (Cons m ms)
  obtain r s1 where R: "internalReplyMsg env ct m (- 2) 0 0 s = (r, s1)" by fastforce
  have k: "keeps env s s1" using ReplyMsg_internal_ok [OF Cons.prems(1), of m ct "- 2" 0 0] Cons.prems(2) R by simp
  then have "keeps env s1 (snd (first_reply env ct ms s1))"
    by (intro Cons.IH) (use Cons.prems(2) keeps_items [OF k] in \<open>simp_all add: keeps_def\<close>)
  then show ?case using k keeps_trans [OF k] R by (cases r) simp_all
qed (simp add: keeps_refl)

lemmas ReplyHeldMessages_induct = ReplyHeldMessages.raw_induct [rotated, consumes 1, case_names step]

lemma ReplyHeldMessages_ok:
  assumes "ReplyHeldMessages env ct t s = Some s'" and "ports_ok env s"
  shows "keeps env s s'"
  using assms
proof (induction rule: ReplyHeldMessages_induct)
  case (step f env ct t s s')
  obtain again s1 where F: "first_reply env ct (t_MessagesHeld s t) s = (again, s1)" by fastforce
  have "set (t_MessagesHeld s t) \<subseteq> msg_items s" using step.prems by (auto simp: ports_ok_def lists_ok_def)
  then have k: "keeps env s s1" using first_reply_ok [OF step.prems, of "t_MessagesHeld s t" ct] F by simp
  show ?case
  proof (cases again)
    case True
    then have "keeps env s1 s'" using step.hyps F k by (intro step.IH) (simp_all add: keeps_def)
    then show ?thesis by (rule keeps_trans [OF k])
  qed (use step.hyps F k in simp)
qed


section \<open>Every interleaving\<close>

text \<open>
  One operation of any task. The item routines around creation, deletion and change of owner are the
  parts of \<open>item.c\<close> that make an item known, mark it as going away and forget it. The scheduler
  and the signals may change the kernel state at any time.
\<close>

inductive msg_step :: "PortEnv \<Rightarrow> PortState \<Rightarrow> PortState \<Rightarrow> bool" for env where
  send: "msg_step env s (snd (externalSendMsg env ct p m a n s))"
| reply: "msg_step env s (snd (externalReplyMsg env ct m r a n s))"
| get_this: "msg_step env s (snd (externalGetThisMsg env ct m s))"
| get: "msg_step env s (snd (externalGetMsg env ct p s))"
| wait: "msg_step env s (snd (externalWaitPort env ct p m s))"
| woken: "msg_step env s (snd (WaitPort_woken ct s))"
| create_msg: "(\<And>sz m a. alloc sz = Some (m, a) \<Longrightarrow> fresh_item env m s) \<Longrightarrow> msg_step env s (snd (externalCreateMsg env ct alloc pr tags s))"
| delete_msg: "m \<in> msg_items s \<Longrightarrow> msg_step env s ((internalDeleteMsg env m s)\<lparr>msg_items := msg_items s - {m}\<rparr>)"
| set_owner: "m \<in> msg_items s \<Longrightarrow> msg_step env s (snd (externalSetItemOwner env ct m newOwner s))"
| create_port: "fresh_item env p s \<Longrightarrow> msg_step env s (snd (internalCreateMsgPort env ct p k tags s))"
| mark_port: "msg_step env s (upd_port p (\<lambda>k. k\<lparr>mp_Deleted := True\<rparr>) s)"
| delete_port: "internalDeleteMsgPort env ct p taskItem s = Some s' \<Longrightarrow> msg_step env s (s'\<lparr>port_items := port_items s - {p}\<rparr>)"
| give: "msg_step env s (give_port env ct p new s)"
| reply_held: "ReplyHeldMessages env ct t s = Some s' \<Longrightarrow> msg_step env s s'"
| kernel: "msg_step env s (s\<lparr>ks := k\<rparr>)"

inductive_cases msg_stepE: "msg_step env s s'"

lemma mark_ok: "ports_ok env s \<Longrightarrow> ports_ok env (upd_port p (\<lambda>k. k\<lparr>mp_Deleted := True\<rparr>) s)"
  by (subst ports_ok_cong(1)) (auto simp: placing_def upd_port_def fun_eq_iff)

lemma msg_step_ok: "msg_step env s s' \<Longrightarrow> ports_ok env s \<Longrightarrow> ports_ok env s'"
proof (induction rule: msg_step.induct)
  case (set_owner m s ct newOwner)
  then show ?case using SetItemOwner_ok [OF set_owner(2,1) prod.collapse [symmetric]] by blast
qed (use SendMsg_ok ReplyMsg_ok externalGetThisMsg_ok externalGetMsg_ok WaitPort_ok ReplyHeldMessages_ok ks_keeps
      in \<open>auto simp: keeps_def intro: CreateMsg_ok DeleteMsg_ok CreateMsgPort_ok DeleteMsgPort_ok give_port_ok mark_ok\<close>)

lemma msg_steps_ok: "(msg_step env)\<^sup>*\<^sup>* s s' \<Longrightarrow> ports_ok env s \<Longrightarrow> ports_ok env s'"
  by (induction rule: rtranclp_induct) (auto intro: msg_step_ok)

text \<open>A place is a queue (on the left) or the list of a task (on the right).\<close>

definition placed :: "PortState \<Rightarrow> int \<Rightarrow> int + task \<Rightarrow> bool" where
  "placed s m w = (m \<in> set (case w of Inl p \<Rightarrow> mp_Msgs (msgports s p) | Inr t \<Rightarrow> t_MessagesHeld s t))"

lemma placed_home:
  assumes "ports_ok env s" and "m \<in> msg_items s"
  shows "\<exists>w. (\<forall>v. placed s m v \<longleftrightarrow> v = w) \<and> (case w of
      Inl p \<Rightarrow> flagged (messages s m) \<and> p \<in> port_items s \<and> msg_Holder (messages s m) = p
    | Inr t \<Rightarrow> \<not> flagged (messages s m) \<and> msg_Holder (messages s m) = TaskItem env t)"
proof -
  let ?h = "msg_Holder (messages s m)"
  have A: "at_home env s m" "inj (TaskItem env)" and L: "lists_ok env s" using assms by (auto simp: ports_ok_def items_ok_def)
  have q: "m \<in> set (mp_Msgs (msgports s p)) \<Longrightarrow> flagged (messages s m) \<and> ?h = p" for p
    using L by (auto simp: lists_ok_def)
  have h: "m \<in> set (t_MessagesHeld s t) \<Longrightarrow> \<not> flagged (messages s m) \<and> ?h = TaskItem env t" for t
    using L by (auto simp: lists_ok_def)
  show ?thesis
  proof (cases "flagged (messages s m)")
    case True
    then have h1: "?h \<in> port_items s" "m \<in> set (mp_Msgs (msgports s ?h))" using A(1) by (simp_all add: at_home_def Let_def)
    have l: "placed s m (Inl p) \<longleftrightarrow> p = ?h" for p unfolding placed_def sum.case using q [of p] h1(2) by blast
    have r: "\<not> placed s m (Inr t)" for t unfolding placed_def sum.case using True h [of t] by blast
    have "placed s m v \<longleftrightarrow> v = Inl ?h" for v by (cases v) (simp_all add: l r)
    then show ?thesis using True h1(1) by (intro exI [of _ "Inl ?h"]) simp
  next
    case False
    then obtain t where t: "?h = TaskItem env t" "m \<in> set (t_MessagesHeld s t)"
      using A(1) unfolding at_home_def Let_def if_not_P [OF False] by blast
    have "m \<in> set (t_MessagesHeld s b) \<Longrightarrow> b = t" for b using h [of b] t(1) A(2) unfolding inj_def by metis
    then have r: "placed s m (Inr b) \<longleftrightarrow> b = t" for b unfolding placed_def sum.case using t(2) by blast
    have l: "\<not> placed s m (Inl p)" for p unfolding placed_def sum.case using False q [of p] by blast
    have "placed s m v \<longleftrightarrow> v = Inr t" for v by (cases v) (simp_all add: l r)
    then show ?thesis using False t(1) by (intro exI [of _ "Inr t"]) simp
  qed
qed

section \<open>Properties\<close>

text \<open>C34: in every interleaving of the message operations a message is in one place, the one that its
  holder field names: the queue of that port if it is marked as sent or replied, otherwise
  the list of messages held by that task. No task waits for a port of its own while messages are queued there. Deleting
  a port that is marked as going away always ends, whatever messages and reply ports there are.\<close>

theorem messages_one_place:
  assumes "ports_ok env s0" and "(msg_step env)\<^sup>*\<^sup>* s0 s"
  shows "(m \<in> msg_items s \<longrightarrow> (\<exists>w. (\<forall>v. placed s m v \<longleftrightarrow> v = w) \<and> (case w of
        Inl p \<Rightarrow> flagged (messages s m) \<and> p \<in> port_items s \<and> msg_Holder (messages s m) = p
      | Inr t \<Rightarrow> \<not> flagged (messages s m) \<and> msg_Holder (messages s m) = TaskItem env t)))
    \<and> (t_WaitItem s t = WaitItem p \<and> p \<in> port_items s \<and> mp_Owner (msgports s p) = TaskItem env t \<longrightarrow> mp_Msgs (msgports s p) = [])
    \<and> (mp_Deleted (msgports s p) \<longrightarrow> (\<exists>s'. internalDeleteMsgPort env ct p taskItem s = Some s'))"
proof (intro conjI impI)
  have ok: "ports_ok env s" by (rule msg_steps_ok [OF assms(2,1)])
  show "mp_Msgs (msgports s p) = []"
    if "t_WaitItem s t = WaitItem p \<and> p \<in> port_items s \<and> mp_Owner (msgports s p) = TaskItem env t"
    using ok that unfolding ports_ok_def quiet_def by blast
  show "\<exists>s'. internalDeleteMsgPort env ct p taskItem s = Some s'" if "mp_Deleted (msgports s p)"
    using return_messages_ends [of env "s\<lparr>kb_MsgPorts := remove1 p (kb_MsgPorts s)\<rparr>" p ct taskItem] that ok
      ports_ok_cong(1) [OF other_placing(4), where env = env] by (auto simp: internalDeleteMsgPort_def)
qed (rule placed_home [OF msg_steps_ok [OF assms(2,1)]])


definition example_env :: PortEnv where
  "example_env = \<lparr>pe_clock = (\<lambda>_. 0), TaskItem = (\<lambda>t. uint t + 1000),
     LookupTask = (\<lambda>i. if i = 1001 then Some 1 else if i = 1002 then Some 2 else None),
     SameTaskFamily = (=), PrivTask = (\<lambda>_. False), MemReadable = (\<lambda>_ _. True), slot_free = True\<rparr>"

text \<open>Message 7 is held by task 2, its reply port is 6; task 1 owns port 5, task 2 port 6.\<close>

definition example_ports :: PortState where
  "example_ports = \<lparr>ks = example_waiting, msg_items = {7}, port_items = {5, 6},
     messages = (\<lambda>_. (new_msg 1002 100)\<lparr>msg_Holder := 1002, msg_ReplyPort := 6, MESSAGE_SMALL := True\<rparr>),
     msgports = (\<lambda>p. \<lparr>mp_Owner = if p = 5 then 1001 else 1002, mp_Priority = 0, mp_Deleted = p = 6, MSGPORT_SIGNAL_ALLOCATED = True,
                     mp_Signal = 0x100, mp_Msgs = [], mp_UserData = 0\<rparr>),
     t_MessagesHeld = (\<lambda>t. if t = 2 then [7] else []), t_WaitItem = (\<lambda>_. WaitItem (- 1)),
     kb_MsgPorts = [5, 6], kb_AllTasks = [1, 2, 3], bytes = (\<lambda>_. 0)\<rparr>"

lemma example_lookup: "LookupTask example_env 1001 = Some 1" "LookupTask example_env 1002 = Some 2" "TaskItem example_env 2 = 1002"
  by (simp_all add: example_env_def)

lemma example_ports_ok: "ports_ok example_env example_ports"
proof -
  have ge: "1000 \<le> TaskItem example_env t" for t by (simp add: example_env_def)
  have "p \<notin> range (TaskItem example_env)" if "p < 1000" for p using ge that by (metis rangeE not_le)
  moreover have "inj (TaskItem example_env)" by (auto simp: inj_def example_env_def word_uint_eq_iff)
  moreover have "LookupTask example_env i = Some t \<Longrightarrow> TaskItem example_env t = i" for i t
    by (auto simp: example_env_def split: if_splits)
  ultimately have "items_ok example_env example_ports" by (auto simp: items_ok_def example_ports_def)
  moreover have "at_home example_env example_ports 7"
    by (auto simp: at_home_def example_ports_def flagged_def new_msg_def Let_def example_env_def intro!: exI [of _ 2])
  moreover have "lists_ok example_env example_ports" by (auto simp: lists_ok_def example_ports_def flagged_def new_msg_def example_env_def)
  moreover have "quiet example_env example_ports" by (auto simp: quiet_def example_ports_def)
  moreover have "msg_items example_ports = {7}" by (simp add: example_ports_def)
  ultimately show ?thesis by (simp add: ports_ok_def)
qed

lemma example_sent:
  "mp_Msgs (msgports (snd (externalSendMsg example_env 2 5 7 0 3 example_ports)) 5) = [7]"
  by (simp add: externalSendMsg_def check_data_def check_holder_def internalDeliverMsg_def hand_over_def unlink_msg_def queue_msg_def
      upd_msg_def upd_port_def enqueue_def insert_at_def put_data_def new_msg_def example_ports_def example_lookup split_beta Let_def)

theorem messages_one_place_witness:
  "let s = snd (externalSendMsg example_env 2 5 7 0 3 example_ports) in
   (\<exists>w. \<forall>v. placed s 7 v \<longleftrightarrow> v = w) \<and> placed s 7 (Inl 5)"
proof -
  let ?s = "snd (externalSendMsg example_env 2 5 7 0 3 example_ports)"
  have "(msg_step example_env)\<^sup>*\<^sup>* example_ports ?s" by (rule r_into_rtranclp, rule msg_step.send)
  note P = messages_one_place [OF example_ports_ok this, where m = 7 and t = 0 and p = 0 and ct = 0 and taskItem = 0]
  have "7 \<in> msg_items ?s" using keeps_items [OF SendMsg_ok [OF example_ports_ok]] by (simp add: example_ports_def)
  with P obtain w where w: "\<forall>v. placed ?s 7 v \<longleftrightarrow> v = w" by blast
  have "placed ?s 7 (Inl 5)" using example_sent by (simp add: placed_def)
  then show ?thesis using w unfolding Let_def by blast
qed


lemma upd_msg_bytes [simp]: "bytes (upd_msg m f s) = bytes s"
  by (simp add: upd_msg_def)

lemma enqueue_filter:
  assumes "sorted_wrt (\<lambda>x y. msg_Priority (messages s y) \<le> msg_Priority (messages s x)) q"
    and "\<And>x. msg_Priority (messages s' x) = msg_Priority (messages s x)"
  shows "\<exists>hi lo. q = hi @ lo \<and> enqueue m q s' = hi @ m # lo
    \<and> (\<forall>x \<in> set hi. msg_Priority (messages s m) \<le> msg_Priority (messages s x))
    \<and> (\<forall>x \<in> set lo. msg_Priority (messages s x) < msg_Priority (messages s m))"
proof -
  let ?f = "\<lambda>x. msg_Priority (messages s m) \<le> msg_Priority (messages s x)"
  have "takeWhile ?f q = filter ?f q \<and> dropWhile ?f q = filter (\<lambda>x. \<not> ?f x) q"
    using sorted_takeWhile_filter [OF assms(1), of ?f] by (meson order_trans)
  then have "q = filter ?f q @ filter (\<lambda>x. msg_Priority (messages s x) < msg_Priority (messages s m)) q"
    by (metis (no_types, lifting) filter_cong not_le takeWhile_dropWhile_id)
  moreover have "enqueue m q s' = filter ?f q @ m # filter (\<lambda>x. msg_Priority (messages s x) < msg_Priority (messages s m)) q"
    unfolding enqueue_def assms(2) by (rule insert_both_filter(1) [OF assms(1)])
  ultimately show ?thesis
    by (intro exI [of _ "filter ?f q"] exI [of _ "filter (\<lambda>x. msg_Priority (messages s x) < msg_Priority (messages s m)) q"] conjI) auto
qed

text \<open>C35: sending. A message that the sender holds and that has a reply port, sent to a port that is not going away, goes
  straight to the owner of the port if that task waits for the port or for this message: it then holds the
  message, is no longer asleep, and its \<open>WaitPort\<close> returns the message. Otherwise the
  message joins the queue behind all messages of its priority or a higher one, marked as sent, and the owner is sent the
  signal of the port. In both cases the data is recorded, or copied for a message passed by value, and no other message
  moves.\<close>

theorem SendMsg_delivers:
  assumes "ports_ok env s" and "p \<in> port_items s" and "m \<in> msg_items s" and "\<not> mp_Deleted (msgports s p)"
    and "check_data env (messages s m) a n = Inr ()" and "check_holder env ct (messages s m) = Inr ()"
    and "msg_ReplyPort (messages s m) \<noteq> 0" and "\<not> flagged (messages s m)"
    and "LookupTask env (mp_Owner (msgports s p)) = Some t" and "externalSendMsg env ct p m a n s = (r, s')"
  shows "(if t_WaitItem s t = WaitItem p \<or> t_WaitItem s t = WaitItem m
      then r = Inr () \<and> placed s' m (Inr t) \<and> \<not> TASK_WAITING (tcb (ks s') t) \<and> fst (WaitPort_woken t s') = WaitItem m
      else (\<exists>hi lo. mp_Msgs (msgports s p) = hi @ lo \<and> mp_Msgs (msgports s' p) = hi @ m # lo
          \<and> (\<forall>x \<in> set hi. msg_Priority (messages s m) \<le> msg_Priority (messages s x))
          \<and> (\<forall>x \<in> set lo. msg_Priority (messages s x) < msg_Priority (messages s m)))
        \<and> MESSAGE_SENT (messages s' m) \<and> (r, ks s') = internalSignal (pe_clock env) t (mp_Signal (msgports s p)) (ks s))
    \<and> msg_DataSize (messages s' m) = n \<and> msg_Result (messages s' m) = 0
    \<and> (if MESSAGE_PASS_BY_VALUE (messages s m)
        then msg_DataPtr (messages s' m) = msg_DataPtr (messages s m) \<and> bytes s' = memcpy (msg_DataPtr (messages s m)) a n (bytes s)
        else msg_DataPtr (messages s' m) = a \<and> bytes s' = bytes s)
    \<and> (\<forall>m'. m' \<noteq> m \<longrightarrow> messages s' m' = messages s m')"
proof -
  let ?s = "upd_msg m (\<lambda>k. k\<lparr>msg_Result := 0\<rparr>) s"
  let ?u = "unlink_msg m ?s"
  have mp: "0 < m" "0 < p" "lists_ok env s" using assms(1-3) by (auto simp: ports_ok_def items_ok_def)
  have nq: "m \<notin> set (mp_Msgs (msgports s q))" for q using mp(3) assms(8) by (auto simp: lists_ok_def)
  have u: "msgports ?u = msgports s" "t_WaitItem ?u = t_WaitItem s" "ks ?u = ks s" "bytes ?u = bytes s"
    "messages ?u = (messages s)(m := (messages s m)\<lparr>msg_Result := 0\<rparr>)"
    using nq by (simp_all add: unlink_msg_def upd_msg_def remove1_idem)
  obtain s2 where H: "hand_over env t p m False ?u = (r, s2)" and s': "s' = put_data m a n s2"
    using assms(2-10) by (cases "hand_over env t p m False ?u") (simp add: externalSendMsg_def internalDeliverMsg_def flagged_def split_beta Let_def)
  show ?thesis
  proof (cases "t_WaitItem s t = WaitItem p \<or> t_WaitItem s t = WaitItem m")
    case True
    obtain s1 where s1: "r = Inr ()" "s2 = ready_task env t (hold_msg env t m s1)" "t_WaitItem s1 t = WaitItem m"
      "messages s1 = messages ?u" "bytes s1 = bytes ?u"
      using H True mp(1,2) u by (auto simp: hand_over_def Let_def split: if_splits)
    then have "placed s' m (Inr t)" "\<not> TASK_WAITING (tcb (ks s') t)" "fst (WaitPort_woken t s') = WaitItem m"
      unfolding s' by (simp_all add: placed_def hold_msg_def WaitPort_woken_def NewReadyTask_not_waiting ready_task_def)
    moreover have "bytes (ready_task env t (hold_msg env t m s1)) = bytes s"
      "messages (ready_task env t (hold_msg env t m s1)) = (messages s)(m := (messages s m)\<lparr>msg_Result := 0, msg_Holder := TaskItem env t\<rparr>)"
      using s1 u(4,5) by (simp_all add: hold_msg_def ready_task_def)
    ultimately show ?thesis using True s1(1) unfolding s' s1(2) by (simp add: put_data_def Let_def)
  next
    case False
    let ?q = "queue_msg p m False ?u"
    have s2: "s2 = ?q\<lparr>ks := ks s2\<rparr>" "(r, ks s2) = internalSignal (pe_clock env) t (mp_Signal (msgports s p)) (ks s)"
      using H False u(1,2,3)
      by (auto simp: hand_over_def Let_def split_beta queue_msg_def upd_port_def upd_msg_def split: if_splits)
    have sorted: "sorted_wrt (\<lambda>x y. msg_Priority (messages s y) \<le> msg_Priority (messages s x)) (mp_Msgs (msgports s p))"
      using mp(3) by (simp add: lists_ok_def)
    have M: "messages ?q = (messages s)(m := (messages s m)\<lparr>msg_Result := 0, MESSAGE_SENT := True, msg_Holder := p\<rparr>)" "bytes ?q = bytes s"
      using u(4,5) by (simp_all add: queue_msg_def upd_port_def Let_def)
    have "\<exists>w. mp_Msgs (msgports ?q p) = enqueue m (mp_Msgs (msgports s p)) w
        \<and> messages w = (messages s)(m := (messages s m)\<lparr>msg_Result := 0, MESSAGE_SENT := True, msg_Holder := p\<rparr>)"
      by (rule exI [of _ "upd_msg m (\<lambda>k. k\<lparr>MESSAGE_SENT := True, msg_Holder := p\<rparr>) ?u"], rule conjI)
        (simp_all add: queue_msg_def upd_port_def Let_def u(1))
    then have "\<exists>hi lo. mp_Msgs (msgports s p) = hi @ lo \<and> mp_Msgs (msgports ?q p) = hi @ m # lo
        \<and> (\<forall>x \<in> set hi. msg_Priority (messages s m) \<le> msg_Priority (messages s x))
        \<and> (\<forall>x \<in> set lo. msg_Priority (messages s x) < msg_Priority (messages s m))"
    proof (elim exE conjE)
      fix w assume w: "mp_Msgs (msgports ?q p) = enqueue m (mp_Msgs (msgports s p)) w"
        "messages w = (messages s)(m := (messages s m)\<lparr>msg_Result := 0, MESSAGE_SENT := True, msg_Holder := p\<rparr>)"
      show ?thesis unfolding w(1) by (rule enqueue_filter [OF sorted]) (simp add: w(2))
    qed
    moreover have "mp_Msgs (msgports s' p) = mp_Msgs (msgports ?q p)" "ks s' = ks s2"
      "messages s' = messages (put_data m a n ?q)" "bytes s' = bytes (put_data m a n ?q)"
      unfolding s' by (subst s2(1), simp add: put_data_def Let_def)+
    moreover have "MESSAGE_SENT (messages s' m) \<and> msg_DataSize (messages s' m) = n \<and> msg_Result (messages s' m) = 0
      \<and> (\<forall>m'. m' \<noteq> m \<longrightarrow> messages s' m' = messages s m')"
      using calculation(4) M by (simp add: put_data_def Let_def)
    ultimately show ?thesis using False s2(2) M by (simp add: put_data_def Let_def)
  qed
qed

text \<open>Task 1 waits for its port 5.\<close>

theorem SendMsg_delivers_witness:
  "let s = example_ports\<lparr>t_WaitItem := (\<lambda>t. if t = 1 then WaitItem 5 else WaitItem (- 1))\<rparr>;
       (r, s') = externalSendMsg example_env 2 5 7 64 3 s
   in r = Inr () \<and> placed s' 7 (Inr 1) \<and> fst (WaitPort_woken 1 s') = WaitItem 7 \<and> msg_DataPtr (messages s' 7) = 64"
proof -
  let ?s = "example_ports\<lparr>t_WaitItem := (\<lambda>t. if t = 1 then WaitItem 5 else WaitItem (- 1))\<rparr>"
  obtain r s' where R: "externalSendMsg example_env 2 5 7 64 3 ?s = (r, s')" by fastforce
  have "quiet example_env ?s" by (simp add: quiet_def example_ports_def)
  then have ok: "ports_ok example_env ?s"
    using example_ports_ok by (simp add: ports_ok_def placing_cong [where s = example_ports, OF other_placing(3)])
  have "r = Inr () \<and> placed s' 7 (Inr 1) \<and> fst (WaitPort_woken 1 s') = WaitItem 7 \<and> msg_DataPtr (messages s' 7) = 64"
    using SendMsg_delivers [OF ok _ _ _ _ _ _ _ _ R, where t = 1]
    by (simp add: example_ports_def check_data_def check_holder_def new_msg_def flagged_def example_lookup)
  then show ?thesis unfolding Let_def R by simp
qed

end
