(* ===== verification/Io.thy ===== *)
theory Io
  imports Ports
begin

text \<open>
  Requests to devices (\<open>folios/kernel/io.c\<close>, the dispatcher of \<open>drivers.c\<close>) on top of
  messages, signals and the scheduler. A device is a word; what its driver does is a parameter, which gets the
  completion routine to call. A request is named by its item. The calls that sleep are split there. A callback is named
  by a number. \<open>CompleteIO\<close> has fuel for the requests that callbacks send in turn; a request without a
  callback, such as every one that a task starts, needs one unit.
\<close>

section \<open>The state\<close>

record IOBuf =
  iob_Buffer :: u32
  iob_Len :: u32

record IOInfo =
  ioi_Command :: u32
  ioi_Flags :: u32
  ioi_CmdOptions :: u32
  ioi_Offset :: u32
  ioi_Send :: IOBuf
  ioi_Recv :: IOBuf
  ioi_UserData :: u32

text \<open>
  \<open>io_Error\<close> is a number that is not negative, or an error, as \<open>t_WaitItem\<close> is.
  \<open>io_DeviceFlags\<close> are the upper 16 bits of \<open>io_Flags\<close>, which belong to the device, as do
  \<open>io_Extension\<close> and what follows the structure.
\<close>

record IOReq =
  io_Owner :: int
  io_Dev :: u32
  io_Info :: IOInfo
  io_Actual :: u32
  IO_DONE :: bool
  IO_QUICK :: bool
  IO_INTERNAL :: bool
  IO_MESSAGEBASED :: bool
  io_DeviceFlags :: u32
  io_Error :: wait_item
  io_Extension :: u64
  io_Tail :: u64
  io_MsgItem :: int
  io_Signal :: u32
  io_CallBack :: "nat option"
  io_SigItem :: int

abbreviation "IO_QUICK_FLAG \<equiv> (2 :: u32)"
abbreviation "SIGF_IODONE \<equiv> (8 :: u32)"

text \<open>The messages and tasks, the requests, the requests of each device, who may write where, and the data of the drivers.\<close>

record 'd IoState =
  ps :: PortState
  ior_items :: "int set"
  ioreqs :: "int \<Rightarrow> IOReq"
  dev_IOReqs :: "u32 \<Rightarrow> int list"
  writable :: "task \<Rightarrow> u32 \<Rightarrow> u32 \<Rightarrow> bool"
  dev_data :: 'd

type_synonym 'd complete = "int \<Rightarrow> 'd IoState \<Rightarrow> 'd IoState option"

text \<open>
  The devices that exist and their drivers: dispatching, aborting, and the optional routines for a change of owner and
  the creation and deletion of a request; the callbacks; which devices a task has opened; and the number of an error
  code.
\<close>

record 'd IoEnv =
  io_pe :: PortEnv
  devices :: "int \<Rightarrow> u32 option"
  drv_DispatchIO :: "u32 \<Rightarrow> 'd complete \<Rightarrow> int \<Rightarrow> 'd IoState \<Rightarrow> (int \<times> 'd IoState) option"
  drv_AbortIO :: "u32 \<Rightarrow> 'd complete \<Rightarrow> int \<Rightarrow> 'd IoState \<Rightarrow> 'd IoState option"
  drv_ChangeIOReqOwner :: "u32 \<Rightarrow> (int \<Rightarrow> int \<Rightarrow> 'd IoState \<Rightarrow> unit res \<times> 'd IoState) option"
  drv_CreateIOReq :: "u32 \<Rightarrow> (int \<Rightarrow> 'd IoState \<Rightarrow> unit res \<times> 'd IoState) option"
  drv_DeleteIOReq :: "u32 \<Rightarrow> (int \<Rightarrow> 'd IoState \<Rightarrow> 'd IoState) option"
  callback :: "nat \<Rightarrow> int \<Rightarrow> 'd IoState \<Rightarrow> int option \<times> 'd IoState"
  DEVF_OFFLINE :: "u32 \<Rightarrow> bool"
  opened :: "int \<Rightarrow> u32 \<Rightarrow> bool"
  error_code :: "kerr \<Rightarrow> int"

definition upd_ior :: "int \<Rightarrow> (IOReq \<Rightarrow> IOReq) \<Rightarrow> 'd IoState \<Rightarrow> 'd IoState" where
  "upd_ior i f s = s\<lparr>ioreqs := (ioreqs s)(i := f (ioreqs s i))\<rparr>"

definition upd_ps :: "(PortState \<Rightarrow> PortState) \<Rightarrow> 'd IoState \<Rightarrow> 'd IoState" where
  "upd_ps f s = s\<lparr>ps := f (ps s)\<rparr>"

section \<open>Completion\<close>

fun result_code :: "'d IoEnv \<Rightarrow> wait_item \<Rightarrow> int" where
  "result_code env (WaitItem n) = n"
| "result_code env (WaitErr e) = error_code env e"

text \<open>
  The owner \<open>t\<close> is inside \<open>WaitIO\<close>: it gets the result, and the message of the request if
  there is one.
\<close>

definition end_wait :: "'d IoEnv \<Rightarrow> task \<Rightarrow> int \<Rightarrow> IOReq \<Rightarrow> PortState \<Rightarrow> PortState" where
  "end_wait env t i r p =
     (let p = ready_task (io_pe env) t (p\<lparr>t_WaitItem := (t_WaitItem p)(t := io_Error r)\<rparr>); m = io_MsgItem r in
      if IO_MESSAGEBASED r \<and> m \<in> msg_items p
      then hold_msg (io_pe env) t m (unlink_msg m (upd_msg m (\<lambda>k. k\<lparr>msg_Result := result_code env (io_Error r),
             msg_DataPtr := word_of_int i, msg_DataSize := ioi_UserData (io_Info r)\<rparr>) p))
      else p)"

definition notify :: "'d IoEnv \<Rightarrow> task \<Rightarrow> task \<Rightarrow> int \<Rightarrow> IOReq \<Rightarrow> PortState \<Rightarrow> PortState" where
  "notify env ct t i r p =
     (if IO_MESSAGEBASED r then
        if io_MsgItem r \<in> msg_items p
        then snd (internalReplyMsg (io_pe env) ct (io_MsgItem r) (result_code env (io_Error r)) (word_of_int i)
                    (ioi_UserData (io_Info r)) p)
        else p
      else p\<lparr>ks := snd (internalSignal (pe_clock (io_pe env)) t (io_Signal r) (ks p))\<rparr>)"

text \<open>A request whose owner does not exist any more is left alone here; the source follows a null pointer.\<close>

definition tell_owner :: "'d IoEnv \<Rightarrow> task \<Rightarrow> int \<Rightarrow> 'd IoState \<Rightarrow> 'd IoState" where
  "tell_owner env ct i s =
     (let r = ioreqs s i in
      case LookupTask (io_pe env) (io_Owner r) of
        None \<Rightarrow> s
      | Some t \<Rightarrow>
          let s = upd_ps (if t_WaitItem (ps s) t = WaitItem i then end_wait env t i r else notify env ct t i r) s in
          if io_SigItem r \<noteq> 0 then
            (case LookupTask (io_pe env) (io_SigItem r) of None \<Rightarrow> s | Some u \<Rightarrow> upd_ps (ready_task (io_pe env) u) s)
          else s)"

definition internalSendIO :: "'d IoEnv \<Rightarrow> 'd complete \<Rightarrow> int \<Rightarrow> 'd IoState \<Rightarrow> (int \<times> 'd IoState) option" where
  "internalSendIO env complete i s =
     (let s = upd_ior i (\<lambda>r. r\<lparr>io_Error := WaitItem 0, io_Actual := 0, IO_DONE := False,
                 IO_QUICK := ioi_Flags (io_Info r) AND IO_QUICK_FLAG \<noteq> 0\<rparr>) s;
          dev = io_Dev (ioreqs s i)
      in if DEVF_OFFLINE env dev then
           case complete i (upd_ior i (\<lambda>r. r\<lparr>io_Error := WaitErr ER_DeviceOffline\<rparr>) s) of
             None \<Rightarrow> None | Some s \<Rightarrow> Some (1, s)
         else drv_DispatchIO env dev complete i s)"

text \<open>The request that a callback returns is sent as an internal one and completed in turn if it was not deferred.\<close>

fun internalCompleteIO :: "'d IoEnv \<Rightarrow> nat \<Rightarrow> task \<Rightarrow> 'd complete" where
  "internalCompleteIO env 0 ct i s = None"
| "internalCompleteIO env (Suc fuel) ct i s =
     (if IO_INTERNAL (ioreqs s i) then Some s
      else
        let s = upd_ior i (\<lambda>r. r\<lparr>IO_DONE := True\<rparr>) s in
        case io_CallBack (ioreqs s i) of
          Some c \<Rightarrow>
            (case callback env c i s of
               (None, s) \<Rightarrow> Some s
             | (Some j, s) \<Rightarrow>
                 (case internalSendIO env (internalCompleteIO env fuel ct) j (upd_ior j (\<lambda>r. r\<lparr>IO_INTERNAL := True\<rparr>) s) of
                    None \<Rightarrow> None
                  | Some (ret, s) \<Rightarrow>
                      let s = upd_ior j (\<lambda>r. r\<lparr>IO_INTERNAL := False\<rparr>) s in
                      if ret \<noteq> 0 then internalCompleteIO env fuel ct j s else Some s))
        | None \<Rightarrow> if IO_QUICK (ioreqs s i) then Some s else Some (tell_owner env ct i s))"

definition externalCompleteIO :: "'d IoEnv \<Rightarrow> nat \<Rightarrow> task \<Rightarrow> int \<Rightarrow> 'd IoState \<Rightarrow> 'd IoState option" where
  "externalCompleteIO env fuel ct i s =
     (if PrivTask (io_pe env) ct then internalCompleteIO env fuel ct i s else Some s)"

text \<open>The dispatcher of drivers that have a table of commands.\<close>

type_synonym 'd command = "'d complete \<Rightarrow> int \<Rightarrow> 'd IoState \<Rightarrow> (int \<times> 'd IoState) option"

fun LookupDriverCmd :: "(u32 \<times> 'd command) list \<Rightarrow> u32 \<Rightarrow> 'd command option" where
  "LookupDriverCmd [] cmd = None"
| "LookupDriverCmd ((c, f) # table) cmd = (if c = cmd then Some f else LookupDriverCmd table cmd)"

definition defaultDispatch :: "(u32 \<times> 'd command) list \<Rightarrow> 'd command" where
  "defaultDispatch table complete i s =
     (case (case LookupDriverCmd table (ioi_Command (io_Info (ioreqs s i))) of
              None \<Rightarrow> Some (1, upd_ior i (\<lambda>r. r\<lparr>io_Error := WaitErr BADCOMMAND\<rparr>) s)
            | Some f \<Rightarrow> f complete i s) of
        None \<Rightarrow> None
      | Some (ret, s) \<Rightarrow>
          if ret = 0 then Some (0, s)
          else (case complete i s of None \<Rightarrow> None | Some s \<Rightarrow> Some (1, s)))"

section \<open>Starting and waiting\<close>

definition buffer_ok :: "IOBuf \<Rightarrow> IOBuf \<Rightarrow> (u32 \<Rightarrow> u32 \<Rightarrow> bool) \<Rightarrow> bool" where
  "buffer_ok new old valid \<longleftrightarrow>
     (if iob_Len new \<noteq> 0 then
        if iob_Len new \<noteq> iob_Len old \<or> iob_Buffer new \<noteq> iob_Buffer old then valid (iob_Buffer new) (iob_Len new) else True
      else True)"

text \<open>
  \<open>None\<close> as request: the item is not one. \<open>ioi\<close> is \<open>None\<close> where the information
  cannot be read.
\<close>

definition StartIO ::
  "'d IoEnv \<Rightarrow> nat \<Rightarrow> task \<Rightarrow> int option \<Rightarrow> IOInfo option \<Rightarrow> bool \<Rightarrow> 'd IoState \<Rightarrow> (int res \<times> 'd IoState) option" where
  "StartIO env fuel ct ior ioi wait s =
     (case ior of
        None \<Rightarrow> Some (Inl BADITEM, s)
      | Some i \<Rightarrow>
          let r = ioreqs s i in
          if io_Owner r \<noteq> TaskItem (io_pe env) ct then Some (Inl NOTOWNER, s)
          else if IO_MESSAGEBASED r \<and> io_MsgItem r \<notin> msg_items (ps s) then Some (Inl BADITEM, s)
          else if IO_MESSAGEBASED r \<and> MESSAGE_REPLIED (messages (ps s) (io_MsgItem r)) then Some (Inl ER_Kr_MsgSent, s)
          else if \<not> IO_DONE r then Some (Inl ER_IONotDone, s)
          else
            (case ioi of
               None \<Rightarrow> Some (Inl BADPTR, s)
             | Some localInfo \<Rightarrow>
                 if ioi_Flags localInfo AND NOT IO_QUICK_FLAG \<noteq> 0 then Some (Inl BADIOARG, s)
                 else if \<not> buffer_ok (ioi_Recv localInfo) (ioi_Recv (io_Info r)) (writable s ct) then Some (Inl BADPTR, s)
                 else if \<not> buffer_ok (ioi_Send localInfo) (ioi_Send (io_Info r)) (MemReadable (io_pe env)) then Some (Inl BADPTR, s)
                 else
                   let localInfo = (if wait then localInfo\<lparr>ioi_Flags := ioi_Flags localInfo OR IO_QUICK_FLAG\<rparr> else localInfo);
                       s = upd_ior i (\<lambda>r. r\<lparr>io_Info := localInfo, io_CallBack := None\<rparr>) s
                   in (case internalSendIO env (internalCompleteIO env fuel ct) i s of
                         None \<Rightarrow> None | Some (ret, s) \<Rightarrow> Some (Inr ret, s))))"

definition check_ior :: "int \<Rightarrow> 'd IoState \<Rightarrow> int option" where
  "check_ior i s = (if i \<in> ior_items s then Some i else None)"

definition externalSendIO :: "'d IoEnv \<Rightarrow> nat \<Rightarrow> task \<Rightarrow> int \<Rightarrow> IOInfo option \<Rightarrow> 'd IoState \<Rightarrow> (int res \<times> 'd IoState) option" where
  "externalSendIO env fuel ct i ioi s = StartIO env fuel ct (check_ior i s) ioi False s"

fun to_res :: "wait_item \<Rightarrow> int res" where
  "to_res (WaitItem n) = Inr n"
| "to_res (WaitErr e) = Inl e"

text \<open>\<open>None\<close> as result: the task sleeps.\<close>

definition internalWaitIO :: "'d IoEnv \<Rightarrow> task \<Rightarrow> int \<Rightarrow> 'd IoState \<Rightarrow> wait_item option \<times> 'd IoState" where
  "internalWaitIO env ct i s =
     (if \<not> IO_DONE (ioreqs s i)
      then (None, upd_ps (\<lambda>p. p\<lparr>t_WaitItem := (t_WaitItem p)(ct := WaitItem i), ks := SleepTask (pe_clock (io_pe env)) ct (ks p)\<rparr>) s)
      else (Some (io_Error (ioreqs s i)), s))"

definition WaitIO_woken :: "task \<Rightarrow> 'd IoState \<Rightarrow> wait_item \<times> 'd IoState" where
  "WaitIO_woken ct s = (t_WaitItem (ps s) ct, upd_ps (\<lambda>p. p\<lparr>t_WaitItem := (t_WaitItem p)(ct := WaitItem (- 1))\<rparr>) s)"

definition externalWaitIO :: "'d IoEnv \<Rightarrow> task \<Rightarrow> int \<Rightarrow> 'd IoState \<Rightarrow> int res option \<times> 'd IoState" where
  "externalWaitIO env ct i s =
     (if i \<notin> ior_items s then (Some (Inl BADITEM), s)
      else if io_Owner (ioreqs s i) \<noteq> TaskItem (io_pe env) ct then (Some (Inl NOTOWNER), s)
      else let (w, s) = internalWaitIO env ct i s in (map_option to_res w, s))"

text \<open>The end of \<open>DoIO\<close>, after the request was not deferred or the wait has ended.\<close>

definition do_result :: "int \<Rightarrow> int res \<Rightarrow> 'd IoState \<Rightarrow> int res" where
  "do_result i ret s =
     (case ret of Inl e \<Rightarrow> Inl e | Inr n \<Rightarrow> if n \<ge> 0 then to_res (io_Error (ioreqs s i)) else Inr n)"

definition externalDoIO ::
  "'d IoEnv \<Rightarrow> nat \<Rightarrow> task \<Rightarrow> int \<Rightarrow> IOInfo option \<Rightarrow> 'd IoState \<Rightarrow> (int res option \<times> 'd IoState) option" where
  "externalDoIO env fuel ct i ioi s =
     (case StartIO env fuel ct (check_ior i s) ioi True s of
        None \<Rightarrow> None
      | Some (ret, s) \<Rightarrow>
          if ret = Inr 0 then
            (let (w, s) = internalWaitIO env ct i s in Some (map_option (\<lambda>w. do_result i (to_res w) s) w, s))
          else Some (Some (do_result i ret s), s))"

definition DoIO_woken :: "task \<Rightarrow> int \<Rightarrow> 'd IoState \<Rightarrow> int res \<times> 'd IoState" where
  "DoIO_woken ct i s = (let (w, s) = WaitIO_woken ct s in (do_result i (to_res w) s, s))"

text \<open>\<open>DoIO\<close> of the kernel itself, without the checks.\<close>

definition internalDoIO ::
  "'d IoEnv \<Rightarrow> nat \<Rightarrow> task \<Rightarrow> int \<Rightarrow> 'd IoState \<Rightarrow> (int res option \<times> 'd IoState) option" where
  "internalDoIO env fuel ct i s =
     (case internalSendIO env (internalCompleteIO env fuel ct) i s of
        None \<Rightarrow> None
      | Some (ret, s) \<Rightarrow>
          if ret = 0 then
            (let (w, s) = internalWaitIO env ct i s in Some (map_option (\<lambda>w. do_result i (to_res w) s) w, s))
          else Some (Some (do_result i (Inr ret) s), s))"

definition CheckIO :: "int \<Rightarrow> 'd IoState \<Rightarrow> int res" where
  "CheckIO i s = (if i \<notin> ior_items s then Inl BADITEM else Inr (if IO_DONE (ioreqs s i) then 1 else 0))"

section \<open>Aborting\<close>

definition internalAbortIO :: "'d IoEnv \<Rightarrow> nat \<Rightarrow> task \<Rightarrow> int \<Rightarrow> 'd IoState \<Rightarrow> 'd IoState option" where
  "internalAbortIO env fuel ct i s =
     (if \<not> IO_DONE (ioreqs s i) then drv_AbortIO env (io_Dev (ioreqs s i)) (internalCompleteIO env fuel ct) i s else Some s)"

definition externalAbortIO :: "'d IoEnv \<Rightarrow> nat \<Rightarrow> task \<Rightarrow> int \<Rightarrow> 'd IoState \<Rightarrow> (unit res \<times> 'd IoState) option" where
  "externalAbortIO env fuel ct i s =
     (if i \<notin> ior_items s then Some (Inl BADITEM, s)
      else if io_Owner (ioreqs s i) \<noteq> TaskItem (io_pe env) ct then Some (Inl NOTOWNER, s)
      else case internalAbortIO env fuel ct i s of None \<Rightarrow> None | Some s \<Rightarrow> Some (Inr (), s))"

text \<open>The wait for an aborted request: whether it is over, or the task sleeps as the receiver of its completion.\<close>

definition await_abort :: "'d IoEnv \<Rightarrow> task \<Rightarrow> int \<Rightarrow> 'd IoState \<Rightarrow> bool \<times> 'd IoState" where
  "await_abort env ct i s =
     (if IO_DONE (ioreqs s i) then (True, s)
      else (False, upd_ps (\<lambda>p. p\<lparr>ks := SleepTask (pe_clock (io_pe env)) ct (ks p)\<rparr>)
                     (upd_ior i (\<lambda>r. r\<lparr>io_SigItem := TaskItem (io_pe env) ct\<rparr>) s)))"

definition internalAbortForeignIO ::
  "'d IoEnv \<Rightarrow> nat \<Rightarrow> task \<Rightarrow> int \<Rightarrow> 'd IoState \<Rightarrow> (bool \<times> 'd IoState) option" where
  "internalAbortForeignIO env fuel ct i s =
     (case internalAbortIO env fuel ct i s of None \<Rightarrow> None | Some s \<Rightarrow> Some (await_abort env ct i s))"

definition AbortForeignIO_woken :: "'d IoEnv \<Rightarrow> task \<Rightarrow> int \<Rightarrow> 'd IoState \<Rightarrow> bool \<times> 'd IoState" where
  "AbortForeignIO_woken env ct i s = await_abort env ct i (upd_ior i (\<lambda>r. r\<lparr>io_SigItem := 0\<rparr>) s)"

text \<open>
  The scan of \<open>AbortIOReqs\<close>: requests of the family of \<open>t\<close> (of all tasks for
  \<open>None\<close>) whose receive buffer meets the \<open>len
\<close>
  bytes at \<open>p\<close> must be checked again before they are used; the first one in progress ends the scan.
\<close>

definition meets :: "u32 \<Rightarrow> u32 \<Rightarrow> IOBuf \<Rightarrow> bool" where
  "meets p len b \<longleftrightarrow> iob_Len b \<noteq> 0 \<and> p + len > iob_Buffer b \<and> p < iob_Buffer b + iob_Len b"

definition of_family :: "'d IoEnv \<Rightarrow> task option \<Rightarrow> IOReq \<Rightarrow> bool" where
  "of_family env t r \<longleftrightarrow>
     (case t of None \<Rightarrow> True
      | Some t \<Rightarrow> (case LookupTask (io_pe env) (io_Owner r) of None \<Rightarrow> False | Some w \<Rightarrow> SameTaskFamily (io_pe env) t w))"

definition drop_recv :: "int \<Rightarrow> 'd IoState \<Rightarrow> 'd IoState" where
  "drop_recv i s = upd_ior i (\<lambda>r. r\<lparr>io_Info := (io_Info r)\<lparr>ioi_Recv := (ioi_Recv (io_Info r))\<lparr>iob_Len := 0\<rparr>\<rparr>\<rparr>) s"

fun scan_ioreqs :: "'d IoEnv \<Rightarrow> task option \<Rightarrow> u32 \<Rightarrow> u32 \<Rightarrow> int list \<Rightarrow> 'd IoState \<Rightarrow> int option \<times> 'd IoState" where
  "scan_ioreqs env t p len [] s = (None, s)"
| "scan_ioreqs env t p len (i # is) s =
     (if of_family env t (ioreqs s i) \<and> meets p len (ioi_Recv (io_Info (ioreqs s i))) then
        let s = drop_recv i s in
        if \<not> IO_DONE (ioreqs s i) then (Some i, s) else scan_ioreqs env t p len is s
      else scan_ioreqs env t p len is s)"

text \<open>
  The list of devices of all drivers is \<open>devs\<close>. The result is the request the task waits for,
  \<open>None\<close> at the end.
\<close>

partial_function (option) AbortIOReqs ::
  "'d IoEnv \<Rightarrow> nat \<Rightarrow> task \<Rightarrow> u32 list \<Rightarrow> task option \<Rightarrow> u32 \<Rightarrow> u32 \<Rightarrow> 'd IoState \<Rightarrow> (int option \<times> 'd IoState) option" where
  "AbortIOReqs env fuel ct devs t p len s =
     (case scan_ioreqs env t p len (concat (map (dev_IOReqs s) devs)) s of
        (None, s) \<Rightarrow> Some (None, s)
      | (Some i, s) \<Rightarrow>
          (case internalAbortForeignIO env fuel ct i s of
             None \<Rightarrow> None
           | Some (over, s) \<Rightarrow> if over then AbortIOReqs env fuel ct devs t p len s else Some (Some i, s)))"

section \<open>Making, giving and deleting\<close>

definition SetIOReqOwner :: "'d IoEnv \<Rightarrow> int \<Rightarrow> int \<Rightarrow> 'd IoState \<Rightarrow> unit res \<times> 'd IoState" where
  "SetIOReqOwner env i newOwner s =
     (let r = ioreqs s i in
      if \<not> IO_DONE r then (Inl ER_IONotDone, s)
      else if IO_MESSAGEBASED r then (Inl NOSUPPORT, s)
      else if \<not> opened env newOwner (io_Dev r) then (Inl ER_Kr_ItemNotOpen, s)
      else
        let s = drop_recv i s in
        case drv_ChangeIOReqOwner env (io_Dev r) of
          None \<Rightarrow> (Inr (), s)
        | Some f \<Rightarrow> f i newOwner s)"

datatype ioreq_tag = CREATEIOREQ_TAG_REPLYPORT int | CREATEIOREQ_TAG_DEVICE int | CREATEIOREQ_TAG_SIGNAL u32 | CREATEIOREQ_TAG_OTHER

record IOReqInfo =
  iri_ReplyPort :: "int option"
  iri_Signal :: "u32 option"

fun icior_c :: "ioreq_tag \<Rightarrow> IOReqInfo \<Rightarrow> IOReqInfo res" where
  "icior_c (CREATEIOREQ_TAG_REPLYPORT p) iri = Inr (iri\<lparr>iri_ReplyPort := Some p\<rparr>)"
| "icior_c (CREATEIOREQ_TAG_DEVICE d) iri = Inr iri"
| "icior_c (CREATEIOREQ_TAG_SIGNAL sig) iri = Inr (iri\<lparr>iri_Signal := Some sig\<rparr>)"
| "icior_c CREATEIOREQ_TAG_OTHER iri = Inl BADTAG"

fun device_tag :: "ioreq_tag list \<Rightarrow> int" where
  "device_tag [] = 0"
| "device_tag (CREATEIOREQ_TAG_DEVICE d # ts) = d"
| "device_tag (_ # ts) = device_tag ts"

definition no_info :: IOInfo where
  "no_info = \<lparr>ioi_Command = 0, ioi_Flags = 0, ioi_CmdOptions = 0, ioi_Offset = 0, ioi_Send = \<lparr>iob_Buffer = 0, iob_Len = 0\<rparr>,
     ioi_Recv = \<lparr>iob_Buffer = 0, iob_Len = 0\<rparr>, ioi_UserData = 0\<rparr>"

definition new_ior :: "int \<Rightarrow> u32 \<Rightarrow> IOReq" where
  "new_ior owner dev = \<lparr>io_Owner = owner, io_Dev = dev, io_Info = no_info, io_Actual = 0, IO_DONE = False, IO_QUICK = False,
     IO_INTERNAL = False, IO_MESSAGEBASED = False, io_DeviceFlags = 0, io_Error = WaitItem 0, io_Extension = 0, io_Tail = 0,
     io_MsgItem = 0, io_Signal = 0, io_CallBack = None, io_SigItem = 0\<rparr>"

text \<open>
  \<open>AllocateSizedNode\<close> gives the item \<open>i\<close> or none. \<open>mk_msg\<close> allocates the message,
  whose own data are the priority and the reply port. Two refusals leave the new node allocated, which the model does
  not show.
\<close>

definition attach_message ::
  "'d IoEnv \<Rightarrow> task \<Rightarrow> (u32 \<Rightarrow> (int \<times> u32) option) \<Rightarrow> u8 \<Rightarrow> int \<Rightarrow> int \<Rightarrow> 'd IoState \<Rightarrow> unit res \<times> 'd IoState" where
  "attach_message env ct mk_msg pr i port s =
     (case externalCreateMsg (io_pe env) ct mk_msg pr [CREATEMSG_TAG_REPLYPORT port, CREATEMSG_TAG_MSG_IS_SMALL] (ps s) of
        (Inl e, p) \<Rightarrow> (Inl e, upd_ps (\<lambda>_. p) s)
      | (Inr m, p) \<Rightarrow>
          (Inr (), upd_ior i (\<lambda>r. r\<lparr>io_MsgItem := m, IO_MESSAGEBASED := True\<rparr>)
             (upd_ps (\<lambda>_. upd_msg m (\<lambda>k. k\<lparr>msg_DataPtr := word_of_int i\<rparr>) p) s)))"

definition internalCreateIOReq ::
  "'d IoEnv \<Rightarrow> task \<Rightarrow> int option \<Rightarrow> (u32 \<Rightarrow> (int \<times> u32) option) \<Rightarrow> u8 \<Rightarrow> ioreq_tag list \<Rightarrow> 'd IoState \<Rightarrow> int res \<times> 'd IoState" where
  "internalCreateIOReq env ct alloc mk_msg pr tags s =
     (case devices env (device_tag tags) of
        None \<Rightarrow> (Inl BADITEM, s)
      | Some dev \<Rightarrow>
          if \<not> opened env (TaskItem (io_pe env) ct) dev then (Inl ER_Kr_ItemNotOpen, s)
          else case alloc of
            None \<Rightarrow> (Inl NOMEM, s)
          | Some i \<Rightarrow>
              (case process_tags icior_c tags \<lparr>iri_ReplyPort = None, iri_Signal = None\<rparr> of
                 Inl e \<Rightarrow> (Inl e, s)
               | Inr iri \<Rightarrow>
                   if iri_Signal iri \<noteq> None \<and> iri_ReplyPort iri \<noteq> None then (Inl BADTAGVAL, s)
                   else
                     let s1 = upd_ior i (\<lambda>_. new_ior (TaskItem (io_pe env) ct) dev) s;
                         (ret, s1) =
                           (case iri_ReplyPort iri of
                              Some port \<Rightarrow> attach_message env ct mk_msg pr i port s1
                            | None \<Rightarrow>
                                (case iri_Signal iri of
                                   None \<Rightarrow> (Inr (), upd_ior i (\<lambda>r. r\<lparr>io_Signal := SIGF_IODONE\<rparr>) s1)
                                 | Some sig \<Rightarrow> (ValidateSignal (PrivTask (io_pe env) ct) sig, upd_ior i (\<lambda>r. r\<lparr>io_Signal := sig\<rparr>) s1)))
                     in case ret of
                          Inl e \<Rightarrow> (Inl e, s)
                        | Inr _ \<Rightarrow>
                            let (ret, s1) = (case drv_CreateIOReq env dev of None \<Rightarrow> (Inr (), s1) | Some f \<Rightarrow> f i s1) in
                            case ret of
                              Inl e \<Rightarrow>
                                let m = io_MsgItem (ioreqs s1 i) in
                                (Inl e, if IO_MESSAGEBASED (ioreqs s1 i)
                                        then upd_ps (\<lambda>p. (internalDeleteMsg (io_pe env) m p)\<lparr>msg_items := msg_items p - {m}\<rparr>) s1 else s1)
                            | Inr _ \<Rightarrow>
                                (Inr i, (upd_ior i (\<lambda>r. r\<lparr>IO_DONE := True, IO_QUICK := True\<rparr>) s1)
                                   \<lparr>ior_items := insert i (ior_items s1), dev_IOReqs := (dev_IOReqs s1)(dev := dev_IOReqs s1 dev @ [i])\<rparr>)))"

text \<open>The end of \<open>internalDeleteIOReq\<close>, once the request is not in progress.\<close>

definition finish_delete :: "'d IoEnv \<Rightarrow> int \<Rightarrow> 'd IoState \<Rightarrow> 'd IoState" where
  "finish_delete env i s =
     (let dev = io_Dev (ioreqs s i);
          s = (case drv_DeleteIOReq env dev of None \<Rightarrow> s | Some f \<Rightarrow> f i s);
          s = s\<lparr>dev_IOReqs := (dev_IOReqs s)(dev := remove1 i (dev_IOReqs s dev))\<rparr>;
          m = io_MsgItem (ioreqs s i)
      in if IO_MESSAGEBASED (ioreqs s i) \<and> m \<in> msg_items (ps s)
         then upd_ps (\<lambda>p. (internalDeleteMsg (io_pe env) m p)\<lparr>msg_items := msg_items p - {m}\<rparr>) s else s)"

definition internalDeleteIOReq :: "'d IoEnv \<Rightarrow> nat \<Rightarrow> task \<Rightarrow> int \<Rightarrow> 'd IoState \<Rightarrow> (bool \<times> 'd IoState) option" where
  "internalDeleteIOReq env fuel ct i s =
     (case (if \<not> IO_DONE (ioreqs s i) then internalAbortForeignIO env fuel ct i s else Some (True, s)) of
        None \<Rightarrow> None
      | Some (over, s) \<Rightarrow> Some (over, if over then finish_delete env i s else s))"

section \<open>What a driver may do\<close>

text \<open>
  A driver completes requests in progress and changes its own part of them: the result, the flags and fields that belong
  to the device, and \<open>IO_QUICK\<close>, which it may only clear. It may signal tasks and keep data of its own.
\<close>

definition own_change :: "IOReq \<Rightarrow> IOReq \<Rightarrow> bool" where
  "own_change r r' \<longleftrightarrow> io_Owner r' = io_Owner r \<and> io_Dev r' = io_Dev r \<and> IO_DONE r' = IO_DONE r \<and> (IO_QUICK r' \<longrightarrow> IO_QUICK r)
     \<and> IO_INTERNAL r' = IO_INTERNAL r \<and> IO_MESSAGEBASED r' = IO_MESSAGEBASED r \<and> io_MsgItem r' = io_MsgItem r
     \<and> io_Signal r' = io_Signal r \<and> io_CallBack r' = io_CallBack r \<and> io_SigItem r' = io_SigItem r
     \<and> ioi_Recv (io_Info r') = ioi_Recv (io_Info r) \<and> (\<forall>n. io_Error r' = WaitItem n \<longrightarrow> n = 0)"

inductive device_step :: "'d IoEnv \<Rightarrow> task \<Rightarrow> 'd IoState \<Rightarrow> 'd IoState \<Rightarrow> bool" for env ct where
  complete: "i \<in> ior_items s \<Longrightarrow> \<not> IO_DONE (ioreqs s i) \<Longrightarrow> internalCompleteIO env (Suc n) ct i s = Some s' \<Longrightarrow> device_step env ct s s'"
| change: "i \<in> ior_items s \<Longrightarrow> \<not> IO_DONE (ioreqs s i) \<Longrightarrow> own_change (ioreqs s i) (f (ioreqs s i)) \<Longrightarrow> device_step env ct s (upd_ior i f s)"
| own: "device_step env ct s (s\<lparr>dev_data := d\<rparr>)"
| kernel: "device_step env ct s (upd_ps (\<lambda>p. p\<lparr>ks := k p\<rparr>) s)"

inductive_cases device_stepE: "device_step env ct s s'"

text \<open>
  The invariant, between operations for an empty \<open>X\<close>: a task waits only for a request of its own that is in
  progress and will notify it. The requests are those that tasks start, without callback; \<open>X\<close> holds the
  request being dispatched.
\<close>

definition ior_ok :: "'d IoEnv \<Rightarrow> IOReq \<Rightarrow> bool" where
  "ior_ok env r \<longleftrightarrow> io_CallBack r = None \<and> \<not> IO_INTERNAL r \<and> (\<forall>n. io_Error r = WaitItem n \<longrightarrow> n = 0)
     \<and> (\<exists>t. LookupTask (io_pe env) (io_Owner r) = Some t)"

definition io_inv :: "'d IoEnv \<Rightarrow> int set \<Rightarrow> 'd IoState \<Rightarrow> bool" where
  "io_inv env X s \<longleftrightarrow>
     (\<forall>t i. i \<in> ior_items s \<longrightarrow> t_WaitItem (ps s) t = WaitItem i \<longrightarrow>
        io_Owner (ioreqs s i) = TaskItem (io_pe env) t \<and> \<not> IO_DONE (ioreqs s i) \<and> \<not> IO_QUICK (ioreqs s i))
   \<and> (\<forall>i \<in> ior_items s. 0 < i \<and> ior_ok env (ioreqs s i) \<and> (i \<notin> X \<longrightarrow> IO_QUICK (ioreqs s i) \<longrightarrow> IO_DONE (ioreqs s i)))
   \<and> ior_items s \<inter> msg_items (ps s) = {}
   \<and> inj (TaskItem (io_pe env)) \<and> (\<forall>i t. LookupTask (io_pe env) i = Some t \<longrightarrow> TaskItem (io_pe env) t = i)"

lemma upd_ior_sel [simp]:
  "ps (upd_ior i f s) = ps s" "ior_items (upd_ior i f s) = ior_items s" "dev_IOReqs (upd_ior i f s) = dev_IOReqs s"
  "writable (upd_ior i f s) = writable s" "dev_data (upd_ior i f s) = dev_data s"
  "ioreqs (upd_ior i f s) = (ioreqs s)(i := f (ioreqs s i))"
  by (simp_all add: upd_ior_def)

lemma upd_ps_sel [simp]:
  "ps (upd_ps g s) = g (ps s)" "ior_items (upd_ps g s) = ior_items s" "dev_IOReqs (upd_ps g s) = dev_IOReqs s"
  "writable (upd_ps g s) = writable s" "dev_data (upd_ps g s) = dev_data s" "ioreqs (upd_ps g s) = ioreqs s"
  by (simp_all add: upd_ps_def)

text \<open>What replying a message does to the waiting tasks and the items.\<close>

lemma DeliverMsg_frame:
  assumes "internalDeliverMsg env ct p m a n reply super s = (r, s')"
  shows "msg_items s' = msg_items s" and "t_WaitItem s' t \<noteq> t_WaitItem s t \<Longrightarrow> t_WaitItem s' t = WaitItem m"
proof -
  have o1: "msg_items s1 = msg_items s \<and> t_WaitItem s1 = t_WaitItem s"
    if "(if msg_ReplyPort (messages s m) = 0 then externalSetItemOwner env ct m w s else (Inr (), s)) = (r1, s1)" for w r1 s1
    using that by (auto simp: externalSetItemOwner_def internalSetMsgOwner_def hold_msg_def split: if_splits option.splits)
  have h: "msg_items s2 = msg_items s1 \<and> (t_WaitItem s2 t \<noteq> t_WaitItem s1 t \<longrightarrow> t_WaitItem s2 t = WaitItem m)"
    if "hand_over env u p m reply (unlink_msg m s1) = (r2, s2)" for u r2 s1 s2
    using that by (auto simp: hand_over_def hold_msg_def queue_msg_def upd_port_def Let_def split_beta split: if_splits)
  obtain r1 s1 where O: "(if msg_ReplyPort (messages s m) = 0 then externalSetItemOwner env ct m (mp_Owner (msgports s p)) s
      else (Inr (), s)) = (r1, s1)" by fastforce
  have h2: "msg_items (snd (hand_over env u p m reply (unlink_msg m s1))) = msg_items s1
      \<and> (t_WaitItem (snd (hand_over env u p m reply (unlink_msg m s1))) t \<noteq> t_WaitItem s1 t
         \<longrightarrow> t_WaitItem (snd (hand_over env u p m reply (unlink_msg m s1))) t = WaitItem m)" for u
    using h [of u s1] by (metis prod.collapse)
  have s': "s' = snd (internalDeliverMsg env ct p m a n reply super s)" using assms by simp
  have "msg_items s' = msg_items s \<and> (t_WaitItem s' t \<noteq> t_WaitItem s t \<longrightarrow> t_WaitItem s' t = WaitItem m)"
    unfolding s' using O o1 [OF O] h2
    by (cases r1; cases super; cases "LookupTask env (mp_Owner (msgports s1 p))")
      (simp_all add: internalDeliverMsg_def split_beta del: Let_def)
  then show "msg_items s' = msg_items s" "t_WaitItem s' t \<noteq> t_WaitItem s t \<Longrightarrow> t_WaitItem s' t = WaitItem m" by auto
qed

lemma ReplyMsg_frame:
  "msg_items (snd (internalReplyMsg env ct m r a n s)) = msg_items s"
  "t_WaitItem (snd (internalReplyMsg env ct m r a n s)) t \<noteq> t_WaitItem s t
   \<Longrightarrow> t_WaitItem (snd (internalReplyMsg env ct m r a n s)) t = WaitItem m"
proof -
  let ?s = "upd_msg m (\<lambda>k. k\<lparr>msg_Result := r\<rparr>) s"
  note F = DeliverMsg_frame [where s = ?s and m = m and a = a and n = n and reply = True and super = False and env = env and ct = ct
      and p = "msg_ReplyPort (messages s m)", OF prod.collapse [symmetric]]
  show "msg_items (snd (internalReplyMsg env ct m r a n s)) = msg_items s" using F(1) by (simp add: internalReplyMsg_def Let_def)
  show "t_WaitItem (snd (internalReplyMsg env ct m r a n s)) t \<noteq> t_WaitItem s t
   \<Longrightarrow> t_WaitItem (snd (internalReplyMsg env ct m r a n s)) t = WaitItem m"
    using F(2) [of t] by (auto simp: internalReplyMsg_def Let_def split: if_splits)
qed

lemma end_wait_sel:
  "msg_items (end_wait env t i r p) = msg_items p" "t_WaitItem (end_wait env t i r p) = (t_WaitItem p)(t := io_Error r)"
  by (simp_all add: end_wait_def hold_msg_def Let_def)

lemma notify_sel:
  "msg_items (notify env ct t i r p) = msg_items p"
  "t_WaitItem (notify env ct t i r p) u \<noteq> t_WaitItem p u \<Longrightarrow> IO_MESSAGEBASED r \<and> io_MsgItem r \<in> msg_items p
     \<and> t_WaitItem (notify env ct t i r p) u = WaitItem (io_MsgItem r)"
  using ReplyMsg_frame(2) by (auto simp: notify_def ReplyMsg_frame(1) split: if_splits)

lemma CompleteIO_user:
  assumes "io_CallBack (ioreqs s i) = None" and "\<not> IO_INTERNAL (ioreqs s i)"
  shows "internalCompleteIO env (Suc n) ct i s = Some (let s = upd_ior i (\<lambda>r. r\<lparr>IO_DONE := True\<rparr>) s in
    if IO_QUICK (ioreqs s i) then s else tell_owner env ct i s)"
  using assms by (simp add: Let_def)

lemma tell_owner_sel:
  assumes "LookupTask (io_pe env) (io_Owner (ioreqs s i)) = Some t"
  shows "ioreqs (tell_owner env ct i s) = ioreqs s" "ior_items (tell_owner env ct i s) = ior_items s"
    "msg_items (ps (tell_owner env ct i s)) = msg_items (ps s)" "dev_data (tell_owner env ct i s) = dev_data s"
    "dev_IOReqs (tell_owner env ct i s) = dev_IOReqs s" "writable (tell_owner env ct i s) = writable s"
    "t_WaitItem (ps (tell_owner env ct i s)) =
       t_WaitItem (if t_WaitItem (ps s) t = WaitItem i then end_wait env t i (ioreqs s i) (ps s) else notify env ct t i (ioreqs s i) (ps s))"
  using assms by (auto simp: tell_owner_def Let_def end_wait_sel notify_sel split: option.splits)

section \<open>Every step keeps the invariant\<close>

text \<open>Steps that change neither what is waited for nor the requests, beyond the one that is done.\<close>

lemma io_inv_upd_done:
  assumes "io_inv env X s" and "IO_DONE (ioreqs s i) \<or> i \<notin> ior_items s" and "ior_ok env (f (ioreqs s i))"
    and "i \<notin> X \<Longrightarrow> IO_QUICK (f (ioreqs s i)) \<Longrightarrow> IO_DONE (f (ioreqs s i))"
  shows "io_inv env X (upd_ior i f s)"
proof -
  have w: "j \<noteq> i" if "j \<in> ior_items s" "t_WaitItem (ps s) t = WaitItem j" for t j
    using assms(1,2) that unfolding io_inv_def by blast
  have "\<forall>t j. j \<in> ior_items s \<longrightarrow> t_WaitItem (ps s) t = WaitItem j \<longrightarrow> io_Owner (ioreqs (upd_ior i f s) j) = TaskItem (io_pe env) t
      \<and> \<not> IO_DONE (ioreqs (upd_ior i f s) j) \<and> \<not> IO_QUICK (ioreqs (upd_ior i f s) j)"
    using assms(1) w unfolding io_inv_def by auto
  moreover have "\<forall>j \<in> ior_items s. 0 < j \<and> ior_ok env (ioreqs (upd_ior i f s) j)
      \<and> (j \<notin> X \<longrightarrow> IO_QUICK (ioreqs (upd_ior i f s) j) \<longrightarrow> IO_DONE (ioreqs (upd_ior i f s) j))"
    using assms(1,3,4) unfolding io_inv_def by auto
  ultimately show ?thesis using assms(1) unfolding io_inv_def upd_ior_sel(1,2) by blast
qed

lemma io_inv_change:
  assumes "io_inv env X s" and "own_change (ioreqs s i) (f (ioreqs s i))"
  shows "io_inv env X (upd_ior i f s)"
proof -
  have f: "ior_ok env (ioreqs s i) \<Longrightarrow> ior_ok env (f (ioreqs s i))" "io_Owner (f (ioreqs s i)) = io_Owner (ioreqs s i)"
    "IO_DONE (f (ioreqs s i)) = IO_DONE (ioreqs s i)" "IO_QUICK (f (ioreqs s i)) \<Longrightarrow> IO_QUICK (ioreqs s i)"
    using assms(2) by (auto simp: own_change_def ior_ok_def)
  have "\<forall>t j. j \<in> ior_items s \<longrightarrow> t_WaitItem (ps s) t = WaitItem j \<longrightarrow> io_Owner (ioreqs (upd_ior i f s) j) = TaskItem (io_pe env) t
      \<and> \<not> IO_DONE (ioreqs (upd_ior i f s) j) \<and> \<not> IO_QUICK (ioreqs (upd_ior i f s) j)"
    using assms(1) f(2-4) unfolding io_inv_def by (auto simp del: f(2))
  moreover have "\<forall>j \<in> ior_items s. 0 < j \<and> ior_ok env (ioreqs (upd_ior i f s) j)
      \<and> (j \<notin> X \<longrightarrow> IO_QUICK (ioreqs (upd_ior i f s) j) \<longrightarrow> IO_DONE (ioreqs (upd_ior i f s) j))"
    using assms(1) f unfolding io_inv_def by auto
  ultimately show ?thesis using assms(1) unfolding io_inv_def upd_ior_sel(1,2) by blast
qed

lemma io_inv_ps:
  assumes "io_inv env X s" and "msg_items (g (ps s)) \<inter> ior_items s = {}"
    and "\<And>t i. i \<in> ior_items s \<Longrightarrow> t_WaitItem (g (ps s)) t = WaitItem i \<Longrightarrow> t_WaitItem (ps s) t = WaitItem i"
  shows "io_inv env X (upd_ps g s)"
proof -
  have "ior_items s \<inter> msg_items (g (ps s)) = {}" using assms(2) by blast
  then show ?thesis using assms(1,3) unfolding io_inv_def upd_ps_sel by blast
qed

lemma completed_inv:
  assumes "io_inv env X s" and "i \<in> ior_items s"
    and "internalCompleteIO env (Suc n) ct i s = Some s'"
  shows "io_inv env X s'" and "ior_items s' = ior_items s" and "dev_data s' = dev_data s" and "writable s' = writable s"
    and "dev_IOReqs s' = dev_IOReqs s" and "ioreqs s' = (ioreqs s)(i := (ioreqs s i)\<lparr>IO_DONE := True\<rparr>)"
proof -
  let ?s = "upd_ior i (\<lambda>r. r\<lparr>IO_DONE := True\<rparr>) s"
  have ok: "ior_ok env (ioreqs s i)" "0 < i" using assms(1,2) by (auto simp: io_inv_def)
  then obtain t where t: "LookupTask (io_pe env) (io_Owner (ioreqs s i)) = Some t" by (auto simp: ior_ok_def)
  have T: "TaskItem (io_pe env) t = io_Owner (ioreqs s i)" using assms(1) t by (auto simp: io_inv_def)
  have s': "s' = (if IO_QUICK (ioreqs s i) then ?s else tell_owner env ct i ?s)"
    using assms(3) ok CompleteIO_user [of s i env n ct] by (simp add: ior_ok_def Let_def del: internalCompleteIO.simps)
  note S = tell_owner_sel [of env ?s i t ct]
  show "ior_items s' = ior_items s" "dev_data s' = dev_data s" "writable s' = writable s" "dev_IOReqs s' = dev_IOReqs s"
    "ioreqs s' = (ioreqs s)(i := (ioreqs s i)\<lparr>IO_DONE := True\<rparr>)"
    using s' S t by auto
  then have R: "ioreqs s' j = (if j = i then (ioreqs s i)\<lparr>IO_DONE := True\<rparr> else ioreqs s j)" for j by simp
  have okf: "ior_ok env (r\<lparr>IO_DONE := True\<rparr>) = ior_ok env r" for r by (simp add: ior_ok_def)
  have M: "msg_items (ps s') = msg_items (ps s)" using s' S t by auto
  have W: "t_WaitItem (ps s) u = WaitItem j \<and> j \<noteq> i" if "j \<in> ior_items s" "t_WaitItem (ps s') u = WaitItem j" for u j
  proof -
    have jm: "j \<notin> msg_items (ps s)" "0 < j" using assms(1) that(1) by (auto simp: io_inv_def)
    have own: "t_WaitItem (ps s) v = WaitItem i \<Longrightarrow> v = t \<and> \<not> IO_QUICK (ioreqs s i)" for v
      using assms(1,2) T unfolding io_inv_def inj_def by metis
    show ?thesis
    proof (cases "IO_QUICK (ioreqs s i)")
      case True
      then show ?thesis using that s' own by auto
    next
      case False
      have E: "t_WaitItem (ps s') = t_WaitItem (if t_WaitItem (ps s) t = WaitItem i
          then end_wait env t i (ioreqs ?s i) (ps s) else notify env ct t i (ioreqs ?s i) (ps s))"
        using False s' S(7) t by simp
      show ?thesis
      proof (cases "t_WaitItem (ps s) t = WaitItem i")
        case True
        then have "t_WaitItem (ps s') u = (if u = t then io_Error (ioreqs s i) else t_WaitItem (ps s) u)"
          unfolding E by (simp add: end_wait_sel)
        moreover have "io_Error (ioreqs s i) \<noteq> WaitItem j" using ok(1) jm(2) by (auto simp: ior_ok_def)
        ultimately have "u \<noteq> t" "t_WaitItem (ps s) u = WaitItem j" using that(2) by (auto split: if_splits)
        then show ?thesis using own [of u] by auto
      next
        case nw: False
        then have E2: "t_WaitItem (ps s') = t_WaitItem (notify env ct t i (ioreqs ?s i) (ps s))" unfolding E by simp
        have "t_WaitItem (ps s') u = t_WaitItem (ps s) u"
          using notify_sel(2) [of env ct t i "ioreqs ?s i" "ps s" u] that(2) jm(1) unfolding E2 by auto
        then show ?thesis using that(2) own [of u] nw by auto
      qed
    qed
  qed
  have "\<forall>u j. j \<in> ior_items s \<longrightarrow> t_WaitItem (ps s') u = WaitItem j \<longrightarrow>
      io_Owner (ioreqs s' j) = TaskItem (io_pe env) u \<and> \<not> IO_DONE (ioreqs s' j) \<and> \<not> IO_QUICK (ioreqs s' j)"
    using W assms(1) unfolding R io_inv_def by auto
  moreover have "\<forall>j \<in> ior_items s. 0 < j \<and> ior_ok env (ioreqs s' j) \<and> (j \<notin> X \<longrightarrow> IO_QUICK (ioreqs s' j) \<longrightarrow> IO_DONE (ioreqs s' j))"
    using assms(1) unfolding R io_inv_def by (auto simp: okf)
  ultimately show "io_inv env X s'"
    using assms(1) \<open>ior_items s' = ior_items s\<close> M unfolding io_inv_def by simp
qed

text \<open>What drivers leave alone.\<close>

definition stable :: "'d IoState \<Rightarrow> 'd IoState \<Rightarrow> bool" where
  "stable s s' \<longleftrightarrow> ior_items s' = ior_items s \<and> dev_IOReqs s' = dev_IOReqs s \<and> writable s' = writable s
     \<and> (\<forall>j \<in> ior_items s. io_Owner (ioreqs s' j) = io_Owner (ioreqs s j) \<and> io_Dev (ioreqs s' j) = io_Dev (ioreqs s j)
          \<and> ioi_Recv (io_Info (ioreqs s' j)) = ioi_Recv (io_Info (ioreqs s j)))"

lemma stable_refl [simp]: "stable s s"
  by (simp add: stable_def)

lemma stable_trans: "stable s s' \<Longrightarrow> stable s' s'' \<Longrightarrow> stable s s''"
  by (simp add: stable_def)

lemma stable_upd_ps [simp]: "stable s (upd_ps g s)"
  by (simp add: stable_def)

lemma stable_upd_ior:
  "io_Owner (f (ioreqs s i)) = io_Owner (ioreqs s i) \<Longrightarrow> io_Dev (f (ioreqs s i)) = io_Dev (ioreqs s i)
   \<Longrightarrow> ioi_Recv (io_Info (f (ioreqs s i))) = ioi_Recv (io_Info (ioreqs s i)) \<Longrightarrow> stable s (upd_ior i f s)"
  by (simp add: stable_def)

lemma device_step_inv:
  assumes "device_step env ct s s'" and "io_inv env X s"
  shows "io_inv env X s'" and "stable s s'"
    and "\<And>j. IO_DONE (ioreqs s j) \<Longrightarrow> j \<in> ior_items s \<Longrightarrow> ioreqs s' j = ioreqs s j"
proof -
  have "io_inv env X s' \<and> stable s s' \<and> (\<forall>j. IO_DONE (ioreqs s j) \<longrightarrow> j \<in> ior_items s \<longrightarrow> ioreqs s' j = ioreqs s j)"
    using assms(1)
  proof (cases rule: device_step.cases)
    case (complete i n)
    show ?thesis using completed_inv [OF assms(2) complete(1,3)] complete(2) by (auto simp: stable_def)
  next
    case (change i f)
    show ?thesis using io_inv_change [where f = f and i = i, OF assms(2) change(4)] change by (auto simp: own_change_def stable_def)
  next
    case (own d)
    then show ?thesis using assms(2) by (simp add: io_inv_def stable_def)
  next
    case (kernel k)
    then show ?thesis using io_inv_ps [OF assms(2), of "\<lambda>p. p\<lparr>ks := k p\<rparr>"] assms(2) by (auto simp: io_inv_def)
  qed
  then show "io_inv env X s'" "stable s s'" "\<And>j. IO_DONE (ioreqs s j) \<Longrightarrow> j \<in> ior_items s \<Longrightarrow> ioreqs s' j = ioreqs s j"
    by blast+
qed

lemma device_steps_inv:
  assumes "(device_step env ct)\<^sup>*\<^sup>* s s'" and "io_inv env X s"
  shows "io_inv env X s' \<and> stable s s' \<and> (\<forall>j \<in> ior_items s. IO_DONE (ioreqs s j) \<longrightarrow> ioreqs s' j = ioreqs s j)"
  using assms(1)
proof (induction rule: rtranclp_induct)
  case (step s1 s2)
  then have "io_inv env X s1" by blast
  note D = device_step_inv [OF step.hyps(2) this]
  show ?case using step.IH D stable_trans [of s s1 s2] by (auto simp: stable_def)
qed (use assms(2) in simp)

section \<open>The contract of a driver\<close>

text \<open>Up to the receive buffer, which the kernel may invalidate, and the task that waits for the end of an abort.\<close>

definition same_work :: "IOReq \<Rightarrow> IOReq \<Rightarrow> bool" where
  "same_work r r' \<longleftrightarrow> r'\<lparr>io_Info := (io_Info r')\<lparr>ioi_Recv := ioi_Recv (io_Info r)\<rparr>, io_SigItem := io_SigItem r\<rparr> = r"

text \<open>
  \<open>dinv\<close> is the invariant of the driver's data: it depends on them and on the requests in progress only.
  Dispatching a request that has just been started either completes it or clears \<open>IO_QUICK\<close>; the result 0
  means that it is deferred. The optional routines change the data of the driver only.
\<close>

locale device_driver =
  fixes env :: "'d IoEnv" and dinv :: "'d IoState \<Rightarrow> bool"
  assumes frame: "dinv s \<Longrightarrow> dev_data s' = dev_data s \<Longrightarrow>
      (\<And>j. j \<in> ior_items s \<Longrightarrow> \<not> IO_DONE (ioreqs s j) \<Longrightarrow> j \<in> ior_items s' \<and> same_work (ioreqs s j) (ioreqs s' j)) \<Longrightarrow>
      (\<And>j. j \<in> ior_items s' \<Longrightarrow> \<not> IO_DONE (ioreqs s' j) \<Longrightarrow> j \<in> ior_items s \<and> \<not> IO_DONE (ioreqs s j)) \<Longrightarrow> dinv s'"
    and dispatch: "dinv s \<Longrightarrow> i \<in> ior_items s \<Longrightarrow> IO_DONE (ioreqs s i) \<Longrightarrow> \<not> IO_DONE (f (ioreqs s i)) \<Longrightarrow> io_inv env {i} (upd_ior i f s) \<Longrightarrow>
      drv_DispatchIO env (io_Dev (f (ioreqs s i))) (internalCompleteIO env (Suc n) ct) i (upd_ior i f s) = Some (ret, s') \<Longrightarrow>
      (device_step env ct)\<^sup>*\<^sup>* (upd_ior i f s) s' \<and> dinv s' \<and> (IO_QUICK (ioreqs s' i) \<longrightarrow> IO_DONE (ioreqs s' i))
      \<and> (ret \<noteq> 0 \<longrightarrow> IO_DONE (ioreqs s' i))"
    and abort: "dinv s \<Longrightarrow> i \<in> ior_items s \<Longrightarrow> \<not> IO_DONE (ioreqs s i) \<Longrightarrow> io_inv env {} s \<Longrightarrow>
      drv_AbortIO env (io_Dev (ioreqs s i)) (internalCompleteIO env (Suc n) ct) i s = Some s' \<Longrightarrow>
      (device_step env ct)\<^sup>*\<^sup>* s s' \<and> dinv s'"
    and chown: "dinv s \<Longrightarrow> drv_ChangeIOReqOwner env d = Some g \<Longrightarrow> (\<exists>d'. snd (g i w s) = s\<lparr>dev_data := d'\<rparr>) \<and> dinv (snd (g i w s))"
    and make: "dinv s \<Longrightarrow> drv_CreateIOReq env d = Some h \<Longrightarrow> (\<exists>d'. snd (h i s) = s\<lparr>dev_data := d'\<rparr>) \<and> dinv (snd (h i s))"
    and forget: "dinv s \<Longrightarrow> drv_DeleteIOReq env d = Some k \<Longrightarrow> (\<exists>d'. k i s = s\<lparr>dev_data := d'\<rparr>) \<and> dinv (k i s)"

text \<open>
  One step of the system. A new item belongs to nothing yet and nobody waits for it. The other operations of the kernel
  may change messages and tasks but do not make a task wait for a request. Memory is taken away from tasks after
  \<open>AbortIOReqs\<close> has ended for them.
\<close>

inductive io_step :: "'d IoEnv \<Rightarrow> ('d IoState \<Rightarrow> bool) \<Rightarrow> 'd IoState \<Rightarrow> 'd IoState \<Rightarrow> bool" for env dinv where
  start: "externalSendIO env (Suc n) ct i ioi s = Some (r, s') \<Longrightarrow> io_step env dinv s s'"
| do: "externalDoIO env (Suc n) ct i ioi s = Some (w, s') \<Longrightarrow> io_step env dinv s s'"
| wait: "io_step env dinv s (snd (externalWaitIO env ct i s))"
| woken: "io_step env dinv s (snd (WaitIO_woken ct s))"
| abort: "externalAbortIO env (Suc n) ct i s = Some (u, s') \<Longrightarrow> io_step env dinv s s'"
| device: "(device_step env ct)\<^sup>*\<^sup>* s s' \<Longrightarrow> dinv s' \<Longrightarrow> io_step env dinv s s'"
| create: "0 < i \<Longrightarrow> i \<notin> ior_items s \<Longrightarrow> i \<notin> msg_items (ps s) \<Longrightarrow> (\<And>t. t_WaitItem (ps s) t \<noteq> WaitItem i) \<Longrightarrow>
    (\<And>sz m a. mk_msg sz = Some (m, a) \<Longrightarrow> m \<noteq> i \<and> m \<notin> ior_items s) \<Longrightarrow>
    LookupTask (io_pe env) (TaskItem (io_pe env) ct) = Some ct \<Longrightarrow>
    io_step env dinv s (snd (internalCreateIOReq env ct (Some i) mk_msg pr tags s))"
| give: "i \<in> ior_items s \<Longrightarrow> SetIOReqOwner env i w s = (Inr (), s') \<Longrightarrow> LookupTask (io_pe env) w = Some t \<Longrightarrow>
    io_step env dinv s (upd_ior i (\<lambda>r. r\<lparr>io_Owner := w\<rparr>) s')"
| abort_foreign: "i \<in> ior_items s \<Longrightarrow> internalAbortForeignIO env (Suc n) ct i s = Some (over, s') \<Longrightarrow> io_step env dinv s s'"
| abort_woken: "io_step env dinv s (snd (AbortForeignIO_woken env ct i s))"
| delete: "i \<in> ior_items s \<Longrightarrow> internalDeleteIOReq env (Suc n) ct i s = Some (over, s') \<Longrightarrow>
    io_step env dinv s (if over then s'\<lparr>ior_items := ior_items s - {i}\<rparr> else s')"
| others: "ior_items s \<inter> msg_items (g (ps s)) = {} \<Longrightarrow>
    (\<And>t i. i \<in> ior_items s \<Longrightarrow> t_WaitItem (g (ps s)) t = WaitItem i \<Longrightarrow> t_WaitItem (ps s) t = WaitItem i) \<Longrightarrow>
    io_step env dinv s (upd_ps g s)"
| grant: "(\<And>t a n. writable s t a n \<Longrightarrow> w t a n) \<Longrightarrow> io_step env dinv s (s\<lparr>writable := w\<rparr>)"
| revoke: "AbortIOReqs env (Suc n) ct devs t p len s = Some (x, s') \<Longrightarrow>
    (\<And>u b. x \<noteq> None \<or> (\<exists>f. t = Some f \<and> \<not> SameTaskFamily (io_pe env) f u) \<or> \<not> meets p len b \<Longrightarrow> iob_Len b \<noteq> 0 \<Longrightarrow>
      writable s' u (iob_Buffer b) (iob_Len b) \<Longrightarrow> w u (iob_Buffer b) (iob_Len b)) \<Longrightarrow>
    (\<And>i. i \<in> ior_items s \<Longrightarrow> io_Dev (ioreqs s i) \<in> set devs) \<Longrightarrow>
    io_step env dinv s (s'\<lparr>writable := w\<rparr>)"

inductive_cases io_stepE: "io_step env dinv s s'"

text \<open>The receive buffer of a request is one that its owner may write. The list of a device has its requests, each once.\<close>

definition dev_lists :: "'d IoState \<Rightarrow> bool" where
  "dev_lists s \<longleftrightarrow> (\<forall>d. distinct (dev_IOReqs s d) \<and> set (dev_IOReqs s d) = {i \<in> ior_items s. io_Dev (ioreqs s i) = d})"

definition recv_ok :: "'d IoEnv \<Rightarrow> 'd IoState \<Rightarrow> bool" where
  "recv_ok env s \<longleftrightarrow> dev_lists s \<and>
     (\<forall>i \<in> ior_items s. iob_Len (ioi_Recv (io_Info (ioreqs s i))) \<noteq> 0 \<longrightarrow>
        (\<forall>t. LookupTask (io_pe env) (io_Owner (ioreqs s i)) = Some t \<longrightarrow>
           writable s t (iob_Buffer (ioi_Recv (io_Info (ioreqs s i)))) (iob_Len (ioi_Recv (io_Info (ioreqs s i))))))"

lemma dev_lists_cong:
  "dev_lists s \<Longrightarrow> ior_items s' = ior_items s \<Longrightarrow> dev_IOReqs s' = dev_IOReqs s
   \<Longrightarrow> (\<And>i. i \<in> ior_items s \<Longrightarrow> io_Dev (ioreqs s' i) = io_Dev (ioreqs s i)) \<Longrightarrow> dev_lists s'"
  unfolding dev_lists_def by (metis (mono_tags, lifting) Collect_cong)

lemma io_inv_mono: "io_inv env X s \<Longrightarrow> X \<subseteq> Y \<Longrightarrow> io_inv env Y s"
  unfolding io_inv_def by blast

lemma io_inv_close:
  assumes "io_inv env {i} s" and "IO_QUICK (ioreqs s i) \<Longrightarrow> IO_DONE (ioreqs s i)"
  shows "io_inv env {} s"
proof -
  have "IO_QUICK (ioreqs s j) \<Longrightarrow> IO_DONE (ioreqs s j)" if "j \<in> ior_items s" for j
    using assms that by (cases "j = i") (simp_all add: io_inv_def)
  then show ?thesis using assms(1) unfolding io_inv_def by simp
qed

lemma recv_stable: "recv_ok env s \<Longrightarrow> stable s s' \<Longrightarrow> recv_ok env s'"
  using dev_lists_cong [of s s'] by (simp add: recv_ok_def stable_def)

lemma same_work_refl [simp]: "same_work r r"
  by (simp add: same_work_def)

text \<open>A system without requests; an item names one task.\<close>

definition io_start :: "'d IoEnv \<Rightarrow> ('d IoState \<Rightarrow> bool) \<Rightarrow> 'd IoState \<Rightarrow> bool" where
  "io_start env dinv s \<longleftrightarrow> ior_items s = {} \<and> (\<forall>d. dev_IOReqs s d = []) \<and> dinv s
     \<and> inj (TaskItem (io_pe env)) \<and> (\<forall>i t. LookupTask (io_pe env) i = Some t \<longrightarrow> TaskItem (io_pe env) t = i)"

context device_driver
begin

definition all_ok :: "'d IoState \<Rightarrow> bool" where
  "all_ok s \<longleftrightarrow> io_inv env {} s \<and> dinv s \<and> recv_ok env s"

lemma SendIO_keeps:
  assumes "all_ok s" and "i \<in> ior_items s" and "IO_DONE (ioreqs s i)"
    and "internalSendIO env (internalCompleteIO env (Suc n) ct) i s = Some (ret, s')"
  shows "all_ok s' \<and> stable s s' \<and> (ret \<noteq> 0 \<longrightarrow> IO_DONE (ioreqs s' i))"
proof -
  let ?f = "\<lambda>r. r\<lparr>io_Error := WaitItem 0, io_Actual := 0, IO_DONE := False, IO_QUICK := ioi_Flags (io_Info r) AND IO_QUICK_FLAG \<noteq> 0\<rparr>"
  let ?s = "upd_ior i ?f s"
  have A: "io_inv env {} s" "dinv s" "recv_ok env s" using assms(1) by (auto simp: all_ok_def)
  have s1: "io_inv env {i} ?s"
    by (rule io_inv_upd_done [OF io_inv_mono [OF A(1)]]) (use A(1) assms(2,3) in \<open>auto simp: io_inv_def ior_ok_def\<close>)
  have st: "stable s ?s" by (rule stable_upd_ior) simp_all
  show ?thesis
  proof (cases "DEVF_OFFLINE env (io_Dev (ioreqs s i))")
    case True
    let ?g = "\<lambda>r. r\<lparr>io_Error := WaitErr ER_DeviceOffline\<rparr>"
    let ?s2 = "upd_ior i ?g ?s"
    have s2: "io_inv env {i} ?s2" by (rule io_inv_change [OF s1]) (simp add: own_change_def)
    have c: "ret = 1" "internalCompleteIO env (Suc n) ct i ?s2 = Some s'"
      using assms(4) True by (auto simp: internalSendIO_def Let_def split: option.splits)
    have "i \<in> ior_items ?s2" using assms(2) by simp
    note C = completed_inv [OF s2 this c(2)]
    have d: "IO_DONE (ioreqs s' i)" using C(6) by simp
    have "io_inv env {} s'" by (rule io_inv_close [OF C(1)]) (rule d)
    moreover have "dinv s'" by (rule frame [OF A(2)]) (use C assms(3) in \<open>auto split: if_splits\<close>)
    moreover have st': "stable s s'" using C by (simp add: stable_def)
    ultimately show ?thesis using d recv_stable [OF A(3)] by (simp add: all_ok_def)
  next
    case False
    then have d: "drv_DispatchIO env (io_Dev (?f (ioreqs s i))) (internalCompleteIO env (Suc n) ct) i ?s = Some (ret, s')"
      using assms(4) by (simp add: internalSendIO_def)
    have D: "(device_step env ct)\<^sup>*\<^sup>* ?s s'" "dinv s'" "IO_QUICK (ioreqs s' i) \<Longrightarrow> IO_DONE (ioreqs s' i)" "ret \<noteq> 0 \<Longrightarrow> IO_DONE (ioreqs s' i)"
      using dispatch [OF A(2) assms(2,3) _ s1 d] by simp_all
    have S: "io_inv env {i} s'" "stable ?s s'" using device_steps_inv [OF D(1) s1] by auto
    have "io_inv env {} s'" by (rule io_inv_close [OF S(1) D(3)])
    then show ?thesis using D S stable_trans [OF st S(2)] recv_stable [OF A(3)] by (auto simp: all_ok_def)
  qed
qed

lemma StartIO_keeps:
  assumes "all_ok s" and "StartIO env (Suc n) ct (check_ior i s) ioi w s = Some (r, s')"
  shows "all_ok s' \<and> ior_items s' = ior_items s
    \<and> (\<forall>k. r = Inr k \<longrightarrow> i \<in> ior_items s \<and> io_Owner (ioreqs s' i) = TaskItem (io_pe env) ct \<and> (k \<noteq> 0 \<longrightarrow> IO_DONE (ioreqs s' i)))"
proof (cases "s' = s \<and> (\<exists>e. r = Inl e)")
  case False
  then obtain info0 where i: "i \<in> ior_items s" "io_Owner (ioreqs s i) = TaskItem (io_pe env) ct" "IO_DONE (ioreqs s i)"
    and ioi: "ioi = Some info0"
    using assms(2) by (auto simp: StartIO_def check_ior_def Let_def simp del: internalCompleteIO.simps split: if_splits option.splits)
  define info where "info = (if w then info0\<lparr>ioi_Flags := ioi_Flags info0 OR IO_QUICK_FLAG\<rparr> else info0)"
  have "buffer_ok (ioi_Recv info0) (ioi_Recv (io_Info (ioreqs s i))) (writable s ct)"
    using assms(2) False i ioi by (auto simp: StartIO_def check_ior_def Let_def simp del: internalCompleteIO.simps split: if_splits)
  then have b: "buffer_ok (ioi_Recv info) (ioi_Recv (io_Info (ioreqs s i))) (writable s ct)" by (simp add: info_def)
  have "(case internalSendIO env (internalCompleteIO env (Suc n) ct) i (upd_ior i (\<lambda>r. r\<lparr>io_Info := info, io_CallBack := None\<rparr>) s) of
      None \<Rightarrow> None | Some (ret, s) \<Rightarrow> Some (Inr ret, s)) = Some (r, s')"
    using assms(2) False i ioi unfolding info_def
    by (cases w) (auto simp: StartIO_def check_ior_def Let_def simp del: internalCompleteIO.simps split: if_splits)
  then obtain ret where r: "r = Inr ret"
    and S: "internalSendIO env (internalCompleteIO env (Suc n) ct) i (upd_ior i (\<lambda>r. r\<lparr>io_Info := info, io_CallBack := None\<rparr>) s) = Some (ret, s')"
    by (auto simp del: internalCompleteIO.simps split: option.splits)
  let ?s = "upd_ior i (\<lambda>r. r\<lparr>io_Info := info, io_CallBack := None\<rparr>) s"
  have A: "io_inv env {} s" "dinv s" "recv_ok env s" using assms(1) by (auto simp: all_ok_def)
  have "io_inv env {} ?s" by (rule io_inv_upd_done [OF A(1)]) (use A(1) i in \<open>auto simp: io_inv_def ior_ok_def\<close>)
  moreover have "dinv ?s" by (rule frame [OF A(2)]) (use i(3) in \<open>auto split: if_splits\<close>)
  moreover have "recv_ok env ?s"
  proof -
    have "writable s t (iob_Buffer (ioi_Recv info)) (iob_Len (ioi_Recv info))"
      if "iob_Len (ioi_Recv info) \<noteq> 0" "LookupTask (io_pe env) (io_Owner (ioreqs s i)) = Some t" for t
    proof -
      have "TaskItem (io_pe env) t = TaskItem (io_pe env) ct" using A(1) that(2) i(2) by (auto simp: io_inv_def)
      then have "t = ct" using A(1) by (auto simp: io_inv_def inj_eq)
      then show ?thesis using b that A(3) i(1) by (auto simp: buffer_ok_def recv_ok_def split: if_splits)
    qed
    moreover have "dev_lists ?s" by (rule dev_lists_cong [of s]) (use A(3) in \<open>auto simp: recv_ok_def\<close>)
    ultimately show ?thesis using A(3) by (auto simp: recv_ok_def)
  qed
  ultimately have "all_ok ?s" by (simp add: all_ok_def)
  from SendIO_keeps [OF this _ _ S] i r show ?thesis by (auto simp: stable_def)
qed (use assms(1) in auto)

lemma ps_keeps:
  assumes "all_ok s" and "ior_items s \<inter> msg_items (g (ps s)) = {}"
    and "\<And>t i. i \<in> ior_items s \<Longrightarrow> t_WaitItem (g (ps s)) t = WaitItem i \<Longrightarrow> t_WaitItem (ps s) t = WaitItem i"
  shows "all_ok (upd_ps g s)"
proof -
  have A: "io_inv env {} s" "dinv s" "recv_ok env s" using assms(1) by (auto simp: all_ok_def)
  have "io_inv env {} (upd_ps g s)" by (rule io_inv_ps [OF A(1)]) (use assms(2,3) in auto)
  moreover have "dinv (upd_ps g s)" by (rule frame [OF A(2)]) simp_all
  ultimately show ?thesis using recv_stable [OF A(3) stable_upd_ps] by (simp add: all_ok_def)
qed

lemma own_keeps: "all_ok s \<Longrightarrow> dinv (s\<lparr>dev_data := d\<rparr>) \<Longrightarrow> all_ok (s\<lparr>dev_data := d\<rparr>)"
  by (simp add: all_ok_def io_inv_def recv_ok_def dev_lists_def)

text \<open>
  Changing a request that is not in progress.
\<close>

lemma idle_keeps:
  assumes "all_ok s" and "IO_DONE (ioreqs s i) \<or> i \<notin> ior_items s" and "i \<in> ior_items s \<Longrightarrow> ior_ok env (f (ioreqs s i)) \<and> IO_DONE (f (ioreqs s i))"
    and "i \<in> ior_items s \<Longrightarrow> io_Dev (f (ioreqs s i)) = io_Dev (ioreqs s i) \<and> iob_Len (ioi_Recv (io_Info (f (ioreqs s i)))) = 0"
  shows "all_ok (upd_ior i f s)"
proof -
  have A: "io_inv env {} s" "dinv s" "recv_ok env s" using assms(1) by (auto simp: all_ok_def)
  have "io_inv env {} (upd_ior i f s)"
  proof (cases "i \<in> ior_items s")
    case True
    then show ?thesis by (intro io_inv_upd_done [OF A(1)]) (use assms(2,3) in auto)
  next
    case False
    then have "j \<in> ior_items s \<Longrightarrow> ioreqs (upd_ior i f s) j = ioreqs s j" for j by auto
    then show ?thesis using A(1) unfolding io_inv_def by simp
  qed
  moreover have "dinv (upd_ior i f s)" by (rule frame [OF A(2)]) (use assms(2,3) in \<open>auto split: if_splits\<close>)
  moreover have "dev_lists (upd_ior i f s)" by (rule dev_lists_cong [of s]) (use A(3) assms(4) in \<open>auto simp: recv_ok_def\<close>)
  then have "recv_ok env (upd_ior i f s)" using A(3) assms(4) by (auto simp: recv_ok_def)
  ultimately show ?thesis by (simp add: all_ok_def)
qed

lemma WaitIO_keeps:
  assumes "all_ok s" and "i \<in> ior_items s" and "io_Owner (ioreqs s i) = TaskItem (io_pe env) ct"
  shows "all_ok (snd (internalWaitIO env ct i s))"
proof (cases "IO_DONE (ioreqs s i)")
  case False
  let ?g = "\<lambda>p. p\<lparr>t_WaitItem := (t_WaitItem p)(ct := WaitItem i), ks := SleepTask (pe_clock (io_pe env)) ct (ks p)\<rparr>"
  have A: "io_inv env {} s" "dinv s" "recv_ok env s" using assms(1) by (auto simp: all_ok_def)
  have "\<not> IO_QUICK (ioreqs s i)" using A(1) assms(2) False by (auto simp: io_inv_def)
  then have "io_inv env {} (upd_ps ?g s)" using A(1) assms(2,3) False by (auto simp: io_inv_def)
  moreover have "dinv (upd_ps ?g s)" by (rule frame [OF A(2)]) simp_all
  ultimately have "all_ok (upd_ps ?g s)" using recv_stable [OF A(3) stable_upd_ps] by (simp add: all_ok_def)
  then show ?thesis using False by (simp add: internalWaitIO_def)
qed (use assms(1) in \<open>simp add: internalWaitIO_def\<close>)

lemma WaitIO_woken_keeps: "all_ok s \<Longrightarrow> all_ok (snd (WaitIO_woken ct s))"
  unfolding WaitIO_woken_def snd_conv
  by (rule ps_keeps) (auto simp: all_ok_def io_inv_def split: if_splits)

lemma externalWaitIO_keeps: "all_ok s \<Longrightarrow> all_ok (snd (externalWaitIO env ct i s))"
  using WaitIO_keeps [of s i ct] by (simp add: externalWaitIO_def split_beta)

lemma DoIO_keeps:
  assumes "all_ok s" and "externalDoIO env (Suc n) ct i ioi s = Some (w, s')"
  shows "all_ok s'"
proof -
  obtain r s1 where S: "StartIO env (Suc n) ct (check_ior i s) ioi True s = Some (r, s1)"
    using assms(2) by (auto simp: externalDoIO_def simp del: internalCompleteIO.simps split: option.splits)
  note K = StartIO_keeps [OF assms(1) S]
  show ?thesis
  proof (cases "r = Inr 0")
    case True
    then have "s' = snd (internalWaitIO env ct i s1)"
      using assms(2) S by (auto simp: externalDoIO_def split_beta simp del: internalCompleteIO.simps)
    then show ?thesis using WaitIO_keeps [of s1 i ct] K True by simp
  qed (use assms(2) S K in \<open>auto simp: externalDoIO_def simp del: internalCompleteIO.simps\<close>)
qed

lemma device_keeps: "all_ok s \<Longrightarrow> (device_step env ct)\<^sup>*\<^sup>* s s' \<Longrightarrow> dinv s' \<Longrightarrow> all_ok s' \<and> stable s s'"
  using device_steps_inv [of env ct s s' "{}"] recv_stable by (auto simp: all_ok_def)

lemma AbortIO_keeps:
  assumes "all_ok s" and "i \<in> ior_items s" and "internalAbortIO env (Suc n) ct i s = Some s'"
  shows "all_ok s' \<and> stable s s'"
proof (cases "IO_DONE (ioreqs s i)")
  case False
  then have "(device_step env ct)\<^sup>*\<^sup>* s s' \<and> dinv s'"
    using assms by (intro abort) (auto simp: all_ok_def internalAbortIO_def simp del: internalCompleteIO.simps)
  then show ?thesis using device_keeps [OF assms(1)] by blast
qed (use assms in \<open>simp add: internalAbortIO_def\<close>)

lemma externalAbortIO_keeps:
  assumes "all_ok s" and "externalAbortIO env (Suc n) ct i s = Some (u, s')"
  shows "all_ok s'"
  using assms AbortIO_keeps [of s i n ct] by (auto simp: externalAbortIO_def split: if_splits option.splits)

text \<open>Requests of other components stay as they are while a new request is set up.\<close>

lemma new_keeps:
  assumes "all_ok s" and "i \<notin> ior_items s" and "0 < i" and "i \<notin> msg_items (ps s)" and "\<And>t. t_WaitItem (ps s) t \<noteq> WaitItem i"
    and "ior_ok env (ioreqs s i)" and "IO_DONE (ioreqs s i)" and "iob_Len (ioi_Recv (io_Info (ioreqs s i))) = 0"
    and "io_Dev (ioreqs s i) = dev"
  shows "all_ok (s\<lparr>ior_items := insert i (ior_items s), dev_IOReqs := (dev_IOReqs s)(dev := dev_IOReqs s dev @ [i])\<rparr>)"
    (is "all_ok ?s")
proof -
  have A: "io_inv env {} s" "dinv s" "recv_ok env s" using assms(1) by (auto simp: all_ok_def)
  have "io_inv env {} ?s" using A(1) assms(2-7) by (auto simp: io_inv_def)
  moreover have "dinv ?s" by (rule frame [OF A(2)]) (use assms(7) in auto)
  moreover have "recv_ok env ?s" using A(3) assms(2,8,9) by (auto simp: recv_ok_def dev_lists_def)
  ultimately show ?thesis by (simp add: all_ok_def)
qed

lemma CreateMsg_frame:
  assumes "externalCreateMsg pe ct mk pr tags p = (r, p')" and "\<And>sz m a. mk sz = Some (m, a) \<Longrightarrow> P m"
  shows "t_WaitItem p' = t_WaitItem p" and "x \<in> msg_items p' \<Longrightarrow> x \<in> msg_items p \<or> P x" and "r = Inr m \<Longrightarrow> P m"
proof -
  have "t_WaitItem p' = t_WaitItem p \<and> (x \<in> msg_items p' \<longrightarrow> x \<in> msg_items p \<or> (\<exists>sz a. mk sz = Some (x, a)))
      \<and> (\<forall>m. r = Inr m \<longrightarrow> (\<exists>sz a. mk sz = Some (m, a)))"
    using assms(1) by (auto simp: externalCreateMsg_def hold_msg_def Let_def split: option.splits sum.splits if_splits) metis+
  then show "t_WaitItem p' = t_WaitItem p" "x \<in> msg_items p' \<Longrightarrow> x \<in> msg_items p \<or> P x" "r = Inr m \<Longrightarrow> P m"
    using assms(2) by blast+
qed

lemma DeleteMsg_frame:
  "msg_items (internalDeleteMsg pe m p) = msg_items p"
  "t_WaitItem (internalDeleteMsg pe m p) t = WaitItem j \<Longrightarrow> t_WaitItem p t = WaitItem j"
proof -
  let ?f = "\<lambda>s t. if t_WaitItem s t = WaitItem m then ready_task pe t (s\<lparr>t_WaitItem := (t_WaitItem s)(t := WaitErr ABORTED)\<rparr>) else s"
  have *: "msg_items (foldl ?f s ts) = msg_items s \<and> (t_WaitItem (foldl ?f s ts) t = WaitItem j \<longrightarrow> t_WaitItem s t = WaitItem j)" for ts s
  proof (induction ts arbitrary: s)
    case (Cons u ts)
    from Cons.IH [of "?f s u"] show ?case by (auto split: if_splits)
  qed simp
  have F: "msg_items (abort_waiters pe m s) = msg_items s" "t_WaitItem (abort_waiters pe m s) t = WaitItem j \<Longrightarrow> t_WaitItem s t = WaitItem j" for s
    unfolding abort_waiters_def using * by blast+
  show "msg_items (internalDeleteMsg pe m p) = msg_items p" by (simp add: internalDeleteMsg_def F(1))
  show "t_WaitItem (internalDeleteMsg pe m p) t = WaitItem j \<Longrightarrow> t_WaitItem p t = WaitItem j"
    unfolding internalDeleteMsg_def by (drule F(2)) simp
qed

lemma delete_msg_keeps:
  assumes "all_ok s"
  shows "all_ok (upd_ps (\<lambda>p. (internalDeleteMsg pe m p)\<lparr>msg_items := msg_items p - {m}\<rparr>) s)"
proof (rule ps_keeps [OF assms])
  have "ior_items s \<inter> msg_items (ps s) = {}" using assms by (simp add: all_ok_def io_inv_def)
  then show "ior_items s \<inter> msg_items ((internalDeleteMsg pe m (ps s))\<lparr>msg_items := msg_items (ps s) - {m}\<rparr>) = {}" by auto
next
  fix t i assume "t_WaitItem ((internalDeleteMsg pe m (ps s))\<lparr>msg_items := msg_items (ps s) - {m}\<rparr>) t = WaitItem i"
  then show "t_WaitItem (ps s) t = WaitItem i" using DeleteMsg_frame(2) [of pe m "ps s" t i] by simp
qed

lemma give_keeps:
  assumes "all_ok s" and "i \<in> ior_items s" and "SetIOReqOwner env i w s = (Inr (), s')" and "LookupTask (io_pe env) w = Some t"
  shows "all_ok (upd_ior i (\<lambda>r. r\<lparr>io_Owner := w\<rparr>) s')"
proof -
  have d: "IO_DONE (ioreqs s i)" using assms(3) by (auto simp: SetIOReqOwner_def Let_def split: if_splits)
  have r: "ior_ok env (ioreqs s i)" using assms(1,2) by (auto simp: all_ok_def io_inv_def)
  let ?s = "drop_recv i s"
  have s1: "all_ok ?s" unfolding drop_recv_def by (rule idle_keeps [OF assms(1)]) (use d r in \<open>auto simp: ior_ok_def\<close>)
  have s': "s' = ?s \<or> (\<exists>g. drv_ChangeIOReqOwner env (io_Dev (ioreqs s i)) = Some g \<and> s' = snd (g i w ?s))"
    using assms(3) by (auto simp: SetIOReqOwner_def Let_def split: if_splits option.splits)
  have "all_ok s' \<and> ioreqs s' = ioreqs ?s \<and> ior_items s' = ior_items s"
    using s'
  proof
    assume "\<exists>g. drv_ChangeIOReqOwner env (io_Dev (ioreqs s i)) = Some g \<and> s' = snd (g i w ?s)"
    then obtain g where g: "drv_ChangeIOReqOwner env (io_Dev (ioreqs s i)) = Some g" "s' = snd (g i w ?s)" by blast
    have "dinv ?s" using s1 by (simp add: all_ok_def)
    from chown [OF this g(1), of i w] obtain d' where "s' = ?s\<lparr>dev_data := d'\<rparr>" "dinv s'" using g(2) by auto
    then show ?thesis using own_keeps [OF s1] by (auto simp: drop_recv_def)
  qed (use s1 in \<open>simp add: drop_recv_def\<close>)
  then show ?thesis
    by (intro idle_keeps) (use d r assms(4) in \<open>auto simp: drop_recv_def ior_ok_def\<close>)
qed

lemma delete_keeps:
  assumes "all_ok s" and "i \<in> ior_items s" and "IO_DONE (ioreqs s i)"
  shows "all_ok ((finish_delete env i s)\<lparr>ior_items := ior_items s - {i}\<rparr>)"
proof -
  let ?dev = "io_Dev (ioreqs s i)"
  define s1 where "s1 = (case drv_DeleteIOReq env ?dev of None \<Rightarrow> s | Some f \<Rightarrow> f i s)"
  have s1: "all_ok s1 \<and> (\<exists>d. s1 = s\<lparr>dev_data := d\<rparr>)"
  proof (cases "drv_DeleteIOReq env ?dev")
    case None
    then have "s1 = s\<lparr>dev_data := dev_data s\<rparr>" "s1 = s" by (simp_all add: s1_def)
    then show ?thesis using assms(1) by metis
  next
    case (Some f)
    then show ?thesis using forget [OF _ Some, of s i] own_keeps [OF assms(1)] assms(1) by (auto simp: s1_def all_ok_def)
  qed
  define s2 where "s2 = s1\<lparr>dev_IOReqs := (dev_IOReqs s1)(?dev := remove1 i (dev_IOReqs s1 ?dev)), ior_items := ior_items s - {i}\<rparr>"
  have eq: "ioreqs s1 = ioreqs s" "ior_items s1 = ior_items s" "dev_IOReqs s1 = dev_IOReqs s" using s1 by auto
  have A: "io_inv env {} s1" "dinv s1" "recv_ok env s1" using s1 by (auto simp: all_ok_def)
  have "io_inv env {} s2" using A(1) eq by (auto simp: io_inv_def s2_def)
  moreover have "dinv s2" by (rule frame [OF A(2)]) (use eq assms(3) in \<open>auto simp: s2_def\<close>)
  moreover have "recv_ok env s2" using A(3) eq by (auto simp: recv_ok_def dev_lists_def s2_def)
  ultimately have s2: "all_ok s2" by (simp add: all_ok_def)
  have "(finish_delete env i s)\<lparr>ior_items := ior_items s - {i}\<rparr>
      = (if IO_MESSAGEBASED (ioreqs s i) \<and> io_MsgItem (ioreqs s i) \<in> msg_items (ps s)
         then upd_ps (\<lambda>p. (internalDeleteMsg (io_pe env) (io_MsgItem (ioreqs s i)) p)
                \<lparr>msg_items := msg_items p - {io_MsgItem (ioreqs s i)}\<rparr>) s2 else s2)"
    using eq s1 by (auto simp: finish_delete_def Let_def s2_def s1_def [symmetric] upd_ps_def)
  then show ?thesis using s2 delete_msg_keeps by simp
qed

text \<open>
  Changes that the invariant does not see.
\<close>

lemma unseen_keeps:
  assumes "all_ok s"
    and "\<And>r. io_Owner (f r) = io_Owner r \<and> io_Dev (f r) = io_Dev r \<and> IO_DONE (f r) = IO_DONE r \<and> IO_QUICK (f r) = IO_QUICK r
      \<and> io_CallBack (f r) = io_CallBack r \<and> IO_INTERNAL (f r) = IO_INTERNAL r \<and> io_Error (f r) = io_Error r \<and> same_work r (f r)
      \<and> (iob_Len (ioi_Recv (io_Info (f r))) = 0 \<or> ioi_Recv (io_Info (f r)) = ioi_Recv (io_Info r))"
  shows "all_ok (upd_ior i f s)"
proof -
  have A: "io_inv env {} s" "dinv s" "recv_ok env s" using assms(1) by (auto simp: all_ok_def)
  have f: "io_Owner (ioreqs (upd_ior i f s) j) = io_Owner (ioreqs s j)" "io_Dev (ioreqs (upd_ior i f s) j) = io_Dev (ioreqs s j)"
    "IO_DONE (ioreqs (upd_ior i f s) j) = IO_DONE (ioreqs s j)" "IO_QUICK (ioreqs (upd_ior i f s) j) = IO_QUICK (ioreqs s j)"
    "ior_ok env (ioreqs (upd_ior i f s) j) = ior_ok env (ioreqs s j)" "same_work (ioreqs s j) (ioreqs (upd_ior i f s) j)"
    "iob_Len (ioi_Recv (io_Info (ioreqs (upd_ior i f s) j))) = 0 \<or> ioi_Recv (io_Info (ioreqs (upd_ior i f s) j)) = ioi_Recv (io_Info (ioreqs s j))"
    for j using assms(2) [of "ioreqs s i"] by (auto simp: ior_ok_def)
  have "io_inv env {} (upd_ior i f s)" using A(1) unfolding io_inv_def f upd_ior_sel(1,2) .
  moreover have "dinv (upd_ior i f s)" by (rule frame [OF A(2)]) (use f(3,6) in auto)
  moreover have "recv_ok env (upd_ior i f s)"
    unfolding recv_ok_def dev_lists_def upd_ior_sel(2,3,4) f(1,2) using A(3) f(7) unfolding recv_ok_def dev_lists_def by metis
  ultimately show ?thesis by (simp add: all_ok_def)
qed

lemma drop_recv_keeps: "all_ok s \<Longrightarrow> all_ok (drop_recv i s)"
  unfolding drop_recv_def by (rule unseen_keeps) (auto simp: same_work_def)

lemma await_keeps: "all_ok s \<Longrightarrow> all_ok (snd (await_abort env ct i s))"
proof -
  assume "all_ok s"
  then have "all_ok (upd_ior i (\<lambda>r. r\<lparr>io_SigItem := TaskItem (io_pe env) ct\<rparr>) s)" by (rule unseen_keeps) (auto simp: same_work_def)
  then have "all_ok (upd_ps (\<lambda>p. p\<lparr>ks := SleepTask (pe_clock (io_pe env)) ct (ks p)\<rparr>)
      (upd_ior i (\<lambda>r. r\<lparr>io_SigItem := TaskItem (io_pe env) ct\<rparr>) s))"
    by (rule ps_keeps) (use \<open>all_ok s\<close> in \<open>simp_all add: all_ok_def io_inv_def\<close>)
  then show ?thesis using \<open>all_ok s\<close> by (simp add: await_abort_def)
qed

lemma AbortForeignIO_keeps:
  assumes "all_ok s" and "i \<in> ior_items s" and "internalAbortForeignIO env (Suc n) ct i s = Some (over, s')"
  shows "all_ok s'" and "stable s s'" and "over \<Longrightarrow> IO_DONE (ioreqs s' i)"
proof -
  obtain s1 where s1: "internalAbortIO env (Suc n) ct i s = Some s1" "(over, s') = await_abort env ct i s1"
    using assms(3) by (auto simp: internalAbortForeignIO_def simp del: internalCompleteIO.simps split: option.splits)
  note K = AbortIO_keeps [OF assms(1,2) s1(1)]
  have s': "s' = snd (await_abort env ct i s1)" using s1(2) by (metis snd_conv)
  show "all_ok s'" unfolding s' using await_keeps K by blast
  have "stable s1 s'" unfolding s' by (auto simp: await_abort_def stable_def)
  then show "stable s s'" using stable_trans K by blast
  show "over \<Longrightarrow> IO_DONE (ioreqs s' i)" using s1(2) by (auto simp: await_abort_def split: if_splits)
qed

lemma AbortForeignIO_woken_keeps: "all_ok s \<Longrightarrow> all_ok (snd (AbortForeignIO_woken env ct i s))"
  unfolding AbortForeignIO_woken_def by (intro await_keeps unseen_keeps) (auto simp: same_work_def)

lemma deleting_keeps:
  assumes "all_ok s" and "i \<in> ior_items s" and "internalDeleteIOReq env (Suc n) ct i s = Some (over, s')"
  shows "all_ok (if over then s'\<lparr>ior_items := ior_items s - {i}\<rparr> else s')"
proof -
  obtain s1 where s1: "(if \<not> IO_DONE (ioreqs s i) then internalAbortForeignIO env (Suc n) ct i s else Some (True, s)) = Some (over, s1)"
    and s': "s' = (if over then finish_delete env i s1 else s1)"
    using assms(3) by (auto simp: internalDeleteIOReq_def simp del: internalCompleteIO.simps split: option.splits)
  have "all_ok s1 \<and> stable s s1 \<and> (over \<longrightarrow> IO_DONE (ioreqs s1 i))"
    using s1 AbortForeignIO_keeps [OF assms(1,2), of n ct over s1] assms(1) by (cases "IO_DONE (ioreqs s i)") auto
  then show ?thesis using delete_keeps [of s1 i] assms(2) by (auto simp: s' stable_def)
qed

text \<open>The scan leaves no request behind that it should have found.\<close>

definition found :: "task option \<Rightarrow> u32 \<Rightarrow> u32 \<Rightarrow> 'd IoState \<Rightarrow> int \<Rightarrow> bool" where
  "found t p len s i \<longleftrightarrow> of_family env t (ioreqs s i) \<and> meets p len (ioi_Recv (io_Info (ioreqs s i)))"

lemma scan_keeps:
  assumes "all_ok s" and "scan_ioreqs env t p len is s = (x, s')"
  shows "all_ok s' \<and> ior_items s' = ior_items s \<and> writable s' = writable s \<and> dev_IOReqs s' = dev_IOReqs s
    \<and> (\<forall>j. io_Dev (ioreqs s' j) = io_Dev (ioreqs s j)) \<and> (\<forall>j. found t p len s' j \<longrightarrow> found t p len s j)
    \<and> (case x of None \<Rightarrow> \<forall>j \<in> set is. \<not> found t p len s' j | Some i \<Rightarrow> i \<in> set is)"
  using assms
proof (induction "is" arbitrary: s)
  case (Cons i "is")
  show ?case
  proof (cases "found t p len s i")
    case False
    then have "scan_ioreqs env t p len is s = (x, s')" using Cons.prems(2) by (auto simp: found_def)
    from Cons.IH [OF Cons.prems(1) this] False show ?thesis by (auto split: option.splits)
  next
    case True
    let ?s = "drop_recv i s"
    have o: "of_family env t (r\<lparr>io_Info := x\<rparr>) = of_family env t r" for r x by (simp add: of_family_def split: option.split)
    have s: "all_ok ?s" "ior_items ?s = ior_items s" "writable ?s = writable s" "dev_IOReqs ?s = dev_IOReqs s"
      "io_Dev (ioreqs ?s j) = io_Dev (ioreqs s j)" "\<not> found t p len ?s i" "found t p len ?s j \<Longrightarrow> found t p len s j" for j
      using drop_recv_keeps [OF Cons.prems(1)] by (auto simp: drop_recv_def found_def o meets_def split: if_splits)
    show ?thesis
    proof (cases "IO_DONE (ioreqs ?s i)")
      case False
      then have "x = Some i" "s' = ?s" using Cons.prems(2) True by (auto simp: found_def Let_def)
      then show ?thesis using s by auto
    next
      case d: True
      then have "scan_ioreqs env t p len is ?s = (x, s')" using Cons.prems(2) True by (auto simp: found_def Let_def)
      from Cons.IH [OF s(1) this] s show ?thesis by (auto split: option.splits)
    qed
  qed
qed simp

lemmas AbortIOReqs_induct = AbortIOReqs.raw_induct [rotated, consumes 1, case_names step]

lemma AbortIOReqs_keeps:
  assumes "AbortIOReqs e fuel ct devs t p len s = Some r" and "e = env" and "fuel = Suc n" and "all_ok s"
    and "\<And>i. i \<in> ior_items s \<Longrightarrow> io_Dev (ioreqs s i) \<in> set devs"
  shows "all_ok (snd r) \<and> (fst r = None \<longrightarrow> (\<forall>j \<in> ior_items (snd r). \<not> found t p len (snd r) j))"
  using assms
proof (induction rule: AbortIOReqs_induct)
  case (step f e fuel ct devs t p len s r)
  let ?l = "concat (map (dev_IOReqs s) devs)"
  obtain x s1 where S: "scan_ioreqs env t p len ?l s = (x, s1)" by fastforce
  note K = scan_keeps [OF step.prems(3) S]
  have "dev_lists s" using step.prems(3) by (simp add: all_ok_def recv_ok_def)
  then have l: "set ?l = ior_items s" using step.prems(4) by (auto simp: dev_lists_def)
  show ?case
  proof (cases x)
    case None
    then have "r = (None, s1)" using step.hyps S step.prems(1) by simp
    moreover have "\<forall>j \<in> ior_items s. \<not> found t p len s1 j" using K None unfolding l [symmetric] by simp
    ultimately show ?thesis using K by simp
  next
    case (Some i)
    then obtain over s2 where A: "internalAbortForeignIO env (Suc n) ct i s1 = Some (over, s2)"
      and r: "(if over then f e fuel ct devs t p len s2 else Some (Some i, s2)) = Some r"
      using step.hyps S step.prems(1,2) by (auto simp del: internalCompleteIO.simps split: option.splits)
    have "i \<in> ior_items s1" using K Some l by auto
    then have s2: "all_ok s2" "stable s1 s2" using AbortForeignIO_keeps [OF _ _ A] K by auto
    show ?thesis
    proof (cases over)
      case True
      then have "f e fuel ct devs t p len s2 = Some r" using r by simp
      from step.IH [OF this step.prems(1,2) s2(1)] show ?thesis using s2(2) K step.prems(4) by (auto simp: stable_def)
    qed (use r s2 in auto)
  qed
qed

lemma revoke_keeps:
  assumes "AbortIOReqs env (Suc n) ct devs t p len s = Some (x, s')" and "all_ok s"
    and "\<And>i. i \<in> ior_items s \<Longrightarrow> io_Dev (ioreqs s i) \<in> set devs"
    and w: "\<And>u b. x \<noteq> None \<or> (\<exists>f. t = Some f \<and> \<not> SameTaskFamily (io_pe env) f u) \<or> \<not> meets p len b \<Longrightarrow> iob_Len b \<noteq> 0 \<Longrightarrow>
      writable s' u (iob_Buffer b) (iob_Len b) \<Longrightarrow> w u (iob_Buffer b) (iob_Len b)"
  shows "all_ok (s'\<lparr>writable := w\<rparr>)"
proof -
  have K: "all_ok s'" "x = None \<Longrightarrow> j \<in> ior_items s' \<Longrightarrow> \<not> found t p len s' j" for j
    using AbortIOReqs_keeps [OF assms(1) refl refl assms(2,3)] by auto
  then have A: "io_inv env {} s'" "dinv s'" "recv_ok env s'" by (auto simp: all_ok_def)
  have "dinv (s'\<lparr>writable := w\<rparr>)" by (rule frame [OF A(2)]) simp_all
  moreover have "recv_ok env (s'\<lparr>writable := w\<rparr>)"
  proof -
    have "w u (iob_Buffer b) (iob_Len b)"
      if j: "j \<in> ior_items s'" "b = ioi_Recv (io_Info (ioreqs s' j))" "iob_Len b \<noteq> 0" "LookupTask (io_pe env) (io_Owner (ioreqs s' j)) = Some u"
      for j b u
    proof (rule w)
      show "writable s' u (iob_Buffer b) (iob_Len b)" using A(3) j by (auto simp: recv_ok_def)
      show "x \<noteq> None \<or> (\<exists>f. t = Some f \<and> \<not> SameTaskFamily (io_pe env) f u) \<or> \<not> meets p len b"
        using K(2) [OF _ j(1)] j by (auto simp: found_def of_family_def split: option.splits)
    qed (use j in simp)
    then show ?thesis using A(3) by (auto simp: recv_ok_def dev_lists_def)
  qed
  ultimately show ?thesis using A(1) by (simp add: all_ok_def io_inv_def)
qed

text \<open>While a request is made it is no item yet.\<close>

definition in_making :: "int \<Rightarrow> task \<Rightarrow> u32 \<Rightarrow> 'd IoState \<Rightarrow> 'd IoState \<Rightarrow> bool" where
  "in_making i ct dev s s' \<longleftrightarrow> all_ok s' \<and> ior_items s' = ior_items s \<and> i \<notin> ior_items s \<and> i \<notin> msg_items (ps s')
     \<and> (\<forall>t. t_WaitItem (ps s') t \<noteq> WaitItem i) \<and> io_CallBack (ioreqs s' i) = None \<and> \<not> IO_INTERNAL (ioreqs s' i)
     \<and> io_Error (ioreqs s' i) = WaitItem 0 \<and> io_Owner (ioreqs s' i) = TaskItem (io_pe env) ct
     \<and> iob_Len (ioi_Recv (io_Info (ioreqs s' i))) = 0 \<and> io_Dev (ioreqs s' i) = dev"

lemma in_making_upd:
  assumes "in_making i ct dev s s'" and "r = f (ioreqs s' i)" and "io_CallBack r = None" and "\<not> IO_INTERNAL r" and "io_Error r = WaitItem 0"
    and "io_Owner r = TaskItem (io_pe env) ct" and "iob_Len (ioi_Recv (io_Info r)) = 0" and "io_Dev r = dev"
  shows "in_making i ct dev s (upd_ior i f s')"
proof -
  have "all_ok (upd_ior i f s')" by (rule idle_keeps) (use assms(1) in \<open>auto simp: in_making_def\<close>)
  then show ?thesis using assms by (simp add: in_making_def)
qed

lemma attach_making:
  assumes "in_making i ct dev s s'" and "attach_message env ct mk_msg pr i port s' = (r, s1)"
    and mk: "\<And>sz m a. mk_msg sz = Some (m, a) \<Longrightarrow> m \<noteq> i \<and> m \<notin> ior_items s"
  shows "in_making i ct dev s s1"
proof -
  obtain q p where C: "externalCreateMsg (io_pe env) ct mk_msg pr [CREATEMSG_TAG_REPLYPORT port, CREATEMSG_TAG_MSG_IS_SMALL] (ps s') = (q, p)"
    by fastforce
  have F: "t_WaitItem p = t_WaitItem (ps s')" "x \<in> msg_items p \<Longrightarrow> x \<in> msg_items (ps s') \<or> x \<noteq> i \<and> x \<notin> ior_items s" for x
    using CreateMsg_frame [where P = "\<lambda>m. m \<noteq> i \<and> m \<notin> ior_items s", OF C] mk by blast+
  have I: "all_ok s'" "ior_items s' = ior_items s" "i \<notin> msg_items (ps s')" using assms(1) by (auto simp: in_making_def)
  have d: "ior_items s \<inter> msg_items (ps s') = {}" using I by (auto simp: all_ok_def io_inv_def)
  have n: "ior_items s \<inter> msg_items p = {}" "i \<notin> msg_items p" using F(2) d I(3) by blast+
  have m: "in_making i ct dev s (upd_ps (\<lambda>_. p') s')" if "msg_items p' = msg_items p" "t_WaitItem p' = t_WaitItem p" for p'
  proof -
    have "all_ok (upd_ps (\<lambda>_. p') s')" by (rule ps_keeps [OF I(1)]) (use that n(1) I(2) F(1) in simp_all)
    then show ?thesis using assms(1) that n(2) F(1) by (simp add: in_making_def)
  qed
  show ?thesis
  proof (cases q)
    case (Inl e)
    then show ?thesis using assms(2) C m [of p] by (simp add: attach_message_def)
  next
    case (Inr k)
    let ?p = "upd_msg k (\<lambda>k. k\<lparr>msg_DataPtr := word_of_int i\<rparr>) p"
    have "in_making i ct dev s (upd_ps (\<lambda>_. ?p) s')" by (rule m) simp_all
    then have "in_making i ct dev s (upd_ior i (\<lambda>r. r\<lparr>io_MsgItem := k, IO_MESSAGEBASED := True\<rparr>) (upd_ps (\<lambda>_. ?p) s'))"
      by (rule in_making_upd [OF _ refl]) (use assms(1) in \<open>auto simp: in_making_def\<close>)
    then show ?thesis using assms(2) C Inr by (simp add: attach_message_def)
  qed
qed

lemma driver_making:
  assumes "in_making i ct dev s s'" and "(case drv_CreateIOReq env dev of None \<Rightarrow> (Inr (), s') | Some f \<Rightarrow> f i s') = (r, s1)"
  shows "in_making i ct dev s s1"
proof (cases "drv_CreateIOReq env dev")
  case (Some h)
  have "all_ok s'" using assms(1) by (simp add: in_making_def)
  then have "dinv s'" by (simp add: all_ok_def)
  from make [OF this Some, of i] assms(2) Some obtain d where "s1 = s'\<lparr>dev_data := d\<rparr>" "dinv s1" by auto
  then show ?thesis using own_keeps [OF \<open>all_ok s'\<close>] assms(1) by (simp add: in_making_def)
qed (use assms in simp)

lemma create_keeps:
  assumes "all_ok s" and "0 < i" and "i \<notin> ior_items s" and "i \<notin> msg_items (ps s)" and "\<And>t. t_WaitItem (ps s) t \<noteq> WaitItem i"
    and mk: "\<And>sz m a. mk_msg sz = Some (m, a) \<Longrightarrow> m \<noteq> i \<and> m \<notin> ior_items s"
    and ct: "LookupTask (io_pe env) (TaskItem (io_pe env) ct) = Some ct"
  shows "all_ok (snd (internalCreateIOReq env ct (Some i) mk_msg pr tags s))" (is "all_ok (snd ?C)")
proof (cases "snd ?C = s")
  case False
  obtain dev where dev: "devices env (device_tag tags) = Some dev" "opened env (TaskItem (io_pe env) ct) dev"
    using False by (auto simp: internalCreateIOReq_def split: option.splits if_splits)
  obtain iri where iri: "process_tags icior_c tags \<lparr>iri_ReplyPort = None, iri_Signal = None\<rparr> = Inr iri"
    "\<not> (iri_Signal iri \<noteq> None \<and> iri_ReplyPort iri \<noteq> None)"
    using False dev by (auto simp: internalCreateIOReq_def split: sum.splits if_splits)
  have nb: "\<not> ((\<exists>x. iri_Signal iri = Some x) \<and> (\<exists>x. iri_ReplyPort iri = Some x))" using iri(2) by auto
  let ?s1 = "upd_ior i (\<lambda>_. new_ior (TaskItem (io_pe env) ct) dev) s"
  let ?prep = "case iri_ReplyPort iri of
      Some port \<Rightarrow> attach_message env ct mk_msg pr i port ?s1
    | None \<Rightarrow>
        (case iri_Signal iri of
           None \<Rightarrow> (Inr (), upd_ior i (\<lambda>r. r\<lparr>io_Signal := SIGF_IODONE\<rparr>) ?s1)
         | Some sig \<Rightarrow> (ValidateSignal (PrivTask (io_pe env) ct) sig, upd_ior i (\<lambda>r. r\<lparr>io_Signal := sig\<rparr>) ?s1))"
  obtain r2 s2 where P: "?prep = (r2, s2)" by fastforce
  have "all_ok ?s1" by (rule idle_keeps [OF assms(1)]) (use assms(3) in auto)
  then have M1: "in_making i ct dev s ?s1" using assms(3-5) by (simp add: in_making_def new_ior_def no_info_def)
  then have M1': "in_making i ct dev s (upd_ior i (\<lambda>r. r\<lparr>io_Signal := x\<rparr>) ?s1)" for x
    by (rule in_making_upd [OF _ refl]) (simp_all add: new_ior_def no_info_def)
  have M2: "in_making i ct dev s s2" using P M1' attach_making [OF M1 _ mk] by (auto split: option.splits)
  obtain u where r2: "r2 = Inr u"
    using False dev iri P by (cases r2) (auto simp: internalCreateIOReq_def Let_def split: if_splits)
  obtain r3 s3 where D: "(case drv_CreateIOReq env dev of None \<Rightarrow> (Inr (), s2) | Some f \<Rightarrow> f i s2) = (r3, s3)" by fastforce
  have M3: "in_making i ct dev s s3" by (rule driver_making [OF M2 D])
  show ?thesis
  proof (cases r3)
    case (Inl e)
    let ?m = "io_MsgItem (ioreqs s3 i)"
    have "snd ?C = (if IO_MESSAGEBASED (ioreqs s3 i)
        then upd_ps (\<lambda>p. (internalDeleteMsg (io_pe env) ?m p)\<lparr>msg_items := msg_items p - {?m}\<rparr>) s3 else s3)"
      using dev iri(1) P D Inl r2 by (simp add: internalCreateIOReq_def Let_def nb)
    moreover have "all_ok s3" using M3 by (simp add: in_making_def)
    ultimately show ?thesis using delete_msg_keeps by simp
  next
    case (Inr v)
    let ?f = "\<lambda>r. r\<lparr>IO_DONE := True, IO_QUICK := True\<rparr>"
    have C: "snd ?C = (upd_ior i ?f s3)\<lparr>ior_items := insert i (ior_items s3), dev_IOReqs := (dev_IOReqs s3)(dev := dev_IOReqs s3 dev @ [i])\<rparr>"
      using dev iri(1) P D Inr r2 by (simp add: internalCreateIOReq_def Let_def nb)
    have M: "in_making i ct dev s (upd_ior i ?f s3)" by (rule in_making_upd [OF M3 refl]) (use M3 in \<open>simp_all add: in_making_def\<close>)
    then have M': "all_ok (upd_ior i ?f s3)" by (simp add: in_making_def)
    have "all_ok ((upd_ior i ?f s3)\<lparr>ior_items := insert i (ior_items (upd_ior i ?f s3)),
        dev_IOReqs := (dev_IOReqs (upd_ior i ?f s3))(dev := dev_IOReqs (upd_ior i ?f s3) dev @ [i])\<rparr>)"
      by (rule new_keeps [OF M' _ assms(2)]) (use M ct in \<open>auto simp: in_making_def ior_ok_def\<close>)
    then show ?thesis unfolding C by simp
  qed
qed (use assms(1) in simp)

theorem io_step_keeps:
  assumes "io_step env dinv s s'" and "all_ok s"
  shows "all_ok s'"
  using assms(1)
proof (cases rule: io_step.cases)
  case (start n ct i ioi r)
  then show ?thesis using StartIO_keeps [OF assms(2)] by (simp add: externalSendIO_def del: internalCompleteIO.simps)
next
  case (do n ct i ioi w)
  then show ?thesis using DoIO_keeps [OF assms(2)] by blast
next
  case (abort n ct i u)
  then show ?thesis using externalAbortIO_keeps [OF assms(2)] by blast
next
  case (device ct)
  then show ?thesis using device_keeps [OF assms(2)] by blast
next
  case (create i mk_msg ct pr tags)
  then show ?thesis using create_keeps [OF assms(2)] by blast
next
  case (give i w t)
  then show ?thesis using give_keeps [OF assms(2)] by blast
next
  case (abort_foreign i n ct over)
  then show ?thesis using AbortForeignIO_keeps(1) [OF assms(2)] by blast
next
  case (delete i n ct over s'')
  then show ?thesis using deleting_keeps [OF assms(2)] by blast
next
  case (others g)
  then show ?thesis using ps_keeps [OF assms(2)] by blast
next
  case (grant w)
  have "dinv s'" by (rule frame [of s]) (use assms(2) grant in \<open>auto simp: all_ok_def\<close>)
  then show ?thesis using assms(2) grant by (auto simp: all_ok_def io_inv_def recv_ok_def dev_lists_def)
next
  case (revoke n ct devs t p len x s'' w)
  then show ?thesis using revoke_keeps [OF revoke(2) assms(2)] by blast
qed (use assms(2) externalWaitIO_keeps WaitIO_woken_keeps AbortForeignIO_woken_keeps in blast)+

lemma io_steps_keep: "(io_step env dinv)\<^sup>*\<^sup>* s s' \<Longrightarrow> all_ok s \<Longrightarrow> all_ok s'"
  by (induction rule: rtranclp_induct) (use io_step_keeps in blast)+

lemma start_ok: "io_start env dinv s \<Longrightarrow> all_ok s"
  by (simp add: io_start_def all_ok_def io_inv_def recv_ok_def dev_lists_def)

end

section \<open>Requests in every interleaving\<close>

lemma io_reachable:
  assumes "device_driver env dinv" and "io_start env dinv s0" and "(io_step env dinv)\<^sup>*\<^sup>* s0 s"
  shows "io_inv env {} s" and "recv_ok env s"
  using device_driver.io_steps_keep [OF assms(1,3) device_driver.start_ok [OF assms(1,2)]]
  by (simp_all add: device_driver.all_ok_def [OF assms(1)])

lemma NewReadyTask_waiting:
  "TASK_WAITING (tcb (NewReadyTask clk u s) t) \<longleftrightarrow> TASK_WAITING (tcb s t) \<and> t \<noteq> u"
  by (auto simp: NewReadyTask_def upd_tcb_def ready_from_tail_def sample_def Let_def split_beta split: option.splits)

lemma ready_task_waiting:
  "TASK_WAITING (tcb (ks (ready_task env u p)) t) \<longleftrightarrow> TASK_WAITING (tcb (ks p) t) \<and> t \<noteq> u"
  by (simp add: ready_task_def NewReadyTask_waiting)

lemma end_wait_waiting: "\<not> TASK_WAITING (tcb (ks (end_wait env t i r p)) t)"
  by (auto simp: end_wait_def hold_msg_def unlink_msg_def upd_msg_def ready_task_waiting Let_def)

text \<open>C36: In every interleaving of tasks, drivers and interrupts, a task waits in \<open>WaitIO\<close> only
  for a request of its own that is in progress and is not marked quick, so completing it, whoever does it, ends the
  wait: the call returns with the request done, the task does not sleep any more, and its \<open>WaitIO\<close> gives
  the error of the request.\<close>

theorem WaitIO_no_lost_completion:
  assumes "device_driver env dinv" and "io_start env dinv s0" and "(io_step env dinv)\<^sup>*\<^sup>* s0 s"
    and "i \<in> ior_items s" and "t_WaitItem (ps s) t = WaitItem i"
  shows "io_Owner (ioreqs s i) = TaskItem (io_pe env) t \<and> \<not> IO_DONE (ioreqs s i) \<and> \<not> IO_QUICK (ioreqs s i)
    \<and> (\<forall>n ct. \<exists>s'. internalCompleteIO env (Suc n) ct i s = Some s' \<and> IO_DONE (ioreqs s' i)
         \<and> \<not> TASK_WAITING (tcb (ks (ps s')) t) \<and> fst (WaitIO_woken t s') = io_Error (ioreqs s i))"
proof -
  have I: "io_inv env {} s" by (rule io_reachable [OF assms(1-3)])
  then have w: "io_Owner (ioreqs s i) = TaskItem (io_pe env) t" "\<not> IO_DONE (ioreqs s i)" "\<not> IO_QUICK (ioreqs s i)"
    and ok: "ior_ok env (ioreqs s i)" using assms(4,5) by (auto simp: io_inv_def)
  then obtain u where u: "LookupTask (io_pe env) (io_Owner (ioreqs s i)) = Some u" by (auto simp: ior_ok_def)
  then have "TaskItem (io_pe env) u = TaskItem (io_pe env) t" using I w(1) by (simp add: io_inv_def)
  then have "u = t" using I by (metis io_inv_def injD)
  with u have t: "LookupTask (io_pe env) (io_Owner (ioreqs s i)) = Some t" by simp
  have "\<exists>s'. internalCompleteIO env (Suc n) ct i s = Some s' \<and> IO_DONE (ioreqs s' i)
      \<and> \<not> TASK_WAITING (tcb (ks (ps s')) t) \<and> fst (WaitIO_woken t s') = io_Error (ioreqs s i)" for n ct
  proof -
    let ?s = "upd_ior i (\<lambda>r. r\<lparr>IO_DONE := True\<rparr>) s"
    have t1: "LookupTask (io_pe env) (io_Owner (ioreqs ?s i)) = Some t" using t by simp
    have C: "internalCompleteIO env (Suc n) ct i s = Some (tell_owner env ct i ?s)"
      using ok w CompleteIO_user [of s i env n ct] by (simp add: ior_ok_def Let_def del: internalCompleteIO.simps)
    note S = tell_owner_sel [of env ?s i t ct, OF t1]
    have "\<not> TASK_WAITING (tcb (ks (ps (tell_owner env ct i ?s))) t)"
      using t assms(5) by (auto simp: tell_owner_def Let_def ready_task_waiting end_wait_waiting split: option.splits)
    then show ?thesis using C S assms(5) by (simp add: WaitIO_woken_def end_wait_sel)
  qed
  then show ?thesis using w by blast
qed


end
