(* ===== verification/TimerDevice.thy ===== *)
theory TimerDevice
  imports Io
begin

text \<open>
  The timer driver (\<open>devices/operator/timer.c\<close>): requests that wait for a number of vertical blanks or for
  a time, and metronomes, which signal their owner again and again. Its two lists hold requests in progress. It is a
  driver in the sense of the theory Io. The memory that the commands read and write through the buffers is part of its
  data, as is the count of vertical blanks, which \<open>firq.c\<close> keeps.
\<close>

section \<open>The state\<close>

record TimerData =
  vblWaiters :: "int list"
  usecWaiters :: "int list"
  vblankCount :: u64
  tv_mem :: "u32 \<Rightarrow> TimeVal"
  vbl_mem :: "u32 \<Rightarrow> u64"

type_synonym TimerIo = "TimerData IoState"

text \<open>The environment of the kernel, the speed of the clock, and the timer that the driver has created.\<close>

record TimerConf =
  tc_pe :: PortEnv
  tc_ticksPerSecond :: ticks
  utimer :: timer

text \<open>\<open>TimerIOReq\<close> extends the request by \<open>timer_Interval\<close>, here \<open>io_Tail\<close>.\<close>

abbreviation "TIMERIOFLAGS_METRONOME \<equiv> (0x80000000 :: u32)"

definition is_metronome :: "IOReq \<Rightarrow> bool" where
  "is_metronome r \<longleftrightarrow> io_DeviceFlags r AND TIMERIOFLAGS_METRONOME \<noteq> 0"

definition upd_data :: "(TimerData \<Rightarrow> TimerData) \<Rightarrow> TimerIo \<Rightarrow> TimerIo" where
  "upd_data f s = s\<lparr>dev_data := f (dev_data s)\<rparr>"

definition upd_ks :: "(KState \<Rightarrow> KState) \<Rightarrow> TimerIo \<Rightarrow> TimerIo" where
  "upd_ks f s = upd_ps (\<lambda>p. p\<lparr>ks := f (ks p)\<rparr>) s"

definition CmpTicks :: "IOReq \<Rightarrow> IOReq \<Rightarrow> bool" where
  "CmpTicks m n \<longleftrightarrow> CompareTimerTicks (io_Extension m) (io_Extension n) \<le> 0"

text \<open>\<open>UniversalInsertNode\<close> compares the new request, first, with those of the list.\<close>

definition insert_usec :: "int \<Rightarrow> TimerIo \<Rightarrow> TimerIo" where
  "insert_usec i s = upd_data (\<lambda>d. d\<lparr>usecWaiters := insert_at (\<lambda>j. CmpTicks (ioreqs s i) (ioreqs s j)) i (usecWaiters d)\<rparr>) s"

definition add_vbl :: "int \<Rightarrow> TimerIo \<Rightarrow> TimerIo" where
  "add_vbl i s = upd_data (\<lambda>d. d\<lparr>vblWaiters := vblWaiters d @ [i]\<rparr>) s"

text \<open>\<open>REMOVENODE\<close> takes the request from the list it is on.\<close>

definition remove_waiter :: "int \<Rightarrow> TimerIo \<Rightarrow> TimerIo" where
  "remove_waiter i s = upd_data (\<lambda>d. d\<lparr>vblWaiters := removeAll i (vblWaiters d), usecWaiters := removeAll i (usecWaiters d)\<rparr>) s"

definition sample_time :: "TimerConf \<Rightarrow> TimerIo \<Rightarrow> ticks \<times> TimerIo" where
  "sample_time conf s = (fst (sample (pe_clock (tc_pe conf)) (ks (ps s))), upd_ks (\<lambda>k. snd (sample (pe_clock (tc_pe conf)) k)) s)"

text \<open>A metronome signals its owner. If the owner does not exist nothing happens here; the source follows a null pointer.\<close>

definition ping :: "TimerConf \<Rightarrow> int \<Rightarrow> TimerIo \<Rightarrow> unit res \<times> TimerIo" where
  "ping conf i s =
     (case LookupTask (tc_pe conf) (io_Owner (ioreqs s i)) of
        None \<Rightarrow> (Inr (), s)
      | Some t \<Rightarrow>
          let bits = ioi_CmdOptions (io_Info (ioreqs s i)) in
          (fst (internalSignal (pe_clock (tc_pe conf)) t bits (ks (ps s))),
           upd_ks (\<lambda>k. snd (internalSignal (pe_clock (tc_pe conf)) t bits k)) s))"

section \<open>The handlers\<close>

text \<open>One pass of the loop, and whether it continues.\<close>

definition usec_pass :: "TimerConf \<Rightarrow> TimerData complete \<Rightarrow> TimerIo \<Rightarrow> (bool \<times> TimerIo) option" where
  "usec_pass conf complete s =
     (case usecWaiters (dev_data s) of
        [] \<Rightarrow> Some (False, s)
      | i # _ \<Rightarrow>
          let target = io_Extension (ioreqs s i); (tt, s) = sample_time conf s in
          if CompareTimerTicks target tt \<le> 0 then
            let s = remove_waiter i s in
            if is_metronome (ioreqs s i) then
              let s = upd_ior i (\<lambda>r. r\<lparr>io_Extension := AddTimerTicks target (io_Tail r)\<rparr>) s;
                  (err, s) = ping conf i s
              in (case err of
                    Inr _ \<Rightarrow> Some (True, insert_usec i s)
                  | Inl e \<Rightarrow> map_option (Pair True) (complete i (upd_ior i (\<lambda>r. r\<lparr>io_Error := WaitErr e\<rparr>) s)))
            else map_option (Pair True) (complete i s)
          else
            let delta = SubTimerTicks tt target in
            Some (False, upd_ks (\<lambda>k. k\<lparr>timers := LoadTimer (pe_clock (tc_pe conf)) (utimer conf) delta (timers k)\<rparr>) s))"

partial_function (option) ProcessUSecWaiters :: "TimerConf \<Rightarrow> TimerData complete \<Rightarrow> TimerIo \<Rightarrow> TimerIo option" where
  "ProcessUSecWaiters conf complete s =
     (case usec_pass conf complete s of
        None \<Rightarrow> None
      | Some (go, s) \<Rightarrow> if go then ProcessUSecWaiters conf complete s else Some s)"

definition USecHandler :: "TimerConf \<Rightarrow> TimerData complete \<Rightarrow> TimerIo \<Rightarrow> TimerIo option" where
  "USecHandler conf complete s = ProcessUSecWaiters conf complete s"

text \<open>The node after \<open>i\<close>, \<open>None\<close> at the end of the list.\<close>

fun NextWaiter :: "int \<Rightarrow> int list \<Rightarrow> int option" where
  "NextWaiter i (j # k # l) = (if i = j then Some k else NextWaiter i (k # l))"
| "NextWaiter i l = None"

partial_function (option) VBLHandler_loop :: "TimerConf \<Rightarrow> TimerData complete \<Rightarrow> int option \<Rightarrow> TimerIo \<Rightarrow> TimerIo option" where
  "VBLHandler_loop conf complete ior s =
     (case ior of
        None \<Rightarrow> Some s
      | Some i \<Rightarrow>
          let s = upd_ior i (\<lambda>r. r\<lparr>io_Actual := io_Actual r + 1\<rparr>) s;
              nior = NextWaiter i (vblWaiters (dev_data s))
          in
          if io_Actual (ioreqs s i) \<ge> ioi_Offset (io_Info (ioreqs s i)) then
            if is_metronome (ioreqs s i) then
              let (ret, s) = ping conf i (upd_ior i (\<lambda>r. r\<lparr>io_Actual := 0\<rparr>) s) in
              (case ret of
                 Inr _ \<Rightarrow> VBLHandler_loop conf complete nior s
               | Inl e \<Rightarrow>
                   (case complete i (remove_waiter i (upd_ior i (\<lambda>r. r\<lparr>io_Error := WaitErr e\<rparr>) s)) of
                      None \<Rightarrow> None | Some s \<Rightarrow> VBLHandler_loop conf complete nior s))
            else
              (case complete i (remove_waiter i s) of None \<Rightarrow> None | Some s \<Rightarrow> VBLHandler_loop conf complete nior s)
          else VBLHandler_loop conf complete nior s)"

definition VBLHandler :: "TimerConf \<Rightarrow> TimerData complete \<Rightarrow> TimerIo \<Rightarrow> TimerIo option" where
  "VBLHandler conf complete s =
     VBLHandler_loop conf complete (case vblWaiters (dev_data s) of [] \<Rightarrow> None | i # _ \<Rightarrow> Some i) s"

definition AbortTimerIO :: "TimerData complete \<Rightarrow> int \<Rightarrow> TimerIo \<Rightarrow> TimerIo option" where
  "AbortTimerIO complete i s =
     complete i (upd_ior i (\<lambda>r. r\<lparr>io_Error := WaitErr ABORTED, io_DeviceFlags := io_DeviceFlags r AND NOT TIMERIOFLAGS_METRONOME\<rparr>)
                   (remove_waiter i s))"

section \<open>The commands\<close>

definition bad_arg :: "int \<Rightarrow> TimerIo \<Rightarrow> (int \<times> TimerIo) option" where
  "bad_arg i s = Some (1, upd_ior i (\<lambda>r. r\<lparr>io_Error := WaitErr BADIOARG\<rparr>) s)"

definition CmdGetTimeVBL :: "TimerData command" where
  "CmdGetTimeVBL complete i s =
     (let b = ioi_Recv (io_Info (ioreqs s i)) in
      if iob_Len b \<ge> 8
      then Some (1, upd_ior i (\<lambda>r. r\<lparr>io_Actual := 8\<rparr>) (upd_data (\<lambda>d. d\<lparr>vbl_mem := (vbl_mem d)(iob_Buffer b := vblankCount d)\<rparr>) s))
      else bad_arg i s)"

definition CmdGetTimeUSec :: "TimerConf \<Rightarrow> TimerData command" where
  "CmdGetTimeUSec conf complete i s =
     (let b = ioi_Recv (io_Info (ioreqs s i)) in
      if iob_Len b \<ge> 8 then
        let (tt, s) = sample_time conf s in
        Some (1, upd_ior i (\<lambda>r. r\<lparr>io_Actual := 8\<rparr>)
          (upd_data (\<lambda>d. d\<lparr>tv_mem := (tv_mem d)(iob_Buffer b := ConvertTimerTicksToTimeVal (tc_ticksPerSecond conf) tt)\<rparr>) s))
      else bad_arg i s)"

definition CmdSetTimeVBL :: "TimerData command" where
  "CmdSetTimeVBL complete i s = Some (1, upd_ior i (\<lambda>r. r\<lparr>io_Error := WaitErr NOSUPPORT\<rparr>) s)"

definition CmdSetTimeUSec :: "TimerConf \<Rightarrow> TimerData command" where
  "CmdSetTimeUSec conf complete i s =
     (let b = ioi_Send (io_Info (ioreqs s i)); tv = tv_mem (dev_data s) (iob_Buffer b) in
      if iob_Len b = 8 \<and> sint (tv_Microseconds tv) \<le> 1000000
      then Some (1, upd_ks (\<lambda>k. k\<lparr>timers := SuperSetSystemTimeTT (ConvertTimeValToTimerTicks (tc_ticksPerSecond conf) tv) (timers k)\<rparr>) s)
      else bad_arg i s)"

definition CmdDelayVBL :: "TimerData command" where
  "CmdDelayVBL complete i s = Some (0, upd_ior i (\<lambda>r. r\<lparr>IO_QUICK := False\<rparr>) (add_vbl i s))"

text \<open>The end of both commands that wait for a time: schedule the request at its target.\<close>

definition schedule_usec :: "TimerConf \<Rightarrow> TimerData command" where
  "schedule_usec conf complete i s =
     (case ProcessUSecWaiters conf complete (upd_ior i (\<lambda>r. r\<lparr>IO_QUICK := False\<rparr>) (insert_usec i s)) of
        None \<Rightarrow> None | Some s \<Rightarrow> Some (0, s))"

definition CmdDelayUSec :: "TimerConf \<Rightarrow> TimerData command" where
  "CmdDelayUSec conf complete i s =
     (let b = ioi_Send (io_Info (ioreqs s i)); tv = tv_mem (dev_data s) (iob_Buffer b) in
      if iob_Len b = 8 \<and> sint (tv_Microseconds tv) \<le> 1000000 then
        let interval = ConvertTimeValToTimerTicks (tc_ticksPerSecond conf) tv;
            (now, s) = sample_time conf s
        in schedule_usec conf complete i
             (upd_ior i (\<lambda>r. r\<lparr>io_Tail := interval, io_Extension := AddTimerTicks now interval\<rparr>) s)
      else bad_arg i s)"

definition CmdDelayUntilVBL :: "TimerData command" where
  "CmdDelayUntilVBL complete i s =
     (let now = ucast (vblankCount (dev_data s) AND 0xffffffff) in
      CmdDelayVBL complete i (upd_ior i (\<lambda>r. r\<lparr>io_Info := (io_Info r)\<lparr>ioi_Offset := ioi_Offset (io_Info r) - now\<rparr>\<rparr>) s))"

definition CmdDelayUntilUSec :: "TimerConf \<Rightarrow> TimerData command" where
  "CmdDelayUntilUSec conf complete i s =
     (let b = ioi_Send (io_Info (ioreqs s i)); tv = tv_mem (dev_data s) (iob_Buffer b) in
      if iob_Len b = 8 \<and> sint (tv_Microseconds tv) \<le> 1000000
      then schedule_usec conf complete i
             (upd_ior i (\<lambda>r. r\<lparr>io_Extension := ConvertTimeValToTimerTicks (tc_ticksPerSecond conf) tv\<rparr>) s)
      else bad_arg i s)"

definition set_metronome :: "int \<Rightarrow> TimerIo \<Rightarrow> TimerIo" where
  "set_metronome i s = upd_ior i (\<lambda>r. r\<lparr>io_DeviceFlags := io_DeviceFlags r OR TIMERIOFLAGS_METRONOME\<rparr>) s"

definition CmdMetronomeVBL :: "TimerData command" where
  "CmdMetronomeVBL complete i s =
     (if ioi_CmdOptions (io_Info (ioreqs s i)) AND 0x800000ff \<noteq> 0 then bad_arg i s
      else CmdDelayVBL complete i (set_metronome i s))"

definition CmdMetronomeUSec :: "TimerConf \<Rightarrow> TimerData command" where
  "CmdMetronomeUSec conf complete i s =
     (if ioi_CmdOptions (io_Info (ioreqs s i)) AND 0x800000ff \<noteq> 0 then bad_arg i s
      else CmdDelayUSec conf complete i (set_metronome i s))"

abbreviation "TIMERCMD_GETTIME_VBL \<equiv> (0x40003 :: u32)"
abbreviation "TIMERCMD_SETTIME_VBL \<equiv> (0x40004 :: u32)"
abbreviation "TIMERCMD_DELAY_VBL \<equiv> (0x40005 :: u32)"
abbreviation "TIMERCMD_DELAYUNTIL_VBL \<equiv> (0x40006 :: u32)"
abbreviation "TIMERCMD_METRONOME_VBL \<equiv> (0x40007 :: u32)"
abbreviation "TIMERCMD_GETTIME_USEC \<equiv> (0x40008 :: u32)"
abbreviation "TIMERCMD_SETTIME_USEC \<equiv> (0x40009 :: u32)"
abbreviation "TIMERCMD_DELAY_USEC \<equiv> (0x4000a :: u32)"
abbreviation "TIMERCMD_DELAYUNTIL_USEC \<equiv> (0x4000b :: u32)"
abbreviation "TIMERCMD_METRONOME_USEC \<equiv> (0x4000c :: u32)"

definition CmdTable :: "TimerConf \<Rightarrow> (u32 \<times> TimerData command) list" where
  "CmdTable conf =
     [(TIMERCMD_DELAY_VBL, CmdDelayVBL), (TIMERCMD_DELAY_USEC, CmdDelayUSec conf),
      (TIMERCMD_DELAYUNTIL_VBL, CmdDelayUntilVBL), (TIMERCMD_DELAYUNTIL_USEC, CmdDelayUntilUSec conf),
      (TIMERCMD_METRONOME_VBL, CmdMetronomeVBL), (TIMERCMD_METRONOME_USEC, CmdMetronomeUSec conf),
      (TIMERCMD_GETTIME_VBL, CmdGetTimeVBL), (TIMERCMD_GETTIME_USEC, CmdGetTimeUSec conf),
      (TIMERCMD_SETTIME_VBL, CmdSetTimeVBL), (TIMERCMD_SETTIME_USEC, CmdSetTimeUSec conf)]"

text \<open>The system whose devices are those of this driver. The rest of the environment is as in \<open>base\<close>.\<close>

definition timer_env :: "TimerConf \<Rightarrow> TimerData IoEnv \<Rightarrow> TimerData IoEnv" where
  "timer_env conf base = base\<lparr>io_pe := tc_pe conf, drv_DispatchIO := (\<lambda>_. defaultDispatch (CmdTable conf)),
     drv_AbortIO := (\<lambda>_. AbortTimerIO), drv_ChangeIOReqOwner := (\<lambda>_. None), drv_CreateIOReq := (\<lambda>_. None),
     drv_DeleteIOReq := (\<lambda>_. None)\<rparr>"

section \<open>The lists hold the requests in progress\<close>

declare internalCompleteIO.simps [simp del]

definition in_progress :: "TimerIo \<Rightarrow> int set" where
  "in_progress s = {i \<in> ior_items s. \<not> IO_DONE (ioreqs s i)}"

definition waiters :: "TimerData \<Rightarrow> int list" where
  "waiters d = vblWaiters d @ usecWaiters d"

text \<open>The requests of \<open>X\<close> are in progress but on no list, which is so while they are dispatched or completed.\<close>

definition timer_but :: "int set \<Rightarrow> TimerIo \<Rightarrow> bool" where
  "timer_but X s \<longleftrightarrow> distinct (waiters (dev_data s)) \<and> set (waiters (dev_data s)) = in_progress s - X
     \<and> sorted_wrt (\<lambda>a b. io_Extension (ioreqs s a) \<le> io_Extension (ioreqs s b)) (usecWaiters (dev_data s))"

definition driver_inv :: "TimerIo \<Rightarrow> bool" where
  "driver_inv s \<longleftrightarrow> timer_but {} s"

lemma upd_sel [simp]:
  "ps (upd_data f s) = ps s" "ior_items (upd_data f s) = ior_items s" "ioreqs (upd_data f s) = ioreqs s"
  "dev_IOReqs (upd_data f s) = dev_IOReqs s" "writable (upd_data f s) = writable s" "dev_data (upd_data f s) = f (dev_data s)"
  "ior_items (upd_ks g s) = ior_items s" "ioreqs (upd_ks g s) = ioreqs s" "dev_IOReqs (upd_ks g s) = dev_IOReqs s"
  "writable (upd_ks g s) = writable s" "dev_data (upd_ks g s) = dev_data s" "ks (ps (upd_ks g s)) = g (ks (ps s))"
  by (simp_all add: upd_data_def upd_ks_def)

lemma in_progress_upd [simp]:
  "in_progress (upd_data f s) = in_progress s" "in_progress (upd_ks g s) = in_progress s"
  "in_progress (add_vbl i s) = in_progress s" "in_progress (insert_usec i s) = in_progress s"
  "in_progress (remove_waiter i s) = in_progress s"
  by (simp_all add: in_progress_def add_vbl_def insert_usec_def remove_waiter_def)

lemma ioreqs_lists [simp]:
  "ioreqs (add_vbl i s) = ioreqs s" "ioreqs (insert_usec i s) = ioreqs s" "ioreqs (remove_waiter i s) = ioreqs s"
  "ior_items (add_vbl i s) = ior_items s" "ior_items (insert_usec i s) = ior_items s" "ior_items (remove_waiter i s) = ior_items s"
  by (simp_all add: add_vbl_def insert_usec_def remove_waiter_def)

lemma in_progress_own: "(\<And>r. IO_DONE (f r) = IO_DONE r) \<Longrightarrow> in_progress (upd_ior i f s) = in_progress s"
  by (auto simp: in_progress_def)

lemma sample_time_state [simp]: "snd (sample_time conf s) = upd_ks (\<lambda>k. snd (sample (pe_clock (tc_pe conf)) k)) s"
  by (simp add: sample_time_def)

lemma ping_state: "\<exists>g. snd (ping conf i s) = upd_ks g s"
proof (cases "LookupTask (tc_pe conf) (io_Owner (ioreqs s i))")
  case None
  then have "snd (ping conf i s) = upd_ks (\<lambda>k. k) s" by (simp add: ping_def upd_ks_def upd_ps_def)
  then show ?thesis by blast
qed (auto simp: ping_def Let_def)

lemma but_ks [simp]: "timer_but X (upd_ks g s) = timer_but X s"
  by (simp add: timer_but_def)

lemma but_remove:
  assumes "timer_but X s"
  shows "timer_but (insert i X) (remove_waiter i s)"
  using assms by (auto simp: timer_but_def remove_waiter_def waiters_def removeAll_filter_not_eq sorted_wrt_filter)

lemma sorted_insert_front:
  fixes f :: "'a \<Rightarrow> 'b :: linorder"
  assumes "sorted_wrt (\<lambda>a b. f a \<le> f b) xs"
  shows "sorted_wrt (\<lambda>a b. f a \<le> f b) (insert_at (\<lambda>m. f n \<le> f m) n xs)"
proof -
  let ?P = "\<lambda>m. \<not> f n \<le> f m"
  have "takeWhile ?P xs = filter ?P xs" "dropWhile ?P xs = filter (\<lambda>m. \<not> ?P m) xs"
    using sorted_takeWhile_filter [OF assms, of ?P] by (meson leD leI order_trans)+
  then show ?thesis using assms by (auto simp: insert_at_def sorted_wrt_append sorted_wrt_filter)
qed

lemma CmpTicks_le: "CmpTicks m n \<longleftrightarrow> io_Extension m \<le> io_Extension n"
  by (auto simp: CmpTicks_def CompareTimerTicks_def)

lemma but_insert:
  assumes "timer_but X s" and "i \<in> X" and "i \<in> in_progress s"
  shows "timer_but (X - {i}) (insert_usec i s)" and "timer_but (X - {i}) (add_vbl i s)"
proof -
  show "timer_but (X - {i}) (insert_usec i s)"
    using assms sorted_insert_front [of "\<lambda>a. io_Extension (ioreqs s a)" "usecWaiters (dev_data s)" i]
    by (auto simp: timer_but_def insert_usec_def waiters_def CmpTicks_le distinct_insert_at)
  show "timer_but (X - {i}) (add_vbl i s)" using assms by (auto simp: timer_but_def add_vbl_def waiters_def)
qed

lemma but_upd:
  assumes "timer_but X s" and "IO_DONE (f (ioreqs s i)) = IO_DONE (ioreqs s i)"
    and "i \<in> X \<or> io_Extension (f (ioreqs s i)) = io_Extension (ioreqs s i)"
  shows "timer_but X (upd_ior i f s)"
proof -
  have p: "in_progress (upd_ior i f s) = in_progress s" using assms(2) by (auto simp: in_progress_def)
  have e: "io_Extension (ioreqs (upd_ior i f s) a) = io_Extension (ioreqs s a)" if "a \<in> set (usecWaiters (dev_data s))" for a
    using assms(1,3) that by (auto simp: timer_but_def waiters_def)
  have "sorted_wrt (\<lambda>a b. io_Extension (ioreqs (upd_ior i f s) a) \<le> io_Extension (ioreqs (upd_ior i f s) b)) (usecWaiters (dev_data s))"
    by (rule sorted_wrt_mono_rel [of _ "\<lambda>a b. io_Extension (ioreqs s a) \<le> io_Extension (ioreqs s b)"])
      (use assms(1) e in \<open>auto simp: timer_but_def\<close>)
  then show ?thesis using assms(1) p by (simp add: timer_but_def)
qed

section \<open>What the driver does is what a driver may do\<close>

lemma data_step: "device_step env ct s (upd_data f s)"
  unfolding upd_data_def by (rule device_step.own)

lemma ks_step: "device_step env ct s (upd_ks f s)"
  unfolding upd_ks_def by (rule device_step.kernel)

lemma list_steps:
  "device_step env ct s (add_vbl i s)" "device_step env ct s (insert_usec i s)" "device_step env ct s (remove_waiter i s)"
  unfolding add_vbl_def insert_usec_def remove_waiter_def by (rule data_step)+

lemma upd_step: "i \<in> in_progress s \<Longrightarrow> own_change (ioreqs s i) (f (ioreqs s i)) \<Longrightarrow> device_step env ct s (upd_ior i f s)"
  by (rule device_step.change) (auto simp: in_progress_def)

lemma ping_step: "device_step env ct s (snd (ping conf i s))"
  using ping_state [of conf i s] ks_step by metis

text \<open>Completing a request that is on no list.\<close>

lemma complete_ok:
  assumes "internalCompleteIO env (Suc n) ct i s = Some s'" and "io_inv env Y s" and "timer_but X s" and "i \<in> X" and "i \<in> in_progress s"
  shows "device_step env ct s s'" and "io_inv env Y s'" and "timer_but (X - {i}) s'" and "IO_DONE (ioreqs s' i)"
    and "ioreqs s' = (ioreqs s)(i := (ioreqs s i)\<lparr>IO_DONE := True\<rparr>)" and "dev_data s' = dev_data s" and "ior_items s' = ior_items s"
proof -
  have i: "i \<in> ior_items s" "\<not> IO_DONE (ioreqs s i)" using assms(5) by (auto simp: in_progress_def)
  note C = completed_inv [OF assms(2) i(1) assms(1)]
  show "device_step env ct s s'" by (rule device_step.complete [OF i assms(1)])
  show "io_inv env Y s'" "ioreqs s' = (ioreqs s)(i := (ioreqs s i)\<lparr>IO_DONE := True\<rparr>)" "dev_data s' = dev_data s"
    "ior_items s' = ior_items s" using C by blast+
  show "IO_DONE (ioreqs s' i)" using C(6) by simp
  have e: "io_Extension (ioreqs s' a) = io_Extension (ioreqs s a)" for a using C(6) by simp
  have "in_progress s' = in_progress s - {i}" using C(2,6) by (auto simp: in_progress_def)
  then show "timer_but (X - {i}) s'" using assms(3,4) unfolding timer_but_def C(3) e by auto
qed

lemma steps_quick:
  assumes "(device_step env ct)\<^sup>*\<^sup>* s s'" and "io_inv env Y s" and "i \<in> ior_items s" and "\<not> IO_QUICK (ioreqs s i)"
  shows "\<not> IO_QUICK (ioreqs s' i)"
  using assms(1)
proof (induction rule: rtranclp_induct)
  case (step s1 s2)
  have I: "io_inv env Y s1" "i \<in> ior_items s1" using device_steps_inv [OF step.hyps(1) assms(2)] assms(3) by (auto simp: stable_def)
  from step.hyps(2) show ?case
  proof (cases rule: device_step.cases)
    case (complete j n)
    show ?thesis using completed_inv(6) [OF I(1) complete(1,3)] step.IH by auto
  qed (use step.IH in \<open>auto simp: own_change_def\<close>)
qed (use assms(4) in simp)

section \<open>Signals of metronomes\<close>

text \<open>The signals that tasks have allocated, which no handler changes; and whether the owner of a request can be signalled.\<close>

definition allocated :: "PortState \<Rightarrow> task \<Rightarrow> u32" where
  "allocated p t = t_AllocatedSigs (tcb (ks p) t)"

definition can_signal :: "TimerConf \<Rightarrow> (task \<Rightarrow> u32) \<Rightarrow> IOReq \<Rightarrow> bool" where
  "can_signal conf a r \<longleftrightarrow>
     (case LookupTask (tc_pe conf) (io_Owner r) of None \<Rightarrow> True | Some t \<Rightarrow> ioi_CmdOptions (io_Info r) AND NOT (a t) = 0)"

lemma NewReadyTask_allocated: "t_AllocatedSigs (tcb (NewReadyTask clk u s) t) = t_AllocatedSigs (tcb s t)"
  by (auto simp: NewReadyTask_def upd_tcb_def ready_from_tail_def sample_def Let_def split_beta split: option.splits)

lemma internalSignal_allocated: "t_AllocatedSigs (tcb (snd (internalSignal clk u b s)) t) = t_AllocatedSigs (tcb s t)"
  by (simp add: internalSignal_def SetSignals_def upd_tcb_def NewReadyTask_allocated Let_def)

lemma ready_allocated [simp]: "allocated (ready_task env u p) = allocated p"
  by (simp add: allocated_def ready_task_def NewReadyTask_allocated fun_eq_iff)

lemma port_allocated [simp]:
  "allocated (upd_msg m f p) = allocated p" "allocated (unlink_msg m p) = allocated p" "allocated (hold_msg env t m p) = allocated p"
  "allocated (queue_msg q m b p) = allocated p" "allocated (put_data m x n p) = allocated p" "allocated (p\<lparr>t_WaitItem := w\<rparr>) = allocated p"
  by (simp_all add: allocated_def fun_eq_iff upd_msg_def unlink_msg_def hold_msg_def queue_msg_def upd_port_def put_data_def Let_def)

lemma signal_allocated [simp]: "allocated (p\<lparr>ks := snd (internalSignal clk u b (ks p))\<rparr>) = allocated p"
  by (simp add: allocated_def internalSignal_allocated fun_eq_iff)

lemma hand_over_allocated: "allocated (snd (hand_over env t q m b p)) = allocated p"
  by (simp add: hand_over_def Let_def split_beta)

lemma owner_allocated: "allocated (snd (externalSetItemOwner env ct m w p)) = allocated p"
  by (auto simp: externalSetItemOwner_def internalSetMsgOwner_def split: option.splits)

lemma DeliverMsg_allocated: "allocated (snd (internalDeliverMsg env ct q m a n b super p)) = allocated p"
  using owner_allocated [of env ct m "mp_Owner (msgports p q)" p]
  by (auto simp: internalDeliverMsg_def Let_def split_beta hand_over_allocated split: sum.splits bool.splits option.splits)

lemma ReplyMsg_allocated: "allocated (snd (internalReplyMsg env ct m r a n p)) = allocated p"
  by (simp add: internalReplyMsg_def Let_def DeliverMsg_allocated)

lemma tell_owner_allocated: "allocated (ps (tell_owner env ct i s)) = allocated (ps s)"
proof -
  have "allocated (end_wait env t i r p) = allocated p" for t r p by (simp add: end_wait_def Let_def)
  moreover have "allocated (notify env ct t i r p) = allocated p" for t r p
    by (simp add: notify_def ReplyMsg_allocated)
  ultimately show ?thesis by (auto simp: tell_owner_def Let_def split: option.splits)
qed

lemma complete_allocated:
  assumes "ior_ok env (ioreqs s i)" and "internalCompleteIO env (Suc n) ct i s = Some s'"
  shows "allocated (ps s') = allocated (ps s)"
  using assms CompleteIO_user [of s i env n ct]
  by (auto simp: ior_ok_def Let_def tell_owner_allocated split: if_splits)

lemma ping_result:
  "fst (ping conf i s) = (if can_signal conf (allocated (ps s)) (ioreqs s i) then Inr () else Inl ILLEGALSIGNAL)"
  "allocated (ps (snd (ping conf i s))) = allocated (ps s)" "ioreqs (snd (ping conf i s)) = ioreqs s"
  "dev_data (snd (ping conf i s)) = dev_data s" "ior_items (snd (ping conf i s)) = ior_items s"
proof -
  show "fst (ping conf i s) = (if can_signal conf (allocated (ps s)) (ioreqs s i) then Inr () else Inl ILLEGALSIGNAL)"
    by (auto simp: ping_def can_signal_def allocated_def internalSignal_def Let_def split: option.splits)
  show "allocated (ps (snd (ping conf i s))) = allocated (ps s)" "ioreqs (snd (ping conf i s)) = ioreqs s"
    "dev_data (snd (ping conf i s)) = dev_data s" "ior_items (snd (ping conf i s)) = ior_items s"
    by (simp_all add: ping_def Let_def upd_ks_def split: option.splits)
qed

section \<open>The handler of the timer\<close>

lemmas ProcessUSecWaiters_induct = ProcessUSecWaiters.raw_induct [rotated, consumes 1, case_names step]

text \<open>What a handler keeps.\<close>

definition kept :: "TimerData IoEnv \<Rightarrow> task \<Rightarrow> int set \<Rightarrow> TimerIo \<Rightarrow> TimerIo \<Rightarrow> bool" where
  "kept env ct Y s s' \<longleftrightarrow> (device_step env ct)\<^sup>*\<^sup>* s s' \<and> io_inv env Y s' \<and> ior_items s' = ior_items s"

lemma kept_refl: "io_inv env Y s \<Longrightarrow> kept env ct Y s s"
  by (simp add: kept_def)

lemma kept_step: "device_step env ct s s' \<Longrightarrow> io_inv env Y s \<Longrightarrow> kept env ct Y s s'"
  using device_step_inv(1,2) [of env ct s s' Y] by (auto simp: kept_def stable_def)

lemma kept_trans: "kept env ct Y s s' \<Longrightarrow> kept env ct Y s' s'' \<Longrightarrow> kept env ct Y s s''"
  by (auto simp: kept_def)

lemma kept_then: "kept env ct Y s s' \<Longrightarrow> device_step env ct s' s'' \<Longrightarrow> kept env ct Y s s''"
  using kept_step kept_trans by (metis kept_def)

text \<open>What the handler does to the first request once its time has come, and to the list.\<close>

definition usec_tick :: "TimerConf \<Rightarrow> (task \<Rightarrow> u32) \<Rightarrow> IOReq \<Rightarrow> IOReq" where
  "usec_tick conf a r =
     (if \<not> is_metronome r then r\<lparr>IO_DONE := True\<rparr>
      else if can_signal conf a r then r\<lparr>io_Extension := io_Extension r + io_Tail r\<rparr>
      else r\<lparr>io_Extension := io_Extension r + io_Tail r, io_Error := WaitErr ILLEGALSIGNAL, IO_DONE := True\<rparr>)"

definition usec_now :: "TimerConf \<Rightarrow> TimerIo \<Rightarrow> ticks" where
  "usec_now conf s = fst (sample (pe_clock (tc_pe conf)) (ks (ps s)))"

lemma ks_allocated:
  "(\<And>k t. t_AllocatedSigs (tcb (g k) t) = t_AllocatedSigs (tcb k t)) \<Longrightarrow> allocated (ps (upd_ks g s)) = allocated (ps s)"
  by (rule ext) (simp add: allocated_def)

lemma sample_allocated: "allocated (ps (upd_ks (\<lambda>k. snd (sample c k)) s)) = allocated (ps s)"
  by (rule ks_allocated) (simp add: sample_def split_beta)

lemma complete_user:
  assumes "kept env ct Y s s'" and "timer_but {i} s'" and "i \<in> in_progress s'"
  shows "\<exists>s''. internalCompleteIO env (Suc n) ct i s' = Some s'' \<and> kept env ct Y s s'' \<and> timer_but {} s''
    \<and> allocated (ps s'') = allocated (ps s') \<and> ioreqs s'' = (ioreqs s')(i := (ioreqs s' i)\<lparr>IO_DONE := True\<rparr>) \<and> dev_data s'' = dev_data s'"
proof -
  have I: "io_inv env Y s'" using assms(1) by (simp add: kept_def)
  have ok: "ior_ok env (ioreqs s' i)" using I assms(3) unfolding io_inv_def in_progress_def by blast
  obtain s'' where c: "internalCompleteIO env (Suc n) ct i s' = Some s''" using CompleteIO_user [of s' i env n ct] ok by (simp add: ior_ok_def)
  note C = complete_ok [OF c I assms(2) singletonI assms(3)]
  show ?thesis using c kept_then [OF assms(1) C(1)] C(3,5,6) complete_allocated [OF ok c] by auto
qed

lemma usec_due:
  fixes s :: TimerIo and conf :: TimerConf
  assumes u: "usecWaiters (dev_data s) = i # rest" and I: "io_inv env Y s" and b: "timer_but {} s"
    and due: "io_Extension (ioreqs s i) \<le> usec_now conf s"
  defines "r \<equiv> usec_tick conf (allocated (ps s)) (ioreqs s i)"
  shows "\<exists>s'. usec_pass conf (internalCompleteIO env (Suc n) ct) s = Some (True, s')
      \<and> kept env ct Y s s' \<and> timer_but {} s' \<and> allocated (ps s') = allocated (ps s) \<and> ioreqs s' = (ioreqs s)(i := r)
      \<and> dev_data s' = (dev_data s)\<lparr>usecWaiters := if IO_DONE r then rest else insert_at (\<lambda>j. CmpTicks r (ioreqs s j)) i rest\<rparr>"
proof -
  let ?c = "internalCompleteIO env (Suc n) ct"
  let ?s1 = "upd_ks (\<lambda>k. snd (sample (pe_clock (tc_pe conf)) k)) s"
  let ?s2 = "remove_waiter i ?s1"
  let ?f = "\<lambda>r. r\<lparr>io_Extension := AddTimerTicks (io_Extension (ioreqs s i)) (io_Tail r)\<rparr>"
  let ?s3 = "upd_ior i ?f ?s2"
  have i: "i \<in> in_progress s" "i \<notin> set (vblWaiters (dev_data s))" "i \<notin> set rest"
    using b u by (auto simp: timer_but_def waiters_def)
  have ok: "ior_ok env (ioreqs s i)" using I i(1) by (auto simp: io_inv_def in_progress_def)
  have d: "\<not> IO_DONE (ioreqs s i)" using i(1) by (simp add: in_progress_def)
  have S: "sample_time conf s = (usec_now conf s, ?s1)" by (simp add: sample_time_def usec_now_def)
  have c: "CompareTimerTicks (io_Extension (ioreqs s i)) (usec_now conf s) \<le> 0" using due by (simp add: CompareTimerTicks_def)
  have dd: "dev_data ?s2 = (dev_data s)\<lparr>usecWaiters := rest\<rparr>" using u i by (simp add: remove_waiter_def)
  have a2: "allocated (ps ?s2) = allocated (ps s)" by (simp add: remove_waiter_def sample_allocated)
  have K2: "kept env ct Y s ?s2" by (rule kept_then [OF kept_then [OF kept_refl [OF I] ks_step] list_steps(3)])
  have b2: "timer_but {i} ?s2" using but_remove [of "{}" ?s1 i] b by simp
  have i2: "i \<in> in_progress ?s2" using i(1) by simp
  show ?thesis
  proof (cases "is_metronome (ioreqs s i)")
    case False
    then have r: "r = (ioreqs s i)\<lparr>IO_DONE := True\<rparr>" by (simp add: r_def usec_tick_def)
    obtain s' where s': "?c i ?s2 = Some s'" "kept env ct Y s s'" "timer_but {} s'" "allocated (ps s') = allocated (ps ?s2)"
      "ioreqs s' = (ioreqs ?s2)(i := (ioreqs ?s2 i)\<lparr>IO_DONE := True\<rparr>)" "dev_data s' = dev_data ?s2"
      using complete_user [OF K2 b2 i2] by blast
    have "usec_pass conf ?c s = Some (True, s')" using False s'(1) S c by (simp add: usec_pass_def u Let_def)
    then show ?thesis using s' r a2 dd by auto
  next
    case met: True
    obtain g where g: "snd (ping conf i ?s3) = upd_ks g ?s3" using ping_state by blast
    let ?s4 = "upd_ks g ?s3"
    note P = ping_result [of conf i ?s3]
    have a4: "allocated (ps ?s4) = allocated (ps s)" using P(2) a2 unfolding g by simp
    have cs: "can_signal conf a (?f x) = can_signal conf a x" for a x by (simp add: can_signal_def split: option.split)
    have K4: "kept env ct Y s ?s4"
      by (rule kept_then [OF kept_then [OF K2 upd_step] ks_step]) (use i ok in \<open>simp_all add: own_change_def ior_ok_def\<close>)
    have b4: "timer_but {i} ?s4" unfolding but_ks by (rule but_upd [OF b2]) simp_all
    have i4: "i \<in> in_progress ?s4" using i(1) by (simp add: in_progress_own)
    show ?thesis
    proof (cases "can_signal conf (allocated (ps s)) (ioreqs s i)")
      case True
      then have r: "r = ?f (ioreqs s i)" using met by (simp add: r_def usec_tick_def AddTimerTicks_def)
      have pr: "ping conf i ?s3 = (Inr (), ?s4)" using P(1) g True a2 by (simp add: prod_eq_iff cs [simplified])
      have "usec_pass conf ?c s = Some (True, insert_usec i ?s4)" using met S c pr by (simp add: usec_pass_def u Let_def)
      moreover have "kept env ct Y s (insert_usec i ?s4)" by (rule kept_then [OF K4 list_steps(2)])
      moreover have "timer_but {} (insert_usec i ?s4)" using but_insert(1) [OF b4 _ i4] by simp
      moreover have "allocated (ps (insert_usec i ?s4)) = allocated (ps s)" using a4 by (simp add: insert_usec_def)
      moreover have "ioreqs (insert_usec i ?s4) = (ioreqs s)(i := r)" by (simp add: r)
      moreover have "insert_at (\<lambda>j. CmpTicks (((ioreqs s)(i := r)) i) (((ioreqs s)(i := r)) j)) i rest = insert_at (\<lambda>j. CmpTicks r (ioreqs s j)) i rest"
        unfolding insert_at_def using i(3) by (intro arg_cong2 [where f = "(@)"] arg_cong [where f = "(#) i"] takeWhile_cong dropWhile_cong) auto
      then have "dev_data (insert_usec i ?s4) = (dev_data s)\<lparr>usecWaiters := if IO_DONE r then rest else insert_at (\<lambda>j. CmpTicks r (ioreqs s j)) i rest\<rparr>"
        using d dd by (simp add: insert_usec_def r)
      ultimately show ?thesis by blast
    next
      case False
      let ?g = "\<lambda>r. r\<lparr>io_Error := WaitErr ILLEGALSIGNAL\<rparr>"
      let ?s5 = "upd_ior i ?g ?s4"
      have r: "r = (?f (ioreqs s i))\<lparr>io_Error := WaitErr ILLEGALSIGNAL, IO_DONE := True\<rparr>"
        using met False by (simp add: r_def usec_tick_def AddTimerTicks_def)
      have pr: "ping conf i ?s3 = (Inl ILLEGALSIGNAL, ?s4)" using P(1) g False a2 by (simp add: prod_eq_iff cs [simplified])
      have K5: "kept env ct Y s ?s5" by (rule kept_then [OF K4 upd_step [OF i4]]) (simp add: own_change_def)
      have b5: "timer_but {i} ?s5" by (rule but_upd [OF b4]) simp_all
      have i5: "i \<in> in_progress ?s5" using i4 by (simp add: in_progress_own)
      obtain s' where s': "?c i ?s5 = Some s'" "kept env ct Y s s'" "timer_but {} s'" "allocated (ps s') = allocated (ps ?s5)"
        "ioreqs s' = (ioreqs ?s5)(i := (ioreqs ?s5 i)\<lparr>IO_DONE := True\<rparr>)" "dev_data s' = dev_data ?s5"
        using complete_user [OF K5 b5 i5] by blast
      have "usec_pass conf ?c s = Some (True, s')" using met S c pr s'(1) by (simp add: usec_pass_def u Let_def)
      moreover have "dev_data s' = (dev_data s)\<lparr>usecWaiters := if IO_DONE r then rest else insert_at (\<lambda>j. CmpTicks r (ioreqs s j)) i rest\<rparr>"
        using s'(6) dd by (simp add: r)
      moreover have "ioreqs s' = (ioreqs s)(i := r)" using s'(5) by (simp add: r)
      ultimately show ?thesis using s' a4 by auto
    qed
  qed
qed

lemma usec_stop:
  assumes "\<And>i rest. usecWaiters (dev_data s) = i # rest \<Longrightarrow> usec_now conf s < io_Extension (ioreqs s i)"
  shows "\<exists>g. usec_pass conf complete s = Some (False, upd_ks g s)
    \<and> (\<forall>i rest. usecWaiters (dev_data s) = i # rest \<longrightarrow> g (ks (ps s)) =
        (let k = snd (sample (pe_clock (tc_pe conf)) (ks (ps s))) in
         k\<lparr>timers := LoadTimer (pe_clock (tc_pe conf)) (utimer conf) (SubTimerTicks (usec_now conf s) (io_Extension (ioreqs s i))) (timers k)\<rparr>))"
proof (cases "usecWaiters (dev_data s)")
  case Nil
  then have "usec_pass conf complete s = Some (False, upd_ks (\<lambda>k. k) s)" by (simp add: usec_pass_def upd_ks_def upd_ps_def)
  then show ?thesis using Nil by auto
next
  case (Cons i rest)
  have ks: "upd_ks g (upd_ks h s) = upd_ks (\<lambda>k. g (h k)) s" for g h by (simp add: upd_ks_def upd_ps_def)
  have "\<not> CompareTimerTicks (io_Extension (ioreqs s i)) (usec_now conf s) \<le> 0" using assms [OF Cons] by (auto simp: CompareTimerTicks_def)
  then show ?thesis using Cons by (auto simp: usec_pass_def sample_time_def usec_now_def ks Let_def)
qed

lemma ProcessUSecWaiters_ok:
  assumes "ProcessUSecWaiters conf complete s = Some s'" and "complete = internalCompleteIO env (Suc n) ct"
    and "io_inv env Y s" and "timer_but {} s"
  shows "kept env ct Y s s' \<and> timer_but {} s'"
  using assms
proof (induction rule: ProcessUSecWaiters_induct)
  case (step f conf complete s s')
  show ?case
  proof (cases "\<exists>i rest. usecWaiters (dev_data s) = i # rest \<and> io_Extension (ioreqs s i) \<le> usec_now conf s")
    case True
    then obtain s1 where s1: "usec_pass conf complete s = Some (True, s1)" "kept env ct Y s s1" "timer_but {} s1"
      using usec_due [OF _ step.prems(2,3)] step.prems(1) by blast
    then have "f conf complete s1 = Some s'" "io_inv env Y s1" using step.hyps by (simp_all add: kept_def)
    from step.IH [OF this(1) step.prems(1) this(2) s1(3)] show ?thesis using kept_trans [OF s1(2)] by blast
  next
    case False
    then obtain g where "usec_pass conf complete s = Some (False, upd_ks g s)" using usec_stop [of s conf] by (meson not_le)
    then have "s' = upd_ks g s" using step.hyps by simp
    then show ?thesis using kept_step [OF ks_step step.prems(2)] step.prems(3) by simp
  qed
qed

section \<open>The handler of vertical blanks\<close>

text \<open>What a vertical blank does to a request that waits for it.\<close>

definition vbl_tick :: "TimerConf \<Rightarrow> (task \<Rightarrow> u32) \<Rightarrow> IOReq \<Rightarrow> IOReq" where
  "vbl_tick conf a r =
     (if io_Actual r + 1 < ioi_Offset (io_Info r) then r\<lparr>io_Actual := io_Actual r + 1\<rparr>
      else if \<not> is_metronome r then r\<lparr>io_Actual := io_Actual r + 1, IO_DONE := True\<rparr>
      else if can_signal conf a r then r\<lparr>io_Actual := 0\<rparr>
      else r\<lparr>io_Actual := 0, io_Error := WaitErr ILLEGALSIGNAL, IO_DONE := True\<rparr>)"

lemma NextWaiter_at: "i \<notin> set pre \<Longrightarrow> NextWaiter i (pre @ i # post) = (case post of [] \<Rightarrow> None | k # _ \<Rightarrow> Some k)"
proof (induction pre)
  case Nil
  then show ?case by (cases post) simp_all
next
  case (Cons x pre)
  then show ?case by (cases "pre @ i # post") auto
qed

text \<open>One request of the list.\<close>

lemma vbl_one:
  fixes s :: TimerIo and conf :: TimerConf
  assumes v: "vblWaiters (dev_data s) = pre @ i # post" and I: "io_inv env Y s" and b: "timer_but {} s"
  defines "r \<equiv> vbl_tick conf (allocated (ps s)) (ioreqs s i)"
  defines "pre' \<equiv> (if IO_DONE r then pre else pre @ [i])"
  shows "\<exists>s'. VBLHandler_loop conf (internalCompleteIO env (Suc n) ct) (Some i) s
        = VBLHandler_loop conf (internalCompleteIO env (Suc n) ct) (case post of [] \<Rightarrow> None | k # _ \<Rightarrow> Some k) s'
      \<and> kept env ct Y s s' \<and> timer_but {} s' \<and> allocated (ps s') = allocated (ps s) \<and> ioreqs s' = (ioreqs s)(i := r)
      \<and> dev_data s' = (dev_data s)\<lparr>vblWaiters := pre' @ post\<rparr>"
proof -
  let ?c = "internalCompleteIO env (Suc n) ct"
  let ?s1 = "upd_ior i (\<lambda>r. r\<lparr>io_Actual := io_Actual r + 1\<rparr>) s"
  let ?s2 = "upd_ior i (\<lambda>r. r\<lparr>io_Actual := 0\<rparr>) ?s1"
  let ?next = "case post of [] \<Rightarrow> None | k # _ \<Rightarrow> Some k"
  have i: "i \<in> in_progress s" "i \<notin> set pre" "i \<notin> set post" "i \<notin> set (usecWaiters (dev_data s))"
    using b v by (auto simp: timer_but_def waiters_def)
  have d: "\<not> IO_DONE (ioreqs s i)" using i(1) by (simp add: in_progress_def)
  have ok: "ior_ok env (ioreqs s i)" using I i(1) by (auto simp: io_inv_def in_progress_def)
  have next1: "NextWaiter i (pre @ i # post) = ?next" by (rule NextWaiter_at [OF i(2)])
  have K1: "kept env ct Y s ?s1"
    by (rule kept_step [OF upd_step [OF i(1)] I]) (use ok in \<open>simp add: own_change_def ior_ok_def\<close>)
  have p: "in_progress (upd_ior i f s) = in_progress s" if "IO_DONE (f (ioreqs s i)) = IO_DONE (ioreqs s i)" for f
    using that by (auto simp: in_progress_def)
  have K2: "kept env ct Y s ?s2"
    by (rule kept_then [OF K1 upd_step]) (use i(1) p ok in \<open>simp_all add: own_change_def ior_ok_def\<close>)
  have b1: "timer_but {} ?s1" by (rule but_upd [OF b]) simp_all
  have b2: "timer_but {} ?s2" by (rule but_upd [OF b1]) simp_all
  have rm: "dev_data (remove_waiter i s') = (dev_data s)\<lparr>vblWaiters := pre @ post\<rparr>" if "dev_data s' = dev_data s" for s'
    using v i that by (simp add: remove_waiter_def)
  have same: "dev_data s = (dev_data s)\<lparr>vblWaiters := (pre @ [i]) @ post\<rparr>" using v by simp
  have compl: "\<exists>s''. ?c i (remove_waiter i s') = Some s'' \<and> kept env ct Y s s'' \<and> timer_but {} s'' \<and> allocated (ps s'') = allocated (ps s')
      \<and> ioreqs s'' = (ioreqs s')(i := (ioreqs s' i)\<lparr>IO_DONE := True\<rparr>) \<and> dev_data s'' = (dev_data s)\<lparr>vblWaiters := pre @ post\<rparr>"
    if s': "kept env ct Y s s'" "timer_but {} s'" "dev_data s' = dev_data s" "i \<in> in_progress s'" for s'
  proof -
    let ?s = "remove_waiter i s'"
    have K: "kept env ct Y s ?s" by (rule kept_then [OF s'(1) list_steps(3)])
    then have I': "io_inv env Y ?s" by (simp add: kept_def)
    have i': "i \<in> in_progress ?s" using s'(4) by simp
    have ok': "ior_ok env (ioreqs ?s i)" using I' i' unfolding io_inv_def in_progress_def by blast
    have b': "timer_but {i} ?s" using but_remove [OF s'(2), of i] by simp
    obtain s'' where c: "?c i ?s = Some s''" using CompleteIO_user [of ?s i env n ct] ok' by (simp add: ior_ok_def)
    note C = complete_ok [OF c I' b' singletonI i']
    have "kept env ct Y s s''" by (rule kept_then [OF K C(1)])
    moreover have "timer_but {} s''" using C(3) by simp
    moreover have "allocated (ps s'') = allocated (ps s')" using complete_allocated [OF ok' c] by (simp add: remove_waiter_def)
    ultimately show ?thesis using c C(5,6) rm [OF s'(3)] by auto
  qed
  note L = VBLHandler_loop.simps [of conf ?c "Some i" s]
  show ?thesis
  proof (cases "io_Actual (ioreqs s i) + 1 < ioi_Offset (io_Info (ioreqs s i))")
    case True
    then have r: "r = (ioreqs s i)\<lparr>io_Actual := io_Actual (ioreqs s i) + 1\<rparr>" by (simp add: r_def vbl_tick_def)
    have "\<not> ioi_Offset (io_Info (ioreqs s i)) \<le> io_Actual (ioreqs s i) + 1" using True by simp
    then have "VBLHandler_loop conf ?c (Some i) s = VBLHandler_loop conf ?c ?next ?s1"
      by (subst L) (simp add: v next1 Let_def)
    then show ?thesis using K1 b1 r d same by (intro exI [of _ ?s1]) (auto simp: pre'_def)
  next
    case reached: False
    then have reached': "ioi_Offset (io_Info (ioreqs s i)) \<le> io_Actual (ioreqs s i) + 1" by (simp add: not_less)
    show ?thesis
    proof (cases "is_metronome (ioreqs s i)")
      case False
      then have r: "r = (ioreqs s i)\<lparr>io_Actual := io_Actual (ioreqs s i) + 1, IO_DONE := True\<rparr>"
        using reached by (simp add: r_def vbl_tick_def)
      obtain s' where s': "?c i (remove_waiter i ?s1) = Some s'" "kept env ct Y s s'" "timer_but {} s'"
        "allocated (ps s') = allocated (ps ?s1)" "ioreqs s' = (ioreqs ?s1)(i := (ioreqs ?s1 i)\<lparr>IO_DONE := True\<rparr>)"
        "dev_data s' = (dev_data s)\<lparr>vblWaiters := pre @ post\<rparr>"
        using compl [OF K1 b1] i(1) p by auto
      have "VBLHandler_loop conf ?c (Some i) s = VBLHandler_loop conf ?c ?next s'"
        using reached' False s'(1) by (subst L) (simp add: v next1 is_metronome_def Let_def)
      then show ?thesis using s' r by (intro exI [of _ s']) (auto simp: pre'_def)
    next
      case met: True
      obtain g where g: "snd (ping conf i ?s2) = upd_ks g ?s2" using ping_state by blast
      note P = ping_result [of conf i ?s2]
      let ?s3 = "upd_ks g ?s2"
      have K3: "kept env ct Y s ?s3" by (rule kept_then [OF K2 ks_step])
      have a3: "allocated (ps ?s3) = allocated (ps s)" using P(2) unfolding g by simp
      have cs: "can_signal conf a (r\<lparr>io_Actual := x\<rparr>) = can_signal conf a r" for a r x by (simp add: can_signal_def split: option.split)
      show ?thesis
      proof (cases "can_signal conf (allocated (ps s)) (ioreqs s i)")
        case True
        then have r: "r = (ioreqs s i)\<lparr>io_Actual := 0\<rparr>" using reached met by (simp add: r_def vbl_tick_def)
        have pr: "ping conf i ?s2 = (Inr (), ?s3)" using P(1) g True by (simp add: prod_eq_iff cs)
        have "VBLHandler_loop conf ?c (Some i) s = VBLHandler_loop conf ?c ?next ?s3"
          using reached' met pr by (subst L) (simp add: v next1 is_metronome_def Let_def)
        then show ?thesis using K3 b2 a3 r d same by (intro exI [of _ ?s3]) (auto simp: pre'_def)
      next
        case False
        let ?s4 = "upd_ior i (\<lambda>r. r\<lparr>io_Error := WaitErr ILLEGALSIGNAL\<rparr>) ?s3"
        have r: "r = (ioreqs s i)\<lparr>io_Actual := 0, io_Error := WaitErr ILLEGALSIGNAL, IO_DONE := True\<rparr>"
          using reached met False by (simp add: r_def vbl_tick_def)
        have pr: "ping conf i ?s2 = (Inl ILLEGALSIGNAL, ?s3)" using P(1) g False by (simp add: prod_eq_iff cs)
        have K4: "kept env ct Y s ?s4"
          by (rule kept_then [OF K3 upd_step]) (use i(1) p in \<open>simp_all add: own_change_def in_progress_own\<close>)
        have b4: "timer_but {} ?s4" by (rule but_upd) (use b2 in simp_all)
        obtain s' where s': "?c i (remove_waiter i ?s4) = Some s'" "kept env ct Y s s'" "timer_but {} s'"
          "allocated (ps s') = allocated (ps ?s4)" "ioreqs s' = (ioreqs ?s4)(i := (ioreqs ?s4 i)\<lparr>IO_DONE := True\<rparr>)"
          "dev_data s' = (dev_data s)\<lparr>vblWaiters := pre @ post\<rparr>"
          using compl [OF K4 b4] i(1) by (auto simp: in_progress_own)
        have "VBLHandler_loop conf ?c (Some i) s = VBLHandler_loop conf ?c ?next s'"
          using reached' met pr s'(1) by (subst L) (simp add: v next1 is_metronome_def Let_def)
        then show ?thesis using s' a3 r by (intro exI [of _ s']) (auto simp: pre'_def)
      qed
    qed
  qed
qed

lemma vbl_all:
  fixes s :: TimerIo
  assumes "vblWaiters (dev_data s) = pre @ post" and "io_inv env Y s" and "timer_but {} s"
  shows "\<exists>s'. VBLHandler_loop conf (internalCompleteIO env (Suc n) ct) (case post of [] \<Rightarrow> None | k # _ \<Rightarrow> Some k) s = Some s'
      \<and> kept env ct Y s s' \<and> timer_but {} s' \<and> allocated (ps s') = allocated (ps s)
      \<and> ioreqs s' = (\<lambda>j. if j \<in> set post then vbl_tick conf (allocated (ps s)) (ioreqs s j) else ioreqs s j)
      \<and> dev_data s' = (dev_data s)\<lparr>vblWaiters := pre @ filter (\<lambda>j. \<not> IO_DONE (vbl_tick conf (allocated (ps s)) (ioreqs s j))) post\<rparr>"
  using assms
proof (induction post arbitrary: pre s)
  case Nil
  then show ?case by (simp add: VBLHandler_loop.simps kept_refl)
next
  case (Cons i post)
  let ?r = "vbl_tick conf (allocated (ps s)) (ioreqs s i)"
  let ?pre = "if IO_DONE ?r then pre else pre @ [i]"
  have n: "i \<notin> set post" using Cons.prems(1,3) by (auto simp: timer_but_def waiters_def)
  obtain s1 where s1: "VBLHandler_loop conf (internalCompleteIO env (Suc n) ct) (Some i) s
        = VBLHandler_loop conf (internalCompleteIO env (Suc n) ct) (case post of [] \<Rightarrow> None | k # _ \<Rightarrow> Some k) s1"
      "kept env ct Y s s1" "timer_but {} s1" "allocated (ps s1) = allocated (ps s)" "ioreqs s1 = (ioreqs s)(i := ?r)"
      "dev_data s1 = (dev_data s)\<lparr>vblWaiters := ?pre @ post\<rparr>"
    using vbl_one [OF Cons.prems, of conf n ct] by auto
  have "vblWaiters (dev_data s1) = ?pre @ post" "io_inv env Y s1" using s1(2,6) by (simp_all add: kept_def)
  from Cons.IH [OF this s1(3)] obtain s' where s': "VBLHandler_loop conf (internalCompleteIO env (Suc n) ct)
        (case post of [] \<Rightarrow> None | k # _ \<Rightarrow> Some k) s1 = Some s'"
      "kept env ct Y s1 s'" "timer_but {} s'" "allocated (ps s') = allocated (ps s1)"
      "ioreqs s' = (\<lambda>j. if j \<in> set post then vbl_tick conf (allocated (ps s1)) (ioreqs s1 j) else ioreqs s1 j)"
      "dev_data s' = (dev_data s1)\<lparr>vblWaiters := ?pre @ filter (\<lambda>j. \<not> IO_DONE (vbl_tick conf (allocated (ps s1)) (ioreqs s1 j))) post\<rparr>"
    by auto
  have f: "filter (\<lambda>j. \<not> IO_DONE (vbl_tick conf (allocated (ps s1)) (ioreqs s1 j))) post
      = filter (\<lambda>j. \<not> IO_DONE (vbl_tick conf (allocated (ps s)) (ioreqs s j))) post"
    by (rule filter_cong) (use n s1(4,5) in auto)
  show ?case
  proof (intro exI [of _ s'] conjI)
    show "ioreqs s' = (\<lambda>j. if j \<in> set (i # post) then vbl_tick conf (allocated (ps s)) (ioreqs s j) else ioreqs s j)"
      unfolding s'(5) s1(4,5) using n by auto
    show "dev_data s' = (dev_data s)\<lparr>vblWaiters := pre @ filter (\<lambda>j. \<not> IO_DONE (vbl_tick conf (allocated (ps s)) (ioreqs s j))) (i # post)\<rparr>"
      using s'(6) s1(6) f by simp
  qed (use s' s1 kept_trans [OF s1(2) s'(2)] in simp_all)
qed

section \<open>The timer driver is a driver\<close>

text \<open>A command completes the request, which is on no list yet, by returning 1, or defers it.\<close>

definition deferred_ok :: "TimerData IoEnv \<Rightarrow> task \<Rightarrow> int \<Rightarrow> TimerIo \<Rightarrow> (int \<times> TimerIo) option \<Rightarrow> bool" where
  "deferred_ok env ct i s res \<longleftrightarrow>
     (case res of None \<Rightarrow> True
      | Some (r, s') \<Rightarrow> kept env ct {i} s s' \<and> (if r = 0 then timer_but {} s' \<and> \<not> IO_QUICK (ioreqs s' i)
          else timer_but {i} s' \<and> i \<in> in_progress s'))"

definition ready :: "TimerData IoEnv \<Rightarrow> int \<Rightarrow> TimerIo \<Rightarrow> bool" where
  "ready env i s \<longleftrightarrow> io_inv env {i} s \<and> timer_but {i} s \<and> i \<in> in_progress s"

lemma ready_upd:
  assumes "ready env i s" and "own_change (ioreqs s i) (f (ioreqs s i))"
  shows "ready env i (upd_ior i f s)" and "device_step env ct s (upd_ior i f s)"
proof -
  have i: "i \<in> in_progress s" using assms(1) by (simp add: ready_def)
  have d: "IO_DONE (f (ioreqs s i)) = IO_DONE (ioreqs s i)" using assms(2) by (simp add: own_change_def)
  show st: "device_step env ct s (upd_ior i f s)" for ct by (rule upd_step [where f = f and i = i, OF i assms(2)])
  have "io_inv env {i} (upd_ior i f s)" using device_step_inv(1) [OF st] assms(1) by (simp add: ready_def)
  moreover have "timer_but {i} (upd_ior i f s)" by (rule but_upd) (use assms(1) d in \<open>auto simp: ready_def\<close>)
  moreover have "i \<in> in_progress (upd_ior i f s)" using i d by (auto simp: in_progress_def)
  ultimately show "ready env i (upd_ior i f s)" by (simp add: ready_def)
qed

lemma ready_ok: "ready env i s \<Longrightarrow> ior_ok env (ioreqs s i)"
  by (auto simp: ready_def io_inv_def in_progress_def)

lemma ready_ks: "ready env i s \<Longrightarrow> ready env i (upd_ks g s)"
  using device_step_inv(1) [OF ks_step, of env "{i}" s] by (simp add: ready_def)

lemma ready_mem:
  "ready env i s \<Longrightarrow> ready env i (upd_data (\<lambda>d. d\<lparr>tv_mem := x d\<rparr>) s)"
  "ready env i s \<Longrightarrow> ready env i (upd_data (\<lambda>d. d\<lparr>vbl_mem := y d\<rparr>) s)"
  using device_step_inv(1) [OF data_step, of env "{i}" s] by (auto simp: ready_def timer_but_def waiters_def)

lemma deferred_step:
  assumes "device_step env ct s s1" and "ready env i s" and "deferred_ok env ct i s1 res"
  shows "deferred_ok env ct i s res"
  using assms kept_trans [OF kept_step [OF assms(1), of "{i}"]] by (auto simp: deferred_ok_def ready_def split: option.splits)

lemma finished_ok:
  assumes "ready env i s" and "own_change (ioreqs s i) (f (ioreqs s i))"
  shows "deferred_ok env ct i s (Some (1, upd_ior i f s))"
  using ready_upd [where f = f and i = i, OF assms] kept_step [OF ready_upd(2) [where f = f and i = i, OF assms], of "{i}"] assms(1)
  by (simp add: deferred_ok_def ready_def)

lemma bad_arg_ok: "ready env i s \<Longrightarrow> deferred_ok env ct i s (bad_arg i s)"
  unfolding bad_arg_def by (rule finished_ok) (simp_all add: own_change_def)

lemma DelayVBL_ok:
  assumes "ready env i s"
  shows "deferred_ok env ct i s (CmdDelayVBL complete i s)"
proof -
  let ?s = "add_vbl i s"
  let ?f = "\<lambda>r. r\<lparr>IO_QUICK := False\<rparr>"
  have i: "i \<in> in_progress s" using assms by (simp add: ready_def)
  have K: "kept env ct {i} s ?s" by (rule kept_step [OF list_steps(1)]) (use assms in \<open>simp add: ready_def\<close>)
  have "kept env ct {i} s (upd_ior i ?f ?s)"
    by (rule kept_then [OF K upd_step]) (use i ready_ok [OF assms] in \<open>simp_all add: own_change_def ior_ok_def\<close>)
  moreover have "timer_but {} (upd_ior i ?f ?s)" using but_upd [OF but_insert(2) [of "{i}" s i]] assms by (simp add: ready_def)
  ultimately show ?thesis by (simp add: CmdDelayVBL_def deferred_ok_def)
qed

lemma scheduled:
  assumes "ready env i s"
  shows "kept env ct {i} s (upd_ior i (\<lambda>r. r\<lparr>IO_QUICK := False\<rparr>) (insert_usec i s))"
    and "timer_but {} (upd_ior i (\<lambda>r. r\<lparr>IO_QUICK := False\<rparr>) (insert_usec i s))"
proof -
  let ?s' = "upd_ior i (\<lambda>r. r\<lparr>IO_QUICK := False\<rparr>) (insert_usec i s)"
  have i: "i \<in> in_progress s" using assms by (simp add: ready_def)
  have K: "kept env ct {i} s (insert_usec i s)" by (rule kept_step [OF list_steps(2)]) (use assms in \<open>simp add: ready_def\<close>)
  show "kept env ct {i} s ?s'"
    by (rule kept_then [OF K upd_step]) (use i ready_ok [OF assms] in \<open>simp_all add: own_change_def ior_ok_def\<close>)
  show "timer_but {} ?s'" using but_upd [OF but_insert(1) [of "{i}" s i]] assms by (simp add: ready_def)
qed

lemma schedule_ok:
  assumes "ready env i s"
  shows "deferred_ok env ct i s (schedule_usec conf (internalCompleteIO env (Suc n) ct) i s)"
proof -
  let ?s' = "upd_ior i (\<lambda>r. r\<lparr>IO_QUICK := False\<rparr>) (insert_usec i s)"
  note S = scheduled [OF assms]
  show ?thesis
  proof (cases "ProcessUSecWaiters conf (internalCompleteIO env (Suc n) ct) ?s'")
    case None
    then show ?thesis by (simp add: schedule_usec_def deferred_ok_def)
  next
    case (Some s')
    have I: "io_inv env {i} ?s'" using S(1) by (simp add: kept_def)
    note P = ProcessUSecWaiters_ok [OF Some refl I S(2)]
    have "i \<in> ior_items ?s'" using assms by (simp add: ready_def in_progress_def)
    then have "\<not> IO_QUICK (ioreqs s' i)" using steps_quick [OF _ I] P by (auto simp: kept_def)
    then show ?thesis using Some P kept_trans [OF S(1)] by (auto simp: schedule_usec_def deferred_ok_def)
  qed
qed

lemma DelayUSec_ok:
  assumes "ready env i s"
  shows "deferred_ok env ct i s (CmdDelayUSec conf (internalCompleteIO env (Suc n) ct) i s)"
proof -
  let ?s = "upd_ks (\<lambda>k. snd (sample (pe_clock (tc_pe conf)) k)) s"
  have r: "ready env i ?s" by (rule ready_ks [OF assms])
  have "deferred_ok env ct i s (schedule_usec conf (internalCompleteIO env (Suc n) ct) i
      (upd_ior i (\<lambda>r. r\<lparr>io_Tail := y, io_Extension := x\<rparr>) ?s))" for x y
    by (rule deferred_step [OF ks_step assms deferred_step [OF ready_upd(2) [OF r] r schedule_ok [OF ready_upd(1) [OF r]]]])
      (use ready_ok [OF assms] in \<open>simp_all add: own_change_def ior_ok_def\<close>)
  then show ?thesis
    using bad_arg_ok [OF assms] sample_time_state [of conf s] by (auto simp: CmdDelayUSec_def Let_def split_beta)
qed

lemma DelayUntilUSec_ok:
  assumes "ready env i s"
  shows "deferred_ok env ct i s (CmdDelayUntilUSec conf (internalCompleteIO env (Suc n) ct) i s)"
proof -
  have "deferred_ok env ct i s (schedule_usec conf (internalCompleteIO env (Suc n) ct) i (upd_ior i (\<lambda>r. r\<lparr>io_Extension := x\<rparr>) s))" for x
    by (rule deferred_step [OF ready_upd(2) [OF assms] assms schedule_ok [OF ready_upd(1) [OF assms]]])
      (use ready_ok [OF assms] in \<open>simp_all add: own_change_def ior_ok_def\<close>)
  then show ?thesis using bad_arg_ok [OF assms] by (simp add: CmdDelayUntilUSec_def Let_def)
qed

lemma metronome_ready:
  assumes "ready env i s"
  shows "ready env i (set_metronome i s)" and "device_step env ct s (set_metronome i s)"
  unfolding set_metronome_def
  by (rule ready_upd [OF assms], use ready_ok [OF assms] in \<open>simp add: own_change_def ior_ok_def\<close>)+

lemma commands_ok:
  assumes "(c, f) \<in> set (CmdTable conf)" and r: "ready env i s"
  shows "deferred_ok env ct i s (f (internalCompleteIO env (Suc n) ct) i s)" (is "deferred_ok env ct i s (f ?c i s)")
proof -
  have o: "own_change (ioreqs s' i) ((ioreqs s' i)\<lparr>io_Actual := x\<rparr>)" "own_change (ioreqs s' i) ((ioreqs s' i)\<lparr>io_Error := WaitErr e\<rparr>)"
    "own_change (ioreqs s' i) ((ioreqs s' i)\<lparr>io_Info := (io_Info (ioreqs s' i))\<lparr>ioi_Offset := y\<rparr>\<rparr>)"
    "own_change (ioreqs s' i) (ioreqs s' i)" if "ready env i s'" for s' e x y
    using ready_ok [OF that] by (simp_all add: own_change_def ior_ok_def)
  note rk = ready_ks [OF r, of "\<lambda>k. snd (sample (pe_clock (tc_pe conf)) k)"]
  have "deferred_ok env ct i s (CmdDelayUntilVBL ?c i s)" unfolding CmdDelayUntilVBL_def Let_def
    by (rule deferred_step [OF ready_upd(2) [OF r] r DelayVBL_ok [OF ready_upd(1) [OF r]]]) (simp_all add: o [OF r])
  moreover have "deferred_ok env ct i s (CmdMetronomeVBL ?c i s)" unfolding CmdMetronomeVBL_def
    using deferred_step [OF metronome_ready(2) [OF r] r DelayVBL_ok [OF metronome_ready(1) [OF r]]] bad_arg_ok [OF r] by simp
  moreover have "deferred_ok env ct i s (CmdMetronomeUSec conf ?c i s)" unfolding CmdMetronomeUSec_def
    using deferred_step [OF metronome_ready(2) [OF r] r DelayUSec_ok [OF metronome_ready(1) [OF r]]] bad_arg_ok [OF r] by simp
  moreover have "deferred_ok env ct i s (CmdGetTimeVBL ?c i s)"
    using bad_arg_ok [OF r] deferred_step [OF data_step r finished_ok [OF ready_mem(2) [OF r]]] o(1) [OF r]
    by (simp add: CmdGetTimeVBL_def Let_def)
  moreover have "deferred_ok env ct i s (CmdGetTimeUSec conf ?c i s)"
    using bad_arg_ok [OF r] deferred_step [OF ks_step r deferred_step [OF data_step rk finished_ok [OF ready_mem(1) [OF rk]]]] o(1) [OF r]
      sample_time_state [of conf s] by (simp add: CmdGetTimeUSec_def Let_def split_beta)
  moreover have "deferred_ok env ct i s (CmdSetTimeVBL ?c i s)" unfolding CmdSetTimeVBL_def by (rule finished_ok [OF r]) (simp add: o [OF r])
  moreover have "deferred_ok env ct i s (Some (1, upd_ks g s))" for g
    using kept_step [OF ks_step, of env "{i}" s ct g] ready_ks [OF r, of g] r by (simp add: deferred_ok_def ready_def)
  then have "deferred_ok env ct i s (CmdSetTimeUSec conf ?c i s)" using bad_arg_ok [OF r] by (simp add: CmdSetTimeUSec_def Let_def)
  ultimately show ?thesis
    using assms(1) DelayVBL_ok [OF r] DelayUSec_ok [OF r] DelayUntilUSec_ok [OF r] unfolding CmdTable_def by auto
qed

lemma LookupDriverCmd_in: "LookupDriverCmd t c = Some f \<Longrightarrow> (c, f) \<in> set t"
  by (induction t) (auto split: if_splits)

lemma dispatch_ok:
  assumes r: "ready env i s" and "defaultDispatch (CmdTable conf) (internalCompleteIO env (Suc n) ct) i s = Some (ret, s')"
  shows "kept env ct {i} s s' \<and> timer_but {} s' \<and> (IO_QUICK (ioreqs s' i) \<longrightarrow> IO_DONE (ioreqs s' i)) \<and> (ret \<noteq> 0 \<longrightarrow> IO_DONE (ioreqs s' i))"
proof -
  define res where "res = (case LookupDriverCmd (CmdTable conf) (ioi_Command (io_Info (ioreqs s i))) of
              None \<Rightarrow> Some (1, upd_ior i (\<lambda>r. r\<lparr>io_Error := WaitErr BADCOMMAND\<rparr>) s)
            | Some f \<Rightarrow> f (internalCompleteIO env (Suc n) ct) i s)"
  have "deferred_ok env ct i s res"
    unfolding res_def using commands_ok [OF LookupDriverCmd_in r] finished_ok [OF r, of "\<lambda>r. r\<lparr>io_Error := WaitErr BADCOMMAND\<rparr>"]
    by (auto simp: own_change_def split: option.split)
  moreover obtain r1 s1 where res: "res = Some (r1, s1)"
    and fin: "(if r1 = 0 then Some (0, s1) else (case internalCompleteIO env (Suc n) ct i s1 of None \<Rightarrow> None | Some s \<Rightarrow> Some (1, s))) = Some (ret, s')"
    using assms(2) by (auto simp: defaultDispatch_def res_def [symmetric] split: option.splits)
  ultimately have D: "kept env ct {i} s s1" "if r1 = 0 then timer_but {} s1 \<and> \<not> IO_QUICK (ioreqs s1 i) else timer_but {i} s1 \<and> i \<in> in_progress s1"
    by (auto simp: deferred_ok_def)
  show ?thesis
  proof (cases "r1 = 0")
    case False
    then have c: "internalCompleteIO env (Suc n) ct i s1 = Some s'" using fin by (auto split: option.splits)
    have I: "io_inv env {i} s1" using D(1) by (simp add: kept_def)
    have b: "timer_but {i} s1" "i \<in> in_progress s1" using D(2) False by simp_all
    note C = complete_ok [OF c I b(1) singletonI b(2)]
    show ?thesis using kept_then [OF D(1) C(1)] C(3,4) by simp
  qed (use D fin in auto)
qed

lemma abort_ok:
  assumes "driver_inv s" and "io_inv env {} s" and "i \<in> in_progress s" and "AbortTimerIO (internalCompleteIO env (Suc n) ct) i s = Some s'"
  shows "kept env ct {} s s' \<and> driver_inv s'"
proof -
  let ?s = "remove_waiter i s"
  let ?f = "\<lambda>r. r\<lparr>io_Error := WaitErr ABORTED, io_DeviceFlags := io_DeviceFlags r AND NOT TIMERIOFLAGS_METRONOME\<rparr>"
  have K: "kept env ct {} s ?s" by (rule kept_step [OF list_steps(3) assms(2)])
  have K1: "kept env ct {} s (upd_ior i ?f ?s)" by (rule kept_then [OF K upd_step]) (use assms(3) in \<open>simp_all add: own_change_def\<close>)
  then have I: "io_inv env {} (upd_ior i ?f ?s)" by (simp add: kept_def)
  have b: "timer_but {i} (upd_ior i ?f ?s)" by (rule but_upd) (use but_remove [of "{}" s i] assms(1) in \<open>simp_all add: driver_inv_def\<close>)
  have i: "i \<in> in_progress (upd_ior i ?f ?s)" using assms(3) by (simp add: in_progress_own)
  note C = complete_ok [OF assms(4) [unfolded AbortTimerIO_def] I b singletonI i]
  show ?thesis using kept_then [OF K1 C(1)] C(3) by (simp add: driver_inv_def)
qed

lemma timer_frame:
  assumes "driver_inv s" and "dev_data s' = dev_data s"
    and "\<And>j. j \<in> ior_items s \<Longrightarrow> \<not> IO_DONE (ioreqs s j) \<Longrightarrow> j \<in> ior_items s' \<and> same_work (ioreqs s j) (ioreqs s' j)"
    and "\<And>j. j \<in> ior_items s' \<Longrightarrow> \<not> IO_DONE (ioreqs s' j) \<Longrightarrow> j \<in> ior_items s \<and> \<not> IO_DONE (ioreqs s j)"
  shows "driver_inv s'"
proof -
  have w: "IO_DONE r' = IO_DONE r \<and> io_Extension r' = io_Extension r" if "same_work r r'" for r r'
    using that unfolding same_work_def by (metis IOReq.select_convs(5,11) IOReq.surjective IOReq.update_convs(3,16))
  have p: "in_progress s' = in_progress s" using assms(3,4) w by (auto simp: in_progress_def)
  have e: "io_Extension (ioreqs s' a) = io_Extension (ioreqs s a)" if "a \<in> set (usecWaiters (dev_data s))" for a
  proof -
    have "a \<in> in_progress s" using assms(1) that by (auto simp: driver_inv_def timer_but_def waiters_def)
    then show ?thesis using assms(3) w by (auto simp: in_progress_def)
  qed
  have "sorted_wrt (\<lambda>a b. io_Extension (ioreqs s' a) \<le> io_Extension (ioreqs s' b)) (usecWaiters (dev_data s))"
    by (rule sorted_wrt_mono_rel [of _ "\<lambda>a b. io_Extension (ioreqs s a) \<le> io_Extension (ioreqs s b)"])
      (use assms(1) e in \<open>auto simp: driver_inv_def timer_but_def\<close>)
  then show ?thesis using assms(1) by (simp add: driver_inv_def timer_but_def p assms(2))
qed

text \<open>A request that is done is on no list, so it can be started.\<close>

lemma start_ready:
  assumes "driver_inv s" and "i \<in> ior_items s" and "IO_DONE (ioreqs s i)" and "\<not> IO_DONE (f (ioreqs s i))" and "io_inv env {i} (upd_ior i f s)"
  shows "ready env i (upd_ior i f s)"
proof -
  have n: "i \<notin> set (waiters (dev_data s))" using assms(1,3) by (auto simp: driver_inv_def timer_but_def in_progress_def)
  have p: "in_progress (upd_ior i f s) = insert i (in_progress s)" "i \<notin> in_progress s"
    using assms(2-4) by (auto simp: in_progress_def)
  have "sorted_wrt (\<lambda>a b. io_Extension (ioreqs (upd_ior i f s) a) \<le> io_Extension (ioreqs (upd_ior i f s) b)) (usecWaiters (dev_data s))"
    by (rule sorted_wrt_mono_rel [of _ "\<lambda>a b. io_Extension (ioreqs s a) \<le> io_Extension (ioreqs s b)"])
      (use assms(1) n in \<open>auto simp: driver_inv_def timer_but_def waiters_def\<close>)
  then show ?thesis using assms(1,5) p by (simp add: ready_def driver_inv_def timer_but_def)
qed

interpretation timer: device_driver "timer_env conf base" driver_inv for conf base
proof
  fix s i f n ct ret s'
  assume "driver_inv s" "i \<in> ior_items s" "IO_DONE (ioreqs s i)" "\<not> IO_DONE (f (ioreqs s i))" "io_inv (timer_env conf base) {i} (upd_ior i f s)"
  note R = start_ready [OF this]
  assume "drv_DispatchIO (timer_env conf base) (io_Dev (f (ioreqs s i))) (internalCompleteIO (timer_env conf base) (Suc n) ct) i (upd_ior i f s) = Some (ret, s')"
  then have "defaultDispatch (CmdTable conf) (internalCompleteIO (timer_env conf base) (Suc n) ct) i (upd_ior i f s) = Some (ret, s')"
    by (simp add: timer_env_def)
  from dispatch_ok [OF R this] show "(device_step (timer_env conf base) ct)\<^sup>*\<^sup>* (upd_ior i f s) s' \<and> driver_inv s' \<and>
    (IO_QUICK (ioreqs s' i) \<longrightarrow> IO_DONE (ioreqs s' i)) \<and> (ret \<noteq> 0 \<longrightarrow> IO_DONE (ioreqs s' i))"
    by (simp add: kept_def driver_inv_def)
next
  fix s i n ct s'
  assume a: "driver_inv s" "i \<in> ior_items s" "\<not> IO_DONE (ioreqs s i)" "io_inv (timer_env conf base) {} s"
    "drv_AbortIO (timer_env conf base) (io_Dev (ioreqs s i)) (internalCompleteIO (timer_env conf base) (Suc n) ct) i s = Some s'"
  have "AbortTimerIO (internalCompleteIO (timer_env conf base) (Suc n) ct) i s = Some s'" using a(5) by (simp add: timer_env_def)
  from abort_ok [OF a(1,4) _ this] a(2,3) show "(device_step (timer_env conf base) ct)\<^sup>*\<^sup>* s s' \<and> driver_inv s'"
    by (simp add: kept_def in_progress_def)
next
  fix s s' :: TimerIo
  assume "driver_inv s" "dev_data s' = dev_data s"
    "\<And>j. j \<in> ior_items s \<Longrightarrow> \<not> IO_DONE (ioreqs s j) \<Longrightarrow> j \<in> ior_items s' \<and> same_work (ioreqs s j) (ioreqs s' j)"
    "\<And>j. j \<in> ior_items s' \<Longrightarrow> \<not> IO_DONE (ioreqs s' j) \<Longrightarrow> j \<in> ior_items s \<and> \<not> IO_DONE (ioreqs s j)"
  then show "driver_inv s'" by (rule timer_frame)
qed (simp_all add: timer_env_def)

section \<open>The handlers and the commands as a whole\<close>


text \<open>
  The flag of a metronome is set before the time of the request is checked, and nothing clears it but an abort: a
  request that has failed as a metronome and is sent again as a delay is treated as a metronome and never completed.
\<close>

lemma Metronome_flag_stays:
  assumes "ioi_CmdOptions (io_Info (ioreqs s i)) AND 0x800000ff = 0" and "iob_Len (ioi_Send (io_Info (ioreqs s i))) \<noteq> 8"
  shows "\<exists>s'. CmdMetronomeUSec conf complete i s = Some (1, s') \<and> io_Error (ioreqs s' i) = WaitErr BADIOARG \<and> is_metronome (ioreqs s' i)"
proof -
  have "(x OR TIMERIOFLAGS_METRONOME) AND TIMERIOFLAGS_METRONOME = TIMERIOFLAGS_METRONOME" for x :: u32
    by (rule bit_word_eqI) (auto simp: bit_simps)
  then show ?thesis using assms by (simp add: CmdMetronomeUSec_def CmdDelayUSec_def bad_arg_def set_metronome_def is_metronome_def)
qed

theorem Metronome_never_ends:
  assumes "io_inv env {} s" and "driver_inv s" and "i \<in> set (vblWaiters (dev_data s))" and "is_metronome (ioreqs s i)"
    and "can_signal conf (allocated (ps s)) (ioreqs s i)"
  shows "\<exists>s'. VBLHandler conf (internalCompleteIO env (Suc n) ct) s = Some s' \<and> \<not> IO_DONE (ioreqs s' i) \<and> is_metronome (ioreqs s' i)"
proof -
  have "\<not> IO_DONE (ioreqs s i)" using assms(2,3) by (auto simp: driver_inv_def timer_but_def waiters_def in_progress_def)
  then have "\<not> IO_DONE (vbl_tick conf (allocated (ps s)) (ioreqs s i)) \<and> is_metronome (vbl_tick conf (allocated (ps s)) (ioreqs s i))"
    using assms(4,5) by (simp add: vbl_tick_def is_metronome_def)
  then show ?thesis
    using vbl_all [of s "[]" "vblWaiters (dev_data s)" env "{}" conf n ct] assms(1-3) unfolding VBLHandler_def driver_inv_def by auto
qed

text \<open>What has become of a request at the time \<open>now\<close>; a metronome keeps to its grid.\<close>

definition usec_result :: "TimerConf \<Rightarrow> (task \<Rightarrow> u32) \<Rightarrow> ticks \<Rightarrow> IOReq \<Rightarrow> IOReq \<Rightarrow> bool" where
  "usec_result conf a now r r' \<longleftrightarrow>
     (if now < io_Extension r then r' = r
      else if \<not> is_metronome r then r' = r\<lparr>IO_DONE := True\<rparr>
      else if can_signal conf a r then
        (\<exists>k x. r' = r\<lparr>io_Extension := x\<rparr> \<and> unat x = unat (io_Extension r) + k * unat (io_Tail r) \<and> now < x
           \<and> unat x \<le> unat now + unat (io_Tail r))
      else r' = r\<lparr>io_Extension := io_Extension r + io_Tail r, io_Error := WaitErr ILLEGALSIGNAL, IO_DONE := True\<rparr>)"

lemma usec_result_grid:
  "usec_result conf a now r r' \<Longrightarrow> \<not> now < io_Extension r \<Longrightarrow> is_metronome r \<Longrightarrow> can_signal conf a r \<Longrightarrow>
   \<exists>k x. r' = r\<lparr>io_Extension := x\<rparr> \<and> unat x = unat (io_Extension r) + k * unat (io_Tail r) \<and> now < x
     \<and> unat x \<le> unat now + unat (io_Tail r)"
  by (simp add: usec_result_def)

definition intervals_ok :: "ticks \<Rightarrow> TimerIo \<Rightarrow> bool" where
  "intervals_ok now s \<longleftrightarrow> (\<forall>i \<in> set (usecWaiters (dev_data s)). is_metronome (ioreqs s i) \<longrightarrow>
     io_Tail (ioreqs s i) \<noteq> 0 \<and> unat now + unat (io_Tail (ioreqs s i)) < 2 ^ 64)"

definition usec_work :: "ticks \<Rightarrow> TimerIo \<Rightarrow> nat" where
  "usec_work now s = (\<Sum>i \<in> set (usecWaiters (dev_data s)). (unat now + 1) - unat (io_Extension (ioreqs s i)))"

lemma tick_later:
  fixes e t now :: u64
  assumes "e \<le> now" and "t \<noteq> 0" and "unat now + unat t < 2 ^ 64"
  shows "unat (e + t) = unat e + unat t" and "unat e < unat (e + t)"
proof -
  have e: "unat e \<le> unat now" using assms(1) by (simp add: word_le_nat_alt)
  then show s: "unat (e + t) = unat e + unat t" using assms(3) by (intro unat_plus_if' [THEN trans]) simp
  show "unat e < unat (e + t)" using assms(2) unfolding s by (simp add: unat_gt_0)
qed

text \<open>The timer of the driver wakes at the first target, unless that is so far away that the difference counts as negative.\<close>

definition armed :: "TimerConf \<Rightarrow> ticks \<Rightarrow> TimerIo \<Rightarrow> bool" where
  "armed conf now s \<longleftrightarrow>
     (case usecWaiters (dev_data s) of
        [] \<Rightarrow> True
      | i # _ \<Rightarrow> now < io_Extension (ioreqs s i) \<and> (unat (io_Extension (ioreqs s i)) < 2 ^ 63 \<longrightarrow>
          tm_WakeTime (timers (ks (ps s))) (utimer conf) = io_Extension (ioreqs s i)))"

lemma LoadTimer_wakes:
  assumes "\<And>n. pe_clock (tc_pe conf) n = now" and "now < x" and "unat x < 2 ^ 63"
  shows "tm_WakeTime (LoadTimer (pe_clock (tc_pe conf)) t (SubTimerTicks now x) ts) t = x"
proof -
  have "unat (x - now) = unat x - unat now" by (rule unat_sub) (use assms(2) in simp)
  then have "unat (x - now) < 2 ^ 63" using assms(3) by simp
  then have "unat (drop_bit 63 (x - now)) = 0" by (simp add: unat_drop_bit_eq drop_bit_eq_div unat_div)
  then have "drop_bit 63 (x - now) = 0" by (simp only: unat_eq_zero)
  then have "\<not> bit (x - now) 63" by (simp add: bit_iff_odd_drop_bit)
  then have "\<not> sint (x - now) < 0" by (simp add: sint_uint signed_take_bit_negative_iff bit_uint_iff)
  then show ?thesis
    by (simp add: LoadTimer_def SampleSystemTimeTT_def assms(1) insert_waitq_def unlink_def AddTimerTicks_def SubTimerTicks_def Let_def)
qed

lemma usec_all:
  assumes "\<And>n. pe_clock (tc_pe conf) n = now" and "io_inv env Y s" and "timer_but {} s" and "intervals_ok now s"
  shows "\<exists>s'. ProcessUSecWaiters conf (internalCompleteIO env (Suc n) ct) s = Some s' \<and> kept env ct Y s s' \<and> timer_but {} s' \<and> armed conf now s'
    \<and> (\<forall>j. if j \<in> set (usecWaiters (dev_data s)) then usec_result conf (allocated (ps s)) now (ioreqs s j) (ioreqs s' j)
            else ioreqs s' j = ioreqs s j)"
  using assms(2-4)
proof (induction "usec_work now s" arbitrary: s rule: less_induct)
  case less
  let ?c = "internalCompleteIO env (Suc n) ct"
  let ?U = "usecWaiters (dev_data s)"
  let ?a = "allocated (ps s)"
  have now: "usec_now conf s = now" for s by (simp add: usec_now_def sample_def SampleSystemTimeTT_def assms(1))
  show ?case
  proof (cases "\<exists>i rest. ?U = i # rest \<and> io_Extension (ioreqs s i) \<le> now")
    case False
    then have later: "now < io_Extension (ioreqs s j)" if "j \<in> set ?U" for j
      using less.prems(2) that by (cases ?U) (auto simp: timer_but_def not_le intro: less_le_trans)
    have first: "now < io_Extension (ioreqs s i)" if "?U = i # rest" for i rest using False that by (auto simp: not_le)
    obtain g where g: "usec_pass conf ?c s = Some (False, upd_ks g s)" and G: "\<And>i rest. ?U = i # rest \<Longrightarrow> g (ks (ps s)) =
        (let k = snd (sample (pe_clock (tc_pe conf)) (ks (ps s))) in
         k\<lparr>timers := LoadTimer (pe_clock (tc_pe conf)) (utimer conf) (SubTimerTicks now (io_Extension (ioreqs s i))) (timers k)\<rparr>)"
      using usec_stop [of s conf ?c] first unfolding now by blast
    have "armed conf now (upd_ks g s)"
      unfolding armed_def using G LoadTimer_wakes [OF assms(1)] first by (auto simp: Let_def split: list.split)
    moreover have "ProcessUSecWaiters conf ?c s = Some (upd_ks g s)" by (subst ProcessUSecWaiters.simps) (simp add: g)
    ultimately show ?thesis using later kept_step [OF ks_step less.prems(1)] less.prems(2)
      by (intro exI [of _ "upd_ks g s"]) (simp add: usec_result_def)
  next
    case True
    then obtain i rest where u: "?U = i # rest" and due: "io_Extension (ioreqs s i) \<le> now" by blast
    let ?r = "usec_tick conf ?a (ioreqs s i)"
    obtain s1 where s1: "usec_pass conf ?c s = Some (True, s1)" "kept env ct Y s s1" "timer_but {} s1" "allocated (ps s1) = ?a"
      "ioreqs s1 = (ioreqs s)(i := ?r)"
      "dev_data s1 = (dev_data s)\<lparr>usecWaiters := if IO_DONE ?r then rest else insert_at (\<lambda>j. CmpTicks ?r (ioreqs s j)) i rest\<rparr>"
      using usec_due [OF u less.prems(1,2), of conf n ct] due now by auto
    have n: "i \<notin> set rest" using less.prems(2) u by (auto simp: timer_but_def waiters_def)
    have d: "\<not> IO_DONE (ioreqs s i)" using less.prems(2) u by (auto simp: timer_but_def waiters_def in_progress_def)
    have U1: "set (usecWaiters (dev_data s1)) = (if IO_DONE ?r then set rest else insert i (set rest))" using s1(6) by simp
    have tick: "unat (io_Extension ?r) = unat (io_Extension (ioreqs s i)) + unat (io_Tail (ioreqs s i))"
      "unat (io_Extension (ioreqs s i)) < unat (io_Extension ?r)" "is_metronome ?r" "can_signal conf ?a ?r"
      "can_signal conf ?a (ioreqs s i)" "is_metronome (ioreqs s i)"
      "?r = (ioreqs s i)\<lparr>io_Extension := io_Extension (ioreqs s i) + io_Tail (ioreqs s i)\<rparr>" if "\<not> IO_DONE ?r"
    proof -
      have m: "is_metronome (ioreqs s i)" "can_signal conf ?a (ioreqs s i)"
        using that by (auto simp: usec_tick_def split: if_splits)
      then show r: "?r = (ioreqs s i)\<lparr>io_Extension := io_Extension (ioreqs s i) + io_Tail (ioreqs s i)\<rparr>" by (simp add: usec_tick_def)
      show "is_metronome ?r" "can_signal conf ?a ?r" using m unfolding r by (simp_all add: is_metronome_def can_signal_def split: option.splits)
      have "io_Tail (ioreqs s i) \<noteq> 0" "unat now + unat (io_Tail (ioreqs s i)) < 2 ^ 64" using less.prems(3) u m by (auto simp: intervals_ok_def)
      from tick_later [OF due this] show "unat (io_Extension ?r) = unat (io_Extension (ioreqs s i)) + unat (io_Tail (ioreqs s i))"
        "unat (io_Extension (ioreqs s i)) < unat (io_Extension ?r)" unfolding r by simp_all
    qed (use that in \<open>auto simp: usec_tick_def split: if_splits\<close>)
    let ?w = "\<lambda>s j. (unat now + 1) - unat (io_Extension (ioreqs s j))"
    have rest: "sum (?w s1) (set rest) = sum (?w s) (set rest)" by (rule sum.cong) (use n s1(5) in auto)
    have le: "unat (io_Extension (ioreqs s i)) \<le> unat now" using due by (simp add: word_le_nat_alt)
    have "usec_work now s1 < usec_work now s"
      using rest n tick(2) le unfolding usec_work_def U1 u by (auto simp: s1(5))
    moreover have "intervals_ok now s1"
      using less.prems(3) u n tick(7) unfolding intervals_ok_def U1 by (auto simp: s1(5) is_metronome_def)
    moreover have "io_inv env Y s1" using s1(2) by (simp add: kept_def)
    ultimately obtain s' where s': "ProcessUSecWaiters conf ?c s1 = Some s'" "kept env ct Y s1 s'" "timer_but {} s'" "armed conf now s'"
      "\<And>j. if j \<in> set (usecWaiters (dev_data s1)) then usec_result conf ?a now (ioreqs s1 j) (ioreqs s' j) else ioreqs s' j = ioreqs s1 j"
      using less.hyps [of s1] s1(3,4) by metis
    have "usec_result conf ?a now (ioreqs s i) (ioreqs s' i)"
    proof (cases "IO_DONE ?r")
      case True
      then have "ioreqs s' i = ?r" using s'(5) [of i] U1 n s1(5) by simp
      then show ?thesis using True d due by (auto simp: usec_result_def usec_tick_def not_less)
    next
      case False
      note T = tick [OF False]
      have R: "usec_result conf ?a now ?r (ioreqs s' i)" using s'(5) [of i] U1 False s1(5) by simp
      show ?thesis
      proof (cases "now < io_Extension ?r")
        case True
        then have "ioreqs s' i = ?r" using R by (simp add: usec_result_def)
        then have "\<exists>k x. ioreqs s' i = (ioreqs s i)\<lparr>io_Extension := x\<rparr> \<and> unat x = unat (io_Extension (ioreqs s i)) + k * unat (io_Tail (ioreqs s i))
            \<and> now < x \<and> unat x \<le> unat now + unat (io_Tail (ioreqs s i))"
          using T(1,7) le True by (intro exI [of _ 1] exI [of _ "io_Extension ?r"]) (simp add: word_le_nat_alt)
        then show ?thesis using T(5,6) due by (simp add: usec_result_def not_less)
      next
        case False
        then obtain k x where x: "ioreqs s' i = ?r\<lparr>io_Extension := x\<rparr>" "unat x = unat (io_Extension ?r) + k * unat (io_Tail ?r)" "now < x"
          "unat x \<le> unat now + unat (io_Tail ?r)"
          using usec_result_grid [OF R False T(3,4)] by blast
        then have "ioreqs s' i = (ioreqs s i)\<lparr>io_Extension := x\<rparr> \<and> unat x = unat (io_Extension (ioreqs s i)) + Suc k * unat (io_Tail (ioreqs s i))
            \<and> now < x \<and> unat x \<le> unat now + unat (io_Tail (ioreqs s i))"
          using T(1,7) by simp
        then have "\<exists>k x. ioreqs s' i = (ioreqs s i)\<lparr>io_Extension := x\<rparr> \<and> unat x = unat (io_Extension (ioreqs s i)) + k * unat (io_Tail (ioreqs s i))
            \<and> now < x \<and> unat x \<le> unat now + unat (io_Tail (ioreqs s i))" by blast
        then show ?thesis using T(5,6) due by (simp add: usec_result_def not_less)
      qed
    qed
    moreover have "usec_result conf ?a now (ioreqs s j) (ioreqs s' j)" if "j \<in> set rest" for j
      using s'(5) [of j] U1 that n s1(5) by (auto split: if_splits)
    moreover have "ioreqs s' j = ioreqs s j" if "j \<notin> set ?U" for j
      using s'(5) [of j] U1 that u s1(5) by (auto split: if_splits)
    moreover have "ProcessUSecWaiters conf ?c s = Some s'" by (subst ProcessUSecWaiters.simps) (simp add: s1(1) s'(1))
    ultimately show ?thesis using s'(3,4) kept_trans [OF s1(2) s'(2)] u by auto
  qed
qed


text \<open>A metronome of the interval 0 stays due.\<close>

lemma usec_hangs:
  assumes "ProcessUSecWaiters conf complete s = Some s'" and "complete = internalCompleteIO env (Suc n) ct"
    and "io_inv env Y s" and "timer_but {} s" and "i \<in> set (usecWaiters (dev_data s))" and "is_metronome (ioreqs s i)"
    and "io_Tail (ioreqs s i) = 0" and "can_signal conf (allocated (ps s)) (ioreqs s i)"
    and "\<forall>m. io_Extension (ioreqs s i) \<le> pe_clock (tc_pe conf) m"
  shows False
  using assms
proof (induction rule: ProcessUSecWaiters_induct)
  case (step f conf complete s s')
  let ?a = "allocated (ps s)"
  obtain j rest where u: "usecWaiters (dev_data s) = j # rest" using step.prems(4) by (cases "usecWaiters (dev_data s)") auto
  have "io_Extension (ioreqs s j) \<le> io_Extension (ioreqs s i)" using step.prems(3,4) u by (auto simp: timer_but_def)
  then have due: "io_Extension (ioreqs s j) \<le> usec_now conf s"
    using step.prems(8) by (auto simp: usec_now_def sample_def SampleSystemTimeTT_def Let_def intro: order_trans)
  let ?r = "usec_tick conf ?a (ioreqs s j)"
  obtain s1 where s1: "usec_pass conf complete s = Some (True, s1)" "kept env ct Y s s1" "timer_but {} s1" "allocated (ps s1) = ?a"
      "ioreqs s1 = (ioreqs s)(j := ?r)"
      "dev_data s1 = (dev_data s)\<lparr>usecWaiters := if IO_DONE ?r then rest else insert_at (\<lambda>k. CmpTicks ?r (ioreqs s k)) j rest\<rparr>"
    using usec_due [OF u step.prems(2,3) due, of n ct] step.prems(1) by auto
  have d: "\<not> IO_DONE (ioreqs s j)" using step.prems(3) u by (auto simp: timer_but_def waiters_def in_progress_def)
  have same: "ioreqs s1 i = ioreqs s i" using step.prems(5-7) by (auto simp: s1(5) usec_tick_def)
  have "i \<in> set (usecWaiters (dev_data s1))"
  proof (cases "j = i")
    case True
    then have "\<not> IO_DONE ?r" using step.prems(5,7) d by (simp add: usec_tick_def)
    then show ?thesis using True by (simp add: s1(6))
  qed (use step.prems(4) u in \<open>auto simp: s1(6)\<close>)
  moreover have "f conf complete s1 = Some s'" "io_inv env Y s1" using step.hyps s1(1,2) by (simp_all add: kept_def)
  ultimately show False using step.IH [of conf complete s1 s'] step.prems s1(3,4) same by simp
qed

text \<open>C40: A task that starts a metronome with the interval 0, which passes every check of the driver, never gets
  out of \<open>SendIO\<close>: the handler, which runs with interrupts disabled, finds the request due again and
  again.\<close>

theorem Metronome_zero_hangs:
  assumes "io_inv (timer_env conf base) {} s" and "driver_inv s" and "i \<in> ior_items s" and "IO_DONE (ioreqs s i)"
    and "io_Owner (ioreqs s i) = TaskItem (tc_pe conf) ct" and "\<not> IO_MESSAGEBASED (ioreqs s i)" and "\<not> DEVF_OFFLINE base (io_Dev (ioreqs s i))"
    and "ioi_Command info = TIMERCMD_METRONOME_USEC" and "ioi_Flags info = 0" and "ioi_CmdOptions info AND 0x800000ff = 0"
    and "ioi_CmdOptions info AND NOT (allocated (ps s) ct) = 0" and "iob_Len (ioi_Recv info) = 0" and "iob_Len (ioi_Send info) = 8"
    and "MemReadable (tc_pe conf) (iob_Buffer (ioi_Send info)) 8"
    and "tv_mem (dev_data s) (iob_Buffer (ioi_Send info)) = \<lparr>tv_Seconds = 0, tv_Microseconds = 0\<rparr>"
    and "\<forall>m. usec_now conf s \<le> pe_clock (tc_pe conf) m"
  shows "externalSendIO (timer_env conf base) (Suc n) ct i (Some info) s = None"
proof -
  let ?env = "timer_env conf base"
  let ?c = "internalCompleteIO ?env (Suc n) ct"
  let ?f = "\<lambda>r. r\<lparr>io_Error := WaitItem 0, io_Actual := 0, IO_DONE := False, IO_QUICK := ioi_Flags (io_Info r) AND IO_QUICK_FLAG \<noteq> 0\<rparr>"
  let ?s1 = "upd_ior i (\<lambda>r. r\<lparr>io_Info := info, io_CallBack := None\<rparr>) s"
  let ?s2 = "upd_ior i ?f ?s1"
  let ?s3 = "set_metronome i ?s2"
  let ?s4 = "upd_ks (\<lambda>k. snd (sample (pe_clock (tc_pe conf)) k)) ?s3"
  let ?s5 = "upd_ior i (\<lambda>r. r\<lparr>io_Tail := 0, io_Extension := usec_now conf s\<rparr>) ?s4"
  let ?s6 = "upd_ior i (\<lambda>r. r\<lparr>IO_QUICK := False\<rparr>) (insert_usec i ?s5)"
  have pe: "io_pe ?env = tc_pe conf" "drv_DispatchIO ?env = (\<lambda>_. defaultDispatch (CmdTable conf))" "DEVF_OFFLINE ?env = DEVF_OFFLINE base"
    by (simp_all add: timer_env_def)
  have ok: "ior_ok ?env (ioreqs s i)" using assms(1,3) by (auto simp: io_inv_def)
  have I1: "io_inv ?env {} ?s1" by (rule io_inv_upd_done [OF assms(1)]) (use ok assms(4) in \<open>simp_all add: ior_ok_def\<close>)
  have I2: "io_inv ?env {i} ?s2" by (rule io_inv_upd_done [OF io_inv_mono [OF I1]]) (use ok assms(4) in \<open>simp_all add: ior_ok_def\<close>)
  have "driver_inv ?s1" by (rule timer_frame [OF assms(2)]) (use assms(4) in \<open>auto split: if_splits\<close>)
  then have R2: "ready ?env i ?s2" by (rule start_ready) (use assms(3,4) I2 in simp_all)
  have R4: "ready ?env i ?s4" by (intro ready_ks metronome_ready(1) R2)
  have R5: "ready ?env i ?s5" by (rule ready_upd(1) [OF R4]) (use ok in \<open>simp add: own_change_def ior_ok_def set_metronome_def\<close>)
  have K: "io_inv ?env {i} ?s6" using scheduled(1) [OF R5] by (simp add: kept_def)
  obtain t where t: "LookupTask (tc_pe conf) (io_Owner (ioreqs s i)) = Some t" using ok pe by (auto simp: ior_ok_def)
  then have "TaskItem (tc_pe conf) t = TaskItem (tc_pe conf) ct" using assms(1,5) pe by (auto simp: io_inv_def)
  then have t: "LookupTask (tc_pe conf) (io_Owner (ioreqs s i)) = Some ct" using assms(1) t pe by (metis io_inv_def injD)
  have a: "allocated (ps ?s6) = allocated (ps s)" by (simp add: insert_usec_def sample_allocated set_metronome_def)
  have m: "(x OR TIMERIOFLAGS_METRONOME) AND TIMERIOFLAGS_METRONOME \<noteq> 0" for x :: u32
  proof -
    have "(x OR TIMERIOFLAGS_METRONOME) AND TIMERIOFLAGS_METRONOME = TIMERIOFLAGS_METRONOME"
      by (rule bit_word_eqI) (auto simp: bit_simps)
    then show ?thesis by simp
  qed
  have "ProcessUSecWaiters conf ?c ?s6 = None"
  proof (rule ccontr)
    assume "ProcessUSecWaiters conf ?c ?s6 \<noteq> None"
    then obtain s' where "ProcessUSecWaiters conf ?c ?s6 = Some s'" by blast
    from usec_hangs [OF this refl K scheduled(2) [OF R5], of i] show False
      using assms(11,16) t m unfolding a by (simp add: insert_usec_def set_metronome_def is_metronome_def can_signal_def)
  qed
  then have sch: "schedule_usec conf ?c i ?s5 = None" by (simp add: schedule_usec_def)
  have z: "ConvertTimeValToTimerTicks x \<lparr>tv_Seconds = 0, tv_Microseconds = 0\<rparr> = 0" for x by (simp add: ConvertTimeValToTimerTicks_def)
  have smp: "sample_time conf ?s3 = (usec_now conf s, ?s4)" by (simp add: sample_time_def usec_now_def set_metronome_def)
  have "CmdDelayUSec conf ?c i ?s3 = None"
    using sch smp assms(13,15) by (simp add: CmdDelayUSec_def Let_def z AddTimerTicks_def set_metronome_def)
  then have "CmdMetronomeUSec conf ?c i ?s2 = None" using assms(10) by (simp add: CmdMetronomeUSec_def)
  then have "defaultDispatch (CmdTable conf) ?c i ?s2 = None" using assms(8) by (simp add: defaultDispatch_def CmdTable_def)
  then have "internalSendIO ?env ?c i ?s1 = None" using assms(7) pe by (simp add: internalSendIO_def)
  then show ?thesis
    using assms(3-6,9,12-14) pe by (simp add: externalSendIO_def StartIO_def check_ior_def buffer_ok_def Let_def)
qed

section \<open>Examples\<close>

text \<open>Device 3 of the system is the timer, whose clock stands at 50. Task 1 is the item 1001.\<close>

definition example_conf :: TimerConf where
  "example_conf = \<lparr>tc_pe = example_env\<lparr>pe_clock := (\<lambda>_. 50)\<rparr>, tc_ticksPerSecond = 1000000, utimer = 1\<rparr>"

definition example_base :: "TimerData IoEnv" where
  "example_base = \<lparr>io_pe = example_env, devices = (\<lambda>i. if i = 3 then Some 0x100 else None), drv_DispatchIO = (\<lambda>_ _ _ _. None),
     drv_AbortIO = (\<lambda>_ _ _ _. None), drv_ChangeIOReqOwner = (\<lambda>_. None), drv_CreateIOReq = (\<lambda>_. None), drv_DeleteIOReq = (\<lambda>_. None),
     callback = (\<lambda>_ _ s. (None, s)), DEVF_OFFLINE = (\<lambda>_. False), opened = (\<lambda>_ _. True), error_code = (\<lambda>_. -1)\<rparr>"

abbreviation "example_tenv \<equiv> timer_env example_conf example_base"

definition example_io :: TimerIo where
  "example_io = \<lparr>ps = example_ports, ior_items = {}, ioreqs = (\<lambda>_. new_ior 0 0), dev_IOReqs = (\<lambda>_. []), writable = (\<lambda>_ _ _. True),
     dev_data = \<lparr>vblWaiters = [], usecWaiters = [], vblankCount = 0, tv_mem = (\<lambda>_. \<lparr>tv_Seconds = 0, tv_Microseconds = 0\<rparr>), vbl_mem = (\<lambda>_. 0)\<rparr>\<rparr>"

lemma example_tasks:
  "inj (TaskItem (io_pe example_tenv))" "LookupTask (io_pe example_tenv) i = Some t \<Longrightarrow> TaskItem (io_pe example_tenv) t = i"
  "LookupTask (io_pe example_tenv) 1001 = Some 1" "TaskItem (io_pe example_tenv) 1 = 1001"
  by (auto simp: timer_env_def example_conf_def example_env_def inj_def word_uint_eq_iff split: if_splits)

lemma example_io_start: "io_start example_tenv driver_inv example_io"
  using example_tasks(1,2)
  by (simp add: io_start_def example_io_def driver_inv_def timer_but_def waiters_def in_progress_def)

text \<open>The request 9 of task 1, idle.\<close>

definition example_idle :: TimerIo where
  "example_idle = example_io\<lparr>ior_items := {9}, ioreqs := (\<lambda>_. new_ior 0 0)(9 := (new_ior 1001 0x100)\<lparr>io_Signal := SIGF_IODONE, IO_DONE := True, IO_QUICK := True\<rparr>),
     dev_IOReqs := (\<lambda>_. [])(0x100 := [9])\<rparr>"

lemma example_created:
  "internalCreateIOReq example_tenv 1 (Some 9) (\<lambda>_. None) 0 [CREATEIOREQ_TAG_DEVICE 3] example_io = (Inr 9, example_idle)"
  by (simp add: internalCreateIOReq_def timer_env_def example_base_def example_idle_def example_conf_def example_env_def example_io_def
      upd_ior_def new_ior_def Let_def)

lemma example_create_step: "io_step example_tenv driver_inv example_io example_idle"
proof -
  have "io_step example_tenv driver_inv example_io
      (snd (internalCreateIOReq example_tenv 1 (Some 9) (\<lambda>_. None) 0 [CREATEIOREQ_TAG_DEVICE 3] example_io))"
    by (rule io_step.create) (use example_tasks in \<open>simp_all add: example_io_def example_ports_def\<close>)
  then show ?thesis by (simp add: example_created)
qed

text \<open>A delay of 5 blanks, and reading the time into the buffer at 0x2000.\<close>

definition example_delay :: IOInfo where
  "example_delay = no_info\<lparr>ioi_Command := TIMERCMD_DELAY_VBL, ioi_Offset := 5\<rparr>"

definition example_gettime :: IOInfo where
  "example_gettime = no_info\<lparr>ioi_Command := TIMERCMD_GETTIME_VBL, ioi_Recv := \<lparr>iob_Buffer = 0x2000, iob_Len = 8\<rparr>\<rparr>"

lemma example_delayed:
  "\<exists>s. externalDoIO example_tenv (Suc 0) 1 9 (Some example_delay) example_idle = Some (None, s) \<and> ior_items s = {9} \<and> t_WaitItem (ps s) 1 = WaitItem 9"
  by (simp add: externalDoIO_def StartIO_def check_ior_def internalSendIO_def internalWaitIO_def timer_env_def example_base_def example_conf_def
      example_env_def example_idle_def example_io_def example_delay_def no_info_def new_ior_def buffer_ok_def defaultDispatch_def CmdTable_def
      CmdDelayVBL_def add_vbl_def upd_data_def upd_ior_def upd_ps_def example_ports_def Let_def)

theorem WaitIO_no_lost_completion_witness:
  "\<exists>s. (io_step example_tenv driver_inv)\<^sup>*\<^sup>* example_io s \<and> t_WaitItem (ps s) 1 = WaitItem 9
    \<and> (\<exists>s'. internalCompleteIO example_tenv (Suc 0) 2 9 s = Some s' \<and> IO_DONE (ioreqs s' 9) \<and> \<not> TASK_WAITING (tcb (ks (ps s')) 1))"
proof -
  obtain s where s: "externalDoIO example_tenv (Suc 0) 1 9 (Some example_delay) example_idle = Some (None, s)" "ior_items s = {9}"
    "t_WaitItem (ps s) 1 = WaitItem 9" using example_delayed by blast
  have st: "(io_step example_tenv driver_inv)\<^sup>*\<^sup>* example_io s"
    using example_create_step io_step.do [OF s(1)] by (rule converse_rtranclp_into_rtranclp [OF _ r_into_rtranclp])
  show ?thesis
    using WaitIO_no_lost_completion [OF timer.device_driver_axioms example_io_start st, of 9 1] st s(2,3) by blast
qed


text \<open>Request 8 waits for its last blank, 9 is a metronome of 40 ticks and 10 a delay, both of which are due.\<close>

definition example_busy :: TimerIo where
  "example_busy = example_io\<lparr>ior_items := {8, 9, 10}, ioreqs := (\<lambda>_. new_ior 1001 0x100)(
       8 := (new_ior 1001 0x100)\<lparr>io_Info := example_delay, io_Actual := 4\<rparr>,
       9 := (new_ior 1001 0x100)\<lparr>io_Extension := 20, io_Tail := 40, io_DeviceFlags := TIMERIOFLAGS_METRONOME\<rparr>,
       10 := (new_ior 1001 0x100)\<lparr>io_Extension := 30\<rparr>),
     dev_data := (dev_data example_io)\<lparr>vblWaiters := [8], usecWaiters := [9, 10]\<rparr>\<rparr>"

lemma example_busy_ok: "io_inv example_tenv {} example_busy" "driver_inv example_busy"
  using example_tasks
  by (auto simp: io_inv_def example_busy_def example_io_def example_ports_def new_ior_def ior_ok_def driver_inv_def timer_but_def waiters_def in_progress_def)



definition example_metronome :: IOInfo where
  "example_metronome = no_info\<lparr>ioi_Command := TIMERCMD_METRONOME_USEC, ioi_CmdOptions := 0x100, ioi_Send := \<lparr>iob_Buffer = 0x2000, iob_Len = 8\<rparr>\<rparr>"

lemma example_idle_ok: "io_inv example_tenv {} example_idle" "driver_inv example_idle"
  using example_tasks
  by (auto simp: io_inv_def example_idle_def example_io_def example_ports_def new_ior_def ior_ok_def driver_inv_def timer_but_def waiters_def in_progress_def)

theorem Metronome_zero_hangs_witness:
  "externalSendIO example_tenv (Suc 0) 1 9 (Some example_metronome) example_idle = None"
proof (rule Metronome_zero_hangs [OF example_idle_ok])
  show "ioi_CmdOptions example_metronome AND NOT (allocated (ps example_idle) 1) = 0"
    by (simp add: example_metronome_def allocated_def example_idle_def example_io_def example_ports_def example_waiting_def)
  show "\<forall>m. usec_now example_conf example_idle \<le> pe_clock (tc_pe example_conf) m"
    by (simp add: usec_now_def sample_def SampleSystemTimeTT_def example_conf_def Let_def)
qed (simp_all add: example_idle_def example_io_def example_metronome_def no_info_def new_ior_def example_conf_def example_env_def example_base_def)

end
