(* ===== verification/FreeList.thy ===== *)
theory FreeList
  imports Kernel
begin

text \<open>
  The list of free blocks of a page pool (\<open>folios/kernel/mem.c\<close>: \<open>MergeBlocks\<close>,
  \<open>FreeToPagePool\<close>, \<open>ReallocFromPagePool\<close>). The headers of the blocks are kept in the free memory
  itself, so memory is explicit: its words, by address. A pool starts with an anchor
  block that is never merged. Section ``abstraction'' reads the list as a sequence of (address, size)
  pairs; a well-formed one is sorted, aligned and coalesced, and then determined by the
  set of its bytes.
\<close>

type_synonym words = "u32 \<Rightarrow> u32"

definition fb_Next :: "words \<Rightarrow> u32 \<Rightarrow> u32" where
  "fb_Next m fb = m fb"

definition fb_Size :: "words \<Rightarrow> u32 \<Rightarrow> u32" where
  "fb_Size m fb = m (fb + 4)"

definition set_fb_Next :: "u32 \<Rightarrow> u32 \<Rightarrow> words \<Rightarrow> words" where
  "set_fb_Next fb v m = m(fb := v)"

definition set_fb_Size :: "u32 \<Rightarrow> u32 \<Rightarrow> words \<Rightarrow> words" where
  "set_fb_Size fb v m = m(fb + 4 := v)"

text \<open>\<open>sizeof(FreeBlock)\<close> is 8.\<close>

definition ROUND_ALLOC_SIZE :: "u32 \<Rightarrow> u32" where
  "ROUND_ALLOC_SIZE x = (x + 7) AND NOT 7"

definition MergeBlocks :: "u32 \<Rightarrow> u32 \<Rightarrow> u32 \<Rightarrow> u32 \<Rightarrow> u32 \<Rightarrow> words \<Rightarrow> words" where
  "MergeBlocks anchor prev next p sz m =
     (if prev \<noteq> anchor \<and> prev + fb_Size m prev = p then
        let m = set_fb_Size prev (fb_Size m prev + sz) m
        in if prev + fb_Size m prev = next then
             let m = set_fb_Next prev (fb_Next m next) m
             in set_fb_Size prev (fb_Size m prev + fb_Size m next) m
           else m
      else if p + sz = next then
        let m = set_fb_Next p (fb_Next m next) m;
            m = set_fb_Size p (sz + fb_Size m next) m
        in set_fb_Next prev p m
      else
        let m = set_fb_Next p next m;
            m = set_fb_Size p sz m
        in set_fb_Next prev p m)"

text \<open>The place of an address in the list: the block before it and the block after it.\<close>

partial_function (option) find_place :: "words \<Rightarrow> u32 \<Rightarrow> u32 \<Rightarrow> u32 \<Rightarrow> (u32 \<times> u32) option" where
  "find_place m p prev next =
     (if next = 0 \<or> next > p then Some (prev, next) else find_place m p next (fb_Next m next))"

text \<open>The block of an allocation made with \<open>MEMTYPE_TRACKSIZE\<close>: its size is in the word before it.\<close>

definition tracked_block :: "words \<Rightarrow> u32 \<Rightarrow> u32 \<times> u32" where
  "tracked_block m p =
     (if p AND 7 \<noteq> 0 then (p - 4, m (p - 4) + 4) else (p - 8, m (p - 4) + 8))"

text \<open>The signed size is a word; \<open>None\<close> if the scan of the list does not end.\<close>

definition FreeToPagePool :: "u32 \<Rightarrow> u32 \<Rightarrow> u32 \<Rightarrow> words \<Rightarrow> words option" where
  "FreeToPagePool anchor p sz m =
     (if sz = 0 \<or> p = 0 then Some m
      else
        let (p, sz) = (if sint sz < 0 then tracked_block m p else (p, sz));
            sz = ROUND_ALLOC_SIZE sz
        in case find_place m p anchor (fb_Next m anchor) of
             None \<Rightarrow> None
           | Some (prev, next) \<Rightarrow> Some (MergeBlocks anchor prev next p sz m))"

section \<open>Abstraction\<close>

type_synonym block = "u32 \<times> u32"

abbreviation bstart :: "block \<Rightarrow> nat" where "bstart b \<equiv> unat (fst b)"
abbreviation bend :: "block \<Rightarrow> nat" where "bend b \<equiv> unat (fst b) + unat (snd b)"

fun path :: "words \<Rightarrow> u32 \<Rightarrow> block list \<Rightarrow> u32 \<Rightarrow> bool" where
  "path m p [] q \<longleftrightarrow> p = q"
| "path m p ((f, s) # bs) q \<longleftrightarrow> p = f \<and> fb_Size m f = s \<and> path m (fb_Next m f) bs q"

definition chain :: "words \<Rightarrow> u32 \<Rightarrow> block list \<Rightarrow> u32 \<Rightarrow> bool" where
  "chain m a bs q \<longleftrightarrow> path m (fb_Next m a) bs q"

definition block_ok :: "block \<Rightarrow> bool" where
  "block_ok b \<longleftrightarrow> 8 dvd bstart b \<and> 8 dvd unat (snd b) \<and> 0 < bstart b \<and> 0 < unat (snd b) \<and> bend b < 2 ^ 32"

text \<open>Blocks in order: apart from each other, or at least not overlapping.\<close>

definition blocks_ok :: "block list \<Rightarrow> bool" where
  "blocks_ok bs \<longleftrightarrow> (\<forall>b \<in> set bs. block_ok b) \<and> sorted_wrt (\<lambda>b c. bend b < bstart c) bs"

definition blocks_apart :: "block list \<Rightarrow> bool" where
  "blocks_apart bs \<longleftrightarrow> (\<forall>b \<in> set bs. block_ok b) \<and> sorted_wrt (\<lambda>b c. bend b \<le> bstart c) bs"

definition bytes_of :: "block list \<Rightarrow> nat set" where
  "bytes_of bs = (\<Union>b \<in> set bs. {bstart b..<bend b})"

definition pool :: "words \<Rightarrow> u32 \<Rightarrow> block list \<Rightarrow> bool" where
  "pool m a bs \<longleftrightarrow> chain m a bs 0 \<and> blocks_ok bs \<and> 4 dvd unat a \<and> unat a \<notin> bytes_of bs"

definition prev_of :: "u32 \<Rightarrow> block list \<Rightarrow> u32" where
  "prev_of a bs = (if bs = [] then a else fst (last bs))"

definition next_of :: "block list \<Rightarrow> u32" where
  "next_of bs = (case bs of [] \<Rightarrow> 0 | b # _ \<Rightarrow> fst b)"

lemma blocks_ok_apart: "blocks_ok bs \<Longrightarrow> blocks_apart bs"
  by (auto simp: blocks_ok_def blocks_apart_def elim: sorted_wrt_mono_rel [rotated] intro: less_imp_le)

lemma bytes_of_simps [simp]:
  "bytes_of [] = {}" "bytes_of (b # bs) = {bstart b..<bend b} \<union> bytes_of bs"
  "bytes_of (bs @ cs) = bytes_of bs \<union> bytes_of cs"
  by (auto simp: bytes_of_def)

section \<open>The headers of a list of blocks do not overlap\<close>

definition cells_ok :: "u32 \<Rightarrow> u32 list \<Rightarrow> bool" where
  "cells_ok a fs \<longleftrightarrow> distinct fs \<and> (\<forall>f \<in> set fs. \<forall>g \<in> set fs. f \<noteq> g + 4) \<and> (\<forall>f \<in> set fs. a \<noteq> f \<and> a \<noteq> f + 4)"

lemma unat_add_4:
  assumes "8 dvd unat (f :: u32)"
  shows "unat (f + 4) = unat f + 4"
proof -
  obtain k where k: "unat f = 8 * k" using assms by (rule dvdE)
  have "unat f < 2 ^ 32" using unsigned_less [of f] by simp
  then have "8 * k + 4 < 2 ^ 32" using k by simp
  then show ?thesis using unat_add_small [of f 4] k by simp
qed

lemma block_ok_cell: "block_ok b \<Longrightarrow> unat (fst b + 4) = bstart b + 4 \<and> bstart b + 4 < bend b"
  by (auto simp: block_ok_def unat_add_4 elim!: dvdE)

lemma blocks_cells_ok:
  assumes "blocks_apart bs" and "4 dvd unat a" and "unat a \<notin> bytes_of bs"
  shows "cells_ok a (map fst bs)"
proof -
  have b: "block_ok b" if "b \<in> set bs" for b using that assms(1) by (simp add: blocks_apart_def)
  have "distinct (map fst bs)"
    using assms(1)
  proof (induction bs)
    case (Cons b bs)
    have "bstart c > bstart b" if "c \<in> set bs" for c
      using Cons.prems that by (fastforce simp: blocks_apart_def block_ok_def)
    then show ?case using Cons by (fastforce simp: blocks_apart_def)
  qed simp
  moreover have "fst b \<noteq> fst c + 4" if "b \<in> set bs" "c \<in> set bs" for b c
  proof
    assume "fst b = fst c + 4"
    then have "8 dvd bstart c + 4" using b [OF that(1)] block_ok_cell [OF b [OF that(2)]] by (simp add: block_ok_def)
    then show False using b [OF that(2)] by (auto simp: block_ok_def elim!: dvdE) presburger
  qed
  moreover have "a \<noteq> fst b \<and> a \<noteq> fst b + 4" if "b \<in> set bs" for b
    using assms(3) block_ok_cell [OF b [OF that]] that by (fastforce simp: bytes_of_def)
  ultimately show ?thesis by (auto simp: cells_ok_def)
qed

section \<open>Walking and relinking\<close>

lemma path_append: "path m p (bs @ cs) q \<longleftrightarrow> (\<exists>r. path m p bs r \<and> path m r cs q)"
  by (induction bs arbitrary: p) auto

lemma path_frame:
  assumes "path m p bs q" and "\<forall>b \<in> set bs. m' (fst b) = m (fst b) \<and> m' (fst b + 4) = m (fst b + 4)"
  shows "path m' p bs q"
  using assms by (induction bs arbitrary: p) (auto simp: fb_Next_def fb_Size_def)

lemma path_next: "path m p bs 0 \<Longrightarrow> p = next_of bs"
  by (cases bs) (auto simp: next_of_def)

lemma chain_snoc:
  "chain m a (L @ [(f, s)]) q \<longleftrightarrow> chain m a L f \<and> fb_Size m f = s \<and> fb_Next m f = q"
  by (auto simp: chain_def path_append)

lemma chain_append:
  "chain m a (L @ R) 0 \<longleftrightarrow> chain m a L (next_of R) \<and> path m (next_of R) R 0"
  using path_next by (auto simp: chain_def path_append)

lemma chain_frame:
  assumes "chain m a bs q" and "m' a = m a"
    and "\<forall>b \<in> set bs. m' (fst b) = m (fst b) \<and> m' (fst b + 4) = m (fst b + 4)"
  shows "chain m' a bs q"
  using path_frame [OF _ assms(3)] assms(1,2) by (simp add: chain_def fb_Next_def)

text \<open>The link after \<open>L\<close> is redirected; sizes and the other links of \<open>L\<close> stay.\<close>

lemma chain_relink:
  assumes "chain m a L q" and "cells_ok a (map fst L)"
    and "m' (prev_of a L) = v" and "L \<noteq> [] \<Longrightarrow> m' a = m a"
    and "\<forall>b \<in> set (butlast L). m' (fst b) = m (fst b)" and "\<forall>b \<in> set L. m' (fst b + 4) = m (fst b + 4)"
  shows "chain m' a L v"
proof (cases L rule: rev_cases)
  case Nil
  then show ?thesis using assms(3) by (simp add: chain_def prev_of_def fb_Next_def)
next
  case (snoc L' b)
  obtain f s where b: "b = (f, s)" by fastforce
  have c: "chain m a L' f" "fb_Size m f = s" using assms(1) unfolding snoc b by (simp_all add: chain_snoc)
  have "chain m' a L' f" by (rule chain_frame [OF c(1)]) (use assms(4-6) snoc in simp_all)
  moreover have "fb_Size m' f = s" using assms(6) c(2) snoc b by (simp add: fb_Size_def)
  moreover have "fb_Next m' f = v" using assms(3) snoc b by (simp add: prev_of_def fb_Next_def)
  ultimately show ?thesis unfolding snoc b by (simp add: chain_snoc)
qed

lemma find_place_path:
  assumes "path m q bs 0" and "\<forall>b \<in> set bs. fst b \<noteq> 0"
  shows "find_place m p prev q =
    Some (prev_of prev (takeWhile (\<lambda>b. fst b \<le> p) bs), next_of (dropWhile (\<lambda>b. fst b \<le> p) bs))"
  using assms
proof (induction bs arbitrary: prev q)
  case Nil
  then show ?case by (subst find_place.simps) (simp add: prev_of_def next_of_def)
next
  case (Cons b bs)
  obtain f s where b: "b = (f, s)" by fastforce
  have "prev_of f bs' = prev_of prev ((f, s) # bs')" for bs' :: "block list"
    by (simp add: prev_of_def)
  then show ?case
    using Cons by (subst find_place.simps) (auto simp: b next_of_def prev_of_def not_le)
qed

lemma find_place_chain:
  assumes "chain m a bs 0" and "blocks_ok bs"
  shows "find_place m p a (fb_Next m a) =
    Some (prev_of a (takeWhile (\<lambda>b. fst b \<le> p) bs), next_of (dropWhile (\<lambda>b. fst b \<le> p) bs))"
  using find_place_path assms by (fastforce simp: chain_def blocks_ok_def block_ok_def)

section \<open>Merging\<close>

text \<open>The sequence after a block between \<open>L\<close> and \<open>R\<close> has been freed.\<close>

fun join_right :: "block \<Rightarrow> block list \<Rightarrow> block list" where
  "join_right b [] = [b]"
| "join_right (p, s) ((g, gs) # R) = (if p + s = g then (p, s + gs) # R else (p, s) # (g, gs) # R)"

definition merged :: "block list \<Rightarrow> block \<Rightarrow> block list \<Rightarrow> block list" where
  "merged L b R =
     (if L \<noteq> [] \<and> fst (last L) + snd (last L) = fst b
      then butlast L @ join_right (fst (last L), snd (last L) + snd b) R
      else L @ join_right b R)"

lemma sum_end: "block_ok b \<Longrightarrow> unat (fst b + snd b) = bend b"
  by (simp add: block_ok_def unat_add_small)

lemma join_blocks:
  assumes "block_ok b" and "block_ok c" and "bend b = bstart c"
  shows "block_ok (fst b, snd b + snd c) \<and> unat (snd b + snd c) = unat (snd b) + unat (snd c)"
proof -
  have "unat (snd b + snd c) = unat (snd b) + unat (snd c)"
    using assms by (intro unat_add_small) (auto simp: block_ok_def)
  then show ?thesis using assms by (auto simp: block_ok_def)
qed

lemma join_right_ok:
  assumes "block_ok b" and "blocks_ok R" and "R \<noteq> [] \<Longrightarrow> bend b \<le> bstart (hd R)"
  shows "blocks_ok (join_right b R)" and "bytes_of (join_right b R) = {bstart b..<bend b} \<union> bytes_of R"
    and "fst (hd (join_right b R)) = fst b"
proof -
  obtain p s where b: "b = (p, s)" by fastforce
  have "blocks_ok (join_right b R) \<and> bytes_of (join_right b R) = {bstart b..<bend b} \<union> bytes_of R
      \<and> fst (hd (join_right b R)) = fst b"
  proof (cases R)
    case Nil
    then show ?thesis using assms(1) by (simp add: blocks_ok_def)
  next
    case (Cons c R')
    obtain g gs where c: "c = (g, gs)" by fastforce
    have ok: "block_ok (g, gs)" "blocks_ok R'" "\<forall>x \<in> set R'. unat g + unat gs < bstart x"
      using assms(2) unfolding Cons c by (simp_all add: blocks_ok_def)
    have le: "unat p + unat s \<le> unat g" using assms(3) b Cons c by simp
    show ?thesis
    proof (cases "p + s = g")
      case True
      then have "unat p + unat s = unat g" using sum_end [OF assms(1)] b by simp
      with join_blocks [OF assms(1) ok(1)] have "block_ok (p, s + gs)" "unat (s + gs) = unat s + unat gs"
        "unat p + unat s = unat g" using b by simp_all
      then show ?thesis using ok True b Cons c by (auto simp: blocks_ok_def)
    next
      case False
      then have "unat p + unat s < unat g"
        using le sum_end [OF assms(1)] b by (metis fst_conv snd_conv le_neq_implies_less word_unat_eq_iff)
      then show ?thesis using ok False b Cons c assms(1) by (auto simp: blocks_ok_def)
    qed
  qed
  then show "blocks_ok (join_right b R)" "bytes_of (join_right b R) = {bstart b..<bend b} \<union> bytes_of R"
    "fst (hd (join_right b R)) = fst b" by simp_all
qed

lemma join_right_later:
  "c \<in> set (join_right b R) \<Longrightarrow> c = b \<or> fst c = fst b \<or> c \<in> set R"
  by (induction b R rule: join_right.induct) (auto split: if_splits)

lemma blocks_ok_append:
  "blocks_ok (L @ R) \<longleftrightarrow> blocks_ok L \<and> blocks_ok R \<and> (\<forall>x \<in> set L. \<forall>y \<in> set R. bend x < bstart y)"
  by (auto simp: blocks_ok_def sorted_wrt_append)

lemma merged_ok:
  assumes "blocks_ok (L @ R)" and "blocks_apart (L @ b # R)"
  shows "blocks_ok (merged L b R) \<and> bytes_of (merged L b R) = bytes_of (L @ b # R)"
proof -
  have b: "block_ok b" and lb: "\<forall>x \<in> set L. bend x \<le> bstart b" and br: "\<forall>y \<in> set R. bend b \<le> bstart y"
    using assms(2) by (auto simp: blocks_apart_def sorted_wrt_append)
  have R: "blocks_ok R" using assms(1) by (simp add: blocks_ok_append)
  show ?thesis
  proof (cases "L \<noteq> [] \<and> fst (last L) + snd (last L) = fst b")
    case False
    have hd: "R \<noteq> [] \<Longrightarrow> bend b \<le> bstart (hd R)" using br by simp
    have "\<forall>x \<in> set L. bend x < bstart b"
    proof
      fix x assume x: "x \<in> set L"
      then obtain L1 L2 where L: "L = L1 @ x # L2" by (auto simp: in_set_conv_decomp)
      have "block_ok x" using assms(1) x by (simp add: blocks_ok_def)
      show "bend x < bstart b"
      proof (cases L2)
        case Nil
        then show ?thesis using False lb x L sum_end [OF \<open>block_ok x\<close>]
          by (metis append_is_Nil_conv last_snoc le_neq_implies_less list.distinct(1) word_unat_eq_iff)
      next
        case (Cons y L3)
        then have "bend x < bstart y" "y \<in> set L" using assms(1) L by (auto simp: blocks_ok_def sorted_wrt_append)
        then show ?thesis using lb by fastforce
      qed
    qed
    then have "\<forall>x \<in> set L. \<forall>c \<in> set (join_right b R). bend x < bstart c"
      using assms(1) join_right_later [of _ b R] by (fastforce simp: blocks_ok_append)
    moreover have "merged L b R = L @ join_right b R" using False by (auto simp: merged_def)
    ultimately show ?thesis
      using join_right_ok [OF b R hd] assms(1) by (simp add: blocks_ok_append Un_assoc)
  next
    case True
    then obtain L' f fs where L: "L = L' @ [(f, fs)]" "f + fs = fst b"
      by (metis append_butlast_last_id prod.collapse)
    let ?b = "(f, fs + snd b)"
    have f: "block_ok (f, fs)" "blocks_ok L'" "\<forall>x \<in> set L'. bend x < unat f"
      "\<forall>x \<in> set L'. \<forall>y \<in> set R. bend x < bstart y"
      using assms(1) unfolding L(1) by (auto simp: blocks_ok_def sorted_wrt_append)
    have e: "unat f + unat fs = bstart b" using sum_end [OF f(1)] L(2) by simp
    from join_blocks [OF f(1) b] e have j: "block_ok ?b" "unat (fs + snd b) = unat fs + unat (snd b)" by simp_all
    have hd: "R \<noteq> [] \<Longrightarrow> bend ?b \<le> bstart (hd R)" using br e j(2) by (cases R) auto
    have "\<forall>x \<in> set L'. \<forall>c \<in> set (join_right ?b R). bend x < bstart c"
      using f(3,4) join_right_later [of _ ?b R] by fastforce
    then have "blocks_ok (merged L b R)"
      using L join_right_ok [OF j(1) R hd] f(2) by (simp add: merged_def blocks_ok_append)
    moreover have "bytes_of (merged L b R) = bytes_of L' \<union> ({unat f..<unat f + unat (fs + snd b)} \<union> bytes_of R)"
      using L join_right_ok(2) [OF j(1) R hd] by (simp add: merged_def)
    moreover have "{unat f..<unat f + unat (fs + snd b)} = {unat f..<unat f + unat fs} \<union> {bstart b..<bend b}"
      using e j(2) by auto
    ultimately show ?thesis using L(1) by auto
  qed
qed

lemma cells_ok_sub:
  "cells_ok a (xs @ f # ys) \<Longrightarrow> \<forall>g \<in> set xs \<union> set ys. g \<noteq> f \<and> g \<noteq> f + 4 \<and> g + 4 \<noteq> f \<and> g + 4 \<noteq> f + 4"
  "cells_ok a (xs @ f # ys) \<Longrightarrow> a \<noteq> f \<and> a \<noteq> f + 4 \<and> f \<noteq> f + 4"
  unfolding cells_ok_def by (fastforce, fastforce)

lemma cells_okD:
  assumes "cells_ok a (map fst bs)"
  shows "b \<in> set bs \<Longrightarrow> c \<in> set bs \<Longrightarrow> fst b \<noteq> fst c + 4" "b \<in> set bs \<Longrightarrow> a \<noteq> fst b"
    "b \<in> set bs \<Longrightarrow> a \<noteq> fst b + 4" "distinct (map fst bs)"
  using assms by (simp_all add: cells_ok_def)

lemma prev_of_snoc [simp]: "prev_of a (L @ [b]) = fst b"
  by (simp add: prev_of_def)

lemma prev_of_cases: "prev_of a L = a \<or> (\<exists>b \<in> set L. prev_of a L = fst b)"
  using last_in_set by (fastforce simp: prev_of_def)

text \<open>Merging with the block on the left: only the header of that block is written.\<close>

lemma merge_left_chain:
  assumes "chain m a (L @ (f, fs) # R) 0" and "cells_ok a (map fst (L @ (f, fs) # R))"
    and "m' = m(f + 4 := s, f := fb_Next m g)" and "R = (g, gs) # R'"
  shows "chain m' a (L @ (f, s) # R') 0"
proof -
  have c: "chain m a L f" "path m g R 0" "path m (fb_Next m g) R' 0"
    using assms(1,4) chain_append [of m a L "(f, fs) # R"] by (auto simp: next_of_def)
  have n: "\<forall>b \<in> set L \<union> set R. fst b \<noteq> f \<and> fst b \<noteq> f + 4 \<and> fst b + 4 \<noteq> f \<and> fst b + 4 \<noteq> f + 4"
    "a \<noteq> f" "a \<noteq> f + 4" "f \<noteq> f + 4"
    using cells_ok_sub [of a "map fst L" f "map fst R"] assms(2) by auto
  have "chain m' a L f" by (rule chain_frame [OF c(1)]) (use n assms(3) in simp_all)
  moreover have "path m' (fb_Next m g) R' 0" by (rule path_frame [OF c(3)]) (use n assms(3,4) in simp_all)
  ultimately show ?thesis
    using n assms(3) path_next [OF c(3)] chain_append [of m' a L "(f, s) # R'"]
    by (simp add: next_of_def fb_Size_def fb_Next_def)
qed

lemma grow_chain:
  assumes "chain m a (L @ (f, fs) # R) 0" and "cells_ok a (map fst (L @ (f, fs) # R))"
  shows "chain (m(f + 4 := s)) a (L @ (f, s) # R) 0"
proof -
  have c: "chain m a L f" "path m (fb_Next m f) R 0"
    using assms(1) chain_append [of m a L "(f, fs) # R"] by (auto simp: next_of_def)
  have n: "\<forall>b \<in> set L \<union> set R. fst b \<noteq> f \<and> fst b \<noteq> f + 4 \<and> fst b + 4 \<noteq> f \<and> fst b + 4 \<noteq> f + 4"
    "a \<noteq> f" "a \<noteq> f + 4" "f \<noteq> f + 4"
    using cells_ok_sub [of a "map fst L" f "map fst R"] assms(2) by auto
  have "chain (m(f + 4 := s)) a L f" by (rule chain_frame [OF c(1)]) (use n in simp_all)
  moreover have "path (m(f + 4 := s)) (fb_Next m f) R 0" by (rule path_frame [OF c(2)]) (use n in simp_all)
  ultimately show ?thesis
    using n chain_append [of "m(f + 4 := s)" a L "(f, s) # R"] by (simp add: next_of_def fb_Size_def fb_Next_def)
qed

text \<open>The word that holds the link after \<open>L\<close> is in no other header.\<close>

lemma prev_of_apart:
  assumes "cells_ok a (map fst (L @ R))"
  shows "\<forall>b \<in> set L \<union> set R. fst b + 4 \<noteq> prev_of a L" and "\<forall>b \<in> set R. fst b \<noteq> prev_of a L"
    and "\<forall>b \<in> set (butlast L). fst b \<noteq> prev_of a L" and "L \<noteq> [] \<Longrightarrow> prev_of a L \<noteq> a"
proof -
  have d: "\<forall>b \<in> set L. \<forall>c \<in> set L \<union> set R. fst c + 4 \<noteq> fst b"
    "\<forall>b \<in> set L \<union> set R. a \<noteq> fst b \<and> a \<noteq> fst b + 4" "distinct (map fst (L @ R))"
    using cells_okD [OF assms(1)] by (auto simp: eq_commute)
  show "\<forall>b \<in> set L \<union> set R. fst b + 4 \<noteq> prev_of a L"
    using d(1,2) prev_of_cases [of a L] by metis
  show "\<forall>b \<in> set R. fst b \<noteq> prev_of a L"
  proof
    fix b assume b: "b \<in> set R"
    then have "fst b \<notin> fst ` set L" using d(3) by auto
    then show "fst b \<noteq> prev_of a L" using d(2) b prev_of_cases [of a L] by (metis UnCI imageI)
  qed
  show "\<forall>b \<in> set (butlast L). fst b \<noteq> prev_of a L"
    using d(3) by (cases L rule: rev_cases) (auto simp: image_iff)
  show "L \<noteq> [] \<Longrightarrow> prev_of a L \<noteq> a" using d(2) last_in_set [of L] by (metis UnCI prev_of_def)
qed

text \<open>The link after \<open>L\<close> is made to skip what was there.\<close>

lemma redirect_chain:
  assumes "chain m a L q" and "path m v R 0" and "cells_ok a (map fst (L @ R))"
  shows "chain (m(prev_of a L := v)) a L v" and "path (m(prev_of a L := v)) v R 0"
proof -
  note pr = prev_of_apart [OF assms(3)]
  have "cells_ok a (map fst L)" using assms(3) by (simp add: cells_ok_def)
  then show "chain (m(prev_of a L := v)) a L v"
    by (rule chain_relink [OF assms(1)]) (use pr in auto)
  show "path (m(prev_of a L := v)) v R 0" by (rule path_frame [OF assms(2)]) (use pr in simp)
qed

text \<open>A header is written at a new place after \<open>L\<close>, and linked there.\<close>

lemma insert_chain:
  assumes "chain m a L q" and "path m v R 0" and "cells_ok a (map fst (L @ (p, s) # R))"
    and "m' = m(p := v, p + 4 := s, prev_of a L := p)"
  shows "chain m' a (L @ (p, s) # R) 0"
proof -
  let ?m = "m(p := v, p + 4 := s)"
  have n: "\<forall>b \<in> set L \<union> set R. fst b \<noteq> p \<and> fst b \<noteq> p + 4 \<and> fst b + 4 \<noteq> p \<and> fst b + 4 \<noteq> p + 4"
    "a \<noteq> p" "a \<noteq> p + 4" "p \<noteq> p + 4"
    using cells_ok_sub [of a "map fst L" p "map fst R"] assms(3) by auto
  have c: "chain ?m a L q" by (rule chain_frame [OF assms(1)]) (use n in simp_all)
  have r: "path ?m v R 0" by (rule path_frame [OF assms(2)]) (use n in simp_all)
  then have "path ?m p ((p, s) # R) 0" using n(4) by (simp add: fb_Size_def fb_Next_def)
  from redirect_chain [OF c this assms(3)] show ?thesis
    using chain_append [of m' a L "(p, s) # R"] assms(4) by (simp add: next_of_def)
qed

text \<open>\<open>MergeBlocks\<close> turns the list into the merged one, and writes only to the anchor and to free memory.\<close>

lemma MergeBlocks_chain:
  assumes list: "chain m a (L @ R) 0" and ok: "blocks_apart (L @ (p, s) # R)"
    and a: "4 dvd unat a" "unat a \<notin> bytes_of (L @ (p, s) # R)"
  shows "chain (MergeBlocks a (prev_of a L) (next_of R) p s m) a (merged L (p, s) R) 0"
proof -
  have cells: "cells_ok a (map fst (L @ (p, s) # R))" by (rule blocks_cells_ok [OF ok a])
  have b: "block_ok (p, s)" using ok by (simp add: blocks_apart_def)
  have next0: "x + y \<noteq> next_of []" if "block_ok (x, y)" for x y
    using sum_end [OF that] that by (auto simp: next_of_def block_ok_def)
  have joins: "join_right (x, y) R = (if x + y = next_of R then (x, y + snd (hd R)) # tl R else (x, y) # R)"
    if "block_ok (x, y)" for x y
    using next0 [OF that] by (cases R) (auto simp: next_of_def)
  have R: "R = (next_of R, snd (hd R)) # tl R" if "x + y = next_of R" "block_ok (x, y)" for x y
    using next0 [OF that(2)] that(1) by (cases R) (auto simp: next_of_def)
  have size: "fb_Size m (next_of R) = snd (hd R)" "path m (fb_Next m (next_of R)) (tl R) 0" if "R \<noteq> []"
    using list that by (cases R; auto simp: chain_append next_of_def)+
  show ?thesis
  proof (cases "L \<noteq> [] \<and> fst (last L) + snd (last L) = p")
    case True
    then obtain L' f fs where L: "L = L' @ [(f, fs)]" "f + fs = p"
      by (metis append_butlast_last_id prod.collapse)
    have list': "chain m a (L' @ (f, fs) # R) 0" using list L(1) by simp
    have fs: "fb_Size m f = fs" "a \<noteq> f" "f \<noteq> f + 4"
      using list' cells L(1) by (auto simp: chain_append next_of_def cells_ok_def)
    have cells': "cells_ok a (map fst (L' @ (f, fs) # R))" using cells L(1) by (auto simp: cells_ok_def)
    have "block_ok (f, fs)" "unat f + unat fs = unat p"
      using ok L sum_end [of "(f, fs)"] by (auto simp: blocks_apart_def)
    with join_blocks [of "(f, fs)" "(p, s)"] b have j: "block_ok (f, fs + s)" by simp
    have merged: "merged L (p, s) R = L' @ join_right (f, fs + s) R" using L by (simp add: merged_def)
    show ?thesis
    proof (cases "f + (fs + s) = next_of R")
      case True
      note R' = R [OF True j]
      have ne: "R \<noteq> []" using R' by auto
      have "(next_of R, snd (hd R)) \<in> set R" using R' by (metis list.set_intros(1))
      then have g: "next_of R \<noteq> f" "next_of R + 4 \<noteq> f + 4" "next_of R \<noteq> f + 4" "next_of R + 4 \<noteq> f"
        using cells_ok_sub(1) [of a "map fst L'" f "map fst R"] cells' by force+
      have "MergeBlocks a (prev_of a L) (next_of R) p s m =
          m(f + 4 := fs + s + snd (hd R), f := fb_Next m (next_of R))"
        using L fs True g size(1) [OF ne]
        by (auto simp: MergeBlocks_def Let_def fb_Size_def fb_Next_def set_fb_Next_def set_fb_Size_def fun_upd_twist)
      with merge_left_chain [OF list' cells' _ R'] show ?thesis
        using True merged joins [OF j] by simp
    next
      case False
      have "MergeBlocks a (prev_of a L) (next_of R) p s m = m(f + 4 := fs + s)"
        using L fs False by (auto simp: MergeBlocks_def Let_def fb_Size_def set_fb_Size_def)
      with grow_chain [OF list' cells'] show ?thesis using False merged joins [OF j] by simp
    qed
  next
    case False
    have left: "\<not> (prev_of a L \<noteq> a \<and> prev_of a L + fb_Size m (prev_of a L) = p)"
    proof (cases L rule: rev_cases)
      case (snoc L' b)
      then show ?thesis using False list by (cases b) (simp add: chain_append chain_snoc)
    qed (simp add: prev_of_def)
    have merged: "merged L (p, s) R = L @ join_right (p, s) R" using False by (auto simp: merged_def)
    have c: "chain m a L (next_of R)" "path m (next_of R) R 0" using list by (simp_all add: chain_append)
    show ?thesis
    proof (cases "p + s = next_of R")
      case True
      note R' = R [OF True b]
      have ne: "R \<noteq> []" using R' by auto
      have cells': "cells_ok a (map fst (L @ (p, s + snd (hd R)) # tl R))"
        using cells R' by (cases R) (auto simp: cells_ok_def)
      have "(next_of R, snd (hd R)) \<in> set R" using R' by (metis list.set_intros(1))
      then have g: "next_of R + 4 \<noteq> p" "next_of R + 4 \<noteq> p + 4" "next_of R \<noteq> p + 4"
        using cells_ok_sub(1) [of a "map fst L" p "map fst R"] cells by force+
      have "MergeBlocks a (prev_of a L) (next_of R) p s m =
          m(p := fb_Next m (next_of R), p + 4 := s + snd (hd R), prev_of a L := p)"
        unfolding MergeBlocks_def if_not_P [OF left] using True g size(1) [OF ne]
        by (simp add: Let_def fb_Size_def fb_Next_def set_fb_Next_def set_fb_Size_def)
      with insert_chain [OF c(1) size(2) [OF ne] cells'] show ?thesis
        using True merged joins [OF b] by simp
    next
      case False
      have "MergeBlocks a (prev_of a L) (next_of R) p s m = m(p := next_of R, p + 4 := s, prev_of a L := p)"
        unfolding MergeBlocks_def if_not_P [OF left] using False
        by (simp add: Let_def set_fb_Next_def set_fb_Size_def)
      with insert_chain [OF c cells] show ?thesis using False merged joins [OF b] by simp
    qed
  qed
qed

lemma MergeBlocks_other:
  assumes "x \<noteq> prev" and "x \<noteq> p" and "x \<noteq> p + 4" and "prev \<noteq> a \<Longrightarrow> x \<noteq> prev + 4"
  shows "MergeBlocks a prev nxt p s m x = m x"
  using assms by (auto simp: MergeBlocks_def Let_def set_fb_Next_def set_fb_Size_def)

lemma cell_bytes: "block_ok b \<Longrightarrow> unat (fst b) \<in> bytes_of [b] \<and> unat (fst b + 4) \<in> bytes_of [b]"
  using block_ok_cell [of b] by (simp add: block_ok_def)

lemma bytes_of_mono: "b \<in> set bs \<Longrightarrow> x \<in> bytes_of [b] \<Longrightarrow> x \<in> bytes_of bs"
  by (auto simp: bytes_of_def)

lemma MergeBlocks_frame:
  assumes "blocks_apart (L @ (p, s) # R)" and "x \<noteq> a" and "unat x \<notin> bytes_of (L @ (p, s) # R)"
  shows "MergeBlocks a (prev_of a L) q p s m x = m x"
proof -
  have c: "x \<noteq> fst b \<and> x \<noteq> fst b + 4" if "b \<in> set (L @ (p, s) # R)" for b
  proof -
    have "block_ok b" using assms(1) that unfolding blocks_apart_def by blast
    then show ?thesis using cell_bytes bytes_of_mono [OF that] assms(3) by blast
  qed
  have "x \<noteq> prev_of a L" "prev_of a L \<noteq> a \<Longrightarrow> x \<noteq> prev_of a L + 4"
    using prev_of_cases [of a L] c assms(2) by (metis Un_iff set_append)+
  moreover have "x \<noteq> p" "x \<noteq> p + 4" using c [of "(p, s)"] by simp_all
  ultimately show ?thesis by (intro MergeBlocks_other)
qed

lemma pool_frame:
  assumes "pool m a bs" and "m' a = m a" and "\<forall>x. unat x \<in> bytes_of bs \<longrightarrow> m' x = m x"
  shows "pool m' a bs"
proof -
  have "\<forall>b \<in> set bs. m' (fst b) = m (fst b) \<and> m' (fst b + 4) = m (fst b + 4)"
  proof
    fix b assume b: "b \<in> set bs"
    then have "block_ok b" using assms(1) by (simp add: pool_def blocks_ok_def)
    then have "unat (fst b) \<in> bytes_of bs" "unat (fst b + 4) \<in> bytes_of bs"
      using cell_bytes bytes_of_mono [OF b] by blast+
    then show "m' (fst b) = m (fst b) \<and> m' (fst b + 4) = m (fst b + 4)" using assms(3) by blast
  qed
  then show ?thesis using assms(1) chain_frame [where m' = m' and m = m] assms(2) by (simp add: pool_def)
qed

section \<open>A well-formed free list is determined by its bytes\<close>

lemma gap_after:
  assumes "blocks_ok (b # bs)"
  shows "bend b \<notin> bytes_of (b # bs)" and "bytes_of bs = bytes_of (b # bs) - {bstart b..<bend b}"
  using assms by (fastforce simp: blocks_ok_def bytes_of_def)+

lemma first_byte:
  assumes "blocks_ok (b # bs)"
  shows "bstart b \<in> bytes_of (b # bs)" and "x \<in> bytes_of (b # bs) \<Longrightarrow> bstart b \<le> x"
  using assms by (fastforce simp: blocks_ok_def block_ok_def bytes_of_def)+

theorem blocks_unique:
  assumes "blocks_ok bs" and "blocks_ok cs" and "bytes_of bs = bytes_of cs"
  shows "bs = cs"
  using assms
proof (induction bs arbitrary: cs)
  case Nil
  then show ?case by (metis first_byte(1) bytes_of_simps(1) empty_iff neq_Nil_conv)
next
  case (Cons b bs)
  note first_b = first_byte [OF Cons.prems(1)]
  obtain c cs' where cs: "cs = c # cs'" using first_b(1) Cons.prems(3) by (cases cs) auto
  note first_c = first_byte [OF Cons.prems(2) [unfolded cs]]
  have eq: "bytes_of (b # bs) = bytes_of (c # cs')" using Cons.prems(3) cs by simp
  have s: "bstart b = bstart c" using first_b first_c eq by (metis le_antisym)
  have in_b: "x \<in> bytes_of (b # bs)" if "bstart b \<le> x" "x < bend b" for x using that by simp
  have in_c: "x \<in> bytes_of (c # cs')" if "bstart c \<le> x" "x < bend c" for x using that by simp
  have e: "bend b = bend c"
    using gap_after(1) [OF Cons.prems(1)] gap_after(1) [OF Cons.prems(2) [unfolded cs]]
      in_b [of "bend c"] in_c [of "bend b"] eq s by (metis le_add1 linorder_neqE_nat)
  then have "b = c" using s by (simp add: prod_eq_iff word_unat_eq_iff)
  moreover have "bytes_of bs = bytes_of cs'"
    using gap_after(2) [OF Cons.prems(1)] gap_after(2) [OF Cons.prems(2) [unfolded cs]] eq s e by simp
  moreover have "blocks_ok bs" "blocks_ok cs'" using Cons.prems(1,2) cs by (simp_all add: blocks_ok_def)
  ultimately show ?case using Cons.IH cs by blast
qed

section \<open>Freeing\<close>

definition round8 :: "nat \<Rightarrow> nat" where
  "round8 n = (n + 7) div 8 * 8"

lemma round8_dvd [simp]: "8 dvd round8 n"
  by (simp add: round8_def)

lemma round8_bounds: "n \<le> round8 n" "round8 n \<le> n + 7"
  unfolding round8_def by presburger+

lemma bit_7: "bit (7 :: u32) n \<longleftrightarrow> n < 3"
proof -
  have "(7 :: u32) = mask 3" by (simp add: mask_eq_exp_minus_1)
  then show ?thesis by (simp only: bit_mask_iff) auto
qed

lemma and_not_7: "(x :: u32) AND NOT 7 = push_bit 3 (drop_bit 3 x)"
proof (rule bit_word_eqI)
  fix n assume "n < LENGTH(32)"
  then show "bit (x AND NOT 7) n \<longleftrightarrow> bit (push_bit 3 (drop_bit 3 x)) n"
    unfolding bit_and_iff bit_not_iff bit_7 bit_push_bit_iff bit_drop_bit_eq by (cases "n < 3") simp_all
qed

lemma unat_and_not_7: "unat ((x :: u32) AND NOT 7) = unat x div 8 * 8"
proof -
  have "unat x < 2 ^ 32" using unsigned_less [of x] by simp
  then have "unat x div 8 * 8 < 2 ^ 32" by (simp add: less_mult_imp_div_less)
  then show ?thesis
    unfolding and_not_7 by (simp add: push_bit_eq_mult unat_word_ariths drop_bit_eq_div unat_div)
qed

lemma unat_ROUND: "unat x + 7 < 2 ^ 32 \<Longrightarrow> unat (ROUND_ALLOC_SIZE x) = round8 (unat x)"
  unfolding ROUND_ALLOC_SIZE_def unat_and_not_7 round8_def using unat_add_small [of x 7] by simp

lemma place_apart:
  assumes "blocks_ok bs" and "block_ok b" and "{bstart b..<bend b} \<inter> bytes_of bs = {}"
  shows "blocks_apart (takeWhile (\<lambda>c. fst c \<le> fst b) bs @ b # dropWhile (\<lambda>c. fst c \<le> fst b) bs)"
proof -
  let ?P = "\<lambda>c. fst c \<le> fst b"
  let ?L = "takeWhile ?P bs" and ?R = "dropWhile ?P bs"
  have bs: "blocks_ok (?L @ ?R)" using assms(1) by simp
  have "bend x \<le> bstart b" if "x \<in> set ?L" for x
  proof (rule ccontr)
    assume "\<not> bend x \<le> bstart b"
    moreover have "bstart x \<le> bstart b" "x \<in> set bs"
      using set_takeWhileD [OF that] by (simp_all add: word_le_nat_alt)
    ultimately have "bstart b \<in> {bstart b..<bend b} \<inter> bytes_of bs"
      using assms(2) by (force simp: block_ok_def bytes_of_def)
    then show False using assms(3) by blast
  qed
  moreover have "bend b \<le> bstart y" if "y \<in> set ?R" for y
  proof (rule ccontr)
    assume n: "\<not> bend b \<le> bstart y"
    obtain r R' where R: "?R = r # R'"
    proof (cases ?R)
      case Nil
      then show ?thesis using \<open>y \<in> set ?R\<close> by (simp del: dropWhile_eq_Nil_conv)
    qed
    then have "\<not> ?P r" by (metis dropWhile_eq_Cons_conv)
    moreover have "bstart r \<le> bstart y" using that R bs by (auto simp: blocks_ok_append) (auto simp: blocks_ok_def)
    ultimately have "bstart b \<le> bstart y" by (simp add: not_le word_less_nat_alt)
    moreover have "y \<in> set bs" using that by (rule set_dropWhileD)
    then have "bstart y \<in> bytes_of bs" using assms(1) by (force simp: bytes_of_def blocks_ok_def block_ok_def)
    moreover have "bstart y \<in> {bstart b..<bend b}" using n calculation(1) by simp
    ultimately show False using assms(3) by blast
  qed
  moreover have "blocks_apart ?L" "blocks_apart ?R" using bs blocks_ok_apart unfolding blocks_ok_append by blast+
  ultimately show ?thesis
    using assms(2) unfolding blocks_apart_def sorted_wrt_append sorted_wrt.simps
    by (simp add: ball_Un) (meson le_add1 le_trans)
qed

text \<open>A block that is not free is freed: an untracked one of the given size, or a tracked one.\<close>

lemma free_block:
  assumes "pool m a bs" and "block_ok (p, s)" and "{unat p..<unat p + unat s} \<inter> bytes_of bs = {}"
    and "unat a \<notin> {unat p..<unat p + unat s}"
  shows "\<exists>m' bs' prev nxt. find_place m p a (fb_Next m a) = Some (prev, nxt) \<and> m' = MergeBlocks a prev nxt p s m
    \<and> pool m' a bs' \<and> bytes_of bs' = bytes_of bs \<union> {unat p..<unat p + unat s}
    \<and> (\<forall>x. x \<noteq> a \<and> unat x \<notin> bytes_of bs' \<longrightarrow> m' x = m x)"
proof -
  let ?L = "takeWhile (\<lambda>b. fst b \<le> p) bs" and ?R = "dropWhile (\<lambda>b. fst b \<le> p) bs"
  let ?m = "MergeBlocks a (prev_of a ?L) (next_of ?R) p s m"
  have m: "chain m a (?L @ ?R) 0" "blocks_ok (?L @ ?R)" "4 dvd unat a" "unat a \<notin> bytes_of bs"
    using assms(1) by (simp_all add: pool_def)
  have ap: "blocks_apart (?L @ (p, s) # ?R)"
    using place_apart [of bs "(p, s)"] m(2) assms(2,3) by simp
  have bytes: "bytes_of (?L @ (p, s) # ?R) = bytes_of bs \<union> {unat p..<unat p + unat s}"
    using bytes_of_simps(3) [of ?L ?R] by auto
  from merged_ok [OF m(2) ap] bytes
  have ok: "blocks_ok (merged ?L (p, s) ?R)" "bytes_of (merged ?L (p, s) ?R) = bytes_of bs \<union> {unat p..<unat p + unat s}"
    by simp_all
  have "chain ?m a (merged ?L (p, s) ?R) 0"
    by (rule MergeBlocks_chain [OF m(1) ap m(3)]) (use bytes m(4) assms(4) in blast)
  then have "pool ?m a (merged ?L (p, s) ?R)" using ok m(3,4) assms(4) by (simp add: pool_def)
  moreover have "\<forall>x. x \<noteq> a \<and> unat x \<notin> bytes_of (merged ?L (p, s) ?R) \<longrightarrow> ?m x = m x"
    using MergeBlocks_frame [OF ap] ok(2) bytes by blast
  moreover have "find_place m p a (fb_Next m a) = Some (prev_of a ?L, next_of ?R)"
    by (rule find_place_chain) (use assms(1) in \<open>simp_all add: pool_def\<close>)
  ultimately show ?thesis using ok(2) by blast
qed

lemma FreeToPagePool_ok:
  assumes "pool m a bs" and "block_ok (p, ROUND_ALLOC_SIZE s)" and "0 < sint s"
    and "{unat p..<unat p + unat (ROUND_ALLOC_SIZE s)} \<inter> bytes_of bs = {}"
    and "unat a \<notin> {unat p..<unat p + unat (ROUND_ALLOC_SIZE s)}"
  shows "\<exists>m' bs'. FreeToPagePool a p s m = Some m' \<and> pool m' a bs'
    \<and> bytes_of bs' = bytes_of bs \<union> {unat p..<unat p + unat (ROUND_ALLOC_SIZE s)}
    \<and> (\<forall>x. x \<noteq> a \<and> unat x \<notin> bytes_of bs' \<longrightarrow> m' x = m x)"
proof -
  have "s \<noteq> 0" "p \<noteq> 0" using assms(2,3) by (auto simp: block_ok_def)
  with free_block [OF assms(1,2,4,5)] assms(3) show ?thesis
    by (auto simp: FreeToPagePool_def)
qed

end
