(* ===== verification/PagePool.thy ===== *)
theory PagePool
  imports FreeList
begin

text \<open>
  Allocation from a page pool (\<open>folios/kernel/mem.c\<close>: \<open>AllocFromPagePool\<close>,
  \<open>ReallocFromPagePool\<close>). The first block that holds the request is cut: what is before and after
  the allocation stays free. An allocation may be asked for at an address with given bits
  (\<open>careBits\<close>, \<open>stateBits\<close>), and may keep its size in the word before it.
\<close>

abbreviation "MEMTYPE_FILL \<equiv> (0x100 :: u32)"
abbreviation "MEMTYPE_TRACKSIZE \<equiv> (0x200 :: u32)"
abbreviation "MEMTYPE_FILLMASK \<equiv> (0xff :: u32)"
abbreviation "MEMTYPE_TYPESMASK \<equiv> (0x0fff0000 :: u32)"
abbreviation "MEMTYPE_ILLEGAL \<equiv> (0xfffff800 :: u32)"

text \<open>\<open>FindMSB\<close> is 31 minus the number of leading zeros; \<open>slw\<close> shifts out every bit for amounts from 32.\<close>

definition FindMSB :: "u32 \<Rightarrow> u32" where
  "FindMSB w = 31 - of_nat (length (takeWhile (\<lambda>n. \<not> bit w n) (rev [0..<32])))"

definition slw :: "u32 \<Rightarrow> u32 \<Rightarrow> u32" where
  "slw x n = (if n AND 63 < 32 then push_bit (unat (n AND 63)) x else 0)"

text \<open>The next address whose bits in \<open>careBits\<close> are \<open>stateBits\<close>.\<close>

definition next_address :: "u32 \<Rightarrow> u32 \<Rightarrow> u32 \<Rightarrow> u32" where
  "next_address pstart careBits stateBits =
     (let notcare = NOT careBits;
          term = notcare AND NOT (notcare - ((pstart XOR stateBits) AND careBits));
          term = slw 1 (FindMSB term);
          safe = notcare AND NOT (term - 1);
          r = (pstart AND safe) OR stateBits
      in if r < pstart
         then (((pstart OR careBits) + term) AND safe AND notcare) OR stateBits
         else r)"

text \<open>The free area after the allocation is linked behind \<open>prev\<close>.\<close>

definition put_leftover :: "u32 \<Rightarrow> u32 \<Rightarrow> u32 \<Rightarrow> words \<Rightarrow> words" where
  "put_leftover prev pend nend m =
     (let leftover = nend - pend in
      if leftover \<noteq> 0
      then set_fb_Next prev pend (set_fb_Size pend leftover (set_fb_Next pend (fb_Next m prev) m))
      else m)"

text \<open>The search: the shortfall where no block is large enough, or the address taken.\<close>

partial_function (option) alloc_scan ::
  "words \<Rightarrow> u32 \<Rightarrow> u32 \<Rightarrow> u32 \<Rightarrow> u32 \<Rightarrow> u32 \<Rightarrow> u32 \<Rightarrow> u32 \<Rightarrow> (u32 + u32 \<times> words) option" where
  "alloc_scan m reqsize extra careBits stateBits prev fb shortfall =
     (if fb = 0 then Some (Inl shortfall)
      else if fb_Size m fb \<ge> reqsize then
        let nstart = fb + extra;
            nend = nstart + fb_Size m fb - extra;
            pstart = nstart;
            pend = pstart + reqsize - extra
        in if pstart AND careBits \<noteq> stateBits then
             let pstart = next_address pstart careBits stateBits;
                 pend = pstart + reqsize - extra
             in if pend > nend then
                  let t = fb_Size m fb + pend - nend - reqsize
                  in alloc_scan m reqsize extra careBits stateBits fb (fb_Next m fb)
                       (if shortfall < t then t else shortfall)
                else Some (Inr (pstart - extra, put_leftover fb pend nend (set_fb_Size fb (pstart - nstart) m)))
           else Some (Inr (pstart - extra, put_leftover prev pend nend (set_fb_Next prev (fb_Next m fb) m)))
      else alloc_scan m reqsize extra careBits stateBits fb (fb_Next m fb) shortfall)"

text \<open>The checks before the search: the rounded size, the space for a size word, and the bits.\<close>

definition alloc_request :: "u32 \<Rightarrow> u32 \<Rightarrow> u32 \<Rightarrow> u32 \<Rightarrow> (u32 \<times> u32 \<times> u32 \<times> u32) option" where
  "alloc_request usersize flags careBits stateBits =
     (if flags AND MEMTYPE_ILLEGAL \<noteq> 0 then None
      else if sint usersize \<le> 0 then None
      else
        let reqsize = usersize;
            (extra, reqsize) =
              (if flags AND MEMTYPE_TRACKSIZE \<noteq> 0
               then if careBits \<noteq> 0 then (8, reqsize + 8) else (0, reqsize + 4)
               else (0, reqsize));
            reqsize = ROUND_ALLOC_SIZE reqsize;
            stateBits = stateBits AND careBits
        in if careBits \<noteq> 0
           then if stateBits AND 7 \<noteq> 0 then None else Some (reqsize, extra, careBits OR 7, stateBits)
           else Some (reqsize, extra, careBits, stateBits))"

definition memset :: "u32 \<Rightarrow> u32 \<Rightarrow> u32 \<Rightarrow> words \<Rightarrow> words" where
  "memset p byte n m = (\<lambda>x. if x - p < n then byte * 0x01010101 else m x)"

text \<open>What is done with the memory that has been found: the size word, and the fill.\<close>

definition alloc_finish :: "u32 \<Rightarrow> u32 \<Rightarrow> u32 \<Rightarrow> u32 \<Rightarrow> u32 \<Rightarrow> u32 \<Rightarrow> words \<Rightarrow> u32 \<times> words" where
  "alloc_finish usersize flags careBits extra reqsize result m =
     (let (result, reqsize, m) =
        (if flags AND MEMTYPE_TRACKSIZE \<noteq> 0
         then let (result, reqsize) =
                (if careBits \<noteq> 0 then (result + extra, reqsize - extra) else (result + 4, reqsize - 4))
              in (result, reqsize, m(result - 4 := usersize))
         else (result, reqsize, m))
      in (result, if flags AND MEMTYPE_FILL \<noteq> 0 then memset result (flags AND MEMTYPE_FILLMASK) reqsize m
                  else m(result := reqsize)))"

text \<open>
  Allocation from the pool of the supervisor, which has no owner: it fails where no block is
  large enough (\<open>FlushResources\<close> flushes nothing). A null result is 0; \<open>None\<close> if the
  search does not end.
\<close>

definition AllocFromSystemPool :: "u32 \<Rightarrow> u32 \<Rightarrow> u32 \<Rightarrow> u32 \<Rightarrow> u32 \<Rightarrow> words \<Rightarrow> (u32 \<times> words) option" where
  "AllocFromSystemPool anchor usersize flags careBits stateBits m =
     (case alloc_request usersize flags careBits stateBits of
        None \<Rightarrow> Some (0, m)
      | Some (reqsize, extra, careBits, stateBits) \<Rightarrow>
          (case alloc_scan m reqsize extra careBits stateBits anchor (fb_Next m anchor) 0 of
             None \<Rightarrow> None
           | Some (Inl shortfall) \<Rightarrow> Some (0, m)
           | Some (Inr (result, m)) \<Rightarrow> Some (alloc_finish usersize flags careBits extra reqsize result m)))"

definition ReallocFromPagePool :: "u32 \<Rightarrow> u32 \<Rightarrow> u32 \<Rightarrow> u32 \<Rightarrow> u32 \<Rightarrow> words \<Rightarrow> (u32 \<times> words) option" where
  "ReallocFromPagePool anchor oldMem oldSize newSize flags m =
     (if flags AND MEMTYPE_ILLEGAL \<noteq> 0 then Some (0, m)
      else if oldSize = 0 \<or> oldMem = 0 then Some (0, m)
      else if sint newSize \<le> 0 then Some (0, m)
      else if sint oldSize < 0 \<and> flags AND MEMTYPE_TRACKSIZE = 0 then Some (0, m)
      else if \<not> sint oldSize < 0 \<and> flags AND MEMTYPE_TRACKSIZE \<noteq> 0 then Some (0, m)
      else
        let (oldMem, oldSize, reqSize) =
          (if sint oldSize < 0 then (oldMem - 4, m (oldMem - 4) + 4, newSize + 4)
           else (oldMem, oldSize, newSize));
            reqSize = ROUND_ALLOC_SIZE reqSize;
            oldSize = ROUND_ALLOC_SIZE oldSize;
            finish = (\<lambda>m. if flags AND MEMTYPE_TRACKSIZE \<noteq> 0 then (oldMem + 4, m(oldMem := newSize)) else (oldMem, m))
        in if sint reqSize < sint oldSize then
             (case FreeToPagePool anchor (oldMem + reqSize) (oldSize - reqSize) m of
                None \<Rightarrow> None | Some m \<Rightarrow> Some (finish m))
           else if sint reqSize > sint oldSize then Some (0, m)
           else Some (finish m))"

section \<open>Aligned addresses\<close>

definition round_up :: "nat \<Rightarrow> nat \<Rightarrow> nat" where
  "round_up k x = (x + 2 ^ k - 1) div 2 ^ k * 2 ^ k"

lemma round_up_props:
  "2 ^ k dvd round_up k x" "x \<le> round_up k x" "round_up k x < x + 2 ^ k"
  "2 ^ k dvd y \<Longrightarrow> x \<le> y \<Longrightarrow> round_up k x \<le> y"
proof -
  have p: "(0 :: nat) < 2 ^ k" by simp
  have d: "(x + 2 ^ k - 1) div 2 ^ k * 2 ^ k + (x + 2 ^ k - 1) mod 2 ^ k = x + 2 ^ k - 1" by (rule div_mult_mod_eq)
  have "(x + 2 ^ k - 1) mod 2 ^ k \<le> 2 ^ k - 1" using p by (metis Suc_pred' less_Suc_eq_le mod_less_divisor)
  then show le: "x \<le> round_up k x" using d p unfolding round_up_def by linarith
  show "2 ^ k dvd round_up k x" by (simp add: round_up_def)
  show lt: "round_up k x < x + 2 ^ k" using d p unfolding round_up_def by linarith
  assume y: "2 ^ k dvd y" "x \<le> y"
  show "round_up k x \<le> y"
  proof (rule ccontr)
    assume "\<not> round_up k x \<le> y"
    moreover obtain j where j: "y = j * 2 ^ k" using y(1) by (metis dvdE mult.commute)
    moreover define i where "i = (x + 2 ^ k - 1) div 2 ^ k"
    ultimately have "j < i" by (simp add: round_up_def)
    then have "Suc j * 2 ^ k \<le> i * 2 ^ k" by (intro mult_le_mono1) simp
    then have "y + 2 ^ k \<le> round_up k x" by (simp add: j round_up_def i_def)
    then show False using lt y(2) by linarith
  qed
qed

lemma round_up_id: "2 ^ k dvd x \<Longrightarrow> round_up k x = x"
  using round_up_props(2,4) [where k = k and x = x] by (simp add: le_antisym)

lemma FindMSB_power: "k < 32 \<Longrightarrow> FindMSB (2 ^ k) = of_nat k"
proof -
  have "\<forall>k \<in> set [0..<32]. FindMSB (2 ^ k) = of_nat k" by code_simp
  then show "k < 32 \<Longrightarrow> FindMSB (2 ^ k) = of_nat k" by simp
qed

lemma slw_1: "k < 32 \<Longrightarrow> slw 1 (of_nat k) = 2 ^ k"
proof -
  have "\<forall>k \<in> set [0..<32]. slw 1 (of_nat k) = 2 ^ k" by code_simp
  then show "k < 32 \<Longrightarrow> slw 1 (of_nat k) = 2 ^ k" by simp
qed

lemma round_up_next:
  assumes "\<not> 2 ^ k dvd x"
  shows "round_up k x = x div 2 ^ k * 2 ^ k + 2 ^ k"
proof -
  let ?P = "2 ^ k :: nat"
  have m: "x mod ?P < ?P" "0 < x mod ?P" using assms by (simp_all add: dvd_eq_mod_eq_0)
  then have "x < x div ?P * ?P + ?P" "x div ?P * ?P < x" using div_mult_mod_eq [of x ?P] by linarith+
  then have "round_up k x \<le> x div ?P * ?P + ?P" by (intro round_up_props(4)) simp_all
  moreover obtain i where i: "round_up k x = i * ?P" using round_up_props(1) [of k x] by (metis dvdE mult.commute)
  have "x div ?P * ?P < i * ?P" using round_up_props(2) [of x k] \<open>x div ?P * ?P < x\<close> i by linarith
  then have "Suc (x div ?P) \<le> i" by simp
  then have "Suc (x div ?P) * ?P \<le> i * ?P" by (intro mult_le_mono1)
  ultimately show ?thesis using i by simp
qed

text \<open>The term of the code is the lowest bit above the mask, and so is the bit it selects.\<close>

lemma next_address_term:
  assumes k: "k < 32" and "e \<noteq> 0" and "unat e < 2 ^ k"
  shows "NOT (mask k) AND NOT (NOT (mask k) - e) = (2 ^ k :: u32)"
proof -
  let ?P = "2 ^ k :: nat"
  have M: "(mask k :: u32) = 2 ^ k - 1" by (simp add: mask_eq_exp_minus_1)
  have uP: "unat (2 ^ k :: u32) = ?P" by (rule unat_2p [OF k])
  have P32: "?P \<le> 2 ^ 31" using k power_increasing [of k 31 "2 :: nat"] by simp
  have "unat (e - 1) < ?P" using assms(2,3) by (simp add: unat_minus_one)
  then have "unat (2 ^ k + (e - 1)) = ?P + unat (e - 1)" "unat (e - 1) div ?P = 0"
    using uP P32 by (auto intro!: trans [OF unat_add_small])
  moreover from this have "(?P + unat (e - 1)) div ?P = 1" by (subst div_add_self1) simp_all
  ultimately have "unat ((2 ^ k + (e - 1)) AND NOT (mask k)) = ?P" using unat_and_not_mask [OF k] by simp
  moreover have "NOT (NOT (mask k) - e) = 2 ^ k + (e - 1)" by (simp add: not_eq_complement M)
  ultimately have "unat (NOT (mask k) AND NOT (NOT (mask k) - e)) = ?P" by (simp only: and.commute)
  then show ?thesis using uP by (simp only: word_unat_eq_iff)
qed

text \<open>For an alignment, the next address is the address rounded up.\<close>

lemma next_address_mask:
  assumes k: "k < 32" and nd: "\<not> 2 ^ k dvd unat p" and up: "unat p + 2 * 2 ^ k \<le> 2 ^ 32"
  shows "unat (next_address p (mask k) 0) = round_up k (unat p)"
proof -
  let ?M = "mask k :: u32" and ?P = "2 ^ k :: nat"
  define d where "d = p AND NOT ?M"
  have ud: "unat d = unat p div ?P * ?P" unfolding d_def by (rule unat_and_not_mask [OF k])
  have M: "2 ^ k - 1 = ?M" by (simp add: mask_eq_exp_minus_1)
  have uM: "unat ?M = ?P - 1" by (rule unat_mask_2p [OF k])
  have "p AND ?M \<noteq> 0" using nd by (simp only: mask_dvd not_False_eq_True)
  moreover have "unat (p AND ?M) < ?P" unfolding unat_and_mask by simp
  ultimately have "NOT ?M AND NOT (NOT ?M - (p AND ?M)) = 2 ^ k" by (rule next_address_term [OF k])
  then have t: "slw 1 (FindMSB (NOT ?M AND NOT (NOT ?M - (p AND ?M)))) = 2 ^ k"
    by (simp only: FindMSB_power [OF k] slw_1 [OF k])
  have "unat p mod ?P \<noteq> 0" using nd by (simp add: dvd_eq_mod_eq_0)
  then have lt: "d < p"
    using ud div_mult_mod_eq [of "unat p" ?P] unfolding word_less_nat_alt by linarith
  have "d AND ?M = 0" unfolding d_def by (rule bit_word_eqI) (simp add: bit_simps)
  then have "d OR ?M = d + ?M" by (simp add: disjunctive_add_eq_or)
  moreover have "p OR ?M = d OR ?M" unfolding d_def by (rule bit_word_eqI) (auto simp: bit_simps)
  ultimately have e1: "(p OR ?M) + 2 ^ k = d + (?M + 2 ^ k)" by (simp add: add.assoc)
  have e2: "unat (?M + 2 ^ k) = 2 * ?P - 1"
    using uM unat_2p [OF k] up by (intro trans [OF unat_add_small]) auto
  have "0 < ?P" by simp
  then have le: "unat p div ?P * ?P + (2 * ?P - 1) < 2 ^ 32"
    using up div_times_less_eq_dividend [of "unat p" ?P] by linarith
  have "unat (d + (?M + 2 ^ k)) = unat d + (2 * ?P - 1)"
    unfolding e2 [symmetric]
    by (rule unat_add_small) (use e2 ud le in simp)
  then have "unat ((p OR ?M) + 2 ^ k) = unat p div ?P * ?P + (2 * ?P - 1)" unfolding e1 ud .
  then have "unat (((p OR ?M) + 2 ^ k) AND NOT ?M) = (unat p div ?P * ?P + (2 * ?P - 1)) div ?P * ?P"
    using unat_and_not_mask [OF k] by simp
  also have "unat p div ?P * ?P + (2 * ?P - 1) = (?P - 1) + Suc (unat p div ?P) * ?P" by simp
  also have "\<dots> div ?P = Suc (unat p div ?P)" by (subst div_mult_self1) simp_all
  also have "Suc (unat p div ?P) * ?P = unat p div ?P * ?P + ?P" by simp
  finally have u: "unat (((p OR ?M) + 2 ^ k) AND NOT ?M) = round_up k (unat p)" using round_up_next [OF nd] by simp
  have "next_address p ?M 0 = ((p OR ?M) + 2 ^ k) AND NOT ?M"
    using lt t M unfolding next_address_def Let_def d_def by simp
  then show ?thesis using u by simp
qed

section \<open>The search\<close>

text \<open>
  A request for \<open>n\<close> bytes at an address that is aligned to \<open>2 ^ k\<close> \<open>ex\<close> bytes after its
  start; the memory of the machine ends below \<open>2 ^ 31\<close>. The first address in a block that is aligned so:
\<close>

definition aligned_in :: "nat \<Rightarrow> nat \<Rightarrow> block \<Rightarrow> nat" where
  "aligned_in k ex b = round_up k (bstart b + ex) - ex"

definition fits :: "nat \<Rightarrow> nat \<Rightarrow> nat \<Rightarrow> block \<Rightarrow> bool" where
  "fits k ex n b \<longleftrightarrow> aligned_in k ex b + n \<le> bend b"

definition request_ok :: "nat \<Rightarrow> u32 \<Rightarrow> u32 \<Rightarrow> bool" where
  "request_ok k extra reqsize \<longleftrightarrow> (k = 0 \<or> 3 \<le> k) \<and> k \<le> 29 \<and> (extra = 0 \<or> extra = 8)
     \<and> 8 dvd unat reqsize \<and> unat extra < unat reqsize"

text \<open>The cut of the block at \<open>f\<close> behind \<open>prev\<close>, as the search makes it.\<close>

definition take_block :: "nat \<Rightarrow> u32 \<Rightarrow> u32 \<Rightarrow> u32 \<Rightarrow> block \<Rightarrow> words \<Rightarrow> u32 \<times> words" where
  "take_block k extra reqsize prev b m =
     (let (f, s) = b in
      if 2 ^ k dvd unat f + unat extra
      then (f, put_leftover prev (f + reqsize) (f + s) (set_fb_Next prev (fb_Next m f) m))
      else let q = of_nat (aligned_in k (unat extra) b)
           in (q, put_leftover f (q + reqsize) (f + s) (set_fb_Size f (q - f) m)))"

lemma aligned_in_props:
  "bstart b \<le> aligned_in k ex b" "aligned_in k ex b < bstart b + 2 ^ k"
  "2 ^ k dvd aligned_in k ex b + ex" "aligned_in k ex b + ex = round_up k (bstart b + ex)"
  "2 ^ k dvd q + ex \<Longrightarrow> bstart b \<le> q \<Longrightarrow> aligned_in k ex b \<le> q"
proof -
  note r = round_up_props [where k = k and x = "bstart b + ex"]
  show "bstart b \<le> aligned_in k ex b" "aligned_in k ex b < bstart b + 2 ^ k"
    "2 ^ k dvd aligned_in k ex b + ex" "aligned_in k ex b + ex = round_up k (bstart b + ex)"
    using r(1-3) unfolding aligned_in_def by (linarith, linarith, simp add: le_trans [OF _ r(2)], use r(2) in linarith)
  show "aligned_in k ex b \<le> q" if "2 ^ k dvd q + ex" "bstart b \<le> q"
    using r(4) [OF that(1)] that(2) unfolding aligned_in_def by linarith
qed

lemma aligned_in_same: "2 ^ k dvd bstart b + ex \<Longrightarrow> aligned_in k ex b = bstart b"
  by (simp add: aligned_in_def round_up_id)

lemma alloc_step:
  assumes "request_ok k extra reqsize" and "block_ok (f, s)" and "bend (f, s) \<le> 2 ^ 31" and "fb_Size m f = s"
  shows "alloc_scan m reqsize extra (mask k) 0 prev f shortfall =
    (if fits k (unat extra) (unat reqsize) (f, s)
     then Some (Inr (take_block k extra reqsize prev (f, s) m))
     else alloc_scan m reqsize extra (mask k) 0 f (fb_Next m f)
       (if unat s < unat reqsize then shortfall
        else let t = s + (next_address (f + extra) (mask k) 0 + reqsize - extra) - (f + s) - reqsize
             in if shortfall < t then t else shortfall))"
proof -
  let ?ex = "unat extra" and ?n = "unat reqsize"
  have f0: "f \<noteq> 0" using assms(2) by (auto simp: block_ok_def)
  have req: "k = 0 \<or> 3 \<le> k" "k < 32" "?ex \<le> 8" "?ex < ?n" "(2 :: nat) ^ k \<le> 2 ^ 29"
    using assms(1) power_increasing [of k 29 "2 :: nat"] by (auto simp: request_ok_def)
  have hi: "unat f + unat s \<le> 2 ^ 31" using assms(3) by simp
  have fe: "unat (f + extra) = unat f + ?ex" using hi req(3) by (simp add: unat_add_small)
  have al: "(f + extra) AND mask k = 0 \<longleftrightarrow> 2 ^ k dvd unat f + ?ex" by (simp only: mask_dvd fe)
  show ?thesis
  proof (cases "unat s < ?n")
    case True
    then have "\<not> fits k ?ex ?n (f, s)" using aligned_in_props(1) [of "(f, s)" k ?ex] by (simp add: fits_def)
    then show ?thesis using True f0 assms(4) by (subst alloc_scan.simps) (simp add: word_le_nat_alt)
  next
    case False
    show ?thesis
    proof (cases "2 ^ k dvd unat f + ?ex")
      case True
      then have "fits k ?ex ?n (f, s)" using False by (simp add: fits_def aligned_in_same)
      then show ?thesis
        using True False f0 assms(4) al
        by (subst alloc_scan.simps) (simp add: Let_def take_block_def word_le_nat_alt algebra_simps)
    next
      case nd: False
      let ?q = "aligned_in k ?ex (f, s)" and ?p = "next_address (f + extra) (mask k) 0"
      have "unat ?p = round_up k (unat f + ?ex)"
        using next_address_mask [OF req(2), of "f + extra"] nd hi req(3,5) by (simp add: fe)
      then have p: "unat ?p = ?q + ?ex" using aligned_in_props(4) [where b = "(f, s)" and k = k and ex = ?ex] by simp
      have q: "?q < unat f + 2 ^ k" "unat f \<le> ?q" using aligned_in_props(1,2) [where b = "(f, s)" and k = k and ex = ?ex] by simp_all
      have "?q + ?ex + ?n < 2 ^ 32" using q(1) req(3,5) hi False by simp
      then have pr: "unat (?p + reqsize) = ?q + ?ex + ?n" using p by (simp add: unat_add_small)
      then have pe: "unat (?p + reqsize - extra) = ?q + ?n" by (subst unat_sub_small) simp_all
      have "?p = of_nat (unat ?p)" by simp
      also have "\<dots> = of_nat ?q + extra" unfolding p of_nat_add by simp
      finally have po: "?p - extra = of_nat ?q" by simp
      have "unat (f + s) = unat f + unat s" using sum_end [OF assms(2)] by simp
      then have nf: "?p + reqsize - extra > f + s \<longleftrightarrow> \<not> fits k ?ex ?n (f, s)"
        using pe by (simp add: fits_def word_less_nat_alt not_le)
      have rest: "fb_Size m f + (?p + reqsize - extra) - (f + extra + fb_Size m f - extra) - reqsize
          = s + (?p + reqsize - extra) - (f + s) - reqsize" using assms(4) by simp
      have "alloc_scan m reqsize extra (mask k) 0 prev f shortfall =
        (if ?p + reqsize - extra > f + s
         then let t = s + (?p + reqsize - extra) - (f + s) - reqsize
              in alloc_scan m reqsize extra (mask k) 0 f (fb_Next m f) (if shortfall < t then t else shortfall)
         else Some (Inr (?p - extra, put_leftover f (?p + reqsize - extra) (f + s) (set_fb_Size f (?p - (f + extra)) m))))"
        using f0 False nd assms(4) al
        by (subst alloc_scan.simps) (simp add: Let_def word_le_nat_alt)
      moreover have e: "?p + reqsize - extra = of_nat ?q + reqsize" "?p - (f + extra) = of_nat ?q - f"
        unfolding po [symmetric] by simp_all
      ultimately show ?thesis
        unfolding nf unfolding po e using nd False by (simp add: take_block_def Let_def)
    qed
  qed
qed

lemma alloc_scan_path:
  assumes "request_ok k extra reqsize" and "path m fb bs 0"
    and "\<forall>b \<in> set bs. block_ok b \<and> bend b \<le> 2 ^ 31"
  shows "(\<forall>b \<in> set bs. \<not> fits k (unat extra) (unat reqsize) b) \<Longrightarrow>
      \<exists>t. alloc_scan m reqsize extra (mask k) 0 prev fb shortfall = Some (Inl t)"
    and "\<lbrakk>bs = L @ b # R; \<forall>b \<in> set L. \<not> fits k (unat extra) (unat reqsize) b; fits k (unat extra) (unat reqsize) b\<rbrakk>
      \<Longrightarrow> alloc_scan m reqsize extra (mask k) 0 prev fb shortfall
          = Some (Inr (take_block k extra reqsize (prev_of prev L) b m))"
  using assms(2,3)
proof (induction bs arbitrary: prev fb shortfall L)
  case Nil
  {
    case 1
    then show ?case by (subst alloc_scan.simps) simp
  next
    case 2
    then show ?case by simp
  }
next
  case (Cons c bs)
  obtain f s where c: "c = (f, s)" by fastforce
  {
    case 1
    note step = alloc_step [OF assms(1), of f s m prev]
    have "path m (fb_Next m f) bs 0" "fb = f" "fb_Size m f = s" using 1(2) c by simp_all
    with 1 show ?case using Cons.IH(1) step c by simp
  next
    case 2
    have p: "path m (fb_Next m f) bs 0" "fb = f" "fb_Size m f = s" using 2(4) c by simp_all
    note step = alloc_step [OF assms(1) _ _ p(3), of prev]
    show ?case
    proof (cases L)
      case Nil
      then show ?thesis using 2 step p c by (simp add: prev_of_def)
    next
      case (Cons d L')
      then have "d = (f, s)" "prev_of f L' = prev_of prev L" "bs = L' @ b # R"
        using 2(1) c by (auto simp: prev_of_def)
      then show ?thesis using 2 step p c Cons Cons.IH(2) [where L = L' and prev = f and fb = "fb_Next m f"] by simp
    qed
  }
qed

section \<open>What is left free\<close>

definition remainder :: "block \<Rightarrow> nat \<Rightarrow> nat \<Rightarrow> block list" where
  "remainder b q n =
     (if q = bstart b then [] else [(fst b, of_nat (q - bstart b))]) @
     (if q + n = bend b then [] else [(of_nat (q + n), of_nat (bend b - (q + n)))])"

lemma remainder_ok:
  assumes "block_ok b" and "bstart b \<le> q" and "q + n \<le> bend b" and "8 dvd q" and "8 dvd n" and "0 < n"
  shows "blocks_ok (remainder b q n)" and "bytes_of (remainder b q n) = {bstart b..<bend b} - {q..<q + n}"
    and "\<forall>c \<in> set (remainder b q n). bstart b \<le> bstart c \<and> bend c \<le> bend b"
proof -
  have b: "8 dvd bstart b" "8 dvd unat (snd b)" "0 < bstart b" "bend b < 2 ^ 32"
    using assms(1) by (simp_all add: block_ok_def)
  have u: "unat (of_nat (q - bstart b) :: u32) = q - bstart b" "unat (of_nat (q + n) :: u32) = q + n"
    "unat (of_nat (bend b - (q + n)) :: u32) = bend b - (q + n)"
    using assms(2,3) b(4) by (intro unat_of_nat_small; linarith)+
  have d: "8 dvd q - bstart b" "8 dvd q + n" "8 dvd bend b - (q + n)"
    using b(1,2) assms(4,5) by (simp_all add: dvd_diff_nat)
  show "blocks_ok (remainder b q n)" "bytes_of (remainder b q n) = {bstart b..<bend b} - {q..<q + n}"
    "\<forall>c \<in> set (remainder b q n). bstart b \<le> bstart c \<and> bend c \<le> bend b"
    using u d b assms by (auto simp: remainder_def blocks_ok_def block_ok_def simp del: of_nat_add)
qed

text \<open>Taking from one block keeps the list well formed.\<close>

lemma replace_block_ok:
  assumes "blocks_ok (L @ b # R)" and "blocks_ok cs" and "bytes_of cs = {bstart b..<bend b} - S" and "S \<subseteq> {bstart b..<bend b}"
    and "\<forall>c \<in> set cs. bstart b \<le> bstart c \<and> bend c \<le> bend b"
  shows "blocks_ok (L @ cs @ R) \<and> bytes_of (L @ cs @ R) = bytes_of (L @ b # R) - S"
proof
  have o: "blocks_ok L" "blocks_ok R" "\<forall>x \<in> set L. bend x < bstart b" "\<forall>y \<in> set R. bend b < bstart y"
    "\<forall>x \<in> set L. \<forall>y \<in> set R. bend x < bstart y"
    using assms(1) by (auto simp: blocks_ok_append) (auto simp: blocks_ok_def)
  show "blocks_ok (L @ cs @ R)"
    using o assms(2,5) by (fastforce simp: blocks_ok_append)
  have "bytes_of L \<inter> {bstart b..<bend b} = {}" "bytes_of R \<inter> {bstart b..<bend b} = {}"
    using o(3,4) by (fastforce simp: bytes_of_def)+
  then show "bytes_of (L @ cs @ R) = bytes_of (L @ b # R) - S" using assms(3,4) by auto
qed

lemma put_leftover_chain:
  assumes "chain m a L q" and "fb_Next m (prev_of a L) = next_of R" and "path m (next_of R) R 0"
    and "e \<noteq> p \<Longrightarrow> cells_ok a (map fst (L @ (p, e - p) # R))"
    and "e = p \<Longrightarrow> chain m a (L @ R) 0"
  shows "chain (put_leftover (prev_of a L) p e m) a (L @ (if e = p then [] else [(p, e - p)]) @ R) 0"
proof (cases "e = p")
  case True
  then show ?thesis using assms(5) by (simp add: put_leftover_def)
next
  case False
  then have "put_leftover (prev_of a L) p e m = m(p := next_of R, p + 4 := e - p, prev_of a L := p)"
    using assms(2) by (simp add: put_leftover_def Let_def set_fb_Next_def set_fb_Size_def)
  with insert_chain [OF assms(1,3) assms(4) [OF False]] False show ?thesis by simp
qed

lemma aligned_8: "request_ok k extra reqsize \<Longrightarrow> block_ok b \<Longrightarrow> 8 dvd aligned_in k (unat extra) b"
proof -
  assume r: "request_ok k extra reqsize" and b: "block_ok b"
  let ?q = "aligned_in k (unat extra) b"
  have "8 dvd unat extra" using r by (auto simp: request_ok_def)
  show ?thesis
  proof (cases "k = 0")
    case True
    then show ?thesis using b by (simp add: aligned_in_same block_ok_def)
  next
    case False
    then have "(2 :: nat) ^ 3 dvd 2 ^ k" using r by (intro le_imp_power_dvd) (simp add: request_ok_def)
    then have "8 dvd ?q + unat extra" using dvd_trans [OF _ aligned_in_props(3) [where k = k and b = b and ex = "unat extra"], of "2 ^ 3"]
      by simp
    then show ?thesis using \<open>8 dvd unat extra\<close> dvd_add_left_iff by blast
  qed
qed

lemma prev_of_byte:
  assumes "\<forall>b \<in> set L. block_ok b"
  shows "prev_of a L = a \<or> unat (prev_of a L) \<in> bytes_of L"
  using prev_of_cases [of a L] assms cell_bytes bytes_of_mono by metis

text \<open>The cut keeps a free list, whose bytes are the old ones without those taken.\<close>

lemma take_block_chain:
  assumes "pool m a (L @ b # R)" and "request_ok k extra reqsize" and "fits k (unat extra) (unat reqsize) b"
  defines "q \<equiv> aligned_in k (unat extra) b"
  shows "fst (take_block k extra reqsize (prev_of a L) b m) = of_nat q"
    and "chain (snd (take_block k extra reqsize (prev_of a L) b m)) a (L @ remainder b q (unat reqsize) @ R) 0"
    and "x \<noteq> a \<Longrightarrow> unat x \<notin> bytes_of (L @ b # R) \<Longrightarrow> snd (take_block k extra reqsize (prev_of a L) b m) x = m x"
proof -
  obtain f s where b: "b = (f, s)" by fastforce
  let ?n = "unat reqsize"
  have p: "chain m a (L @ (f, s) # R) 0" "blocks_ok (L @ (f, s) # R)" "4 dvd unat a" "unat a \<notin> bytes_of (L @ (f, s) # R)"
    using assms(1) b by (simp_all add: pool_def)
  have bo: "block_ok (f, s)" "unat f + unat s < 2 ^ 32" using p(2) by (simp_all add: blocks_ok_def block_ok_def)
  have q: "unat f \<le> q" "q + ?n \<le> unat f + unat s" "8 dvd q" "8 dvd ?n" "0 < ?n"
    using aligned_in_props(1) [where b = b and k = k and ex = "unat extra"] assms(2,3) aligned_8 [OF assms(2)] bo(1) b
    unfolding q_def by (auto simp: fits_def request_ok_def)
  have wp: "of_nat q + reqsize = of_nat (q + ?n)" "f + s = of_nat (unat f + unat s)" by simp_all
  have u: "unat (of_nat (q + ?n) :: u32) = q + ?n" "unat (of_nat (unat f + unat s) :: u32) = unat f + unat s"
    by (rule unat_of_nat_small, use q(2) bo(2) in linarith)+
  have ep: "f + s = of_nat q + reqsize \<longleftrightarrow> q + ?n = unat f + unat s"
    unfolding wp word_unat_eq_iff u by auto
  have el: "f + s - (of_nat q + reqsize) = of_nat (unat f + unat s - (q + ?n))"
    unfolding wp of_nat_diff [OF q(2)] ..
  note rem = remainder_ok [OF bo(1), of q ?n, simplified, OF q]
  have sub: "{q..<q + ?n} \<subseteq> {unat f..<unat f + unat s}" using q(1,2) by auto
  from replace_block_ok [OF p(2) rem(1), of "{q..<q + ?n}"] rem(2,3) sub
  have ok: "blocks_ok (L @ remainder (f, s) q ?n @ R)"
    "bytes_of (L @ remainder (f, s) q ?n @ R) = bytes_of (L @ (f, s) # R) - {q..<q + ?n}" by simp_all
  have cells: "cells_ok a (map fst (L @ remainder (f, s) q ?n @ R))" "cells_ok a (map fst (L @ (f, s) # R))"
    using blocks_cells_ok blocks_ok_apart ok p(2-4) by blast+
  then have cells2: "cells_ok a (map fst (L @ R))" by (simp add: cells_ok_def)
  have links: "chain m a L f" "path m (fb_Next m f) R 0" "fb_Next m f = next_of R"
    using p(1) path_next by (auto simp: chain_append next_of_def)
  show "fst (take_block k extra reqsize (prev_of a L) b m) = of_nat q"
    by (auto simp: take_block_def b q_def aligned_in_same Let_def)
  show "chain (snd (take_block k extra reqsize (prev_of a L) b m)) a (L @ remainder b q (unat reqsize) @ R) 0"
  proof (cases "2 ^ k dvd unat f + unat extra")
    case True
    then have qf: "q = unat f" by (simp add: q_def b aligned_in_same)
    let ?m = "m(prev_of a L := next_of R)"
    note rd = redirect_chain [OF links(1) links(2) [unfolded links(3)] cells2]
    have e: "snd (take_block k extra reqsize (prev_of a L) b m) = put_leftover (prev_of a L) (f + reqsize) (f + s) ?m"
      using True by (simp add: take_block_def b set_fb_Next_def links(3))
    have r: "remainder b q ?n = (if f + s = f + reqsize then [] else [(f + reqsize, f + s - (f + reqsize))])"
      using ep el by (simp add: remainder_def b qf)
    have c: "chain ?m a (L @ R) 0" using rd by (simp add: chain_append)
    show ?thesis unfolding e r
      by (rule put_leftover_chain [OF rd(1) _ rd(2) _ c]) (use cells(1) r b in \<open>simp_all add: fb_Next_def\<close>)
  next
    case False
    have "q \<noteq> unat f"
      using aligned_in_props(3) [where b = b and k = k and ex = "unat extra"] False by (auto simp: q_def b)
    let ?m = "m(f + 4 := of_nat q - f)" and ?L = "L @ [(f, of_nat q - f)]"
    have g: "chain ?m a (?L @ R) 0" using grow_chain [OF p(1) cells(2)] by simp
    have e: "snd (take_block k extra reqsize (prev_of a L) b m) = put_leftover (prev_of a ?L) (of_nat q + reqsize) (f + s) ?m"
      using False by (simp add: take_block_def b set_fb_Size_def Let_def q_def)
    have r: "remainder b q ?n = [(f, of_nat q - f)] @
        (if f + s = of_nat q + reqsize then [] else [(of_nat q + reqsize, f + s - (of_nat q + reqsize))])"
      using ep el \<open>q \<noteq> unat f\<close> q(1) by (simp add: remainder_def b of_nat_diff)
    have c: "chain ?m a ?L (next_of R)" "path ?m (next_of R) R 0" using g by (simp_all only: chain_append)
    have n: "fb_Next ?m (prev_of a ?L) = next_of R" using c(1) by (simp add: chain_snoc)
    have "chain (snd (take_block k extra reqsize (prev_of a L) b m)) a
        (?L @ (if f + s = of_nat q + reqsize then [] else [(of_nat q + reqsize, f + s - (of_nat q + reqsize))]) @ R) 0"
      unfolding e by (rule put_leftover_chain [OF c(1) n c(2) _ g]) (use cells(1) r b in simp_all)
    then show ?thesis unfolding r by simp
  qed
  show "snd (take_block k extra reqsize (prev_of a L) b m) x = m x"
    if x: "x \<noteq> a" "unat x \<notin> bytes_of (L @ b # R)"
  proof -
    have "x \<noteq> prev_of a L"
      using prev_of_byte [of L a] p(2) x by (auto simp: blocks_ok_def)
    moreover have "x \<noteq> f" "x \<noteq> f + 4" using x(2) cell_bytes [OF bo(1)] b by auto
    moreover have "x \<noteq> of_nat q + reqsize \<and> x \<noteq> of_nat q + reqsize + 4" if "q + ?n \<noteq> unat f + unat s"
    proof -
      have "(of_nat (q + ?n), of_nat (unat f + unat s - (q + ?n))) \<in> set (remainder (f, s) q ?n)"
        using that by (simp add: remainder_def)
      then have "block_ok (of_nat (q + ?n), of_nat (unat f + unat s - (q + ?n)))"
        "(of_nat (q + ?n), of_nat (unat f + unat s - (q + ?n))) \<in> set (L @ remainder (f, s) q ?n @ R)"
        using rem(1) by (auto simp: blocks_ok_def)
      note cell = cell_bytes [OF this(1)] and mono = bytes_of_mono [OF this(2)]
      have "unat x \<notin> bytes_of (L @ remainder (f, s) q ?n @ R)" using x(2) ok(2) unfolding b by blast
      then show ?thesis using cell mono unfolding wp fst_conv by blast
    qed
    ultimately show ?thesis
      using ep by (auto simp: take_block_def b put_leftover_def Let_def set_fb_Next_def set_fb_Size_def q_def aligned_in_same)
  qed
qed

section \<open>The allocation\<close>

lemma in_one_block:
  assumes "blocks_ok bs" and "{q..<q + n} \<subseteq> bytes_of bs" and "0 < n"
  shows "\<exists>b \<in> set bs. bstart b \<le> q \<and> q + n \<le> bend b"
proof -
  have "q \<in> bytes_of bs" using assms(2,3) by auto
  then obtain b where b: "b \<in> set bs" "bstart b \<le> q" "q < bend b" by (auto simp: bytes_of_def)
  obtain L R where bs: "bs = L @ b # R" using b(1) by (auto simp: in_set_conv_decomp)
  have "bend b \<notin> bytes_of bs"
    using assms(1) b(2,3) unfolding bs by (fastforce simp: blocks_ok_def sorted_wrt_append bytes_of_def)
  then have "\<not> (q \<le> bend b \<and> bend b < q + n)" using assms(2) by auto
  then show ?thesis using b by (intro bexI [of _ b]) auto
qed

lemma first_fit:
  assumes "\<exists>b \<in> set bs. fits k ex n b"
  obtains L b R where "bs = L @ b # R" "\<forall>c \<in> set L. \<not> fits k ex n c" "fits k ex n b"
  using split_list_first_prop [OF assms] by metis

lemma fits_first:
  assumes "blocks_ok (L @ b # R)" and "\<forall>c \<in> set L. \<not> fits k ex n c" and "0 < n"
    and "2 ^ k dvd q + ex" and "{q..<q + n} \<subseteq> bytes_of (L @ b # R)"
  shows "aligned_in k ex b \<le> q"
proof -
  from in_one_block [OF assms(1,5,3)] obtain c where c: "c \<in> set (L @ b # R)" "bstart c \<le> q" "q + n \<le> bend c" by blast
  have "aligned_in k ex c \<le> q" using aligned_in_props(5) [OF assms(4) c(2)] .
  then have "fits k ex n c" using c(3) by (simp add: fits_def)
  then have "c \<in> set (b # R)" using assms(2) c(1) by auto
  then have "bstart b \<le> bstart c"
    using assms(1) by (auto simp: blocks_ok_append) (auto simp: blocks_ok_def)
  then show ?thesis using aligned_in_props(5) [OF assms(4)] c(2) by (meson le_trans)
qed

lemma offset_less:
  assumes "unat r + unat n \<le> 2 ^ 32"
  shows "(x :: u32) - r < n \<longleftrightarrow> unat r \<le> unat x \<and> unat x < unat r + unat n"
proof (cases "r \<le> x")
  case True
  then show ?thesis by (auto simp: word_less_nat_alt unat_sub word_le_nat_alt)
next
  case False
  then have "unat (x - r) = 2 ^ 32 + unat x - unat r"
    using unat_sub_if' [of x r] by (simp add: word_le_nat_alt)
  then show ?thesis using assms False by (auto simp: word_less_nat_alt word_le_nat_alt)
qed

text \<open>What is written to the memory found stays inside it, and leaves the size word.\<close>

lemma alloc_finish_spec:
  assumes "unat res + unat reqsize < 2 ^ 32" and "unat extra < unat reqsize" and "8 \<le> unat reqsize"
    and "extra = (if flags AND MEMTYPE_TRACKSIZE \<noteq> 0 \<and> care \<noteq> 0 then 8 else 0)"
  defines "header \<equiv> if flags AND MEMTYPE_TRACKSIZE = 0 then 0 else if care \<noteq> 0 then 8 else (4 :: nat)"
  shows "unat (fst (alloc_finish usersize flags care extra reqsize res m)) = unat res + header"
    and "unat x \<notin> {unat res..<unat res + unat reqsize} \<Longrightarrow>
      snd (alloc_finish usersize flags care extra reqsize res m) x = m x"
    and "flags AND MEMTYPE_TRACKSIZE \<noteq> 0 \<Longrightarrow> snd (alloc_finish usersize flags care extra reqsize res m)
      (fst (alloc_finish usersize flags care extra reqsize res m) - 4) = usersize"
proof -
  define r where "r = res + of_nat header"
  define n where "n = reqsize - of_nat header"
  have h: "header < unat reqsize" "unat (of_nat header :: u32) = header"
    using assms(2-4) by (auto simp: header_def split: if_splits)
  have r: "unat r = unat res + header" unfolding r_def using h assms(1) by (subst unat_add_small) simp_all
  have n: "unat n = unat reqsize - header" unfolding n_def using h by (subst unat_sub_small) simp_all
  have bound: "unat r + unat n \<le> 2 ^ 32" using r n h(1) assms(1) by simp
  let ?m = "if header = 0 then m else m(r - 4 := usersize)"
  have e: "alloc_finish usersize flags care extra reqsize res m =
      (r, if flags AND MEMTYPE_FILL \<noteq> 0 then memset r (flags AND MEMTYPE_FILLMASK) n ?m else ?m(r := n))"
    using assms(4) by (auto simp: alloc_finish_def header_def r_def n_def)
  show "unat (fst (alloc_finish usersize flags care extra reqsize res m)) = unat res + header"
    by (simp add: e r)
  have r4: "unat (r - 4) = unat res + header - 4" if "header \<noteq> 0"
    using that r by (subst unat_sub_small) (auto simp: header_def split: if_splits)
  show "snd (alloc_finish usersize flags care extra reqsize res m) x = m x"
    if x: "unat x \<notin> {unat res..<unat res + unat reqsize}"
  proof -
    have "\<not> x - r < n" using x r n h(1) unfolding offset_less [OF bound] by auto
    moreover have "x \<noteq> r" using x r h(1) by auto
    moreover have "x \<noteq> r - 4" if "header \<noteq> 0"
      using x r4 [OF that] h(1) that by (auto simp: header_def split: if_splits)
    ultimately show ?thesis by (simp add: e memset_def)
  qed
  assume t: "flags AND MEMTYPE_TRACKSIZE \<noteq> 0"
  then have h0: "header \<noteq> 0" by (simp add: header_def)
  have "\<not> r - 4 - r < n" unfolding offset_less [OF bound] using r4 [OF h0] r h0 by (auto simp: header_def split: if_splits)
  then show "snd (alloc_finish usersize flags care extra reqsize res m)
      (fst (alloc_finish usersize flags care extra reqsize res m) - 4) = usersize"
    using h0 by (simp add: e memset_def)
qed

text \<open>The bytes before the memory that a request returns, and the extra bytes that shift its alignment.\<close>

definition header_of :: "u32 \<Rightarrow> nat \<Rightarrow> nat" where
  "header_of flags k = (if flags AND MEMTYPE_TRACKSIZE = 0 then 0 else if k \<noteq> 0 then 8 else 4)"

definition extra_of :: "u32 \<Rightarrow> nat \<Rightarrow> nat" where
  "extra_of flags k = (if flags AND MEMTYPE_TRACKSIZE \<noteq> 0 \<and> k \<noteq> 0 then 8 else 0)"

lemma mask_eq_0: "(mask k :: u32) = 0 \<longleftrightarrow> k = 0"
proof (cases k)
  case (Suc j)
  then have "bit (mask k :: u32) 0" by (simp add: bit_mask_iff)
  then show ?thesis using Suc by (metis bit_0_eq bot_apply bot_bool_def nat.distinct(1))
qed simp

lemma alloc_request_ok:
  assumes "flags AND MEMTYPE_ILLEGAL = 0" and "0 < sint usersize" and "k \<le> 29"
  shows "\<exists>K reqsize extra. alloc_request usersize flags (mask k) 0 = Some (reqsize, extra, mask K, 0)
    \<and> request_ok K extra reqsize \<and> unat reqsize = round8 (unat usersize + header_of flags k)
    \<and> unat extra = extra_of flags k \<and> (K = 0 \<longleftrightarrow> k = 0) \<and> 8 \<le> unat reqsize
    \<and> (\<forall>y :: nat. 8 dvd y \<longrightarrow> (2 ^ K dvd y \<longleftrightarrow> 2 ^ k dvd y))"
proof -
  let ?h = "header_of flags k" and ?K = "if k = 0 then 0 else max 3 k"
  let ?u = "usersize + of_nat ?h"
  have us: "0 < unat usersize" "unat usersize < 2 ^ 31"
    using sint_pos [OF assms(2)] by simp_all
  have h: "?h \<le> 8" "unat (of_nat ?h :: u32) = ?h" by (simp_all add: header_of_def)
  have u: "unat ?u = unat usersize + ?h" using us h by (subst unat_add_small) simp_all
  then have rq: "unat (ROUND_ALLOC_SIZE ?u) = round8 (unat usersize + ?h)"
    using us h(1) by (subst unat_ROUND) simp_all
  have big: "8 \<le> unat (ROUND_ALLOC_SIZE ?u)" "?h < unat (ROUND_ALLOC_SIZE ?u)"
    using rq us(1) round8_bounds(1) [of "unat usersize + ?h"] dvd_imp_le [OF round8_dvd, of "unat usersize + ?h"]
    by simp_all
  have m0: "(mask k :: u32) = 0 \<longleftrightarrow> k = 0" by (rule mask_eq_0)
  have mK: "(mask k :: u32) OR 7 = mask ?K" if "k \<noteq> 0"
    by (rule bit_word_eqI, unfold bit_or_iff bit_mask_iff bit_7) (use that in auto)
  have d: "2 ^ ?K dvd y \<longleftrightarrow> 2 ^ k dvd y" if "8 dvd (y :: nat)" for y
  proof (cases "k < 3")
    case True
    then have "(2 :: nat) ^ k dvd 2 ^ 3" by (intro le_imp_power_dvd) simp
    then show ?thesis using True that by (auto simp: max_def elim: dvd_trans)
  qed (simp add: max_def)
  let ?x = "if k = 0 then 0 else of_nat ?h :: u32"
  have x: "unat ?x = extra_of flags k" by (auto simp: header_of_def extra_of_def)
  have req: "alloc_request usersize flags (mask k) 0 = Some (ROUND_ALLOC_SIZE ?u, ?x, mask ?K, 0)"
    using assms(1,2) m0 mK by (auto simp: alloc_request_def header_of_def Let_def)
  have rok: "request_ok ?K ?x (ROUND_ALLOC_SIZE ?u)"
    using assms(3) big(2) rq x by (auto simp: request_ok_def header_of_def extra_of_def)
  have K0: "?K = 0 \<longleftrightarrow> k = 0" by simp
  show ?thesis
    by (rule exI [of _ ?K], rule exI [of _ "ROUND_ALLOC_SIZE ?u"], rule exI [of _ ?x], intro conjI allI impI)
      (rule req rok rq x K0 big(1) d | assumption)+
qed

text \<open>A run of bytes that a request can be given.\<close>

definition can_hold :: "block list \<Rightarrow> u32 \<Rightarrow> nat \<Rightarrow> nat \<Rightarrow> nat \<Rightarrow> bool" where
  "can_hold bs flags k n q \<longleftrightarrow> 8 dvd q \<and> 2 ^ k dvd q + extra_of flags k \<and> {q..<q + n} \<subseteq> bytes_of bs"

lemma alloc_spec:
  assumes "pool m a bs" and "\<forall>b \<in> set bs. bend b \<le> 2 ^ 31"
    and "flags AND MEMTYPE_ILLEGAL = 0" and "0 < sint usersize" and "k \<le> 29"
  defines "n \<equiv> round8 (unat usersize + header_of flags k)"
  shows "if \<exists>q. can_hold bs flags k n q
    then \<exists>q r m' bs'. AllocFromSystemPool a usersize flags (mask k) 0 m = Some (r, m')
      \<and> can_hold bs flags k n q \<and> (\<forall>q'. can_hold bs flags k n q' \<longrightarrow> q \<le> q')
      \<and> unat r = q + header_of flags k \<and> pool m' a bs' \<and> bytes_of bs' = bytes_of bs - {q..<q + n}
      \<and> (\<forall>x. x \<noteq> a \<and> unat x \<notin> bytes_of bs \<longrightarrow> m' x = m x)
      \<and> (flags AND MEMTYPE_TRACKSIZE \<noteq> 0 \<longrightarrow> m' (r - 4) = usersize)
    else AllocFromSystemPool a usersize flags (mask k) 0 m = Some (0, m)"
proof -
  from alloc_request_ok [OF assms(3,4,5)] obtain K reqsize extra where
    rq: "alloc_request usersize flags (mask k) 0 = Some (reqsize, extra, mask K, 0)"
    and ok: "request_ok K extra reqsize" and n: "unat reqsize = n" "8 \<le> unat reqsize"
    and ex: "unat extra = extra_of flags k" and K: "K = 0 \<longleftrightarrow> k = 0"
    and Kk: "\<forall>y :: nat. 8 dvd y \<longrightarrow> (2 ^ K dvd y \<longleftrightarrow> 2 ^ k dvd y)"
    unfolding n_def by blast
  have ex8: "8 dvd unat extra" using ok by (auto simp: request_ok_def)
  have bs: "blocks_ok bs" "chain m a bs 0" "unat a \<notin> bytes_of bs" using assms(1) by (simp_all add: pool_def)
  have path: "path m (fb_Next m a) bs 0" using bs(2) by (simp add: chain_def)
  have b: "\<forall>b \<in> set bs. block_ok b \<and> bend b \<le> 2 ^ 31" using bs(1) assms(2) by (simp add: blocks_ok_def)
  have hold: "can_hold bs flags k n q \<longleftrightarrow> 8 dvd q \<and> 2 ^ K dvd q + unat extra \<and> {q..<q + unat reqsize} \<subseteq> bytes_of bs" for q
    unfolding can_hold_def ex [symmetric] n(1) [symmetric] using Kk dvd_add [OF _ ex8] by blast
  have n0: "0 < unat reqsize" using n(2) by simp
  show ?thesis
  proof (cases "\<exists>c \<in> set bs. fits K (unat extra) (unat reqsize) c")
    case True
    then obtain L c R where f: "bs = L @ c # R" "\<forall>d \<in> set L. \<not> fits K (unat extra) (unat reqsize) d"
      "fits K (unat extra) (unat reqsize) c" by (rule first_fit)
    define q where "q = aligned_in K (unat extra) c"
    let ?t = "take_block K extra reqsize (prev_of a L) c m"
    have co: "block_ok c" using b f(1) by simp
    have q: "bstart c \<le> q" "q + unat reqsize \<le> bend c" "8 dvd q" "2 ^ K dvd q + unat extra"
      using aligned_in_props [where k = K and ex = "unat extra" and b = c] f(3) aligned_8 [OF ok co]
      by (simp_all add: q_def fits_def)
    note tb = take_block_chain [OF assms(1) [unfolded f(1)] ok f(3), folded q_def]
    have uq: "unat (of_nat q :: u32) = q"
      using q(2) co by (intro unat_of_nat_small) (simp add: block_ok_def)
    let ?fin = "alloc_finish usersize flags (mask K) extra reqsize (of_nat q) (snd ?t)"
    have A: "AllocFromSystemPool a usersize flags (mask k) 0 m = Some ?fin"
      using alloc_scan_path(2) [OF ok path b f] rq tb(1) unfolding AllocFromSystemPool_def
      by (simp add: split_beta)
    have cov: "{q..<q + n} \<subseteq> bytes_of bs" using q(1,2) n(1) f(1) by auto
    have can: "can_hold bs flags k n q" unfolding hold using q(3,4) cov n(1) by simp
    have least: "\<forall>q'. can_hold bs flags k n q' \<longrightarrow> q \<le> q'"
      unfolding hold using fits_first [OF bs(1) [unfolded f(1)] f(2) n0] f(1) by (simp add: q_def)
    have header: "unat (of_nat q :: u32) + unat reqsize < 2 ^ 32" "unat extra < unat reqsize"
      "extra = (if flags AND MEMTYPE_TRACKSIZE \<noteq> 0 \<and> mask K \<noteq> (0 :: u32) then 8 else 0)"
      using uq q(2) co ok ex K by (auto simp: block_ok_def request_ok_def extra_of_def mask_eq_0 split: if_splits)
    have hd: "(if flags AND MEMTYPE_TRACKSIZE = 0 then 0 else if mask K \<noteq> (0 :: u32) then 8 else (4 :: nat)) = header_of flags k"
      using K by (simp add: header_of_def mask_eq_0)
    note fin = alloc_finish_spec [OF header(1,2) n(2) header(3), where usersize = usersize and m = "snd ?t", unfolded hd uq n(1)]
    note rem = remainder_ok [OF co q(1,2,3) _ n0]
    have d8: "8 dvd unat reqsize" using ok by (simp add: request_ok_def)
    have sub: "{q..<q + unat reqsize} \<subseteq> {bstart c..<bend c}" using q(1,2) by auto
    let ?bs = "L @ remainder c q (unat reqsize) @ R"
    from replace_block_ok [OF bs(1) [unfolded f(1)] rem(1,2) [OF d8] sub rem(3) [OF d8]]
    have ok': "blocks_ok ?bs" "bytes_of ?bs = bytes_of bs - {q..<q + n}" using f(1) n(1) by simp_all
    have "pool (snd ?t) a ?bs" using tb(2) ok' bs(3) assms(1) by (simp add: pool_def)
    then have P: "pool (snd ?fin) a ?bs"
      by (rule pool_frame) (use fin(2) ok'(2) bs(3) cov in \<open>auto simp: subset_iff\<close>)
    have F: "\<forall>x. x \<noteq> a \<and> unat x \<notin> bytes_of bs \<longrightarrow> snd ?fin x = m x"
    proof (intro allI impI)
      fix x assume x: "x \<noteq> a \<and> unat x \<notin> bytes_of bs"
      then have "unat x \<notin> {q..<q + n}" using cov by blast
      from fin(2) [OF this] show "snd ?fin x = m x" using tb(3) x f(1) by simp
    qed
    have "\<exists>q. can_hold bs flags k n q" using can ..
    then show ?thesis
      unfolding if_P [OF \<open>\<exists>q. can_hold bs flags k n q\<close>]
      by (intro exI [of _ q] exI [of _ "fst ?fin"] exI [of _ "snd ?fin"] exI [of _ ?bs] conjI)
        (use A can least fin(1,3) P ok'(2) F in auto)
  next
    case False
    have "\<not> can_hold bs flags k n q" for q
    proof
      assume q: "can_hold bs flags k n q"
      from in_one_block [OF bs(1) _ n0, of q] q obtain c where
        "c \<in> set bs" "bstart c \<le> q" "q + unat reqsize \<le> bend c" unfolding hold by blast
      then show False
        using aligned_in_props(5) [where k = K and ex = "unat extra" and b = c and q = q] False q
        unfolding hold fits_def by fastforce
    qed
    moreover have "AllocFromSystemPool a usersize flags (mask k) 0 m = Some (0, m)"
      using alloc_scan_path(1) [OF ok path b, of a 0] False rq by (auto simp: AllocFromSystemPool_def)
    ultimately show ?thesis by simp
  qed
qed

section \<open>Freeing what has been allocated\<close>

lemma FreeToPagePool_block:
  assumes "pool m a bs" and "s \<noteq> 0" and "p \<noteq> 0"
    and "(if sint s < 0 then tracked_block m p else (p, s)) = (p', s')"
    and "block_ok (p', ROUND_ALLOC_SIZE s')"
    and "{unat p'..<unat p' + unat (ROUND_ALLOC_SIZE s')} \<inter> bytes_of bs = {}"
    and "unat a \<notin> {unat p'..<unat p' + unat (ROUND_ALLOC_SIZE s')}"
  shows "\<exists>m' bs'. FreeToPagePool a p s m = Some m' \<and> pool m' a bs'
    \<and> bytes_of bs' = bytes_of bs \<union> {unat p'..<unat p' + unat (ROUND_ALLOC_SIZE s')}
    \<and> (\<forall>x. x \<noteq> a \<and> unat x \<notin> bytes_of bs' \<longrightarrow> m' x = m x)"
  using free_block [OF assms(1,5,6,7)] assms(2-4) by (auto simp: FreeToPagePool_def)

lemma tracked_block_ok:
  assumes "8 dvd q" and "0 < q" and "unat r = q + header_of flags k" and "flags AND MEMTYPE_TRACKSIZE \<noteq> 0"
    and "m (r - 4) = usersize"
  shows "tracked_block m r = (of_nat q, usersize + of_nat (header_of flags k))"
proof -
  have "r = of_nat (unat r)" by simp
  then have r: "r = of_nat q + of_nat (header_of flags k)" unfolding assms(3) of_nat_add .
  have "r AND 7 = 0 \<longleftrightarrow> 8 dvd unat r"
    using mask_dvd [of r 3] by (simp add: mask_eq_exp_minus_1)
  also have "\<dots> \<longleftrightarrow> k \<noteq> 0" using assms(1,3,4) by (auto simp: header_of_def dvd_add_right_iff)
  finally show ?thesis using assms(4,5) r by (auto simp: tracked_block_def header_of_def)
qed

lemma alloc_free:
  assumes "pool m a bs" and "\<forall>b \<in> set bs. bend b \<le> 2 ^ 31"
    and "flags AND MEMTYPE_ILLEGAL = 0" and "0 < sint usersize" and "k \<le> 29"
    and "AllocFromSystemPool a usersize flags (mask k) 0 m = Some (r, m')" and "r \<noteq> 0"
    and "m'' a = m' a" and "\<forall>x. unat x \<in> bytes_of bs \<and> (unat x < unat r - header_of flags k
      \<or> unat r - header_of flags k + round8 (unat usersize + header_of flags k) \<le> unat x) \<longrightarrow> m'' x = m' x"
    and "flags AND MEMTYPE_TRACKSIZE \<noteq> 0 \<longrightarrow> m'' (r - 4) = m' (r - 4)"
  shows "\<exists>m3. FreeToPagePool a r (if flags AND MEMTYPE_TRACKSIZE \<noteq> 0 then - 1 else usersize) m'' = Some m3
    \<and> pool m3 a bs"
proof -
  let ?h = "header_of flags k" and ?n = "round8 (unat usersize + header_of flags k)"
  let ?t = "flags AND MEMTYPE_TRACKSIZE \<noteq> 0"
  have us: "0 < unat usersize" "unat usersize < 2 ^ 31"
    using sint_pos [OF assms(4)] by simp_all
  from alloc_spec [OF assms(1-5)] assms(6,7) obtain q bs' where A: "can_hold bs flags k ?n q"
      "unat r = q + ?h" "pool m' a bs'" "bytes_of bs' = bytes_of bs - {q..<q + ?n}" "?t \<Longrightarrow> m' (r - 4) = usersize"
    by (auto split: if_splits)
  have n: "?h \<le> 8" "unat usersize + ?h \<le> ?n" "?n \<le> unat usersize + ?h + 7"
    using round8_bounds [of "unat usersize + ?h"] by (auto simp: header_of_def)
  then have n0: "0 < ?n" using us by linarith
  have bs: "blocks_ok bs" "unat a \<notin> bytes_of bs" using assms(1) by (simp_all add: pool_def)
  from in_one_block [OF bs(1) _ n0, of q] A(1) obtain b where b: "b \<in> set bs" "bstart b \<le> q" "q + ?n \<le> bend b"
    unfolding can_hold_def by blast
  have q: "8 dvd q" "0 < q" "q + ?n < 2 ^ 32" "{q..<q + ?n} \<subseteq> bytes_of bs"
    using A(1) b bs(1) by (auto simp: can_hold_def blocks_ok_def block_ok_def)
  have P: "pool m'' a bs'"
    by (rule pool_frame [OF A(3)], rule assms(8)) (use A(2,4) assms(9) in auto)
  have uq: "unat (of_nat q :: u32) = q" by (rule unat_of_nat_small) (use q(3) in linarith)
  let ?s = "usersize + of_nat ?h"
  have s: "unat ?s = unat usersize + ?h"
    using us n(1) by (subst unat_add_small) (simp_all add: unat_of_nat_small)
  then have rs: "unat (ROUND_ALLOC_SIZE ?s) = ?n" using us n(1) by (subst unat_ROUND) simp_all
  have blk: "(if sint (if ?t then - 1 else usersize) < 0 then tracked_block m'' r else (r, if ?t then - 1 else usersize))
      = (of_nat q, ?s)"
  proof (cases ?t)
    case True
    then show ?thesis using tracked_block_ok [OF q(1,2) A(2) True, of m'' usersize] A(5) assms(10) by simp
  next
    case False
    then have "unat r = q" "?h = 0" using A(2) by (simp_all add: header_of_def)
    then show ?thesis using False assms(4) uq by (simp add: word_unat_eq_iff)
  qed
  have ok: "block_ok (of_nat q, ROUND_ALLOC_SIZE ?s)" using q n0 uq rs by (simp add: block_ok_def)
  have "(if ?t then - 1 else usersize) \<noteq> 0" using us by auto
  moreover have "{q..<q + ?n} \<inter> bytes_of bs' = {}" "unat a \<notin> {q..<q + ?n}"
    using A(4) bs(2) q(4) by blast+
  ultimately obtain m3 bs3 where
    F: "FreeToPagePool a r (if ?t then - 1 else usersize) m'' = Some m3" "pool m3 a bs3"
      "bytes_of bs3 = bytes_of bs' \<union> {q..<q + ?n}"
    using FreeToPagePool_block [OF P _ assms(7) blk ok, unfolded uq rs] by blast
  have "bytes_of bs3 = bytes_of bs" using F(3) A(4) q(4) by auto
  then have "bs3 = bs" using F(2) bs(1) by (intro blocks_unique) (simp_all add: pool_def)
  then show ?thesis using F by blast
qed

section \<open>Properties\<close>

text \<open>A pool with two free blocks and its anchor.\<close>

definition example_words :: words where
  "example_words = (\<lambda>_. 0)(0x40000100 := 0x40001000, 0x40001000 := 0x40003000, 0x40001004 := 0x800, 0x40003004 := 0x1000)"

definition example_blocks :: "block list" where
  "example_blocks = [(0x40001000, 0x800), (0x40003000, 0x1000)]"

lemma example_pool: "pool example_words 0x40000100 example_blocks"
  by (simp add: pool_def chain_def blocks_ok_def block_ok_def example_words_def example_blocks_def fb_Next_def fb_Size_def)

lemma example_below: "\<forall>b \<in> set example_blocks. bend b \<le> 2 ^ 31"
  by (simp add: example_blocks_def)

text \<open>C22: freeing memory that is not free makes exactly its bytes free. The call returns, the list of
  free blocks is again sorted, aligned and coalesced, and therefore the only such list
  of these bytes, and no other word than the anchor's link and free memory is written.\<close>

theorem FreeToPagePool_exact:
  assumes "pool m a bs" and "0 < sint s" and "8 dvd unat p" and "p \<noteq> 0"
    and "unat p + round8 (unat s) < 2 ^ 32"
    and "{unat p..<unat p + round8 (unat s)} \<inter> bytes_of bs = {}"
    and "unat a \<notin> {unat p..<unat p + round8 (unat s)}"
  shows "\<exists>m' bs'. FreeToPagePool a p s m = Some m' \<and> pool m' a bs'
    \<and> bytes_of bs' = bytes_of bs \<union> {unat p..<unat p + round8 (unat s)}
    \<and> (\<forall>cs. blocks_ok cs \<and> bytes_of cs = bytes_of bs' \<longrightarrow> cs = bs')
    \<and> (\<forall>x. x \<noteq> a \<and> unat x \<notin> bytes_of bs' \<longrightarrow> m' x = m x)"
proof -
  note s = sint_pos [OF assms(2)]
  have rs: "unat (ROUND_ALLOC_SIZE s) = round8 (unat s)" using s by (subst unat_ROUND) simp_all
  have "0 < round8 (unat s)" using s(1) round8_bounds(1) [of "unat s"] by linarith
  then have "block_ok (p, ROUND_ALLOC_SIZE s)"
    using assms(3-5) rs by (simp add: block_ok_def unat_gt_0)
  from FreeToPagePool_ok [OF assms(1) this assms(2)] assms(6,7) obtain m' bs' where
    "FreeToPagePool a p s m = Some m'" "pool m' a bs'" "bytes_of bs' = bytes_of bs \<union> {unat p..<unat p + round8 (unat s)}"
    "\<forall>x. x \<noteq> a \<and> unat x \<notin> bytes_of bs' \<longrightarrow> m' x = m x" unfolding rs by blast
  moreover have "\<forall>cs. blocks_ok cs \<and> bytes_of cs = bytes_of bs' \<longrightarrow> cs = bs'"
    using calculation(2) blocks_unique by (auto simp: pool_def)
  ultimately show ?thesis by blast
qed

theorem FreeToPagePool_exact_witness:
  "\<exists>m'. FreeToPagePool 0x40000100 0x40001800 0x1800 example_words = Some m'
     \<and> pool m' 0x40000100 [(0x40001000, 0x3000)]"
proof -
  let ?b = "[(0x40001000, 0x3000)] :: block list"
  have n: "round8 (unat (0x1800 :: u32)) = 0x1800" by (simp add: round8_def)
  have d: "{unat (0x40001800 :: u32)..<unat (0x40001800 :: u32) + 0x1800} \<inter> bytes_of example_blocks = {}"
    by (auto simp: example_blocks_def)
  from FreeToPagePool_exact [OF example_pool, of "0x1800" "0x40001800", unfolded n, OF _ _ _ _ d]
  obtain m' bs' where F: "FreeToPagePool 0x40000100 0x40001800 0x1800 example_words = Some m'" "pool m' 0x40000100 bs'"
    "bytes_of bs' = bytes_of example_blocks \<union> {unat (0x40001800 :: u32)..<unat (0x40001800 :: u32) + 0x1800}"
    "\<forall>cs. blocks_ok cs \<and> bytes_of cs = bytes_of bs' \<longrightarrow> cs = bs'" by auto
  have "bytes_of ?b = bytes_of bs'" unfolding F(3) by (auto simp: example_blocks_def)
  moreover have "blocks_ok ?b" by (simp add: blocks_ok_def block_ok_def)
  ultimately have "?b = bs'" using F(4) by blast
  then show ?thesis using F(1,2) by blast
qed

text \<open>C23: allocation takes the lowest run of free bytes that the request fits, at the alignment asked for,
  and nothing else. If there is such a run the call returns the memory behind its header, the list of
  free blocks is well formed again and has lost exactly the bytes of the run, the size of a
  tracked allocation stands before the memory, and no word outside free memory is written but
  the anchor's link; if there is none it returns null and changes nothing.\<close>

theorem AllocFromPagePool_exact:
  assumes "pool m a bs" and "\<forall>b \<in> set bs. bend b \<le> 2 ^ 31"
    and "flags AND MEMTYPE_ILLEGAL = 0" and "0 < sint usersize" and "k \<le> 29"
    and "n = round8 (unat usersize + header_of flags k)"
  shows "if \<exists>q. can_hold bs flags k n q
    then \<exists>q r m' bs'. AllocFromSystemPool a usersize flags (mask k) 0 m = Some (r, m')
      \<and> can_hold bs flags k n q \<and> (\<forall>q'. can_hold bs flags k n q' \<longrightarrow> q \<le> q')
      \<and> unat r = q + header_of flags k \<and> pool m' a bs' \<and> bytes_of bs' = bytes_of bs - {q..<q + n}
      \<and> (\<forall>x. x \<noteq> a \<and> unat x \<notin> bytes_of bs \<longrightarrow> m' x = m x)
      \<and> (flags AND MEMTYPE_TRACKSIZE \<noteq> 0 \<longrightarrow> m' (r - 4) = usersize)
    else AllocFromSystemPool a usersize flags (mask k) 0 m = Some (0, m)"
  unfolding assms(6) by (rule alloc_spec [OF assms(1-5)])

lemma example_can_hold: "can_hold example_blocks 0x200 5 112 0x40001018"
  by (simp add: can_hold_def extra_of_def example_blocks_def) auto

theorem AllocFromPagePool_exact_witness:
  "\<exists>r m'. AllocFromSystemPool 0x40000100 100 0x200 (mask 5) 0 example_words = Some (r, m') \<and> m' (r - 4) = 100"
proof -
  have n: "112 = round8 (unat (100 :: u32) + header_of 0x200 5)" by (simp add: round8_def header_of_def)
  have "\<exists>q. can_hold example_blocks 0x200 5 112 q" using example_can_hold ..
  then show ?thesis
    using AllocFromPagePool_exact [OF example_pool example_below _ _ _ n] by auto
qed

text \<open>C24: freeing undoes allocation. Whatever is written to the memory that was allocated, and outside
  free memory, in between, freeing it (by its size, or as tracked memory if its size word
  is intact) restores the list of free blocks from before the allocation.\<close>

theorem alloc_free_roundtrip:
  assumes "pool m a bs" and "\<forall>b \<in> set bs. bend b \<le> 2 ^ 31"
    and "flags AND MEMTYPE_ILLEGAL = 0" and "0 < sint usersize" and "k \<le> 29"
    and "AllocFromSystemPool a usersize flags (mask k) 0 m = Some (r, m')" and "r \<noteq> 0"
    and "m'' a = m' a" and "\<forall>x. unat x \<in> bytes_of bs \<and> (unat x < unat r - header_of flags k
      \<or> unat r - header_of flags k + round8 (unat usersize + header_of flags k) \<le> unat x) \<longrightarrow> m'' x = m' x"
    and "flags AND MEMTYPE_TRACKSIZE \<noteq> 0 \<longrightarrow> m'' (r - 4) = m' (r - 4)"
  shows "\<exists>m3. FreeToPagePool a r (if flags AND MEMTYPE_TRACKSIZE \<noteq> 0 then - 1 else usersize) m'' = Some m3
    \<and> pool m3 a bs"
  by (rule alloc_free [OF assms])

theorem alloc_free_roundtrip_witness:
  "\<exists>r m' m3. AllocFromSystemPool 0x40000100 100 0x200 (mask 5) 0 example_words = Some (r, m')
     \<and> FreeToPagePool 0x40000100 r (- 1) m' = Some m3 \<and> pool m3 0x40000100 example_blocks"
proof -
  have n: "round8 (unat (100 :: u32) + header_of 0x200 5) = 112" by (simp add: round8_def header_of_def)
  have "\<exists>q. can_hold example_blocks 0x200 5 112 q" using example_can_hold ..
  with alloc_spec [OF example_pool example_below, of "0x200" 100 5, unfolded n] obtain q r m' where
    A: "AllocFromSystemPool 0x40000100 100 0x200 (mask 5) 0 example_words = Some (r, m')" "unat r = q + header_of 0x200 5"
    by auto
  then have "r \<noteq> 0" by (auto simp: header_of_def)
  from alloc_free_roundtrip [OF example_pool example_below _ _ _ A(1) this, of m'] A(1) show ?thesis by auto
qed


end
