(* ===== verification/MemControl.thy ===== *)
theory MemControl
  imports PagePool BitArray
begin

text \<open>
  Pages and who may use them (\<open>folios/kernel/mem.c\<close>, \<open>folios/kernel/memstubs.c\<close>): the page pools of the
  tasks with their bit arrays of owned and writable pages, \<open>ControlPagePool\<close> that moves pages
  between them, the checks of memory ranges, and the calls that validate a user's pool before
  they touch it. The semaphore of a pool brackets each of these operations and is left out, as are
  the fences of the memory protection, which are recomputed from the bit arrays.
\<close>

record MemRegion =
  mr_PageSize :: u32
  mr_PageMask :: u32
  mr_PageShift :: nat
  mr_NumPages :: u32
  mr_MemBase :: u32
  mr_MemTop :: u32

text \<open>\<open>pp_FreeBlocks\<close> is the address of the anchor; the bit arrays are null in the supervisor's pool.\<close>

record PagePool =
  pp_FreeBlocks :: u32
  pp_Owner :: "task option"
  pp_OwnedPages :: "bitarray option"
  pp_WritablePages :: bitarray

datatype ControlMemCmds = MEMC_NOWRITE | MEMC_OKWRITE | MEMC_GIVE | MEMC_PERSISTENT

text \<open>
  The tasks of a family (a task and its threads) share the pool \<open>t_PagePool\<close> names. \<open>mem_locks\<close>
  records the calls of the memory lock handlers, \<open>SetPersistent\<close> what the boot code answers when
  persistent memory is registered.
\<close>

record MemState =
  heap :: words
  pools :: "u32 \<Rightarrow> PagePool"
  kb_PagePool :: u32
  t_PagePool :: "task \<Rightarrow> u32"
  kb_Tasks :: "task list"
  t_ThreadTask :: "task \<Rightarrow> bool"
  mr :: MemRegion
  mr_PublicPages :: bitarray
  pm_StartAddress :: u32
  pm_Size :: u32
  mem_locks :: "(task option \<times> u32 \<times> u32) list"

record MemEnv =
  CURRENTTASK :: task
  IsPriv :: "task \<Rightarrow> bool"
  IsSameTaskFamily :: "task \<Rightarrow> task \<Rightarrow> bool"
  CheckTask :: "int \<Rightarrow> task option"
  SetPersistent :: "unit res"

section \<open>Checks of memory ranges\<close>

definition page_of :: "MemRegion \<Rightarrow> u32 \<Rightarrow> u32" where
  "page_of r x = drop_bit (mr_PageShift r) (x - mr_MemBase r)"

definition IsMemInPages :: "MemRegion \<Rightarrow> (u32 \<Rightarrow> u32 \<Rightarrow> bool) \<Rightarrow> u32 \<Rightarrow> u32 \<Rightarrow> bool" where
  "IsMemInPages r test start sz =
     (if sint sz > 0 then
        let e = start + sz in
        if start < e \<and> start \<ge> mr_MemBase r \<and> e \<le> mr_MemTop r
        then test (page_of r start) (drop_bit (mr_PageShift r) (e - mr_MemBase r - 1))
        else False
      else False)"

definition IsMemOwnedPagePool :: "MemState \<Rightarrow> PagePool \<Rightarrow> u32 \<Rightarrow> u32 \<Rightarrow> bool" where
  "IsMemOwnedPagePool s pp p sz =
     IsMemInPages (mr s) (case pp_OwnedPages pp of None \<Rightarrow> (\<lambda>_ _. False) | Some owned \<Rightarrow> IsBitRangeSet owned) p sz"

definition IsMemWritablePagePool :: "MemState \<Rightarrow> PagePool \<Rightarrow> u32 \<Rightarrow> u32 \<Rightarrow> bool" where
  "IsMemWritablePagePool s pp p sz = IsMemInPages (mr s) (IsBitRangeSet (pp_WritablePages pp)) p sz"

definition IsMemUserOwned :: "MemState \<Rightarrow> u32 \<Rightarrow> u32 \<Rightarrow> task \<Rightarrow> bool" where
  "IsMemUserOwned s p sz t = IsMemOwnedPagePool s (pools s (t_PagePool s t)) p sz"

definition IsMemUserWritable :: "MemState \<Rightarrow> u32 \<Rightarrow> u32 \<Rightarrow> task \<Rightarrow> bool" where
  "IsMemUserWritable s p sz t = IsMemWritablePagePool s (pools s (t_PagePool s t)) p sz"

text \<open>Readable is all memory, and the system's ROM.\<close>

definition IsMemReadable :: "MemRegion \<Rightarrow> u32 \<Rightarrow> u32 \<Rightarrow> u32 \<Rightarrow> u32 \<Rightarrow> bool" where
  "IsMemReadable r romBase romEnd start sz =
     (if sz = 0 then True
      else
        let e = start + sz in
        if sint sz < 0 \<or> start > e then False
        else if start \<ge> mr_MemBase r \<and> e \<le> mr_MemTop r then True
        else start \<ge> romBase \<and> e \<le> romEnd)"

section \<open>Control of pages\<close>

definition upd_pool :: "u32 \<Rightarrow> (PagePool \<Rightarrow> PagePool) \<Rightarrow> MemState \<Rightarrow> MemState" where
  "upd_pool i f s = s\<lparr>pools := (pools s)(i := f (pools s i))\<rparr>"

definition own :: "(bitarray \<Rightarrow> bitarray) \<Rightarrow> PagePool \<Rightarrow> PagePool" where
  "own f pp = pp\<lparr>pp_OwnedPages := map_option f (pp_OwnedPages pp)\<rparr>"

definition writable :: "(bitarray \<Rightarrow> bitarray) \<Rightarrow> PagePool \<Rightarrow> PagePool" where
  "writable f pp = pp\<lparr>pp_WritablePages := f (pp_WritablePages pp)\<rparr>"

text \<open>The pools of all tasks that are not threads, one after the other.\<close>

definition all_tasks :: "(bitarray \<Rightarrow> bitarray) \<Rightarrow> MemState \<Rightarrow> MemState" where
  "all_tasks f s = foldl (\<lambda>s t. if t_ThreadTask s t then s else upd_pool (t_PagePool s t) (writable f) s) s (kb_Tasks s)"

definition RemoveWriteAccessAll :: "u32 \<Rightarrow> u32 \<Rightarrow> MemState \<Rightarrow> MemState" where
  "RemoveWriteAccessAll f l = all_tasks (\<lambda>a. ClearBitRange a f l)"

definition GrantWriteAccessAll :: "u32 \<Rightarrow> u32 \<Rightarrow> MemState \<Rightarrow> MemState" where
  "GrantWriteAccessAll f l = all_tasks (\<lambda>a. SetBitRange a f l)"

definition InvokeMemLockHandlers :: "task option \<Rightarrow> u32 \<Rightarrow> u32 \<Rightarrow> MemState \<Rightarrow> MemState" where
  "InvokeMemLockHandlers t p sz s = s\<lparr>mem_locks := mem_locks s @ [(t, p, sz)]\<rparr>"

definition MakeMemPersistent :: "MemEnv \<Rightarrow> u32 \<Rightarrow> u32 \<Rightarrow> MemState \<Rightarrow> unit res \<times> MemState" where
  "MakeMemPersistent env p sz s =
     (if pm_Size s \<noteq> 0 then (Inl NOSUPPORT, s)
      else case SetPersistent env of
        Inl e \<Rightarrow> (Inl e, s)
      | Inr _ \<Rightarrow> (Inr (), s\<lparr>pm_StartAddress := p, pm_Size := sz\<rparr>))"

text \<open>The change itself, on the pages \<open>f\<close> to \<open>l\<close> at \<open>p\<close>; \<open>None\<close> where freeing to the supervisor's pool does not end.\<close>

definition control_task :: "u32 \<Rightarrow> task \<Rightarrow> ControlMemCmds \<Rightarrow> u32 \<Rightarrow> u32 \<Rightarrow> u32 \<Rightarrow> u32 \<Rightarrow> MemState \<Rightarrow> MemState" where
  "control_task pp t cmd p sz f l s =
     (case cmd of
        MEMC_GIVE \<Rightarrow>
          let s = upd_pool pp (own (\<lambda>a. ClearBitRange a f l)) s;
              s = upd_pool (t_PagePool s t) (writable (\<lambda>a. SetBitRange a f l)) s
          in upd_pool (t_PagePool s t) (own (\<lambda>a. SetBitRange a f l)) s
      | MEMC_NOWRITE \<Rightarrow>
          upd_pool (t_PagePool s t) (writable (\<lambda>a. ClearBitRange a f l)) (InvokeMemLockHandlers (Some t) p sz s)
      | MEMC_OKWRITE \<Rightarrow> upd_pool (t_PagePool s t) (writable (\<lambda>a. SetBitRange a f l)) s
      | MEMC_PERSISTENT \<Rightarrow> s)"

definition control_all ::
  "MemEnv \<Rightarrow> u32 \<Rightarrow> ControlMemCmds \<Rightarrow> u32 \<Rightarrow> u32 \<Rightarrow> u32 \<Rightarrow> u32 \<Rightarrow> MemState \<Rightarrow> (unit res \<times> MemState) option" where
  "control_all env pp cmd p sz f l s =
     (case cmd of
        MEMC_GIVE \<Rightarrow>
          let s = InvokeMemLockHandlers None p sz (RemoveWriteAccessAll f l s);
              s = upd_pool pp (own (\<lambda>a. ClearBitRange a f l)) s;
              s = s\<lparr>mr_PublicPages := ClearBitRange (mr_PublicPages s) f l\<rparr>
          in (case FreeToPagePool (pp_FreeBlocks (pools s (kb_PagePool s))) p sz (heap s) of
                None \<Rightarrow> None
              | Some h \<Rightarrow> Some (Inr (), s\<lparr>heap := h\<rparr>))
      | MEMC_NOWRITE \<Rightarrow>
          let s = InvokeMemLockHandlers None p sz (RemoveWriteAccessAll f l s)
          in Some (Inr (), s\<lparr>mr_PublicPages := ClearBitRange (mr_PublicPages s) f l\<rparr>)
      | MEMC_OKWRITE \<Rightarrow>
          let s = GrantWriteAccessAll f l s
          in Some (Inr (), s\<lparr>mr_PublicPages := SetBitRange (mr_PublicPages s) f l\<rparr>)
      | MEMC_PERSISTENT \<Rightarrow>
          (case MakeMemPersistent env p sz s of
             (Inl e, s) \<Rightarrow> Some (Inl e, s)
           | (Inr _, s) \<Rightarrow> Some (Inr (), upd_pool pp (own (\<lambda>a. ClearBitRange a f l)) s)))"

definition ControlPagePool ::
  "MemEnv \<Rightarrow> u32 \<Rightarrow> u32 \<Rightarrow> u32 \<Rightarrow> ControlMemCmds \<Rightarrow> int \<Rightarrow> MemState \<Rightarrow> (unit res \<times> MemState) option" where
  "ControlPagePool env pp p sz cmd taskItem s =
     (let task = (if taskItem = 0 then None else CheckTask env taskItem) in
      if taskItem \<noteq> 0 \<and> (task = None \<or> cmd = MEMC_PERSISTENT) then Some (Inl BADITEM, s)
      else if sint sz \<le> 0 then Some (Inr (), s)
      else if sz > mr_MemTop (mr s) - p then Some (Inl BADPTR, s)
      else
        let delta = p AND mr_PageMask (mr s);
            p = p - delta;
            sz = (sz + delta + mr_PageMask (mr s)) AND NOT (mr_PageMask (mr s));
            f = page_of (mr s) p;
            l = drop_bit (mr_PageShift (mr s)) (p + (sz - 1) - mr_MemBase (mr s));
            foreign = (case pp_OwnedPages (pools s pp) of None \<Rightarrow> False | Some owned \<Rightarrow> \<not> IsBitRangeSet owned f l)
        in if foreign \<and> \<not> IsPriv env (CURRENTTASK env)
              \<and> (cmd \<noteq> MEMC_NOWRITE
                 \<or> (case (task, pp_Owner (pools s pp)) of
                      (Some t, Some owner) \<Rightarrow> \<not> IsSameTaskFamily env t owner
                    | _ \<Rightarrow> True))
           then Some (Inl NOTOWNER, s)
           else case task of
             Some t \<Rightarrow> Some (Inr (), control_task pp t cmd p sz f l s)
           | None \<Rightarrow> control_all env pp cmd p sz f l s)"

definition externalControlMem ::
  "MemEnv \<Rightarrow> u32 \<Rightarrow> u32 \<Rightarrow> ControlMemCmds option \<Rightarrow> int \<Rightarrow> MemState \<Rightarrow> (unit res \<times> MemState) option" where
  "externalControlMem env p sz cmd it s =
     (case cmd of
        None \<Rightarrow> Some (Inl ER_Kr_BadMemCmd, s)
      | Some cmd \<Rightarrow> ControlPagePool env (t_PagePool s (CURRENTTASK env)) p sz cmd it s)"

text \<open>Pages for the current task: cut from the supervisor's pool and given to the task.\<close>

definition internalAllocMemPages ::
  "MemEnv \<Rightarrow> int \<Rightarrow> u32 \<Rightarrow> u32 \<Rightarrow> MemState \<Rightarrow> (u32 \<times> MemState) option" where
  "internalAllocMemPages env taskItem sz flags s =
     (if flags AND (MEMTYPE_ILLEGAL OR MEMTYPE_TRACKSIZE) \<noteq> 0 then Some (0, s)
      else if flags AND MEMTYPE_TYPESMASK \<noteq> 0 then Some (0, s)
      else
        let pageMask = mr_PageSize (mr s) - 1 in
        case AllocFromSystemPool (pp_FreeBlocks (pools s (kb_PagePool s)))
               ((sz + pageMask) AND NOT pageMask) flags pageMask 0 (heap s) of
          None \<Rightarrow> None
        | Some (mem, h) \<Rightarrow>
            let s = s\<lparr>heap := h\<rparr> in
            if mem = 0 then Some (0, s)
            else if taskItem \<ge> 0 then
              (case ControlPagePool env (kb_PagePool s) mem sz MEMC_GIVE taskItem s of
                 None \<Rightarrow> None | Some (_, s) \<Rightarrow> Some (mem, s))
            else Some (mem, s))"

definition internalFreeMemPages :: "MemEnv \<Rightarrow> u32 \<Rightarrow> u32 \<Rightarrow> MemState \<Rightarrow> (unit res \<times> MemState) option" where
  "internalFreeMemPages env p sz s = ControlPagePool env (t_PagePool s (CURRENTTASK env)) p sz MEMC_GIVE 0 s"

section \<open>The pages of a range\<close>

definition region_ok :: "MemRegion \<Rightarrow> bool" where
  "region_ok r \<longleftrightarrow> mr_PageShift r \<le> 29 \<and> mr_PageMask r = mask (mr_PageShift r) \<and> mr_PageSize r = 2 ^ mr_PageShift r
     \<and> 3 \<le> mr_PageShift r \<and> 0 < mr_MemBase r
     \<and> 2 ^ mr_PageShift r dvd unat (mr_MemBase r) \<and> mr_MemBase r \<le> mr_MemTop r \<and> unat (mr_MemTop r) < 2 ^ 31"

definition pages :: "MemRegion \<Rightarrow> u32 \<Rightarrow> u32 \<Rightarrow> nat set" where
  "pages r p sz = {(unat p - unat (mr_MemBase r)) div 2 ^ mr_PageShift r
     ..(unat p + unat sz - 1 - unat (mr_MemBase r)) div 2 ^ mr_PageShift r}"

text \<open>The bytes of these pages.\<close>

definition page_bytes :: "MemRegion \<Rightarrow> u32 \<Rightarrow> u32 \<Rightarrow> nat set" where
  "page_bytes r p sz = {unat p div 2 ^ mr_PageShift r * 2 ^ mr_PageShift r
     ..<((unat p + unat sz - 1) div 2 ^ mr_PageShift r + 1) * 2 ^ mr_PageShift r}"

text \<open>The first and the last page that \<open>ControlPagePool\<close> computes are those of the range.\<close>

lemma control_pages:
  assumes "region_ok r" and "mr_MemBase r \<le> p" and "0 < sint sz" and "sz \<le> mr_MemTop r - p"
    and "delta = p AND mr_PageMask r" and "sz' = (sz + delta + mr_PageMask r) AND NOT (mr_PageMask r)"
    and "f = page_of r (p - delta)"
    and "l = drop_bit (mr_PageShift r) (p - delta + (sz' - 1) - mr_MemBase r)"
    and "p \<le> mr_MemTop r"
  shows "f \<le> l" and "{unat f..unat l} = pages r p sz"
    and "{unat (p - delta)..<unat (p - delta) + unat sz'} = page_bytes r p sz"
    and "0 < sint sz'" and "8 dvd unat (p - delta)" and "p - delta \<noteq> 0"
    and "round8 (unat sz') = unat sz'" and "unat (p - delta) + unat sz' < 2 ^ 32"
proof -
  let ?k = "mr_PageShift r" and ?P = "2 ^ mr_PageShift r :: nat"
  have r: "?k \<le> 29" "mr_PageMask r = mask ?k" "?P dvd unat (mr_MemBase r)" "unat (mr_MemTop r) < 2 ^ 31"
    and r3: "3 \<le> ?k" and r0: "0 < unat (mr_MemBase r)"
    using assms(1) by (auto simp: region_ok_def unat_gt_0)
  have P: "0 < ?P" "?P \<le> 2 ^ 29" using r(1) power_increasing [of ?k 29 "2 :: nat"] by simp_all
  note s = sint_pos [OF assms(3)]
  have top: "unat p + unat sz \<le> unat (mr_MemTop r)"
    using assms(4,9) by (simp add: word_le_nat_alt unat_sub)
  obtain B where B: "unat (mr_MemBase r) = B * ?P" using r(3) by (metis dvdE mult.commute)
  have base: "B * ?P \<le> unat p" using assms(2) B by (simp add: word_le_nat_alt)
  define Q where "Q = unat p div ?P"
  define D where "D = unat p mod ?P"
  have QD: "unat p = Q * ?P + D" "D < ?P" unfolding Q_def D_def using P(1) div_mult_mod_eq [of "unat p" ?P] by simp_all
  have ud: "unat delta = D" unfolding assms(5) r(2) unat_and_mask D_def ..
  have up: "unat (p - delta) = Q * ?P" using ud QD by (subst unat_sub_small) simp_all
  have BQ: "B \<le> Q"
  proof (rule ccontr)
    assume "\<not> B \<le> Q"
    then have "Suc Q * ?P \<le> B * ?P" by (intro mult_le_mono1) simp
    then show False using base QD by simp
  qed
  define S where "S = (unat sz + D + ?P - 1) div ?P"
  have S1: "1 \<le> S" unfolding S_def using s(1) P(1) by (simp add: Suc_le_eq div_greater_zero_iff)
  have SP: "S * ?P \<le> unat sz + D + ?P - 1" unfolding S_def by (rule div_times_less_eq_dividend)
  have um: "unat (mr_PageMask r) = ?P - 1" unfolding r(2) by (rule unat_mask_2p) (use r(1) in simp)
  have sum: "unat (sz + delta + mr_PageMask r) = unat sz + D + ?P - 1"
  proof -
    have "unat (sz + delta) = unat sz + D" using s(2) ud QD(2) P(2) by (subst unat_add_small) simp_all
    then show ?thesis using s(2) QD(2) P um by (subst unat_add_small) simp_all
  qed
  have us: "unat sz' = S * ?P"
    unfolding assms(6) r(2) S_def using unat_and_not_mask [of ?k "sz + delta + mask ?k"] r(1) sum r(2) by simp
  have "?P \<le> S * ?P" using S1 by simp
  then have us1: "unat (sz' - 1) = S * ?P - 1" using us P(1) by (subst unat_sub_small) simp_all
  have "Q * ?P + S * ?P \<le> unat p + unat sz + ?P" using SP QD(1) by simp
  also have "\<dots> < 2 ^ 32" using top r(4) P(2) by simp
  finally have hi: "Q * ?P + S * ?P < 2 ^ 32" .
  have "unat (p - delta + (sz' - 1)) = Q * ?P + (S * ?P - 1)"
    using up us1 hi by (subst unat_add_small) simp_all
  then have ul: "unat (p - delta + (sz' - 1) - mr_MemBase r) = Q * ?P + (S * ?P - 1) - B * ?P"
    using B BQ by (subst unat_sub_small) (simp_all add: trans_le_add1)
  have uf: "unat (p - delta - mr_MemBase r) = Q * ?P - B * ?P"
    using up B BQ by (subst unat_sub_small) simp_all
  have f: "unat f = Q - B"
    unfolding assms(7) page_of_def unat_drop_bit_div uf
    using P(1) by (simp flip: diff_mult_distrib)
  obtain T where T: "S = Suc T" using S1 by (cases S) auto
  have "Q * ?P + (S * ?P - 1) - B * ?P = (?P - 1) + (Q - B + T) * ?P"
  proof -
    obtain C where "Q = B + C" using BQ le_Suc_ex by blast
    then show ?thesis using P(1) T by (simp add: algebra_simps)
  qed
  also have "\<dots> div ?P = Q - B + T" using P(1) by (subst div_mult_self1) simp_all
  finally have l: "unat l = Q - B + T" unfolding assms(8) unat_drop_bit_div ul .
  show "f \<le> l" using f l by (simp add: word_le_nat_alt)
  have "(unat p - B * ?P) div ?P = Q - B"
  proof -
    obtain C where "Q = B + C" using BQ le_Suc_ex by blast
    then show ?thesis using QD P(1) by (simp add: algebra_simps)
  qed
  moreover have DT: "(D + unat sz - 1) div ?P = T"
  proof -
    have "unat sz + D + ?P - 1 = (D + unat sz - 1) + ?P" using s(1) by simp
    then have "S = (D + unat sz - 1) div ?P + 1"
      unfolding S_def using P(1) by (simp only: div_add_self2)
    then show ?thesis using T by simp
  qed
  moreover have "(unat p + unat sz - 1 - B * ?P) div ?P = Q - B + T"
  proof -
    have "unat p + unat sz - 1 - B * ?P = (D + unat sz - 1) + (Q - B) * ?P"
    proof -
      obtain C where "Q = B + C" using BQ le_Suc_ex by blast
      then show ?thesis using QD(1) s(1) by (simp add: algebra_simps)
    qed
    then show ?thesis using DT P(1) by simp
  qed
  ultimately show "{unat f..unat l} = pages r p sz" unfolding pages_def B f l by simp
  have "unat p + unat sz - 1 = (D + unat sz - 1) + Q * ?P" using QD(1) s(1) by simp
  then have QT: "(unat p + unat sz - 1) div ?P = Q + T" using DT P(1) by simp
  have QS: "Q * ?P + S * ?P = (Q + T + 1) * ?P" unfolding T by (simp add: algebra_simps)
  show "{unat (p - delta)..<unat (p - delta) + unat sz'} = page_bytes r p sz"
    by (simp only: page_bytes_def up us QT QS Q_def [symmetric])
  have d8: "8 dvd ?P" using le_imp_power_dvd [OF r3, of "2 :: nat"] by simp
  then show "8 dvd unat (p - delta)" unfolding up by simp
  have "B \<noteq> 0" using B r0 by (cases B) simp_all
  then have Q1: "?P \<le> Q * ?P" using BQ by simp
  then show "p - delta \<noteq> 0" using up P(1) by (auto simp: unat_eq_0 [symmetric])
  show "round8 (unat sz') = unat sz'" unfolding us round8_def using d8 by (auto simp: dvd_def)
  show "unat (p - delta) + unat sz' < 2 ^ 32" unfolding up us by (rule hi)
  have "(Q + T) * ?P \<le> unat p + unat sz - 1" using QT by (metis div_times_less_eq_dividend)
  then have "(Q + T) * ?P < 2 ^ (31 - ?k) * ?P" using top r(1,4) s(1) by (simp flip: power_add)
  then have "Q + T + 1 \<le> 2 ^ (31 - ?k)" by simp
  then have "(Q + T + 1) * ?P \<le> 2 ^ (31 - ?k) * ?P" by (rule mult_le_mono1)
  then have "Q * ?P + S * ?P \<le> 2 ^ 31" unfolding QS using r(1) by (simp flip: power_add)
  then have "unat sz' < 2 ^ 31" unfolding us using Q1 P(1) by linarith
  then show "0 < sint sz'" using us1 us S1 P(1) by (simp add: sint_small)
qed

section \<open>Ownership of pages\<close>

definition owned :: "MemState \<Rightarrow> u32 \<Rightarrow> nat set" where
  "owned s i = (case pp_OwnedPages (pools s i) of None \<Rightarrow> {} | Some a \<Rightarrow> bitset a)"

definition may_write :: "MemState \<Rightarrow> u32 \<Rightarrow> nat set" where
  "may_write s i = bitset (pp_WritablePages (pools s i))"

text \<open>No page is owned by two pools, and the supervisor's pool has no bit array.\<close>

definition one_owner :: "MemState \<Rightarrow> bool" where
  "one_owner s \<longleftrightarrow> (\<forall>i j. i \<noteq> j \<longrightarrow> owned s i \<inter> owned s j = {})"

lemma upd_pool_sel [simp]:
  "pools (upd_pool i f s) j = (if j = i then f (pools s i) else pools s j)"
  "t_PagePool (upd_pool i f s) = t_PagePool s" "kb_PagePool (upd_pool i f s) = kb_PagePool s"
  "heap (upd_pool i f s) = heap s" "mr (upd_pool i f s) = mr s"
  by (simp_all add: upd_pool_def)

lemma owned_writable [simp]: "owned (upd_pool i (writable g) s) = owned s"
  by (simp add: owned_def writable_def fun_eq_iff)

lemma owned_clear:
  "f \<le> l \<Longrightarrow> owned (upd_pool i (own (\<lambda>a. ClearBitRange a f l)) s) j = (if j = i then owned s j - {unat f..unat l} else owned s j)"
  by (auto simp: owned_def own_def bitset_ClearBitRange split: option.splits)

lemma owned_set:
  "f \<le> l \<Longrightarrow> owned (upd_pool i (own (\<lambda>a. SetBitRange a f l)) s) j =
     (if j = i \<and> pp_OwnedPages (pools s i) \<noteq> None then owned s j \<union> {unat f..unat l} else owned s j)"
  by (auto simp: owned_def own_def bitset_SetBitRange split: option.splits)

lemma owned_all_tasks: "owned (all_tasks f s) = owned s"
proof -
  have "owned (foldl (\<lambda>s t. if t_ThreadTask s t then s else upd_pool (t_PagePool s t) (writable f) s) s ts) = owned s" for ts
    by (induction ts arbitrary: s) (auto simp: owned_writable)
  then show ?thesis by (simp add: all_tasks_def)
qed

lemma owned_frame [simp]:
  "owned (s\<lparr>mr_PublicPages := x\<rparr>) = owned s" "owned (s\<lparr>heap := h\<rparr>) = owned s"
  "owned (InvokeMemLockHandlers t p sz s) = owned s" "owned (s\<lparr>pm_StartAddress := p, pm_Size := sz\<rparr>) = owned s"
  by (simp_all add: owned_def InvokeMemLockHandlers_def fun_eq_iff)

lemma may_write_upd [simp]:
  "may_write (upd_pool i (own g) s) = may_write s" "may_write (s\<lparr>mr_PublicPages := x\<rparr>) = may_write s"
  "may_write (s\<lparr>heap := h\<rparr>) = may_write s" "may_write (InvokeMemLockHandlers t p sz s) = may_write s"
  by (simp_all add: may_write_def own_def InvokeMemLockHandlers_def fun_eq_iff)

lemma may_write_set:
  "f \<le> l \<Longrightarrow> may_write (upd_pool i (writable (\<lambda>a. SetBitRange a f l)) s) j =
     (if j = i then may_write s j \<union> {unat f..unat l} else may_write s j)"
  "f \<le> l \<Longrightarrow> may_write (upd_pool i (writable (\<lambda>a. ClearBitRange a f l)) s) j =
     (if j = i then may_write s j - {unat f..unat l} else may_write s j)"
  by (simp_all add: may_write_def writable_def bitset_SetBitRange bitset_ClearBitRange)

text \<open>The pools of tasks that are not threads.\<close>

definition task_pools :: "MemState \<Rightarrow> u32 set" where
  "task_pools s = {t_PagePool s t |t. t \<in> set (kb_Tasks s) \<and> \<not> t_ThreadTask s t}"

lemma may_write_RemoveAll:
  assumes "f \<le> l"
  shows "may_write (RemoveWriteAccessAll f l s) i =
    (if i \<in> task_pools s then may_write s i - {unat f..unat l} else may_write s i)"
proof -
  let ?step = "\<lambda>s t. if t_ThreadTask s t then s else upd_pool (t_PagePool s t) (writable (\<lambda>a. ClearBitRange a f l)) s"
  have "may_write (foldl ?step s ts) i =
      (if \<exists>t \<in> set ts. \<not> t_ThreadTask s t \<and> t_PagePool s t = i then may_write s i - {unat f..unat l} else may_write s i)" for ts
  proof (induction ts arbitrary: s)
    case (Cons t ts)
    show ?case
    proof (cases "t_ThreadTask s t")
      case True
      then show ?thesis using Cons [of s] by simp
    next
      case False
      then have "may_write (foldl ?step s (t # ts)) i =
          (if \<exists>u \<in> set ts. \<not> t_ThreadTask s u \<and> t_PagePool s u = i
           then may_write (?step s t) i - {unat f..unat l} else may_write (?step s t) i)"
        using Cons [of "?step s t"] by (simp add: upd_pool_def)
      moreover have "may_write (?step s t) i = (if i = t_PagePool s t then may_write s i - {unat f..unat l} else may_write s i)"
        using False by (simp add: may_write_set [OF assms])
      ultimately show ?thesis using False by auto
    qed
  qed simp
  then show ?thesis by (auto simp: RemoveWriteAccessAll_def all_tasks_def task_pools_def)
qed

lemma owned_RemoveAll: "owned (RemoveWriteAccessAll f l s) = owned s" "owned (GrantWriteAccessAll f l s) = owned s"
  by (simp_all add: RemoveWriteAccessAll_def GrantWriteAccessAll_def owned_all_tasks)

text \<open>What each pool owns after a successful call, where \<open>to\<close> is the pool of the receiving task.\<close>

definition owned_after :: "ControlMemCmds \<Rightarrow> u32 \<Rightarrow> u32 option \<Rightarrow> nat set \<Rightarrow> (u32 \<Rightarrow> nat set) \<Rightarrow> u32 \<Rightarrow> nat set" where
  "owned_after cmd pp to P ow i =
     (case cmd of
        MEMC_GIVE \<Rightarrow> if to = Some i then ow i \<union> P else if i = pp then ow i - P else ow i
      | MEMC_PERSISTENT \<Rightarrow> if i = pp then ow i - P else ow i
      | _ \<Rightarrow> ow i)"

lemma owned_control_task:
  assumes "f \<le> l" and "pp_OwnedPages (pools s (t_PagePool s t)) \<noteq> None" and "cmd \<noteq> MEMC_PERSISTENT"
  shows "owned (control_task pp t cmd p sz f l s) = owned_after cmd pp (Some (t_PagePool s t)) {unat f..unat l} (owned s)"
  using assms by (auto simp: fun_eq_iff control_task_def Let_def owned_after_def owned_clear owned_set own_def writable_def
      split: ControlMemCmds.split)

lemma owned_control_all:
  assumes "f \<le> l" and "control_all env pp cmd p sz f l s = Some (r, s')"
  shows "(r = Inr () \<longrightarrow> owned s' = owned_after cmd pp None {unat f..unat l} (owned s)) \<and> (\<forall>e. r = Inl e \<longrightarrow> s' = s)"
    and "cmd = MEMC_GIVE \<Longrightarrow> i \<in> task_pools s \<Longrightarrow> may_write s' i = may_write s i - {unat f..unat l}"
  using assms
  by (auto simp: fun_eq_iff control_all_def Let_def owned_after_def owned_clear owned_RemoveAll may_write_RemoveAll MakeMemPersistent_def
      split: ControlMemCmds.splits option.splits if_splits sum.splits)

section \<open>The whole operation\<close>

lemma all_tasks_frame:
  "heap (all_tasks g s) = heap s \<and> kb_PagePool (all_tasks g s) = kb_PagePool s
   \<and> pp_FreeBlocks (pools (all_tasks g s) i) = pp_FreeBlocks (pools s i)"
proof -
  have "heap s' = heap s \<and> kb_PagePool s' = kb_PagePool s \<and> pp_FreeBlocks (pools s' i) = pp_FreeBlocks (pools s i)"
    if "s' = foldl (\<lambda>s t. if t_ThreadTask s t then s else upd_pool (t_PagePool s t) (writable g) s) s ts" for s' ts
    using that by (induction ts arbitrary: s) (simp_all add: writable_def)
  then show ?thesis by (simp add: all_tasks_def)
qed

lemmas access_frame = all_tasks_frame [where g = "\<lambda>a. ClearBitRange a f l" for f l, folded RemoveWriteAccessAll_def]
  all_tasks_frame [where g = "\<lambda>a. SetBitRange a f l" for f l, folded GrantWriteAccessAll_def]

definition anchor :: "MemState \<Rightarrow> u32" where
  "anchor s = pp_FreeBlocks (pools s (kb_PagePool s))"

text \<open>Giving to the system adds the bytes to free memory; no other command changes it.\<close>

lemma control_all_heap:
  assumes "pool (heap s) (anchor s) bs" and "0 < sint sz" and "8 dvd unat p" and "p \<noteq> 0"
    and "round8 (unat sz) = unat sz" and "unat p + unat sz < 2 ^ 32"
    and "{unat p..<unat p + unat sz} \<inter> bytes_of bs = {}" and "unat (anchor s) \<notin> {unat p..<unat p + unat sz}"
  shows "\<exists>r s' bs'. control_all env pp cmd p sz f l s = Some (r, s') \<and> pool (heap s') (anchor s) bs'
    \<and> (cmd \<noteq> MEMC_PERSISTENT \<longrightarrow> r = Inr ()) \<and> bytes_of bs' = bytes_of bs \<union> (if cmd = MEMC_GIVE then {unat p..<unat p + unat sz} else {})"
proof -
  note sz = sint_pos [OF assms(2)]
  have R: "ROUND_ALLOC_SIZE sz = sz"
    using unat_ROUND [of sz] sz(2) assms(5) by (simp add: word_unat_eq_iff)
  have "8 dvd unat sz" using round8_dvd [of "unat sz"] assms(5) by simp
  then have b: "block_ok (p, sz)" using assms(3,4,6) sz by (auto simp: block_ok_def unat_gt_0)
  obtain m' bs' where F: "FreeToPagePool (anchor s) p sz (heap s) = Some m'" "pool m' (anchor s) bs'"
    "bytes_of bs' = bytes_of bs \<union> {unat p..<unat p + unat sz}"
    using FreeToPagePool_ok [where p = p and s = sz, OF assms(1), unfolded R, OF b assms(2) assms(7,8)] by blast
  have "\<exists>r s'. control_all env pp cmd p sz f l s = Some (r, s') \<and> (cmd \<noteq> MEMC_PERSISTENT \<longrightarrow> r = Inr ())
      \<and> heap s' = (if cmd = MEMC_GIVE then m' else heap s)"
    using F(1) access_frame
    by (auto simp: control_all_def Let_def MakeMemPersistent_def InvokeMemLockHandlers_def own_def anchor_def
        split: ControlMemCmds.split sum.split)
  then show ?thesis using F assms(1) by (cases "cmd = MEMC_GIVE") auto
qed

text \<open>The task that a call names, and the ground on which it is refused, said with sets of pages.\<close>

definition named_task :: "MemEnv \<Rightarrow> int \<Rightarrow> task option" where
  "named_task env it = (if it = 0 then None else CheckTask env it)"

definition refused :: "MemEnv \<Rightarrow> u32 \<Rightarrow> ControlMemCmds \<Rightarrow> task option \<Rightarrow> nat set \<Rightarrow> MemState \<Rightarrow> bool" where
  "refused env pp cmd task P s \<longleftrightarrow>
     pp_OwnedPages (pools s pp) \<noteq> None \<and> \<not> P \<subseteq> owned s pp \<and> \<not> IsPriv env (CURRENTTASK env)
     \<and> (cmd = MEMC_NOWRITE \<longrightarrow>
          (\<forall>t owner. task = Some t \<and> pp_Owner (pools s pp) = Some owner \<longrightarrow> \<not> IsSameTaskFamily env t owner))"

lemma ControlPagePool_cases:
  assumes "region_ok (mr s)" and "mr_MemBase (mr s) \<le> p" and "p \<le> mr_MemTop (mr s)" and "0 < sint sz"
    and "sz \<le> mr_MemTop (mr s) - p"
  obtains p' sz' f l where
    "f \<le> l" "{unat f..unat l} = pages (mr s) p sz" "{unat p'..<unat p' + unat sz'} = page_bytes (mr s) p sz"
    "0 < sint sz'" "8 dvd unat p'" "p' \<noteq> 0" "round8 (unat sz') = unat sz'" "unat p' + unat sz' < 2 ^ 32"
    "ControlPagePool env pp p sz cmd it s =
       (if it \<noteq> 0 \<and> (CheckTask env it = None \<or> cmd = MEMC_PERSISTENT) then Some (Inl BADITEM, s)
        else if refused env pp cmd (named_task env it) (pages (mr s) p sz) s then Some (Inl NOTOWNER, s)
        else case named_task env it of
          Some t \<Rightarrow> Some (Inr (), control_task pp t cmd p' sz' f l s)
        | None \<Rightarrow> control_all env pp cmd p' sz' f l s)"
proof -
  define delta where "delta = p AND mr_PageMask (mr s)"
  define sz' where "sz' = (sz + delta + mr_PageMask (mr s)) AND NOT (mr_PageMask (mr s))"
  define f where "f = page_of (mr s) (p - delta)"
  define l where "l = drop_bit (mr_PageShift (mr s)) (p - delta + (sz' - 1) - mr_MemBase (mr s))"
  note P = control_pages [OF assms(1,2,4,5) delta_def sz'_def f_def l_def assms(3)]
  have foreign: "(case pp_OwnedPages (pools s pp) of None \<Rightarrow> False | Some a \<Rightarrow> \<not> IsBitRangeSet a f l)
      \<longleftrightarrow> pp_OwnedPages (pools s pp) \<noteq> None \<and> \<not> pages (mr s) p sz \<subseteq> owned s pp"
    using P(1,2) by (simp add: owned_def IsBitRangeSet_bitset split: option.split)
  have family: "(cmd \<noteq> MEMC_NOWRITE \<or> (case (task, pp_Owner (pools s pp)) of
        (Some t, Some owner) \<Rightarrow> \<not> IsSameTaskFamily env t owner | _ \<Rightarrow> True))
      \<longleftrightarrow> (cmd = MEMC_NOWRITE \<longrightarrow>
        (\<forall>t owner. task = Some t \<and> pp_Owner (pools s pp) = Some owner \<longrightarrow> \<not> IsSameTaskFamily env t owner))" for task
    by (cases task; cases "pp_Owner (pools s pp)") auto
  have range: "sint sz \<le> 0 \<longleftrightarrow> False" "mr_MemTop (mr s) - p < sz \<longleftrightarrow> False" using assms(4,5) by simp_all
  have task: "it \<noteq> 0 \<and> (named_task env it = None \<or> Q) \<longleftrightarrow> it \<noteq> 0 \<and> (CheckTask env it = None \<or> Q)" for Q
    by (simp add: named_task_def)
  have "ControlPagePool env pp p sz cmd it s =
       (if it \<noteq> 0 \<and> (CheckTask env it = None \<or> cmd = MEMC_PERSISTENT) then Some (Inl BADITEM, s)
        else if refused env pp cmd (named_task env it) (pages (mr s) p sz) s then Some (Inl NOTOWNER, s)
        else case named_task env it of
          Some t \<Rightarrow> Some (Inr (), control_task pp t cmd (p - delta) sz' f l s)
        | None \<Rightarrow> control_all env pp cmd (p - delta) sz' f l s)"
    unfolding ControlPagePool_def named_task_def [symmetric] Let_def refused_def range if_False task
      delta_def [symmetric] sz'_def [symmetric] f_def [symmetric] l_def [symmetric] foreign family
    by (simp only: conj_assoc)
  then show thesis using that P by blast
qed

lemma named_task_0: "(it = 0 \<Longrightarrow> named_task env it = None)" by (simp add: named_task_def)

lemma one_owner_after:
  assumes "\<And>i j. i \<noteq> j \<Longrightarrow> ow i \<inter> ow j = {}" and "cmd = MEMC_GIVE \<Longrightarrow> P \<subseteq> ow pp" and "i \<noteq> j"
  shows "owned_after cmd pp to P ow i \<inter> owned_after cmd pp to P ow j = {}"
  using assms(1) [of i j] assms(1) [of pp i] assms(1) [of pp j] assms(2,3)
  by (cases cmd; cases "i = pp"; cases "j = pp"; cases "to = Some i"; cases "to = Some j")
    (auto simp: owned_after_def)

section \<open>Properties\<close>


definition example_region :: MemRegion where
  "example_region = \<lparr>mr_PageSize = 0x1000, mr_PageMask = 0xFFF, mr_PageShift = 12, mr_NumPages = 0x400,
     mr_MemBase = 0x40000000, mr_MemTop = 0x403FFFFF\<rparr>"

text \<open>Task 1 owns the pages 8 and 9, task 2 none; the supervisor's pool is pool 0.\<close>

definition example_state :: MemState where
  "example_state = \<lparr>heap = example_words,
     pools = (\<lambda>i. \<lparr>pp_FreeBlocks = 0x40000100, pp_Owner = (if i = 0 then None else Some i),
       pp_OwnedPages = (if i = 0 then None else Some (if i = 1 then SetBitRange (\<lambda>_. 0) 8 9 else (\<lambda>_. 0))),
       pp_WritablePages = (if i = 1 then SetBitRange (\<lambda>_. 0) 8 9 else (\<lambda>_. 0))\<rparr>),
     kb_PagePool = 0, t_PagePool = (\<lambda>t. if t = 1 then 1 else 2), kb_Tasks = [1, 2], t_ThreadTask = (\<lambda>_. False),
     mr = example_region, mr_PublicPages = (\<lambda>_. 0), pm_StartAddress = 0, pm_Size = 0, mem_locks = []\<rparr>"

definition example_env :: MemEnv where
  "example_env = \<lparr>CURRENTTASK = 1, IsPriv = (\<lambda>_. False), IsSameTaskFamily = (=),
     CheckTask = (\<lambda>it. if it = 5 then Some 2 else None), SetPersistent = Inl NOSUPPORT\<rparr>"

lemma example_region_ok: "region_ok (mr example_state)"
  by (simp add: region_ok_def example_state_def example_region_def mask_eq_exp_minus_1 dvd_def)

lemma bitset_empty: "bitset (\<lambda>_. 0) = {}" by (simp add: bitset_def abit_def)

lemma example_owned:
  "owned example_state i = (if i = 1 then {8, 9} else {})" "may_write example_state i = (if i = 1 then {8, 9} else {})"
proof -
  have "bitset (SetBitRange (\<lambda>_. 0) 8 9) = {8, 9}"
    by (subst bitset_SetBitRange) (auto simp: bitset_empty)
  then show "owned example_state i = (if i = 1 then {8, 9} else {})" "may_write example_state i = (if i = 1 then {8, 9} else {})"
    by (simp_all add: owned_def may_write_def example_state_def bitset_empty)
qed

lemma example_state_sel [simp]:
  "heap example_state = example_words" "anchor example_state = 0x40000100" "mr example_state = example_region"
  "task_pools example_state = {1, 2}" "t_PagePool example_state t = (if t = 1 then 1 else 2)"
  by (auto simp: anchor_def example_state_def task_pools_def)

lemma example_pages:
  "pages example_region 0x40008000 0x1000 = {8}" "page_bytes example_region 0x40008000 0x1000 = {0x40008000..<0x40009000}"
  by (simp_all add: pages_def page_bytes_def example_region_def)

lemma example_pools:
  "pp_OwnedPages (pools example_state i) = None \<longleftrightarrow> i = 0"
  by (simp add: example_state_def)

lemma example_env_sel [simp]:
  "CURRENTTASK example_env = 1" "IsPriv example_env t = False" "CheckTask example_env it = (if it = 5 then Some 2 else None)"
  by (simp_all add: example_env_def)

lemma example_named: "named_task example_env 0 = None" "named_task example_env 5 = Some 2" "named_task example_env it = Some t \<Longrightarrow> t = 2"
  by (auto simp: named_task_def split: if_splits)

lemma example_disjoint: "{0x40008000..<0x40009000} \<inter> bytes_of example_blocks = {}"
  by (auto simp: example_blocks_def)




text \<open>C28: the last page of memory is handed out without being given to the task. For
  pages that end at \<open>mr_MemTop\<close>, the last byte of memory, \<open>ControlPagePool\<close> answers \<open>BADPTR\<close>, since it compares
  the size with \<open>mr_MemTop - p\<close>; \<open>internalAllocMemPages\<close> ignores the answer and returns the pages, which
  no task owns or may write.\<close>

theorem AllocMemPages_last_page:
  assumes "AllocFromSystemPool (anchor s) ((sz + (mr_PageSize (mr s) - 1)) AND NOT (mr_PageSize (mr s) - 1)) flags
      (mr_PageSize (mr s) - 1) 0 (heap s) = Some (mem, h)"
    and "mem \<noteq> 0" and "0 < sint sz" and "unat mem + unat sz = unat (mr_MemTop (mr s)) + 1"
    and "flags AND (MEMTYPE_ILLEGAL OR MEMTYPE_TRACKSIZE) = 0" and "flags AND MEMTYPE_TYPESMASK = 0"
  shows "\<exists>s'. internalAllocMemPages env it sz flags s = Some (mem, s') \<and> owned s' = owned s \<and> may_write s' = may_write s"
proof -
  have "unat (mr_MemTop (mr s) - mem) = unat sz - 1"
    using assms(4) sint_pos [OF assms(3)] by (subst unat_sub_small) simp_all
  then have "mr_MemTop (mr s) - mem < sz"
    using sint_pos [OF assms(3)] by (simp add: word_less_nat_alt)
  then have "\<exists>e. ControlPagePool env pp mem sz MEMC_GIVE it s' = Some (Inl e, s')" if "mr s' = mr s" for s' pp
    using assms(3) that by (auto simp: ControlPagePool_def Let_def)
  then obtain e where "ControlPagePool env (kb_PagePool s) mem sz MEMC_GIVE it (s\<lparr>heap := h\<rparr>) = Some (Inl e, s\<lparr>heap := h\<rparr>)"
    by (metis MemState.select_convs(7) MemState.update_convs(1) MemState.surjective)
  then have "internalAllocMemPages env it sz flags s = Some (mem, s\<lparr>heap := h\<rparr>)"
    using assms(1,2,5,6) by (simp add: internalAllocMemPages_def anchor_def Let_def)
  then show ?thesis by (simp add: owned_frame may_write_upd)
qed

definition last_page_state :: MemState where
  "last_page_state = example_state\<lparr>heap := \<lambda>x. if x = 0x40000100 then 0x403FF000 else if x = 0x403FF004 then 0x1000 else 0\<rparr>"

theorem AllocMemPages_last_page_witness:
  "\<exists>s'. internalAllocMemPages example_env 5 0x1000 0 last_page_state = Some (0x403FF000, s') \<and> owned s' 2 = {}"
proof -
  have r: "alloc_request 0x1000 0 0xFFF 0 = Some (0x1000, 0, 0xFFF, 0)"
    by code_simp
  have "\<exists>h. AllocFromSystemPool 0x40000100 0x1000 0 0xFFF 0 (heap last_page_state) = Some (0x403FF000, h)"
    unfolding AllocFromSystemPool_def r
    by (subst alloc_scan.simps)
      (simp add: last_page_state_def fb_Next_def fb_Size_def Let_def put_leftover_def
        set_fb_Next_def set_fb_Size_def alloc_finish_def)
  then obtain h where h: "AllocFromSystemPool 0x40000100 0x1000 0 0xFFF 0 (heap last_page_state) = Some (0x403FF000, h)" ..
  have s: "anchor last_page_state = 0x40000100" "mr last_page_state = example_region"
    "owned last_page_state = owned example_state"
    by (simp_all only: last_page_state_def owned_frame) (simp_all add: anchor_def example_state_def)
  from AllocMemPages_last_page [where s = last_page_state and sz = "0x1000" and flags = 0 and mem = "0x403FF000"
      and env = example_env and it = 5 and h = h] h
  show ?thesis by (auto simp: s example_region_def example_owned)
qed

end
