(* ===== verification/MemUser.thy ===== *)
theory MemUser
  imports MemControl
begin

text \<open>
  Memory of tasks (\<open>folios/kernel/mem.c\<close>): the return of whole free pages to the system, allocation
  from the pool of a task, the counts of memory, and the calls by which the supervisor
  works on the pool of a task. The free list of a task's pool lies in memory that the task writes,
  so these calls check it first.
\<close>

section \<open>Returning whole pages\<close>

text \<open>\<open>fb_Size\<close> and \<open>fb_Next\<close> of a block are read again after each call that may change them.\<close>

definition split_head :: "u32 \<Rightarrow> u32 \<Rightarrow> words \<Rightarrow> words" where
  "split_head fb headSlop m =
     (let new = fb + headSlop;
          m = set_fb_Next new (fb_Next m fb) m;
          m = set_fb_Size new (fb_Size m fb - headSlop) m;
          m = set_fb_Next fb new m
      in set_fb_Size fb headSlop m)"

definition split_tail :: "u32 \<Rightarrow> u32 \<Rightarrow> words \<Rightarrow> words" where
  "split_tail fb tailSlop m =
     (let new = fb + fb_Size m fb - tailSlop;
          m = set_fb_Next new (fb_Next m fb) m;
          m = set_fb_Size new tailSlop m;
          m = set_fb_Next fb new m
      in set_fb_Size fb (fb_Size m fb - tailSlop) m)"

partial_function (option) scavenge_loop ::
  "MemEnv \<Rightarrow> u32 \<Rightarrow> u32 \<Rightarrow> u32 \<Rightarrow> MemState \<Rightarrow> (u32 \<times> MemState) option" where
  "scavenge_loop env prev fb tot s =
     (if fb = 0 then Some (tot, s)
      else
        let m = heap s; pageSize = mr_PageSize (mr s); pageMask = mr_PageMask (mr s);
            headSlop = (if fb AND pageMask \<noteq> 0 then pageSize - (fb AND pageMask) else 0);
            sz = fb_Size m fb - headSlop
        in if fb_Size m fb \<ge> pageSize \<and> sz \<ge> pageSize then
             let (prev, fb, m) = (if headSlop \<noteq> 0 then (fb, fb + headSlop, split_head fb headSlop m) else (prev, fb, m));
                 tailSlop = sz AND pageMask;
                 m = (if tailSlop \<noteq> 0 then split_tail fb tailSlop m else m);
                 m = set_fb_Next prev (fb_Next m fb) m
             in case externalControlMem env fb (fb_Size m fb) (Some MEMC_GIVE) 0 (s\<lparr>heap := m\<rparr>) of
                  None \<Rightarrow> None
                | Some (_, s) \<Rightarrow> scavenge_loop env prev (fb_Next (heap s) prev) (tot + fb_Size m fb) s
           else scavenge_loop env fb (fb_Next m fb) tot s)"

definition ScavengePagePool :: "MemEnv \<Rightarrow> u32 \<Rightarrow> MemState \<Rightarrow> (u32 \<times> MemState) option" where
  "ScavengePagePool env pp s =
     (let prev = pp_FreeBlocks (pools s pp) in scavenge_loop env prev (fb_Next (heap s) prev) 0 s)"

definition ScavengeMem :: "MemEnv \<Rightarrow> MemState \<Rightarrow> (u32 \<times> MemState) option" where
  "ScavengeMem env s = ScavengePagePool env (t_PagePool s (CURRENTTASK env)) s"

section \<open>Allocation from any pool\<close>

text \<open>
  A pool with an owner returns its whole pages and asks for more when no block is large
  enough, and searches again; \<open>None\<close> where that does not end. \<open>taskItem\<close> is the item of the current task.
\<close>

partial_function (option) alloc_restart ::
  "MemEnv \<Rightarrow> int \<Rightarrow> u32 \<Rightarrow> u32 \<Rightarrow> u32 \<Rightarrow> u32 \<Rightarrow> u32 \<Rightarrow> u32 \<Rightarrow> MemState \<Rightarrow> (u32 option \<times> MemState) option" where
  "alloc_restart env taskItem pp flags reqsize extra careBits stateBits s =
     (let a = pp_FreeBlocks (pools s pp) in
      case alloc_scan (heap s) reqsize extra careBits stateBits a (fb_Next (heap s) a) 0 of
        None \<Rightarrow> None
      | Some (Inr (result, m)) \<Rightarrow> Some (Some result, s\<lparr>heap := m\<rparr>)
      | Some (Inl shortfall) \<Rightarrow>
          if pp_Owner (pools s pp) = None then Some (None, s)
          else case ScavengePagePool env pp s of
            None \<Rightarrow> None
          | Some (_, s) \<Rightarrow>
              (case internalAllocMemPages env taskItem (reqsize + shortfall) (flags AND MEMTYPE_TYPESMASK) s of
                 None \<Rightarrow> None
               | Some (result, s) \<Rightarrow>
                   if result = 0 then Some (None, s)
                   else case FreeToPagePool (pp_FreeBlocks (pools s pp)) result (heap s result) (heap s) of
                     None \<Rightarrow> None
                   | Some m \<Rightarrow> alloc_restart env taskItem pp flags reqsize extra careBits stateBits (s\<lparr>heap := m\<rparr>)))"

definition AllocFromPagePool ::
  "MemEnv \<Rightarrow> int \<Rightarrow> u32 \<Rightarrow> u32 \<Rightarrow> u32 \<Rightarrow> u32 \<Rightarrow> u32 \<Rightarrow> MemState \<Rightarrow> (u32 \<times> MemState) option" where
  "AllocFromPagePool env taskItem pp usersize flags careBits stateBits s =
     (case alloc_request usersize flags careBits stateBits of
        None \<Rightarrow> Some (0, s)
      | Some (reqsize, extra, careBits, stateBits) \<Rightarrow>
          (case alloc_restart env taskItem pp flags reqsize extra careBits stateBits s of
             None \<Rightarrow> None
           | Some (None, s) \<Rightarrow> Some (0, s)
           | Some (Some result, s) \<Rightarrow>
               let (result, m) = alloc_finish usersize flags careBits extra reqsize result (heap s)
               in Some (result, s\<lparr>heap := m\<rparr>)))"

definition AllocUserMem :: "MemEnv \<Rightarrow> int \<Rightarrow> u32 \<Rightarrow> u32 \<Rightarrow> task \<Rightarrow> MemState \<Rightarrow> (u32 \<times> MemState) option" where
  "AllocUserMem env taskItem sz flags t s = AllocFromPagePool env taskItem (t_PagePool s t) sz flags 0 0 s"

definition FreeUserMem :: "u32 \<Rightarrow> u32 \<Rightarrow> task \<Rightarrow> MemState \<Rightarrow> MemState option" where
  "FreeUserMem p sz t s =
     map_option (\<lambda>m. s\<lparr>heap := m\<rparr>) (FreeToPagePool (pp_FreeBlocks (pools s (t_PagePool s t))) p sz (heap s))"

definition SuperAllocMemMasked :: "MemEnv \<Rightarrow> int \<Rightarrow> u32 \<Rightarrow> u32 \<Rightarrow> u32 \<Rightarrow> u32 \<Rightarrow> MemState \<Rightarrow> (u32 \<times> MemState) option" where
  "SuperAllocMemMasked env taskItem sz flags careBits stateBits s =
     AllocFromPagePool env taskItem (kb_PagePool s) sz flags careBits stateBits s"

definition SuperAllocMem :: "MemEnv \<Rightarrow> int \<Rightarrow> u32 \<Rightarrow> u32 \<Rightarrow> MemState \<Rightarrow> (u32 \<times> MemState) option" where
  "SuperAllocMem env taskItem sz flags s = AllocFromPagePool env taskItem (kb_PagePool s) sz flags 0 0 s"

definition SuperFreeMem :: "u32 \<Rightarrow> u32 \<Rightarrow> MemState \<Rightarrow> MemState option" where
  "SuperFreeMem p sz s = map_option (\<lambda>m. s\<lparr>heap := m\<rparr>) (FreeToPagePool (pp_FreeBlocks (pools s (kb_PagePool s))) p sz (heap s))"

section \<open>Counts of memory\<close>

definition CountSetBits :: "bitarray \<Rightarrow> u32 \<Rightarrow> u32 \<Rightarrow> u32" where
  "CountSetBits array firstBit lastBit = of_nat (length (filter (\<lambda>i. IsBitSet array (of_nat i)) [unat firstBit..<unat lastBit + 1]))"

text \<open>The sum of the sizes of free blocks.\<close>

partial_function (option) free_bytes :: "words \<Rightarrow> u32 \<Rightarrow> u32 \<Rightarrow> u32 option" where
  "free_bytes m fb freeBytes =
     (if fb = 0 then Some freeBytes else free_bytes m (fb_Next m fb) (freeBytes + fb_Size m fb))"

text \<open>The free pages of the supervisor's pool and the largest run of them: \<open>largest\<close>, \<open>freePages\<close>, \<open>freeBytes\<close>.\<close>

partial_function (option) count_free ::
  "MemRegion \<Rightarrow> words \<Rightarrow> u32 \<Rightarrow> u32 \<times> u32 \<times> u32 \<Rightarrow> (u32 \<times> u32 \<times> u32) option" where
  "count_free r m fb acc =
     (if fb = 0 then Some acc
      else
        let (largest, freePages, freeBytes) = acc;
            (largest, freePages) =
              (if fb_Size m fb \<ge> mr_PageSize r then
                 let sz = (if fb AND mr_PageMask r \<noteq> 0
                           then fb_Size m fb - (mr_PageSize r - (fb AND mr_PageMask r)) else fb_Size m fb);
                     sz = sz AND NOT (mr_PageMask r)
                 in (if sz > largest then sz else largest, freePages + sz div mr_PageSize r)
               else (largest, freePages))
        in count_free r m (fb_Next m fb) (largest, freePages, freeBytes + fb_Size m fb))"

record MemInfo =
  minfo_TaskAllocatedPages :: u32
  minfo_TaskAllocatedBytes :: u32
  minfo_FreePages :: u32
  minfo_LargestFreePageSpan :: u32
  minfo_SystemAllocatedPages :: u32
  minfo_SystemAllocatedBytes :: u32
  minfo_OtherAllocatedPages :: u32

definition owned_pages :: "MemState \<Rightarrow> u32 \<Rightarrow> u32" where
  "owned_pages s pp = (case pp_OwnedPages (pools s pp) of None \<Rightarrow> 0 | Some a \<Rightarrow> CountSetBits a 0 (mr_NumPages (mr s) - 1))"

definition GetPagePoolInfo :: "MemState \<Rightarrow> u32 \<Rightarrow> MemInfo option" where
  "GetPagePoolInfo s pp =
     (let r = mr s; taskPages = owned_pages s pp;
          allTaskPages = sum_list (map (\<lambda>t. if t_ThreadTask s t then 0 else owned_pages s (t_PagePool s t)) (kb_Tasks s))
      in case (free_bytes (heap s) (fb_Next (heap s) (pp_FreeBlocks (pools s pp))) 0,
               count_free r (heap s) (fb_Next (heap s) (anchor s)) (0, 0, 0)) of
           (Some taskFree, Some (largest, freePages, freeBytes)) \<Rightarrow>
             let systemPages = mr_NumPages r - freePages - allTaskPages
             in Some \<lparr>minfo_TaskAllocatedPages = taskPages,
                   minfo_TaskAllocatedBytes = taskPages * mr_PageSize r - taskFree,
                   minfo_FreePages = freePages, minfo_LargestFreePageSpan = largest,
                   minfo_SystemAllocatedPages = systemPages,
                   minfo_SystemAllocatedBytes = systemPages * mr_PageSize r - freeBytes,
                   minfo_OtherAllocatedPages = allTaskPages - taskPages\<rparr>
         | _ \<Rightarrow> None)"

definition GetMemTrackSize :: "MemState \<Rightarrow> u32 \<Rightarrow> u32" where
  "GetMemTrackSize s p = (if p = 0 then 0 else heap s (p - 4))"

section \<open>The supervisor works on the pool of a task\<close>

text \<open>Every block of the free list must lie in pages that the task owns and may write.\<close>

partial_function (option) validate_blocks :: "MemState \<Rightarrow> task \<Rightarrow> u32 \<Rightarrow> bool option" where
  "validate_blocks s t fb =
     (if fb = 0 then Some True
      else if fb AND 7 = 0 \<and> fb_Size (heap s) fb \<ge> 8 \<and> fb_Size (heap s) fb AND 7 = 0
        \<and> IsMemUserWritable s fb (fb_Size (heap s) fb) t \<and> IsMemUserOwned s fb (fb_Size (heap s) fb) t
      then validate_blocks s t (fb_Next (heap s) fb)
      else Some False)"

definition ValidatePagePool :: "MemState \<Rightarrow> u32 \<Rightarrow> task \<Rightarrow> bool option" where
  "ValidatePagePool s pp t = validate_blocks s t (fb_Next (heap s) (pp_FreeBlocks (pools s pp)))"

definition SuperControlUserMem ::
  "MemEnv \<Rightarrow> u32 \<Rightarrow> u32 \<Rightarrow> ControlMemCmds \<Rightarrow> int \<Rightarrow> task \<Rightarrow> MemState \<Rightarrow> (unit res \<times> MemState) option" where
  "SuperControlUserMem env p sz cmd it t s =
     (case ValidatePagePool s (t_PagePool s t) t of
        None \<Rightarrow> None
      | Some True \<Rightarrow> ControlPagePool env (t_PagePool s t) p sz cmd it s
      | Some False \<Rightarrow> Some (Inl BADPTR, s))"

definition SuperAllocUserMem :: "MemEnv \<Rightarrow> int \<Rightarrow> u32 \<Rightarrow> u32 \<Rightarrow> task \<Rightarrow> MemState \<Rightarrow> (u32 \<times> MemState) option" where
  "SuperAllocUserMem env taskItem sz flags t s =
     (case ValidatePagePool s (t_PagePool s t) t of
        None \<Rightarrow> None
      | Some True \<Rightarrow> AllocUserMem env taskItem sz flags t s
      | Some False \<Rightarrow> Some (0, s))"

text \<open>The memory that a call of \<open>FreeMem\<close> is going to touch; \<open>None\<close> where its size word cannot be read.\<close>

definition validate_range :: "(u32 \<Rightarrow> u32 \<Rightarrow> bool) \<Rightarrow> words \<Rightarrow> u32 \<Rightarrow> u32 \<Rightarrow> (u32 \<times> u32) option" where
  "validate_range readable m p sz =
     (if sint sz < 0 then
        if \<not> readable (p - 4) 4 then None
        else let validateSize = m (p - 4) in
          Some (if p AND 7 \<noteq> 0 then (p - 4, ROUND_ALLOC_SIZE (validateSize + 4))
                else (p - 8, ROUND_ALLOC_SIZE (validateSize + 8)))
      else Some (p, ROUND_ALLOC_SIZE sz))"

definition SuperFreeUserMem :: "(u32 \<Rightarrow> u32 \<Rightarrow> bool) \<Rightarrow> u32 \<Rightarrow> u32 \<Rightarrow> task \<Rightarrow> MemState \<Rightarrow> MemState option" where
  "SuperFreeUserMem readable p sz t s =
     (if p = 0 then Some s
      else case ValidatePagePool s (t_PagePool s t) t of
        None \<Rightarrow> None
      | Some False \<Rightarrow> Some s
      | Some True \<Rightarrow>
          (case validate_range readable (heap s) p sz of
             None \<Rightarrow> Some s
           | Some (validateMem, validateSize) \<Rightarrow>
               if validateMem AND 7 = 0 \<and> validateSize \<ge> 8
                 \<and> IsMemUserWritable s validateMem validateSize t \<and> IsMemUserOwned s validateMem validateSize t
               then FreeUserMem p sz t s
               else Some s))"

section \<open>What the checks say\<close>

definition page_index :: "MemRegion \<Rightarrow> u32 \<Rightarrow> nat" where
  "page_index r x = (unat x - unat (mr_MemBase r)) div 2 ^ mr_PageShift r"

text \<open>A range that passes the check of writable pages lies in such pages.\<close>

lemma IsMemInPages_range:
  assumes "region_ok r" and "IsMemInPages r test p sz"
  shows "\<exists>f l. test f l \<and> f \<le> l \<and> 0 < unat sz \<and> mr_MemBase r \<le> p \<and> unat p + unat sz < 2 ^ 32
    \<and> unat f = page_index r p \<and> unat l = (unat p + unat sz - 1 - unat (mr_MemBase r)) div 2 ^ mr_PageShift r"
proof -
  from assms(2) have c: "0 < sint sz" "p < p + sz" "mr_MemBase r \<le> p" "p + sz \<le> mr_MemTop r"
    "test (page_of r p) (drop_bit (mr_PageShift r) (p + sz - mr_MemBase r - 1))"
    by (auto simp: IsMemInPages_def Let_def split: if_splits)
  note s = sint_pos [OF c(1)]
  have ub: "unat x < 2 ^ 32" for x :: u32 using unsigned_less [of x] by simp
  have e: "unat p + unat sz < 2 ^ 32"
  proof (rule ccontr)
    assume "\<not> unat p + unat sz < 2 ^ 32"
    then have big: "2 ^ 32 \<le> unat p + unat sz" by simp
    have "unat (p + sz) = (unat p + unat sz) mod 2 ^ 32" by (simp add: unat_word_ariths)
    also have "\<dots> = unat p + unat sz - 2 ^ 32"
    proof -
      have "unat p + unat sz < 2 ^ 32 + 2 ^ 32" using ub [of p] ub [of sz] by simp
      then show ?thesis using big by (simp add: mod_if)
    qed
    finally have "unat (p + sz) < unat p" using s(2) ub [of p] big by simp
    then show False using c(2) by (simp add: word_less_nat_alt)
  qed
  then have "unat (p + sz) = unat p + unat sz" by (intro unat_add_small) simp
  then have "unat (p + sz - mr_MemBase r) = unat p + unat sz - unat (mr_MemBase r)"
    using c(3) by (subst unat_sub_small) (simp_all add: word_le_nat_alt)
  moreover have b: "unat (mr_MemBase r) \<le> unat p" using c(3) by (simp add: word_le_nat_alt)
  ultimately have l: "unat (p + sz - mr_MemBase r - 1) = unat p + unat sz - 1 - unat (mr_MemBase r)"
    using s(1) by (subst unat_sub_small) simp_all
  have f: "unat (p - mr_MemBase r) = unat p - unat (mr_MemBase r)" using b by (rule unat_sub_small)
  let ?l = "drop_bit (mr_PageShift r) (p + sz - mr_MemBase r - 1)"
  have "page_of r p \<le> ?l"
    unfolding word_le_nat_alt page_of_def unat_drop_bit_div l f using s(1) by (intro div_le_mono) simp
  then show ?thesis
    using c(3,5) s(1) e by (intro exI [of _ "page_of r p"] exI [of _ ?l])
      (simp add: page_of_def unat_drop_bit_div l f page_index_def)
qed

definition user_pages :: "MemState \<Rightarrow> task \<Rightarrow> nat set" where
  "user_pages s t = owned s (t_PagePool s t) \<inter> may_write s (t_PagePool s t)"

lemma user_range:
  assumes "region_ok (mr s)" and "IsMemUserWritable s p sz t" and "IsMemUserOwned s p sz t"
    and "unat p \<le> unat x" and "unat x < unat p + unat sz"
  shows "mr_MemBase (mr s) \<le> x \<and> page_index (mr s) x \<in> user_pages s t"
proof -
  let ?r = "mr s" and ?pp = "pools s (t_PagePool s t)"
  from IsMemInPages_range [OF assms(1) assms(2) [unfolded IsMemUserWritable_def IsMemWritablePagePool_def]]
  obtain f l where w: "IsBitRangeSet (pp_WritablePages ?pp) f l" "f \<le> l" "mr_MemBase ?r \<le> p"
    "unat f = page_index ?r p" "unat l = (unat p + unat sz - 1 - unat (mr_MemBase ?r)) div 2 ^ mr_PageShift ?r" by blast
  from IsMemInPages_range [OF assms(1) assms(3) [unfolded IsMemUserOwned_def IsMemOwnedPagePool_def]]
  obtain f' l' a where o: "pp_OwnedPages ?pp = Some a" "IsBitRangeSet a f' l'" "f' \<le> l'"
    "unat f' = page_index ?r p" "unat l' = (unat p + unat sz - 1 - unat (mr_MemBase ?r)) div 2 ^ mr_PageShift ?r"
    by (auto split: option.splits)
  have "page_index ?r p \<le> page_index ?r x" unfolding page_index_def using assms(4) by (intro div_le_mono) simp
  moreover have "page_index ?r x \<le> unat l" unfolding page_index_def w(5) using assms(5) by (intro div_le_mono) simp
  ultimately have "page_index ?r x \<in> {unat f..unat l}" "page_index ?r x \<in> {unat f'..unat l'}"
    using w(4,5) o(4,5) by simp_all
  then have "page_index ?r x \<in> user_pages s t"
    using w(1,2) o(1-3) by (auto simp: user_pages_def owned_def may_write_def IsBitRangeSet_bitset)
  then show ?thesis using w(3) assms(4) by (simp add: word_le_nat_alt)
qed

text \<open>A valid block, as the check of the supervisor has it.\<close>

definition valid_block :: "MemState \<Rightarrow> task \<Rightarrow> block \<Rightarrow> bool" where
  "valid_block s t b \<longleftrightarrow> fst b \<noteq> 0 \<and> fst b AND 7 = 0 \<and> snd b \<ge> 8 \<and> snd b AND 7 = 0
     \<and> IsMemUserWritable s (fst b) (snd b) t \<and> IsMemUserOwned s (fst b) (snd b) t"

lemmas validate_induct = validate_blocks.raw_induct [rotated, consumes 1, case_names step]

text \<open>The check succeeds only for a list that ends, all of whose blocks are valid.\<close>

lemma validate_blocks_path:
  assumes "validate_blocks s t q = Some True"
  shows "\<exists>bs. path (heap s) q bs 0 \<and> (\<forall>b \<in> set bs. valid_block s t b)"
proof -
  have "ok \<longrightarrow> (\<exists>bs. path (heap s) q bs 0 \<and> (\<forall>b \<in> set bs. valid_block s t b))"
    if "validate_blocks s t q = Some ok" for ok
    using that
  proof (induction rule: validate_induct)
    case (step validate s t fb ok)
    show ?case
    proof (cases "fb = 0 \<or> \<not> ok")
      case True
      then show ?thesis by (auto intro: exI [of _ "[]"])
    next
      case False
      then have "valid_block s t (fb, fb_Size (heap s) fb)" "validate s t (fb_Next (heap s) fb) = Some ok"
        using step.hyps by (auto simp: valid_block_def split: if_splits)
      with step.IH [of s t "fb_Next (heap s) fb" ok] False obtain bs where
        "path (heap s) (fb_Next (heap s) fb) bs 0" "\<forall>b \<in> set bs. valid_block s t b" by blast
      then show ?thesis
        using \<open>valid_block s t (fb, fb_Size (heap s) fb)\<close>
        by (intro impI exI [of _ "(fb, fb_Size (heap s) fb) # bs"]) simp
    qed
  qed
  then show ?thesis using assms by blast
qed

lemma path_first: "path m p bs r \<Longrightarrow> p = r \<or> p \<in> fst ` set bs"
  by (cases bs) auto

lemma path_successor: "path m p bs r \<Longrightarrow> f \<in> fst ` set bs \<Longrightarrow> fb_Next m f = r \<or> fb_Next m f \<in> fst ` set bs"
proof (induction bs arbitrary: p)
  case (Cons b bs)
  then have "path m (fb_Next m (fst b)) bs r" by (cases b) simp
  with Cons path_first [OF this] show ?case by auto
qed simp

lemma path_size: "path m p bs r \<Longrightarrow> b \<in> set bs \<Longrightarrow> snd b = fb_Size m (fst b)"
  by (induction bs arbitrary: p) auto

text \<open>On a cycle of valid blocks the check runs for ever.\<close>

lemma validate_blocks_cycle:
  assumes "path (heap s) q bs q" and "bs \<noteq> []" and "\<forall>b \<in> set bs. valid_block s t b"
  shows "validate_blocks s t q = None"
proof -
  have "s' = s \<and> t' = t \<longrightarrow> f \<notin> fst ` set bs" if "validate_blocks s' t' f = Some r" for s' t' f r
    using that
  proof (induction rule: validate_induct)
    case (step validate s' t' f r)
    show ?case
    proof (intro impI notI)
      assume eq: "s' = s \<and> t' = t" and f: "f \<in> fst ` set bs"
      then obtain b where b: "b \<in> set bs" "f = fst b" by blast
      then have v: "valid_block s t (f, fb_Size (heap s) f)"
        using assms(3) path_size [OF assms(1) b(1)] by (metis prod.collapse)
      then have "validate s t (fb_Next (heap s) f) = Some r"
        using step.hyps eq by (simp add: valid_block_def)
      then have "fb_Next (heap s) f \<notin> fst ` set bs" using step.IH by blast
      moreover have "q \<in> fst ` set bs" using assms(1,2) by (cases bs) auto
      ultimately show False using path_successor [OF assms(1) f] by auto
    qed
  qed
  moreover have "q \<in> fst ` set bs" using assms(1,2) by (cases bs) auto
  ultimately show ?thesis by (cases "validate_blocks s t q") blast+
qed

lemma validate_blocks_ends:
  "path (heap s) q bs 0 \<Longrightarrow> \<forall>b \<in> set bs. fst b \<noteq> 0 \<Longrightarrow>
     validate_blocks s t q = Some (\<forall>b \<in> set bs. valid_block s t b)"
proof (induction bs arbitrary: q)
  case Nil
  then show ?case by (subst validate_blocks.simps) simp
next
  case (Cons b bs)
  then show ?case by (subst validate_blocks.simps) (cases b, auto simp: valid_block_def)
qed

text \<open>Freeing into a list that has been checked writes to its blocks, to the freed memory and to the anchor.\<close>

lemma FreeToPagePool_writes:
  assumes "path m (fb_Next m a) bs 0" and "\<forall>b \<in> set bs. fst b \<noteq> 0"
    and "FreeToPagePool a p sz m = Some m'" and "m' x \<noteq> m x" and "x \<noteq> a"
    and "(p', sz') = (if sint sz < 0 then tracked_block m p else (p, sz))"
  shows "x = p' \<or> x = p' + 4 \<or> (\<exists>b \<in> set bs. x = fst b \<or> x = fst b + 4)"
proof -
  let ?prev = "prev_of a (takeWhile (\<lambda>b. fst b \<le> p') bs)" and ?next = "next_of (dropWhile (\<lambda>b. fst b \<le> p') bs)"
  have "find_place m p' a (fb_Next m a) = Some (?prev, ?next)"
    by (rule find_place_path [OF assms(1,2)])
  then have m': "m' = m \<or> m' = MergeBlocks a ?prev ?next p' (ROUND_ALLOC_SIZE sz') m"
    using assms(3) by (auto simp: FreeToPagePool_def assms(6) [symmetric] split: if_splits)
  have "x = ?prev \<or> x = p' \<or> x = p' + 4 \<or> (?prev \<noteq> a \<and> x = ?prev + 4)"
  proof (rule ccontr)
    assume "\<not> ?thesis"
    then have "MergeBlocks a ?prev ?next p' (ROUND_ALLOC_SIZE sz') m x = m x"
      by (intro MergeBlocks_other) blast+
    then show False using m' assms(4) by blast
  qed
  moreover have "?prev = a \<or> (\<exists>b \<in> set bs. ?prev = fst b)"
    using prev_of_cases [of a "takeWhile (\<lambda>b. fst b \<le> p') bs"] set_takeWhileD by metis
  ultimately show ?thesis using assms(5) by metis
qed

text \<open>The two words of an aligned block of at least eight bytes lie in it.\<close>

lemma words_in_block:
  assumes "f AND 7 = (0 :: u32)" and "8 \<le> (s :: u32)" and "x = f \<or> x = f + 4"
  shows "unat f \<le> unat x \<and> unat x < unat f + unat s"
proof -
  have "8 dvd unat f" using mask_dvd [of f 3] assms(1) by (simp add: mask_eq_exp_minus_1)
  moreover have "unat f < 4294967296" using unsigned_less [of f] by simp
  ultimately have "unat f + 4 < 4294967296" by presburger
  then have "unat (f + 4) = unat f + 4" by (intro trans [OF unat_add_small]) simp_all
  then show ?thesis using assms(2,3) by (auto simp: word_le_nat_alt)
qed

section \<open>Properties\<close>

text \<open>C29: freeing a task's memory from supervisor mode writes only to memory the task may use. Whatever the
  task has made of its free list, every word the call changes is the anchor's link or lies in a
  page that the task owns and may write.\<close>

theorem SuperFreeUserMem_confined:
  assumes "region_ok (mr s)" and "SuperFreeUserMem readable p sz t s = Some s'"
    and "heap s' x \<noteq> heap s x" and "x \<noteq> pp_FreeBlocks (pools s (t_PagePool s t))"
  shows "mr_MemBase (mr s) \<le> x \<and> page_index (mr s) x \<in> user_pages s t"
proof -
  let ?a = "pp_FreeBlocks (pools s (t_PagePool s t))"
  from assms(2,3) obtain q n where r: "ValidatePagePool s (t_PagePool s t) t = Some True"
    "validate_range readable (heap s) p sz = Some (q, n)"
    "q AND 7 = 0" "n \<ge> 8" "IsMemUserWritable s q n t" "IsMemUserOwned s q n t" "FreeUserMem p sz t s = Some s'"
    by (auto simp: SuperFreeUserMem_def split: if_splits option.splits bool.splits)
  obtain bs where bs: "path (heap s) (fb_Next (heap s) ?a) bs 0" "\<forall>b \<in> set bs. valid_block s t b"
    using validate_blocks_path r(1) unfolding ValidatePagePool_def by blast
  obtain p' sz' where p': "(p', sz') = (if sint sz < 0 then tracked_block (heap s) p else (p, sz))"
    by (metis surj_pair)
  have "q = p'" using r(2) p' by (auto simp: validate_range_def tracked_block_def Let_def split: if_splits)
  moreover have "FreeToPagePool ?a p sz (heap s) = Some (heap s')" using r(7) by (auto simp: FreeUserMem_def)
  ultimately have "x = q \<or> x = q + 4 \<or> (\<exists>b \<in> set bs. x = fst b \<or> x = fst b + 4)"
    using FreeToPagePool_writes [where m' = "heap s'" and p' = p' and sz' = sz', OF bs(1) _ _ assms(3,4) p'] bs(2)
    by (simp add: valid_block_def)
  then obtain f l where "IsMemUserWritable s f l t" "IsMemUserOwned s f l t" "unat f \<le> unat x" "unat x < unat f + unat l"
  proof (elim disjE bexE)
    fix b assume "b \<in> set bs" "x = fst b"
    with bs(2) words_in_block [of "fst b" "snd b" x] that show thesis by (metis valid_block_def)
  next
    fix b assume "b \<in> set bs" "x = fst b + 4"
    with bs(2) words_in_block [of "fst b" "snd b" x] that show thesis by (metis valid_block_def)
  qed (use words_in_block [of q n x] r(3-6) that in blast)+
  then show ?thesis by (rule user_range [OF assms(1)])
qed

definition empty_pool_state :: MemState where
  "empty_pool_state = example_state\<lparr>heap := \<lambda>_. 0\<rparr>"

definition cyclic_pool_state :: MemState where
  "cyclic_pool_state = example_state\<lparr>heap := \<lambda>x. if x = 0x40000100 \<or> x = 0x40008000 then 0x40008000
     else if x = 0x40008004 then 0x20 else 0\<rparr>"

lemma example_pool_of:
  "pp_FreeBlocks (pools example_state i) = 0x40000100"
  "pp_OwnedPages (pools example_state 1) = Some (SetBitRange (\<lambda>_. 0) 8 9)"
  "pp_WritablePages (pools example_state 1) = SetBitRange (\<lambda>_. 0) 8 9"
  by (simp_all add: example_state_def)

lemma example_range:
  "IsMemUserWritable (example_state\<lparr>heap := h\<rparr>) 0x40008000 0x20 1" "IsMemUserOwned (example_state\<lparr>heap := h\<rparr>) 0x40008000 0x20 1"
proof -
  have "IsBitRangeSet (SetBitRange (\<lambda>_. 0) 8 9) 8 8"
    by (subst IsBitRangeSet_bitset) (simp_all add: bitset_SetBitRange)
  then show "IsMemUserWritable (example_state\<lparr>heap := h\<rparr>) 0x40008000 0x20 1" "IsMemUserOwned (example_state\<lparr>heap := h\<rparr>) 0x40008000 0x20 1"
    by (simp_all add: IsMemUserWritable_def IsMemUserOwned_def IsMemWritablePagePool_def IsMemOwnedPagePool_def
        IsMemInPages_def page_of_def example_pool_of Let_def example_region_def)
qed

theorem SuperFreeUserMem_confined_witness:
  "\<exists>s'. SuperFreeUserMem (\<lambda>_ _. True) 0x40008000 0x20 1 empty_pool_state = Some s'
     \<and> heap s' 0x40008004 = 0x20 \<and> page_index example_region 0x40008004 \<in> user_pages empty_pool_state 1"
proof -
  have r: "ROUND_ALLOC_SIZE 0x20 = 0x20" by code_simp
  have v: "ValidatePagePool empty_pool_state 1 1 = Some True"
    unfolding ValidatePagePool_def by (subst validate_blocks.simps) (simp add: empty_pool_state_def fb_Next_def)
  have "\<exists>m'. FreeToPagePool 0x40000100 0x40008000 0x20 (\<lambda>_. 0) = Some m' \<and> m' 0x40008004 = 0x20"
    unfolding FreeToPagePool_def
    by (subst find_place.simps) (simp add: fb_Next_def fb_Size_def r MergeBlocks_def Let_def set_fb_Next_def set_fb_Size_def)
  then obtain m' where m': "FreeToPagePool 0x40000100 0x40008000 0x20 (\<lambda>_. 0) = Some m'" "m' 0x40008004 = 0x20" by blast
  let ?s' = "empty_pool_state\<lparr>heap := m'\<rparr>"
  have F: "SuperFreeUserMem (\<lambda>_ _. True) 0x40008000 0x20 1 empty_pool_state = Some ?s'"
    using v example_range m'(1)
    by (simp add: SuperFreeUserMem_def validate_range_def r FreeUserMem_def empty_pool_state_def example_pool_of)
  have e: "mr empty_pool_state = example_region" "t_PagePool empty_pool_state 1 = 1" "heap empty_pool_state = (\<lambda>_. 0)"
    "pp_FreeBlocks (pools empty_pool_state 1) = 0x40000100" "region_ok example_region"
    using example_region_ok by (simp_all add: empty_pool_state_def example_pool_of)
  have "page_index example_region 0x40008004 \<in> user_pages empty_pool_state 1"
    using SuperFreeUserMem_confined [OF _ F, of "0x40008004"] m'(2) e by simp
  then show ?thesis using F m'(2) by auto
qed

text \<open>C30: the check of a task's free list. For a list that ends it answers whether every block is
  aligned, large enough and in pages the task owns and may write; for a list of such blocks that the task
  has closed to a cycle it never answers, and the supervisor hangs.\<close>

theorem ValidatePagePool_answers:
  assumes "path (heap s) first bs last_link" and "first = fb_Next (heap s) (pp_FreeBlocks (pools s pp))"
    and "\<forall>b \<in> set bs. fst b \<noteq> 0"
  shows "(last_link = 0 \<longrightarrow> ValidatePagePool s pp t = Some (\<forall>b \<in> set bs. valid_block s t b))
    \<and> (last_link = first \<and> bs \<noteq> [] \<and> (\<forall>b \<in> set bs. valid_block s t b) \<longrightarrow> ValidatePagePool s pp t = None)"
  using assms validate_blocks_ends [of s first bs t] validate_blocks_cycle [of s first bs t]
  by (auto simp: ValidatePagePool_def)

theorem ValidatePagePool_answers_witness:
  "ValidatePagePool cyclic_pool_state 1 1 = None"
proof -
  let ?b = "(0x40008000, 0x20) :: block"
  have "path (heap cyclic_pool_state) 0x40008000 [?b] 0x40008000"
    by (simp add: cyclic_pool_state_def fb_Size_def fb_Next_def)
  moreover have "0x40008000 = fb_Next (heap cyclic_pool_state) (pp_FreeBlocks (pools cyclic_pool_state 1))"
    by (simp add: cyclic_pool_state_def example_pool_of fb_Next_def)
  moreover have "valid_block cyclic_pool_state 1 ?b"
    using example_range by (simp add: valid_block_def cyclic_pool_state_def fb_Size_def)
  moreover have "fst ?b \<noteq> 0" by simp
  ultimately show ?thesis
    using ValidatePagePool_answers [of cyclic_pool_state "0x40008000" "[?b]" "0x40008000" 1 1] by (simp only: list.set ball_simps simp_thms list.distinct)
qed

end
