(* ===== verification/Compress.thy ===== *)
theory Compress
  imports Prelude
begin

text \<open>
  The compressor of the compression folio (\<open>folios/compression/compress.c\<close>, constants of
  \<open>lzss.h\<close>): a sliding window of 4096 bytes, a binary tree of the strings that start in it, and
  an output stream that groups eight literals or matches behind a control byte. Indices into the
  window and the tree, 12 and 16 bits wide in the code, are natural numbers reduced by
  \<open>MOD_WINDOW\<close>. Words given to the callback are collected in \<open>os_Out\<close>. Searching the tree is a
  partial function: that it ends is proved, not assumed. A missing return is \<open>None\<close>.
\<close>

definition WINDOW_SIZE :: nat where "WINDOW_SIZE = 4096"
definition LENGTH_BIT_COUNT :: nat where "LENGTH_BIT_COUNT = 4"
definition BREAK_EVEN :: nat where "BREAK_EVEN = 2"
definition END_OF_STREAM :: nat where "END_OF_STREAM = 0"
definition LOOK_AHEAD_SIZE :: nat where "LOOK_AHEAD_SIZE = 2 ^ LENGTH_BIT_COUNT + BREAK_EVEN"
definition TREE_ROOT :: nat where "TREE_ROOT = WINDOW_SIZE"
definition UNUSED :: nat where "UNUSED = 0"
definition MOD_WINDOW :: "nat \<Rightarrow> nat" where "MOD_WINDOW a = a mod WINDOW_SIZE"

lemmas lzss_consts = WINDOW_SIZE_def LENGTH_BIT_COUNT_def BREAK_EVEN_def END_OF_STREAM_def
  LOOK_AHEAD_SIZE_def TREE_ROOT_def UNUSED_def

datatype comp_err = COMP_ERR_BADPTR | COMP_ERR_BADTAG | COMP_ERR_NOMEM | COMP_ERR_DATAREMAINS
  | COMP_ERR_DATAMISSING | COMP_ERR_OVERFLOW

datatype comp_tag = COMP_TAG_WORKBUFFER | COMP_TAG_USERDATA | OTHER_COMP_TAG

type_synonym window = "nat \<Rightarrow> u8"

record CompNode =
  cn_Parent :: nat
  cn_LeftChild :: nat
  cn_RightChild :: nat

type_synonym comp_tree = "nat \<Rightarrow> CompNode"

section \<open>The output stream\<close>

record OutputStream =
  os_Out :: "u32 list"
  os_WriteBackBuffer :: "u8 list"
  os_ControlFlags :: u32
  os_NextFlag :: u32
  os_BufferIndex :: nat
  os_ControlByteIndex :: nat

text \<open>The machine is big-endian: the word at four bytes of memory, the bytes of a word.\<close>

definition word_of_bytes :: "u8 \<Rightarrow> u8 \<Rightarrow> u8 \<Rightarrow> u8 \<Rightarrow> u32" where
  "word_of_bytes a b c d = push_bit 24 (ucast a) OR push_bit 16 (ucast b) OR push_bit 8 (ucast c) OR ucast d"

definition bytes_of_word :: "u32 \<Rightarrow> u8 list" where
  "bytes_of_word w = [ucast (drop_bit 24 w), ucast (drop_bit 16 w), ucast (drop_bit 8 w), ucast w]"

fun words_of_bytes :: "u8 list \<Rightarrow> u32 list" where
  "words_of_bytes (a # b # c # d # bs) = word_of_bytes a b c d # words_of_bytes bs"
| "words_of_bytes _ = []"

definition InitOutputStream :: "u8 list \<Rightarrow> OutputStream" where
  "InitOutputStream buffer = \<lparr>os_Out = [], os_WriteBackBuffer = buffer, os_ControlFlags = 0, os_NextFlag = 128,
     os_BufferIndex = 1, os_ControlByteIndex = 0\<rparr>"

definition WriteByte :: "OutputStream \<Rightarrow> u8 \<Rightarrow> OutputStream" where
  "WriteByte os byte = os\<lparr>os_WriteBackBuffer := (os_WriteBackBuffer os)[os_BufferIndex os := byte],
     os_BufferIndex := os_BufferIndex os + 1\<rparr>"

definition WriteWord :: "OutputStream \<Rightarrow> u16 \<Rightarrow> OutputStream" where
  "WriteWord os w = WriteByte (WriteByte os (ucast (drop_bit 8 w))) (ucast w)"

definition FlushOutputStream :: "OutputStream \<Rightarrow> OutputStream" where
  "FlushOutputStream os =
     (let buf = (os_WriteBackBuffer os)[os_ControlByteIndex os := ucast (os_ControlFlags os)];
          numWords = os_BufferIndex os div 4;
          numBytes = os_BufferIndex os mod 4;
          start = os_BufferIndex os - numBytes
      in os\<lparr>os_Out := os_Out os @ words_of_bytes (take (4 * numWords) buf),
            os_WriteBackBuffer := take numBytes (drop start buf) @ drop numBytes buf,
            os_ControlByteIndex := numBytes,
            os_BufferIndex := numBytes + 1,
            os_ControlFlags := 0,
            os_NextFlag := 128\<rparr>)"

fun pad_stream :: "nat \<Rightarrow> OutputStream \<Rightarrow> OutputStream" where
  "pad_stream 0 os = os"
| "pad_stream (Suc n) os = pad_stream n (WriteByte os 0)"

text \<open>The loop of \<open>CleanupOutputStream\<close> pads to the next multiple of 4.\<close>

definition CleanupOutputStream :: "OutputStream \<Rightarrow> OutputStream" where
  "CleanupOutputStream os = FlushOutputStream (pad_stream ((4 - os_BufferIndex os mod 4) mod 4) os)"

definition WriteOne :: "OutputStream \<Rightarrow> OutputStream" where
  "WriteOne os =
     (let os = (if os_NextFlag os = 0 then FlushOutputStream os else os)
      in os\<lparr>os_ControlFlags := os_ControlFlags os OR os_NextFlag os, os_NextFlag := drop_bit 1 (os_NextFlag os)\<rparr>)"

definition WriteZero :: "OutputStream \<Rightarrow> OutputStream" where
  "WriteZero os =
     (let os = (if os_NextFlag os = 0 then FlushOutputStream os else os)
      in os\<lparr>os_NextFlag := drop_bit 1 (os_NextFlag os)\<rparr>)"

section \<open>The tree of strings\<close>

text \<open>The comparison of two strings: how many bytes agree, and the difference of the next.\<close>

fun compare_strings :: "window \<Rightarrow> nat \<Rightarrow> nat \<Rightarrow> nat \<Rightarrow> nat \<Rightarrow> nat \<times> int" where
  "compare_strings w a b i 0 = (i, 0)"
| "compare_strings w a b i (Suc n) =
     (let delta = uint (w (MOD_WINDOW (a + i))) - uint (w (MOD_WINDOW (b + i)))
      in if delta \<noteq> 0 then (i, delta) else compare_strings w a b (i + 1) n)"

text \<open>\<open>newNode\<close> takes the place of \<open>testNode\<close>, which has the same string.\<close>

definition replace_node :: "comp_tree \<Rightarrow> nat \<Rightarrow> nat \<Rightarrow> comp_tree" where
  "replace_node tree newNode testNode =
     (let parentNode = cn_Parent (tree testNode);
          tree = (if cn_LeftChild (tree parentNode) = testNode
                  then tree(parentNode := (tree parentNode)\<lparr>cn_LeftChild := newNode\<rparr>)
                  else tree(parentNode := (tree parentNode)\<lparr>cn_RightChild := newNode\<rparr>));
          tree = tree(newNode := tree testNode);
          l = cn_LeftChild (tree newNode);
          tree = tree(l := (tree l)\<lparr>cn_Parent := newNode\<rparr>);
          r = cn_RightChild (tree newNode);
          tree = tree(r := (tree r)\<lparr>cn_Parent := newNode\<rparr>)
      in tree(testNode := (tree testNode)\<lparr>cn_Parent := UNUSED\<rparr>))"

definition new_leaf :: "comp_tree \<Rightarrow> nat \<Rightarrow> nat \<Rightarrow> comp_tree" where
  "new_leaf tree newNode parent = tree(newNode := \<lparr>cn_Parent = parent, cn_LeftChild = UNUSED, cn_RightChild = UNUSED\<rparr>)"

partial_function (option) AddString_loop ::
    "window \<Rightarrow> nat \<Rightarrow> comp_tree \<Rightarrow> nat \<Rightarrow> nat \<Rightarrow> nat \<Rightarrow> (comp_tree \<times> nat \<times> nat) option" where
  "AddString_loop window newNode tree testNode matchLen matchPos =
     (let (i, delta) = compare_strings window newNode testNode 0 LOOK_AHEAD_SIZE;
          (matchLen, matchPos) = (if i \<ge> matchLen then (i, testNode) else (matchLen, matchPos))
      in if i = matchLen \<and> matchLen \<ge> LOOK_AHEAD_SIZE
         then Some (replace_node tree newNode testNode, matchLen, matchPos)
         else if delta \<ge> 0 then
           if cn_RightChild (tree testNode) = UNUSED
           then Some (new_leaf (tree(testNode := (tree testNode)\<lparr>cn_RightChild := newNode\<rparr>)) newNode testNode,
                      matchLen, matchPos)
           else AddString_loop window newNode tree (cn_RightChild (tree testNode)) matchLen matchPos
         else
           if cn_LeftChild (tree testNode) = UNUSED
           then Some (new_leaf (tree(testNode := (tree testNode)\<lparr>cn_LeftChild := newNode\<rparr>)) newNode testNode,
                      matchLen, matchPos)
           else AddString_loop window newNode tree (cn_LeftChild (tree testNode)) matchLen matchPos)"

text \<open>The result: the tree, the length of the match and its position, which is only written on a match.\<close>

definition AddString :: "comp_tree \<Rightarrow> window \<Rightarrow> nat \<Rightarrow> nat \<Rightarrow> (comp_tree \<times> nat \<times> nat) option" where
  "AddString tree window newNode matchPos =
     (if newNode = END_OF_STREAM then Some (tree, 0, matchPos)
      else AddString_loop window newNode tree (cn_RightChild (tree TREE_ROOT)) 0 matchPos)"

partial_function (option) rightmost :: "comp_tree \<Rightarrow> nat \<Rightarrow> nat option" where
  "rightmost tree n =
     (let next = cn_RightChild (tree n) in if next = UNUSED then Some n else rightmost tree next)"

text \<open>The parent of \<open>node\<close> links to \<open>newNode\<close> instead.\<close>

definition relink :: "comp_tree \<Rightarrow> nat \<Rightarrow> nat \<Rightarrow> nat \<Rightarrow> comp_tree" where
  "relink tree parent node newNode =
     (let tree = (if cn_LeftChild (tree parent) = node
                  then tree(parent := (tree parent)\<lparr>cn_LeftChild := newNode\<rparr>)
                  else tree(parent := (tree parent)\<lparr>cn_RightChild := newNode\<rparr>))
      in tree(node := (tree node)\<lparr>cn_Parent := UNUSED\<rparr>))"

text \<open>\<open>newNode\<close>, from deep in the left subtree of \<open>node\<close>, takes its place.\<close>

definition take_place :: "comp_tree \<Rightarrow> nat \<Rightarrow> nat \<Rightarrow> comp_tree" where
  "take_place tree node newNode =
     (let p = cn_Parent (tree newNode);
          tree = tree(p := (tree p)\<lparr>cn_RightChild := UNUSED\<rparr>);
          tree = tree(newNode := (tree newNode)\<lparr>cn_Parent := cn_Parent (tree node)\<rparr>);
          tree = tree(newNode := (tree newNode)\<lparr>cn_LeftChild := cn_LeftChild (tree node)\<rparr>);
          tree = tree(newNode := (tree newNode)\<lparr>cn_RightChild := cn_RightChild (tree node)\<rparr>);
          l = cn_LeftChild (tree newNode);
          tree = tree(l := (tree l)\<lparr>cn_Parent := newNode\<rparr>);
          r = cn_RightChild (tree newNode)
      in tree(r := (tree r)\<lparr>cn_Parent := newNode\<rparr>))"

definition DeleteString :: "comp_tree \<Rightarrow> nat \<Rightarrow> comp_tree option" where
  "DeleteString tree node =
     (let parent = cn_Parent (tree node) in
      if parent = UNUSED then Some tree
      else if cn_LeftChild (tree node) = UNUSED then
        let newNode = cn_RightChild (tree node)
        in Some (relink (tree(newNode := (tree newNode)\<lparr>cn_Parent := parent\<rparr>)) parent node newNode)
      else if cn_RightChild (tree node) = UNUSED then
        let newNode = cn_LeftChild (tree node)
        in Some (relink (tree(newNode := (tree newNode)\<lparr>cn_Parent := parent\<rparr>)) parent node newNode)
      else
        let newNode = cn_LeftChild (tree node) in
        if cn_RightChild (tree newNode) \<noteq> UNUSED then
          case rightmost tree (cn_RightChild (tree newNode)) of
            None \<Rightarrow> None
          | Some newNode \<Rightarrow> Some (relink (take_place tree node newNode) parent node newNode)
        else
          let tree = tree(newNode := (tree newNode)\<lparr>cn_Parent := parent\<rparr>);
              tree = tree(newNode := (tree newNode)\<lparr>cn_RightChild := cn_RightChild (tree node)\<rparr>);
              r = cn_RightChild (tree newNode);
              tree = tree(r := (tree r)\<lparr>cn_Parent := newNode\<rparr>)
          in Some (relink tree parent node newNode))"

section \<open>Compressors\<close>

record Compressor =
  ch_Window :: window
  ch_Tree :: comp_tree
  ch_LookAhead :: int
  ch_MatchLen :: nat
  ch_MatchPos :: nat
  ch_CurrentPos :: nat
  ch_ReplaceCnt :: nat
  ch_OutputStream :: OutputStream
  ch_SecondPass :: bool
  ch_AllocatedStructure :: bool
  ch_Cookie :: bool

text \<open>
  A handle is the compressor it points to, \<open>ch_Cookie\<close> whether its cookie holds its own address.
  A new compressor is built in a buffer of the caller or of \<open>AllocMem\<close>, whose content \<open>window\<close>
  and \<open>bytes\<close> stays where nothing is stored.
\<close>

fun comp_tags :: "comp_tag list \<Rightarrow> bool \<Rightarrow> comp_err + bool" where
  "comp_tags [] buffer = Inr buffer"
| "comp_tags (COMP_TAG_WORKBUFFER # tags) _ = comp_tags tags True"
| "comp_tags (COMP_TAG_USERDATA # tags) buffer = comp_tags tags buffer"
| "comp_tags (OTHER_COMP_TAG # _) _ = Inl COMP_ERR_BADTAG"

definition CreateCompressor ::
    "window \<Rightarrow> u8 list \<Rightarrow> bool \<Rightarrow> bool \<Rightarrow> bool \<Rightarrow> comp_tag list \<Rightarrow> comp_err + Compressor" where
  "CreateCompressor window bytes compr cf memory tags =
     (if \<not> compr then Inl COMP_ERR_BADPTR
      else if \<not> cf then Inl COMP_ERR_BADPTR
      else case comp_tags tags False of
        Inl e \<Rightarrow> Inl e
      | Inr buffer \<Rightarrow>
          if \<not> buffer \<and> \<not> memory then Inl COMP_ERR_NOMEM
          else Inr \<lparr>ch_Window = window,
            ch_Tree = (\<lambda>_. \<lparr>cn_Parent = UNUSED, cn_LeftChild = UNUSED, cn_RightChild = UNUSED\<rparr>)
              (TREE_ROOT := \<lparr>cn_Parent = UNUSED, cn_LeftChild = UNUSED, cn_RightChild = 1\<rparr>,
               1 := \<lparr>cn_Parent = TREE_ROOT, cn_LeftChild = UNUSED, cn_RightChild = UNUSED\<rparr>),
            ch_LookAhead = 1, ch_MatchLen = 0, ch_MatchPos = 0, ch_CurrentPos = 1, ch_ReplaceCnt = 0,
            ch_OutputStream = InitOutputStream bytes, ch_SecondPass = False,
            ch_AllocatedStructure = (\<not> buffer), ch_Cookie = True\<rparr>)"

text \<open>One literal or match is written, of at most \<open>limit\<close> bytes; its length is \<open>ch_ReplaceCnt\<close>.\<close>

definition emit :: "nat \<Rightarrow> Compressor \<Rightarrow> Compressor" where
  "emit limit c =
     (let matchLen = (if ch_MatchLen c > limit then limit else ch_MatchLen c);
          os = ch_OutputStream c
      in if matchLen \<le> BREAK_EVEN
         then c\<lparr>ch_MatchLen := matchLen,
                ch_OutputStream := WriteByte (WriteOne os) (ch_Window c (ch_CurrentPos c)),
                ch_ReplaceCnt := 1\<rparr>
         else c\<lparr>ch_MatchLen := matchLen,
                ch_OutputStream := WriteWord (WriteZero os)
                  (of_nat (ch_MatchPos c * 2 ^ LENGTH_BIT_COUNT + (matchLen - (BREAK_EVEN + 1)))),
                ch_ReplaceCnt := matchLen\<rparr>)"

text \<open>The head of the inner loop: the string that is about to be overwritten leaves the tree.\<close>

definition delete_next :: "Compressor \<Rightarrow> Compressor option" where
  "delete_next c =
     (case DeleteString (ch_Tree c) (MOD_WINDOW (ch_CurrentPos c + LOOK_AHEAD_SIZE)) of
        None \<Rightarrow> None
      | Some tree \<Rightarrow> Some (c\<lparr>ch_Tree := tree, ch_ReplaceCnt := ch_ReplaceCnt c - 1\<rparr>))"

definition add_next :: "Compressor \<Rightarrow> Compressor option" where
  "add_next c =
     (case AddString (ch_Tree c) (ch_Window c) (ch_CurrentPos c) (ch_MatchPos c) of
        None \<Rightarrow> None
      | Some (tree, matchLen, matchPos) \<Rightarrow>
          Some (c\<lparr>ch_Tree := tree, ch_MatchLen := matchLen, ch_MatchPos := matchPos\<rparr>))"

text \<open>The label \<open>newData\<close> of \<open>FeedCompressor\<close>: a byte enters the window.\<close>

definition new_data :: "u8 \<Rightarrow> Compressor \<Rightarrow> Compressor option" where
  "new_data b c =
     add_next (c\<lparr>ch_Window := (ch_Window c)(MOD_WINDOW (ch_CurrentPos c + LOOK_AHEAD_SIZE) := b),
                 ch_CurrentPos := MOD_WINDOW (ch_CurrentPos c + 1)\<rparr>)"

text \<open>The main loop, at the test of its inner loop, for the bytes that are left.\<close>

fun feed_loop :: "Compressor \<Rightarrow> u8 list \<Rightarrow> Compressor option" where
  "feed_loop c bytes =
     (case delete_next (if ch_ReplaceCnt c = 0 then emit LOOK_AHEAD_SIZE c else c) of
        None \<Rightarrow> None
      | Some c \<Rightarrow>
          (case bytes of
             [] \<Rightarrow> Some (c\<lparr>ch_LookAhead := int LOOK_AHEAD_SIZE, ch_SecondPass := True\<rparr>)
           | b # bs \<Rightarrow> (case new_data b c of None \<Rightarrow> None | Some c \<Rightarrow> feed_loop c bs)))"

text \<open>The look-ahead buffer is filled first.\<close>

fun fill :: "Compressor \<Rightarrow> u8 list \<Rightarrow> Compressor \<times> u8 list" where
  "fill c [] = (c, [])"
| "fill c (b # bs) =
     (if ch_LookAhead c \<le> int LOOK_AHEAD_SIZE
      then fill (c\<lparr>ch_Window := (ch_Window c)(nat (ch_LookAhead c) := b), ch_LookAhead := ch_LookAhead c + 1\<rparr>) bs
      else (c, b # bs))"

definition FeedCompressor :: "Compressor \<Rightarrow> u8 list \<Rightarrow> (comp_err + unit) \<times> Compressor option" where
  "FeedCompressor c data =
     (if \<not> ch_Cookie c then (Inl COMP_ERR_BADPTR, Some c)
      else
        (Inr (),
         case data of
           [] \<Rightarrow> Some c
         | b # bs \<Rightarrow>
             if ch_SecondPass c
             then (case new_data b c of None \<Rightarrow> None | Some c \<Rightarrow> feed_loop c bs)
             else case fill c data of
               (c, bytes) \<Rightarrow>
                 if ch_LookAhead c \<le> int LOOK_AHEAD_SIZE then Some c
                 else feed_loop (c\<lparr>ch_ReplaceCnt := 0\<rparr>) bytes))"

text \<open>The label \<open>newData\<close> of \<open>FlushCompressor\<close>.\<close>

definition flush_data :: "Compressor \<Rightarrow> Compressor option" where
  "flush_data c =
     (let c = c\<lparr>ch_CurrentPos := MOD_WINDOW (ch_CurrentPos c + 1)\<rparr>
      in if ch_LookAhead c \<noteq> 0 then add_next c else Some c)"

partial_function (option) flush_loop :: "Compressor \<Rightarrow> Compressor option" where
  "flush_loop c =
     (if ch_ReplaceCnt c = 0 \<and> ch_LookAhead c < 0 then Some c
      else case delete_next (if ch_ReplaceCnt c = 0 then emit (nat (ch_LookAhead c)) c else c) of
        None \<Rightarrow> None
      | Some c \<Rightarrow>
          (case flush_data (c\<lparr>ch_LookAhead := ch_LookAhead c - 1\<rparr>) of
             None \<Rightarrow> None
           | Some c \<Rightarrow> flush_loop c))"

definition FlushCompressor :: "Compressor \<Rightarrow> Compressor option" where
  "FlushCompressor c =
     (if ch_SecondPass c
      then (case flush_data c of None \<Rightarrow> None | Some c \<Rightarrow> flush_loop c)
      else flush_loop (c\<lparr>ch_ReplaceCnt := 0\<rparr>))"

definition DeleteCompressor :: "Compressor \<Rightarrow> (comp_err + unit) \<times> Compressor option" where
  "DeleteCompressor c =
     (if \<not> ch_Cookie c then (Inl COMP_ERR_BADPTR, Some c)
      else (Inr (),
        case FlushCompressor (c\<lparr>ch_Cookie := False\<rparr>) of
          None \<Rightarrow> None
        | Some c \<Rightarrow>
            Some (c\<lparr>ch_OutputStream :=
              CleanupOutputStream (WriteWord (WriteZero (ch_OutputStream c)) (of_nat END_OF_STREAM))\<rparr>)))"

definition GetCompressorWorkBufferSize :: "int \<Rightarrow> bool \<Rightarrow> comp_err + int" where
  "GetCompressorWorkBufferSize sizeof_Compressor tags = (if tags then Inl COMP_ERR_BADTAG else Inr sizeof_Compressor)"

end
