(* ===== verification/Decompress.thy ===== *)
theory Decompress
  imports Compress
begin

text \<open>
  The decompressor of the compression folio (\<open>folios/compression/decompress.c\<close>): a state
  machine over the bytes of its input, and the one-call interfaces \<open>SimpleCompress\<close> and
  \<open>SimpleDecompress\<close>. Words given to the callback are collected in \<open>dh_Out\<close>.
\<close>

datatype DecompStates = STATE_CONTROLBYTE | STATE_LITTERALBYTE | STATE_FIRSTMATCHBYTE | STATE_SECONDMATCHBYTE

record Decompressor =
  dh_Out :: "u32 list"
  dh_Window :: window
  dh_WordBuffer :: u32
  dh_BytesLeft :: nat
  dh_Pos :: nat
  dh_State :: DecompStates
  dh_MatchWord :: u32
  dh_Error :: "comp_err option"
  dh_ControlFlags :: u8
  dh_NextFlag :: u8
  dh_EOS :: bool
  dh_AllocatedStructure :: bool
  dh_Cookie :: bool

definition OutputByte :: "u8 \<Rightarrow> Decompressor \<Rightarrow> Decompressor" where
  "OutputByte b d =
     (if dh_BytesLeft d = 0
      then d\<lparr>dh_Out := dh_Out d @ [dh_WordBuffer d], dh_WordBuffer := ucast b, dh_BytesLeft := 3\<rparr>
      else d\<lparr>dh_WordBuffer := push_bit 8 (dh_WordBuffer d) OR ucast b, dh_BytesLeft := dh_BytesLeft d - 1\<rparr>)"

text \<open>A byte is put out and enters the window.\<close>

definition put_byte :: "u8 \<Rightarrow> Decompressor \<Rightarrow> Decompressor" where
  "put_byte b d =
     (let d = OutputByte b d
      in d\<lparr>dh_Window := (dh_Window d)(dh_Pos d := b), dh_Pos := MOD_WINDOW (dh_Pos d + 1)\<rparr>)"

fun copy_match :: "nat \<Rightarrow> nat \<Rightarrow> Decompressor \<Rightarrow> Decompressor" where
  "copy_match i 0 d = d"
| "copy_match i (Suc n) d = copy_match (i + 1) n (put_byte (dh_Window d (MOD_WINDOW i)) d)"

text \<open>The next flag decides what comes after a literal or a match.\<close>

definition next_state :: "Decompressor \<Rightarrow> Decompressor" where
  "next_state d =
     (if dh_NextFlag d = 0 then d\<lparr>dh_State := STATE_CONTROLBYTE\<rparr>
      else d\<lparr>dh_State := (if dh_ControlFlags d AND dh_NextFlag d \<noteq> 0 then STATE_LITTERALBYTE else STATE_FIRSTMATCHBYTE),
             dh_NextFlag := drop_bit 1 (dh_NextFlag d)\<rparr>)"

text \<open>
  The state machine over the bytes of the input. The fall-through cases of the code set the
  state before they ask for the next byte, so each byte is handled by the case of its state. At the
  end of the stream only the error, \<open>dh_EOS\<close> and \<open>dh_BytesLeft\<close> are stored: the other fields, the
  word buffer among them, are copied to local variables and keep the values they had on entry,
  \<open>saved\<close>.
\<close>

fun decode :: "Decompressor \<Rightarrow> Decompressor \<Rightarrow> u8 list \<Rightarrow> Decompressor" where
  "decode saved d [] = d"
| "decode saved d (byte # bytes) =
     (case dh_State d of
        STATE_CONTROLBYTE \<Rightarrow>
          decode saved (d\<lparr>dh_NextFlag := 64, dh_ControlFlags := byte,
             dh_State := (if byte AND 128 = 0 then STATE_FIRSTMATCHBYTE else STATE_LITTERALBYTE)\<rparr>) bytes
      | STATE_LITTERALBYTE \<Rightarrow> decode saved (next_state (put_byte byte d)) bytes
      | STATE_FIRSTMATCHBYTE \<Rightarrow>
          decode saved (d\<lparr>dh_MatchWord := push_bit 8 (ucast byte), dh_State := STATE_SECONDMATCHBYTE\<rparr>) bytes
      | STATE_SECONDMATCHBYTE \<Rightarrow>
          let matchWord = dh_MatchWord d OR ucast byte;
              matchPos = unat (drop_bit LENGTH_BIT_COUNT matchWord)
          in if matchPos = END_OF_STREAM
             then saved\<lparr>dh_Out := dh_Out d, dh_Window := dh_Window d, dh_BytesLeft := dh_BytesLeft d,
                    dh_Error := (if length bytes > 3 then Some COMP_ERR_DATAREMAINS else dh_Error d),
                    dh_EOS := True\<rparr>
             else
               let matchLen = unat (matchWord AND (2 ^ LENGTH_BIT_COUNT - 1)) + BREAK_EVEN
               in decode saved (next_state (copy_match matchPos (matchLen + 1) (d\<lparr>dh_MatchWord := matchWord\<rparr>))) bytes)"

definition FeedDecompressor :: "Decompressor \<Rightarrow> u8 list \<Rightarrow> (comp_err + unit) \<times> Decompressor" where
  "FeedDecompressor d data =
     (if \<not> dh_Cookie d then (Inl COMP_ERR_BADPTR, d)
      else case dh_Error d of
        Some e \<Rightarrow> (Inl e, d)
      | None \<Rightarrow>
          if dh_EOS d then (Inl COMP_ERR_DATAREMAINS, d)
          else let d = decode d d data
               in (case dh_Error d of Some e \<Rightarrow> Inl e | None \<Rightarrow> Inr (), d))"

text \<open>The buffer may be the caller's: fields that are not set keep the content \<open>old\<close>.\<close>

definition CreateDecompressor ::
    "Decompressor \<Rightarrow> bool \<Rightarrow> bool \<Rightarrow> bool \<Rightarrow> comp_tag list \<Rightarrow> comp_err + Decompressor" where
  "CreateDecompressor old decomp cf memory tags =
     (if \<not> decomp then Inl COMP_ERR_BADPTR
      else if \<not> cf then Inl COMP_ERR_BADPTR
      else case comp_tags tags False of
        Inl e \<Rightarrow> Inl e
      | Inr buffer \<Rightarrow>
          if \<not> buffer \<and> \<not> memory then Inl COMP_ERR_NOMEM
          else Inr (old\<lparr>dh_Out := [], dh_WordBuffer := 0, dh_BytesLeft := 4, dh_Pos := 1, dh_State := STATE_CONTROLBYTE,
            dh_Error := None, dh_EOS := False, dh_AllocatedStructure := \<not> buffer, dh_Cookie := True\<rparr>))"

definition DeleteDecompressor :: "Decompressor \<Rightarrow> (comp_err + unit) \<times> Decompressor" where
  "DeleteDecompressor d =
     (if \<not> dh_Cookie d then (Inl COMP_ERR_BADPTR, d)
      else
        let d = d\<lparr>dh_Cookie := False\<rparr>;
            d = (if dh_BytesLeft d = 0 then d\<lparr>dh_Out := dh_Out d @ [dh_WordBuffer d]\<rparr> else d)
        in (case dh_Error d of
              Some e \<Rightarrow> Inl e
            | None \<Rightarrow> if \<not> dh_EOS d then Inl COMP_ERR_DATAMISSING else Inr (), d))"

definition GetDecompressorWorkBufferSize :: "int \<Rightarrow> bool \<Rightarrow> comp_err + int" where
  "GetDecompressorWorkBufferSize sizeof_Decompressor tags = (if tags then Inl COMP_ERR_BADTAG else Inr sizeof_Decompressor)"

section \<open>The simple interfaces\<close>

text \<open>\<open>PutWord\<close>: the words stored in the result, and whether one did not fit.\<close>

record Context =
  ctx_Dest :: "u32 list"
  ctx_Max :: nat
  ctx_Overflow :: bool

definition PutWord :: "Context \<Rightarrow> u32 \<Rightarrow> Context" where
  "PutWord ctx w =
     (if length (ctx_Dest ctx) \<ge> ctx_Max ctx then ctx\<lparr>ctx_Overflow := True\<rparr>
      else ctx\<lparr>ctx_Dest := ctx_Dest ctx @ [w]\<rparr>)"

definition put_all :: "nat \<Rightarrow> u32 list \<Rightarrow> Context" where
  "put_all resultWords ws = foldl PutWord \<lparr>ctx_Dest = [], ctx_Max = resultWords, ctx_Overflow = False\<rparr> ws"

definition simple_result :: "(comp_err + unit) \<Rightarrow> Context \<Rightarrow> comp_err + u32 list" where
  "simple_result err ctx =
     (case err of
        Inl e \<Rightarrow> Inl e
      | Inr _ \<Rightarrow> if ctx_Overflow ctx then Inl COMP_ERR_OVERFLOW else Inr (ctx_Dest ctx))"

text \<open>The result is the words stored, whose number the code returns; \<open>None\<close> if it does not return.\<close>

definition SimpleCompress ::
    "window \<Rightarrow> u8 list \<Rightarrow> bool \<Rightarrow> u32 list \<Rightarrow> nat \<Rightarrow> (comp_err + u32 list) option" where
  "SimpleCompress window bytes memory source resultWords =
     (case CreateCompressor window bytes True True memory [COMP_TAG_USERDATA] of
        Inl e \<Rightarrow> Some (Inl e)
      | Inr c \<Rightarrow>
          (case snd (FeedCompressor c (concat (map bytes_of_word source))) of
             None \<Rightarrow> None
           | Some c \<Rightarrow>
               (case DeleteCompressor c of
                  (_, None) \<Rightarrow> None
                | (err, Some c) \<Rightarrow>
                    Some (simple_result err (put_all resultWords (os_Out (ch_OutputStream c)))))))"

definition SimpleDecompress ::
    "Decompressor \<Rightarrow> bool \<Rightarrow> u32 list \<Rightarrow> nat \<Rightarrow> comp_err + u32 list" where
  "SimpleDecompress old memory source resultWords =
     (case CreateDecompressor old True True memory [COMP_TAG_USERDATA] of
        Inl e \<Rightarrow> Inl e
      | Inr d \<Rightarrow>
          (case DeleteDecompressor (snd (FeedDecompressor d (concat (map bytes_of_word source)))) of
             (err, d) \<Rightarrow> simple_result err (put_all resultWords (dh_Out d))))"

end
