(* ===== verification/CompressFormat.thy ===== *)
theory CompressFormat
  imports Decompress
begin

text \<open>
  The format the compressor writes and the decompressor reads: tokens (a literal byte, or a match
  of an earlier position), eight to a group behind a control byte. The output stream of the
  compressor writes the encoding of its tokens, and the decompressor's state machine turns
  the encoding of tokens back into the bytes they stand for.
\<close>

section \<open>Tokens and their encoding\<close>

datatype token = Lit u8 | Match nat nat

fun is_lit :: "token \<Rightarrow> bool" where
  "is_lit (Lit _) = True"
| "is_lit (Match _ _) = False"

definition match_word :: "nat \<Rightarrow> nat \<Rightarrow> nat" where
  "match_word p l = p * 2 ^ LENGTH_BIT_COUNT + (l - (BREAK_EVEN + 1))"

fun payload :: "token \<Rightarrow> u8 list" where
  "payload (Lit b) = [b]"
| "payload (Match p l) = [ucast (drop_bit 8 (of_nat (match_word p l) :: u16)), ucast (of_nat (match_word p l) :: u16)]"

fun ctrl_from :: "u32 \<Rightarrow> token list \<Rightarrow> u32" where
  "ctrl_from f [] = 0"
| "ctrl_from f (t # ts) = (if is_lit t then f else 0) OR ctrl_from (drop_bit 1 f) ts"

definition payloads :: "token list \<Rightarrow> u8 list" where
  "payloads ts = concat (map payload ts)"

definition group :: "token list \<Rightarrow> u8 list" where
  "group ts = ucast (ctrl_from 128 ts) # payloads ts"

function encode :: "token list \<Rightarrow> u8 list" where
  "encode ts = (if ts = [] then [] else group (take 8 ts) @ encode (drop 8 ts))"
  by pat_completeness auto
termination by (relation "measure length") auto

declare encode.simps [simp del]

lemma payloads_simps [simp]: "payloads [] = []" "payloads (t # ts) = payload t @ payloads ts"
  "payloads (us @ vs) = payloads us @ payloads vs"
  by (simp_all add: payloads_def)

lemma length_payload: "1 \<le> length (payload t)" "length (payload t) \<le> 2"
  by (cases t; simp)+

lemma length_payloads: "length (payloads ts) \<le> 2 * length ts"
proof (induction ts)
  case (Cons t ts)
  then show ?case using length_payload(2) [of t] by simp
qed simp

lemma encode_append:
  assumes "8 dvd length us"
  shows "encode (us @ vs) = encode us @ encode vs"
  using assms
proof (induction us rule: encode.induct)
  case (1 us)
  show ?case
  proof (cases "us = []")
    case False
    then have "8 \<le> length us" using "1.prems" by (auto dest: dvd_imp_le)
    moreover have "8 dvd length (drop 8 us)" using "1.prems" by (simp add: dvd_diff_nat)
    ultimately show ?thesis
      using "1.IH" [OF False] False by (subst (1 2) encode.simps) simp
  qed (simp add: encode.simps [of "[]"])
qed

lemma encode_group: "ts \<noteq> [] \<Longrightarrow> length ts \<le> 8 \<Longrightarrow> encode ts = group ts"
  by (subst encode.simps) (simp add: encode.simps [of "[]"])

lemma encode_Nil [simp]: "encode [] = []"
  by (simp add: encode.simps)

lemma ctrl_from_append:
  "ctrl_from f (ts @ [t]) = ctrl_from f ts OR (if is_lit t then drop_bit (length ts) f else 0)"
  by (induction ts arbitrary: f) (simp_all add: or.assoc)

lemma bit_ctrl_from:
  assumes "length ts \<le> Suc k" and "k < 32"
  shows "bit (ctrl_from (push_bit k 1) ts) i \<longleftrightarrow> (\<exists>j < length ts. i + j = k \<and> is_lit (ts ! j))"
  using assms
proof (induction ts arbitrary: k)
  case (Cons t ts)
  show ?case
  proof (cases k)
    case 0
    then have "ts = []" using Cons.prems(1) by simp
    then show ?thesis using 0 by (auto simp: bit_1_iff)
  next
    case (Suc m)
    have "drop_bit 1 (push_bit k 1 :: u32) = push_bit m 1"
      by (rule bit_eqI) (use Suc Cons.prems(2) in \<open>auto simp: bit_simps\<close>)
    moreover have "bit (ctrl_from (push_bit m 1) ts) i \<longleftrightarrow> (\<exists>j < length ts. i + j = m \<and> is_lit (ts ! j))"
      by (rule Cons.IH) (use Cons.prems Suc in auto)
    moreover have "bit (push_bit k 1 :: u32) i \<longleftrightarrow> i = k"
      using Cons.prems(2) by (auto simp: bit_simps)
    moreover have "(\<exists>j < length (t # ts). i + j = k \<and> is_lit ((t # ts) ! j))
        \<longleftrightarrow> (i = k \<and> is_lit t) \<or> (\<exists>j < length ts. i + j = m \<and> is_lit (ts ! j))"
      unfolding Suc by (auto simp: less_Suc_eq_0_disj)
    ultimately show ?thesis by (auto simp: bit_or_iff simp del: push_bit_of_1)
  qed
qed simp

lemma bit_control_byte:
  assumes "length ts \<le> 8" and "j < 8"
  shows "bit (ucast (ctrl_from 128 ts) :: u8) (7 - j) \<longleftrightarrow> j < length ts \<and> is_lit (ts ! j)"
proof -
  have "(128 :: u32) = push_bit 7 1" by (simp add: push_bit_eq_mult)
  then have "bit (ctrl_from 128 ts) (7 - j) \<longleftrightarrow> (\<exists>i < length ts. (7 - j) + i = 7 \<and> is_lit (ts ! i))"
    using bit_ctrl_from [of ts 7 "7 - j"] assms(1) by (simp only:)
  also have "\<dots> \<longleftrightarrow> j < length ts \<and> is_lit (ts ! j)"
  proof -
    have "(7 - j) + i = 7 \<longleftrightarrow> i = j" for i using assms(2) by auto
    then show ?thesis by auto
  qed
  finally have "bit (ctrl_from 128 ts) (7 - j) \<longleftrightarrow> j < length ts \<and> is_lit (ts ! j)" .
  moreover have "7 - j < (8 :: nat)" by linarith
  ultimately show ?thesis by (simp add: bit_simps)
qed

section \<open>Bytes and words\<close>

lemma bytes_word [simp]: "bytes_of_word (word_of_bytes a b c d) = [a, b, c, d]"
  by (auto simp: bytes_of_word_def word_of_bytes_def bit_eq_iff bit_simps dest: bit_imp_le_length)

lemma word_bytes [simp]: "words_of_bytes (bytes_of_word w @ bs) = w # words_of_bytes bs"
proof -
  have "word_of_bytes (ucast (drop_bit 24 w)) (ucast (drop_bit 16 w)) (ucast (drop_bit 8 w)) (ucast w) = w"
  proof (rule bit_eqI)
    fix n assume "possible_bit TYPE(u32) n"
    then have "n < 32" by simp
    then consider "n < 8" | "8 \<le> n" "n < 16" | "16 \<le> n" "n < 24" | "24 \<le> n" "n < 32" by linarith
    then show "bit (word_of_bytes (ucast (drop_bit 24 w)) (ucast (drop_bit 16 w)) (ucast (drop_bit 8 w)) (ucast w)) n = bit w n"
      by cases (auto simp: word_of_bytes_def bit_simps)
  qed
  then show ?thesis by (simp add: bytes_of_word_def)
qed

definition bytes :: "u32 list \<Rightarrow> u8 list" where
  "bytes ws = concat (map bytes_of_word ws)"

lemma bytes_simps [simp]: "bytes [] = []" "bytes (w # ws) = bytes_of_word w @ bytes ws"
  "bytes (us @ vs) = bytes us @ bytes vs"
  by (simp_all add: bytes_def)

lemma length_bytes [simp]: "length (bytes ws) = 4 * length ws"
  by (induction ws) (simp_all add: bytes_of_word_def)

lemma words_of_bytes_bytes: "words_of_bytes (bytes ws) = ws"
  by (induction ws) simp_all

lemma bytes_words_of_bytes: "4 dvd length bs \<Longrightarrow> bytes (words_of_bytes bs) = bs"
proof (induction bs rule: words_of_bytes.induct)
  case (1 a b c d bs)
  have "4 dvd length bs" using "1.prems" by (simp only: list.size) presburger
  with 1 show ?case by simp
qed (auto dest: dvd_imp_le)

lemma bytes_inj: "bytes us = bytes vs \<Longrightarrow> us = vs"
  by (metis words_of_bytes_bytes)

section \<open>The output stream writes the encoding\<close>

text \<open>The bytes of finished groups, and the payload of the group that is being built.\<close>

definition buffered :: "OutputStream \<Rightarrow> u8 list \<Rightarrow> u8 list \<Rightarrow> bool" where
  "buffered os base pl \<longleftrightarrow> length (os_WriteBackBuffer os) = 21 \<and> os_ControlByteIndex os \<le> 3
     \<and> bytes (os_Out os) @ take (os_ControlByteIndex os) (os_WriteBackBuffer os) = base
     \<and> os_BufferIndex os = os_ControlByteIndex os + 1 + length pl \<and> os_BufferIndex os \<le> 21
     \<and> take (length pl) (drop (os_ControlByteIndex os + 1) (os_WriteBackBuffer os)) = pl"

lemma buffered_WriteByte:
  assumes "buffered os base pl" and "os_BufferIndex os < 21"
  shows "buffered (WriteByte os b) base (pl @ [b])"
proof -
  let ?ci = "os_ControlByteIndex os" and ?buf = "os_WriteBackBuffer os" and ?n = "os_BufferIndex os"
  have n: "?n = ?ci + 1 + length pl" "length ?buf = 21" using assms(1) by (simp_all add: buffered_def)
  have "take (Suc (length pl)) (drop (?ci + 1) (?buf[?n := b])) = (take (length pl) (drop (?ci + 1) ?buf)) @ [b]"
    using n assms(2) by (simp add: drop_update_swap take_Suc_conv_app_nth)
  moreover have "take ?ci (?buf[?n := b]) = take ?ci ?buf" using n by simp
  ultimately show ?thesis using assms by (simp add: buffered_def WriteByte_def del: take_Suc)
qed

lemma buffered_Flush:
  assumes "buffered os base pl"
  shows "buffered (FlushOutputStream os) (base @ ucast (os_ControlFlags os) # pl) []"
    and "os_ControlFlags (FlushOutputStream os) = 0" and "os_NextFlag (FlushOutputStream os) = 128"
    and "os_BufferIndex os mod 4 = 0 \<Longrightarrow> bytes (os_Out (FlushOutputStream os)) = base @ ucast (os_ControlFlags os) # pl"
proof -
  let ?ci = "os_ControlByteIndex os" and ?n = "os_BufferIndex os"
  define buf where "buf = (os_WriteBackBuffer os)[?ci := ucast (os_ControlFlags os)]"
  have n: "?n = ?ci + 1 + length pl" "length buf = 21" "?n \<le> 21" "?ci \<le> 3"
    "bytes (os_Out os) @ take ?ci buf = base" "take (length pl) (drop (?ci + 1) buf) = pl"
    using assms by (simp_all add: buffered_def buf_def)
  have "take ?n buf = take ?ci buf @ take (1 + length pl) (drop ?ci buf)"
    unfolding n(1) by (simp only: take_add add.assoc)
  also have "drop ?ci buf = ucast (os_ControlFlags os) # drop (?ci + 1) buf"
    using n(2,4) by (simp add: buf_def Cons_nth_drop_Suc [symmetric])
  also have "take (1 + length pl) \<dots> = ucast (os_ControlFlags os) # pl" using n(6) by simp
  finally have all: "bytes (os_Out os) @ take ?n buf = base @ ucast (os_ControlFlags os) # pl"
    using n(5) by (metis append.assoc)
  have start: "?n - ?n mod 4 = 4 * (?n div 4)" by (metis minus_mod_eq_mult_div)
  have le: "4 * (?n div 4) \<le> 21" using n(3) by linarith
  have w: "bytes (words_of_bytes (take (4 * (?n div 4)) buf)) = take (4 * (?n div 4)) buf"
    by (rule bytes_words_of_bytes) (simp add: n(2) min_absorb2 le)
  have "take (?n mod 4) (drop (?n - ?n mod 4) buf) = drop (4 * (?n div 4)) (take ?n buf)"
    unfolding start by (simp add: drop_take minus_mult_div_eq_mod)
  then have split: "take (4 * (?n div 4)) buf @ take (?n mod 4) (drop (?n - ?n mod 4) buf) = take ?n buf"
    by (metis append_take_drop_id min.absorb1 mult_div_mod_eq le_add1 take_take)
  have len: "length (take (?n mod 4) (drop (?n - ?n mod 4) buf)) = ?n mod 4"
    using n(2,3) start le by simp
  have F: "FlushOutputStream os = os\<lparr>os_Out := os_Out os @ words_of_bytes (take (4 * (?n div 4)) buf),
      os_WriteBackBuffer := take (?n mod 4) (drop (?n - ?n mod 4) buf) @ drop (?n mod 4) buf,
      os_ControlByteIndex := ?n mod 4, os_BufferIndex := ?n mod 4 + 1, os_ControlFlags := 0, os_NextFlag := 128\<rparr>"
    by (simp add: FlushOutputStream_def Let_def buf_def)
  have m: "?n mod 4 \<le> 3" using mod_less_divisor [of 4 ?n] by linarith
  show "buffered (FlushOutputStream os) (base @ ucast (os_ControlFlags os) # pl) []"
    using all split len m n(2) by (simp add: buffered_def F w)
  show "os_ControlFlags (FlushOutputStream os) = 0" "os_NextFlag (FlushOutputStream os) = 128"
    by (simp_all add: F)
  show "bytes (os_Out (FlushOutputStream os)) = base @ ucast (os_ControlFlags os) # pl" if "?n mod 4 = 0"
    unfolding F using all split that w by simp
qed

text \<open>The stream after some tokens: full groups written out, and a last group of up to eight.\<close>

definition stream :: "token list \<Rightarrow> OutputStream \<Rightarrow> bool" where
  "stream ts os \<longleftrightarrow> (\<exists>full cur. ts = full @ cur \<and> 8 dvd length full \<and> length cur \<le> 8
     \<and> buffered os (encode full) (payloads cur)
     \<and> os_ControlFlags os = ctrl_from 128 cur \<and> os_NextFlag os = drop_bit (length cur) 128
     \<and> (cur = [] \<longrightarrow> ts = []))"

definition put_token :: "OutputStream \<Rightarrow> token \<Rightarrow> OutputStream" where
  "put_token os t = (case t of
     Lit b \<Rightarrow> WriteByte (WriteOne os) b
   | Match p l \<Rightarrow> WriteWord (WriteZero os) (of_nat (match_word p l)))"

lemma stream_init:
  assumes "length buf = 21"
  shows "stream [] (InitOutputStream buf)"
  unfolding stream_def by (rule exI [of _ "[]"], rule exI [of _ "[]"]) (simp add: buffered_def InitOutputStream_def assms)

text \<open>After the flag of a token is set, its payload is written.\<close>

lemma buffered_payload:
  assumes "buffered os base pl" and "os_BufferIndex os + length (payload t) \<le> 21"
  shows "buffered (foldl WriteByte os (payload t)) base (pl @ payload t)"
    and "os_ControlFlags (foldl WriteByte os (payload t)) = os_ControlFlags os"
    and "os_NextFlag (foldl WriteByte os (payload t)) = os_NextFlag os"
proof -
  have W: "os_BufferIndex (WriteByte os b) = Suc (os_BufferIndex os)" "os_ControlFlags (WriteByte os b) = os_ControlFlags os"
    "os_NextFlag (WriteByte os b) = os_NextFlag os" for os b by (simp_all add: WriteByte_def)
  show "buffered (foldl WriteByte os (payload t)) base (pl @ payload t)"
  proof (cases t)
    case (Lit b)
    then show ?thesis using assms by (simp add: buffered_WriteByte)
  next
    case (Match p l)
    then have n: "os_BufferIndex os < 21" "os_BufferIndex (WriteByte os x) < 21" for x using assms(2) by (simp_all add: W)
    from buffered_WriteByte [OF buffered_WriteByte [OF assms(1) n(1)] n(2)] Match
    show ?thesis by simp
  qed
  show "os_ControlFlags (foldl WriteByte os (payload t)) = os_ControlFlags os"
    "os_NextFlag (foldl WriteByte os (payload t)) = os_NextFlag os" by (cases t; simp add: W)+
qed

lemma put_token_alt:
  "put_token os t = foldl WriteByte
     (let os = (if os_NextFlag os = 0 then FlushOutputStream os else os)
      in os\<lparr>os_ControlFlags := os_ControlFlags os OR (if is_lit t then os_NextFlag os else 0),
           os_NextFlag := drop_bit 1 (os_NextFlag os)\<rparr>) (payload t)"
  by (cases t) (simp_all add: put_token_def WriteOne_def WriteZero_def WriteWord_def Let_def)

lemma stream_next_group:
  assumes "stream ts os"
  obtains full cur where "ts = full @ cur" "8 dvd length full" "length cur \<le> 7"
    "buffered (if os_NextFlag os = 0 then FlushOutputStream os else os) (encode full) (payloads cur)"
    "os_ControlFlags (if os_NextFlag os = 0 then FlushOutputStream os else os) = ctrl_from 128 cur"
    "os_NextFlag (if os_NextFlag os = 0 then FlushOutputStream os else os) = drop_bit (length cur) 128"
proof -
  obtain full cur where s: "ts = full @ cur" "8 dvd length full" "length cur \<le> 8"
      "buffered os (encode full) (payloads cur)" "os_ControlFlags os = ctrl_from 128 cur"
      "os_NextFlag os = drop_bit (length cur) 128" using assms by (auto simp: stream_def)
  have flag: "bit (drop_bit n (128 :: u32)) (7 - n) \<longleftrightarrow> n \<le> 7" for n
  proof -
    have "(128 :: u32) = push_bit 7 1" by (simp add: push_bit_eq_mult)
    then have "bit (drop_bit n (128 :: u32)) (7 - n) \<longleftrightarrow> bit (push_bit 7 1 :: u32) (n + (7 - n))"
      by (simp only: bit_drop_bit_eq comp_apply)
    also have "\<dots> \<longleftrightarrow> n \<le> 7" by (cases "n \<le> 7") (auto simp: bit_simps simp del: push_bit_of_1)
    finally show ?thesis .
  qed
  show thesis
  proof (cases "length cur = 8")
    case True
    have "drop_bit 8 (128 :: u32) = 0" by (simp add: drop_bit_eq_div)
    then have z: "os_NextFlag os = 0" using s(6) True by simp
    have "cur \<noteq> []" using True by auto
    then have "encode full @ ucast (os_ControlFlags os) # payloads cur = encode (full @ cur)"
      using s(2,5) True by (simp add: encode_append encode_group group_def)
    then show thesis
      using that [of "full @ cur" "[]"] s(1,2) True z buffered_Flush(1,2,3) [OF s(4)] by simp
  next
    case False
    then have l: "length cur \<le> 7" using s(3) by simp
    then have "os_NextFlag os \<noteq> 0" using flag [of "length cur"] s(6) by auto
    then show thesis using that [OF s(1,2) l] s(4-6) by simp
  qed
qed

lemma stream_put_token:
  assumes "stream ts os"
  shows "stream (ts @ [t]) (put_token os t)"
proof -
  define os' where "os' = (if os_NextFlag os = 0 then FlushOutputStream os else os)"
  obtain full cur where s: "ts = full @ cur" "8 dvd length full" "length cur \<le> 7"
      "buffered os' (encode full) (payloads cur)" "os_ControlFlags os' = ctrl_from 128 cur"
      "os_NextFlag os' = drop_bit (length cur) 128"
    using stream_next_group [OF assms] unfolding os'_def by metis
  define os2 where "os2 = os'\<lparr>os_ControlFlags := os_ControlFlags os' OR (if is_lit t then os_NextFlag os' else 0),
      os_NextFlag := drop_bit 1 (os_NextFlag os')\<rparr>"
  have b: "buffered os2 (encode full) (payloads cur)" using s(4) by (simp add: buffered_def os2_def)
  have "os_BufferIndex os2 \<le> 4 + length (payloads cur)" using b by (simp add: buffered_def)
  then have room: "os_BufferIndex os2 + length (payload t) \<le> 21"
    using length_payloads [of cur] s(3) length_payload(2) [of t] by linarith
  have "put_token os t = foldl WriteByte os2 (payload t)"
    by (simp add: put_token_alt os2_def os'_def Let_def)
  then show ?thesis
    unfolding stream_def using s(1-3,5,6) buffered_payload [OF b room]
    by (intro exI [of _ full] exI [of _ "cur @ [t]"]) (simp add: os2_def ctrl_from_append drop_bit_drop_bit)
qed

text \<open>Cleaning up writes the last group, padded to a multiple of four bytes.\<close>

lemma pad_buffered:
  assumes "buffered os base pl" and "os_BufferIndex os + n \<le> 21"
  shows "buffered (pad_stream n os) base (pl @ replicate n 0)"
    and "os_ControlFlags (pad_stream n os) = os_ControlFlags os"
    and "os_BufferIndex (pad_stream n os) = os_BufferIndex os + n"
proof -
  have "buffered (pad_stream n os) base (pl @ replicate n 0) \<and> os_ControlFlags (pad_stream n os) = os_ControlFlags os
      \<and> os_BufferIndex (pad_stream n os) = os_BufferIndex os + n"
    using assms
  proof (induction n arbitrary: os pl)
    case (Suc n)
    have "buffered (WriteByte os 0) base (pl @ [0])" using Suc.prems by (intro buffered_WriteByte) auto
    from Suc.IH [OF this] Suc.prems(2) show ?case by (simp add: WriteByte_def)
  qed simp
  then show "buffered (pad_stream n os) base (pl @ replicate n 0)"
    "os_ControlFlags (pad_stream n os) = os_ControlFlags os"
    "os_BufferIndex (pad_stream n os) = os_BufferIndex os + n" by blast+
qed

lemma round_up_4:
  "(n + (4 - n mod 4) mod 4) mod 4 = (0 :: nat)" "n \<le> 20 \<Longrightarrow> n + (4 - n mod 4) mod 4 \<le> 20"
proof -
  have "n + (4 - n mod 4) mod 4 = (if n mod 4 = 0 then n else 4 * (n div 4) + 4)"
  proof (cases "n mod 4 = 0")
    case False
    have "n = 4 * (n div 4) + n mod 4" "n mod 4 < 4" by simp_all
    moreover have "(4 - n mod 4) mod 4 = 4 - n mod 4" using False by simp
    ultimately have "n + (4 - n mod 4) mod 4 = 4 * (n div 4) + 4" by linarith
    then show ?thesis using False by simp
  qed simp
  moreover have "n mod 4 \<noteq> 0 \<Longrightarrow> n \<le> 20 \<Longrightarrow> n div 4 \<le> 4" by (cases "n = 20") auto
  ultimately show "(n + (4 - n mod 4) mod 4) mod 4 = 0" "n \<le> 20 \<Longrightarrow> n + (4 - n mod 4) mod 4 \<le> 20" by auto
qed

lemma stream_cleanup:
  assumes "stream ts os" and "ts \<noteq> []"
  shows "\<exists>k < 4. bytes (os_Out (CleanupOutputStream os)) = encode ts @ replicate k 0"
proof -
  obtain full cur where s: "ts = full @ cur" "8 dvd length full" "length cur \<le> 8" "cur \<noteq> []"
      "buffered os (encode full) (payloads cur)" "os_ControlFlags os = ctrl_from 128 cur"
    using assms by (auto simp: stream_def)
  define k where "k = (4 - os_BufferIndex os mod 4) mod 4"
  have "os_BufferIndex os \<le> 4 + length (payloads cur)" using s(5) by (simp add: buffered_def)
  then have "os_BufferIndex os \<le> 20" using length_payloads [of cur] s(3) by linarith
  note R = round_up_4(1) [of "os_BufferIndex os", folded k_def] round_up_4(2) [OF this, folded k_def]
  have "os_BufferIndex os + k \<le> 21" using R(2) by simp
  note P = pad_buffered [OF s(5) this]
  have "os_BufferIndex (pad_stream k os) mod 4 = 0" using R(1) P(3) by simp
  from buffered_Flush(4) [OF P(1) this]
  have "bytes (os_Out (CleanupOutputStream os)) = encode full @ group cur @ replicate k 0"
    by (simp add: P(2) CleanupOutputStream_def s(6) group_def flip: k_def)
  then have "bytes (os_Out (CleanupOutputStream os)) = encode ts @ replicate k 0"
    using s(1-4) by (simp add: encode_append encode_group)
  moreover have "k < 4" by (simp add: k_def)
  ultimately show ?thesis by blast
qed

section \<open>The bytes that tokens stand for\<close>

text \<open>A match copies bytes one by one, so that it may run into its own copy. Positions count from 1.\<close>

fun copy_hist :: "nat \<Rightarrow> nat \<Rightarrow> u8 list \<Rightarrow> u8 list" where
  "copy_hist i 0 h = h"
| "copy_hist i (Suc n) h = copy_hist (i + 1) n (h @ [h ! (i - 1)])"

fun expand :: "u8 list \<Rightarrow> token \<Rightarrow> u8 list" where
  "expand h (Lit b) = h @ [b]"
| "expand h (Match p l) = copy_hist p l h"

fun valid_token :: "u8 list \<Rightarrow> token \<Rightarrow> bool" where
  "valid_token h (Lit b) \<longleftrightarrow> True"
| "valid_token h (Match p l) \<longleftrightarrow> 1 \<le> p \<and> p \<le> length h \<and> 3 \<le> l \<and> l \<le> 18"

fun valid :: "u8 list \<Rightarrow> token list \<Rightarrow> bool" where
  "valid h [] \<longleftrightarrow> True"
| "valid h (t # ts) \<longleftrightarrow> valid_token h t \<and> valid (expand h t) ts"

abbreviation expands :: "u8 list \<Rightarrow> token list \<Rightarrow> u8 list" where
  "expands \<equiv> foldl expand"

lemma length_copy_hist [simp]: "length (copy_hist i n h) = length h + n"
  by (induction i n h rule: copy_hist.induct) simp_all

lemma length_expand: "length h \<le> length (expand h t)"
  by (cases t) simp_all

lemma length_expands: "length h \<le> length (expands h ts)"
proof (induction ts arbitrary: h)
  case (Cons t ts)
  then show ?case using length_expand [of h t] le_trans by fastforce
qed simp

lemma valid_append: "valid h (us @ vs) \<longleftrightarrow> valid h us \<and> valid (expands h us) vs"
  by (induction us arbitrary: h) simp_all

section \<open>The decompressor reads the encoding\<close>

text \<open>The decompressor has put out \<open>h\<close>: whole words, and up to four bytes in its word buffer.\<close>

definition decoded :: "u8 list \<Rightarrow> Decompressor \<Rightarrow> bool" where
  "decoded h d \<longleftrightarrow> dh_Pos d = length h + 1 \<and> length h < WINDOW_SIZE - 1
     \<and> (\<forall>i < length h. dh_Window d (i + 1) = h ! i)
     \<and> dh_BytesLeft d \<le> 4 \<and> h = bytes (dh_Out d) @ drop (dh_BytesLeft d) (bytes_of_word (dh_WordBuffer d))"

lemma length_bytes_of_word [simp]: "length (bytes_of_word w) = 4"
  by (simp add: bytes_of_word_def)

lemma bytes_of_shifted:
  "drop 3 (bytes_of_word (ucast b)) = [b]"
  "n < 4 \<Longrightarrow> drop n (bytes_of_word (push_bit 8 w OR ucast b)) = drop (Suc n) (bytes_of_word w) @ [b]"
proof -
  have b: "ucast (push_bit 8 w OR ucast b :: u32) = b" "ucast (drop_bit 8 (push_bit 8 w OR ucast b :: u32)) = (ucast w :: u8)"
    "ucast (drop_bit 16 (push_bit 8 w OR ucast b :: u32)) = (ucast (drop_bit 8 w) :: u8)"
    "ucast (drop_bit 24 (push_bit 8 w OR ucast b :: u32)) = (ucast (drop_bit 16 w) :: u8)"
    by (auto simp: bit_eq_iff bit_simps dest: bit_imp_le_length)
  have "ucast (ucast b :: u32) = b" by (auto simp: bit_eq_iff bit_simps dest: bit_imp_le_length)
  then show "drop 3 (bytes_of_word (ucast b)) = [b]" by (simp add: bytes_of_word_def)
  show "drop n (bytes_of_word (push_bit 8 w OR ucast b)) = drop (Suc n) (bytes_of_word w) @ [b]" if "n < 4"
  proof -
    have "bytes_of_word (push_bit 8 w OR ucast b) = tl (bytes_of_word w) @ [b]"
      unfolding bytes_of_word_def b by simp
    then show ?thesis using that by (simp add: drop_Suc)
  qed
qed

lemma put_byte_decoded:
  assumes "decoded h d" and "length h + 2 < WINDOW_SIZE"
  shows "decoded (h @ [b]) (put_byte b d)"
proof -
  have "bytes (dh_Out (OutputByte b d)) @ drop (dh_BytesLeft (OutputByte b d)) (bytes_of_word (dh_WordBuffer (OutputByte b d)))
      = h @ [b] \<and> dh_BytesLeft (OutputByte b d) \<le> 4"
  proof (cases "dh_BytesLeft d")
    case 0
    then show ?thesis using assms(1) by (simp add: OutputByte_def decoded_def bytes_of_shifted)
  next
    case (Suc n)
    then show ?thesis using assms(1) bytes_of_shifted(2) [of n "dh_WordBuffer d" b]
      by (simp add: OutputByte_def decoded_def)
  qed
  moreover have "dh_Window (OutputByte b d) = dh_Window d" "dh_Pos (OutputByte b d) = dh_Pos d"
    by (simp_all add: OutputByte_def)
  ultimately show ?thesis
    using assms by (auto simp: put_byte_def decoded_def Let_def MOD_WINDOW_def nth_append less_Suc_eq)
qed

text \<open>The fields the state machine is steered by.\<close>

definition steer :: "Decompressor \<Rightarrow> u8 \<times> u8 \<times> comp_err option" where
  "steer d = (dh_ControlFlags d, dh_NextFlag d, dh_Error d)"

lemma steer_put_byte [simp]: "steer (put_byte b d) = steer d"
  by (simp add: steer_def put_byte_def OutputByte_def Let_def)

lemma steer_copy_match [simp]: "steer (copy_match i n d) = steer d"
  by (induction i n d rule: copy_match.induct) simp_all

lemma copy_match_decoded:
  assumes "decoded h d" and "1 \<le> i" and "i \<le> length h" and "length h + n + 1 < WINDOW_SIZE"
  shows "decoded (copy_hist i n h) (copy_match i n d)"
  using assms
proof (induction i n d arbitrary: h rule: copy_match.induct)
  case (2 i n d)
  have "dh_Window d (MOD_WINDOW i) = h ! (i - 1)"
  proof -
    have "dh_Window d (i - 1 + 1) = h ! (i - 1)" using 2(2,3,4) unfolding decoded_def by (metis diff_less le_trans less_le_trans less_numeral_extra(1) not_less)
    then show ?thesis using 2(3,4,5) by (simp add: MOD_WINDOW_def)
  qed
  moreover have "decoded (h @ [h ! (i - 1)]) (put_byte (h ! (i - 1)) d)"
    using 2(2,5) by (intro put_byte_decoded) auto
  ultimately show ?case using 2(1) [of "h @ [h ! (i - 1)]"] 2(3-5) by simp
qed simp

lemma decoded_cong:
  "dh_Pos d' = dh_Pos d \<Longrightarrow> dh_Window d' = dh_Window d \<Longrightarrow> dh_BytesLeft d' = dh_BytesLeft d
   \<Longrightarrow> dh_Out d' = dh_Out d \<Longrightarrow> dh_WordBuffer d' = dh_WordBuffer d \<Longrightarrow> decoded h d' = decoded h d"
  by (simp only: decoded_def)

lemma decoded_steered [simp]:
  "decoded h (d\<lparr>dh_MatchWord := w\<rparr>) = decoded h d" "decoded h (d\<lparr>dh_State := st, dh_MatchWord := w\<rparr>) = decoded h d"
  "decoded h (d\<lparr>dh_NextFlag := f, dh_ControlFlags := c, dh_State := st\<rparr>) = decoded h d"
  "decoded h (next_state d) = decoded h d" "decoded h (d\<lparr>dh_State := st\<rparr>) = decoded h d"
  by (rule decoded_cong; simp add: next_state_def)+

text \<open>One token is read in the state its flag asks for.\<close>

definition state_for :: "token \<Rightarrow> DecompStates" where
  "state_for t = (if is_lit t then STATE_LITTERALBYTE else STATE_FIRSTMATCHBYTE)"

lemma match_word_bounds:
  assumes "p < 4096" and "3 \<le> l" and "l \<le> 18"
  shows "match_word p l < 2 ^ 16" "match_word p l div 16 = p" "match_word p l mod 16 = l - 3"
proof -
  have "match_word p l = 16 * p + (l - 3)" by (simp add: match_word_def lzss_consts)
  moreover have "l - 3 < 16" using assms(3) by simp
  ultimately show "match_word p l < 2 ^ 16" "match_word p l div 16 = p" "match_word p l mod 16 = l - 3"
    using assms(1) by simp_all
qed

lemma match_word_split:
  assumes "m < 2 ^ 16"
  shows "push_bit 8 (ucast (ucast (drop_bit 8 (of_nat m :: u16)) :: u8)) OR ucast (ucast (of_nat m :: u16) :: u8) = (of_nat m :: u32)"
proof (rule bit_eqI)
  fix n assume "possible_bit TYPE(u32) n"
  then have "n < 32" by simp
  have hi: "\<not> bit m n" if "16 \<le> n"
    using assms that by (metis bit_take_bit_iff not_less take_bit_nat_eq_self)
  show "bit (push_bit 8 (ucast (ucast (drop_bit 8 (of_nat m :: u16)) :: u8)) OR ucast (ucast (of_nat m :: u16) :: u8) :: u32) n
      = bit (of_nat m :: u32) n"
    using \<open>n < 32\<close> hi by (cases "n < 8"; cases "n < 16") (auto simp: bit_simps)
qed

lemma decode_token:
  assumes "decoded h d" and "valid_token h t" and "length (expand h t) + 1 < WINDOW_SIZE"
    and "dh_State d = state_for t"
  shows "\<exists>d'. (\<forall>rest. decode saved d (payload t @ rest) = decode saved (next_state d') rest)
    \<and> decoded (expand h t) d' \<and> steer d' = steer d"
proof (cases t)
  case (Lit b)
  then show ?thesis using assms
    by (intro exI [of _ "put_byte b d"]) (simp add: state_for_def put_byte_decoded)
next
  case (Match p l)
  have p: "1 \<le> p" "p \<le> length h" "3 \<le> l" "l \<le> 18" "p < 4096"
    using assms(1,2) Match by (auto simp: decoded_def WINDOW_SIZE_def)
  let ?m = "match_word p l"
  note M = match_word_bounds [OF p(5,3,4)]
  let ?w = "of_nat ?m :: u32"
  let ?d = "d\<lparr>dh_State := STATE_SECONDMATCHBYTE, dh_MatchWord := ?w\<rparr>"
  have u: "unat ?w = ?m" using M(1) by (simp add: unat_of_nat)
  have pos: "unat (drop_bit LENGTH_BIT_COUNT ?w) = p"
    using M(2) u by (simp add: LENGTH_BIT_COUNT_def unat_drop_bit_eq drop_bit_eq_div unat_div)
  have "unat (?w AND (2 ^ LENGTH_BIT_COUNT - 1)) = l - 3"
  proof -
    have "?w AND (2 ^ LENGTH_BIT_COUNT - 1) = take_bit 4 ?w"
      by (simp add: LENGTH_BIT_COUNT_def take_bit_eq_mask mask_eq_exp_minus_1)
    then show ?thesis using M(3) u by (simp add: take_bit_eq_mod unat_mod)
  qed
  then have len: "Suc (unat (?w AND (2 ^ LENGTH_BIT_COUNT - 1)) + BREAK_EVEN) = l"
    using p(3) by (simp add: BREAK_EVEN_def)
  have "decode saved d (payload t @ rest) = decode saved (next_state (copy_match p l ?d)) rest" for rest
    using assms(4) Match p(1) pos len match_word_split [OF M(1)]
    by (simp add: state_for_def Let_def END_OF_STREAM_def del: copy_match.simps)
  moreover have "decoded (copy_hist p l h) (copy_match p l ?d)"
    using assms(1,3) p(1,2) Match by (intro copy_match_decoded) simp_all
  moreover have "steer (copy_match p l ?d) = steer d" by (simp add: steer_def [of d] steer_def [of ?d])
  ultimately show ?thesis using Match by auto
qed

text \<open>Ready for token number \<open>j\<close> of the group with control byte \<open>c\<close>.\<close>

definition ready :: "nat \<Rightarrow> u8 \<Rightarrow> Decompressor \<Rightarrow> bool" where
  "ready j c d \<longleftrightarrow> (if j = 8 then dh_State d = STATE_CONTROLBYTE
     else dh_ControlFlags d = c \<and> dh_NextFlag d = drop_bit j 64
       \<and> dh_State d = (if bit c (7 - j) then STATE_LITTERALBYTE else STATE_FIRSTMATCHBYTE))"

lemma flag_bit:
  assumes "j \<le> 6"
  shows "c AND drop_bit j (64 :: u8) \<noteq> 0 \<longleftrightarrow> bit c (6 - j)" and "drop_bit j (64 :: u8) \<noteq> 0"
proof -
  have e: "(64 :: u8) = push_bit 6 1" by (simp add: push_bit_eq_mult)
  have b: "bit (drop_bit j (64 :: u8)) n \<longleftrightarrow> n = 6 - j" for n
    unfolding e using assms by (auto simp: bit_simps simp del: push_bit_of_1)
  have "6 - j < 8" by linarith
  then show "c AND drop_bit j 64 \<noteq> 0 \<longleftrightarrow> bit c (6 - j)"
    by (auto simp: word_eq_0_iff_bits bit_and_iff b)
  show "drop_bit j (64 :: u8) \<noteq> 0" using b [of "6 - j"] by auto
qed

lemma ready_next:
  assumes "ready j c d" and "j < 8" and "steer d' = steer d"
  shows "ready (Suc j) c (next_state d')"
proof -
  have s: "dh_ControlFlags d' = c" "dh_NextFlag d' = drop_bit j 64"
    using assms by (auto simp: ready_def steer_def)
  show ?thesis
  proof (cases "j = 7")
    case True
    have "drop_bit 7 (64 :: u8) = 0" by (simp add: drop_bit_eq_div)
    then show ?thesis using True s by (simp add: ready_def next_state_def)
  next
    case False
    then have j: "j \<le> 6" using assms(2) by simp
    have "7 - Suc j = 6 - j" by simp
    then show ?thesis using j False s flag_bit(1) [OF j, of c] flag_bit(2) [OF j] by (simp add: ready_def next_state_def drop_bit_drop_bit)
  qed
qed

lemma steer_next_Error: "dh_Error (next_state d) = dh_Error d"
  by (simp add: next_state_def)

lemma decode_tokens:
  assumes "decoded h d" and "valid h ts" and "length (expands h ts) + 1 < WINDOW_SIZE"
    and "ready j c d" and "j + length ts \<le> 8" and "\<forall>i < length ts. bit c (7 - (j + i)) = is_lit (ts ! i)"
  shows "\<exists>d'. decode saved d (payloads ts @ rest) = decode saved d' rest \<and> decoded (expands h ts) d'
    \<and> ready (j + length ts) c d' \<and> dh_Error d' = dh_Error d"
  using assms
proof (induction ts arbitrary: h d j)
  case (Cons t ts)
  have "bit c (7 - j) = is_lit t" using Cons.prems(6) by force
  moreover have "j < 8" using Cons.prems(5) by simp
  ultimately have st: "dh_State d = state_for t" using Cons.prems(4) by (simp add: ready_def state_for_def)
  have "length (expand h t) + 1 < WINDOW_SIZE"
    using Cons.prems(3) length_expands [of "expand h t" ts] by simp
  moreover have "valid_token h t" using Cons.prems(2) by simp
  ultimately obtain d' where d': "\<forall>rest. decode saved d (payload t @ rest) = decode saved (next_state d') rest"
      "decoded (expand h t) d'" "steer d' = steer d"
    using decode_token [OF Cons.prems(1) _ _ st] by blast
  have "\<exists>d''. decode saved (next_state d') (payloads ts @ rest) = decode saved d'' rest
      \<and> decoded (expands (expand h t) ts) d'' \<and> ready (Suc j + length ts) c d'' \<and> dh_Error d'' = dh_Error (next_state d')"
  proof (rule Cons.IH)
    show "ready (Suc j) c (next_state d')" by (rule ready_next [OF Cons.prems(4) \<open>j < 8\<close> d'(3)])
    show "\<forall>i < length ts. bit c (7 - (Suc j + i)) = is_lit (ts ! i)"
    proof (intro allI impI)
      fix i assume "i < length ts"
      then show "bit c (7 - (Suc j + i)) = is_lit (ts ! i)" using Cons.prems(6) [rule_format, of "Suc i"] by simp
    qed
  qed (use Cons.prems d'(2) in simp_all)
  then show ?case using d'(1,3) by (auto simp: steer_next_Error steer_def)
qed (use assms in auto)

lemma top_bit: "(c :: u8) AND 128 = 0 \<longleftrightarrow> \<not> bit c 7"
proof -
  have e: "(128 :: u8) = push_bit 7 1" by (simp add: push_bit_eq_mult)
  have b: "bit (128 :: u8) n \<longleftrightarrow> n = 7" for n unfolding e by (auto simp: bit_simps simp del: push_bit_of_1)
  show ?thesis unfolding word_eq_0_iff_bits bit_and_iff b
    by (simp, rule iffI, drule spec [of _ 7], simp, intro allI impI notI, simp)
qed

text \<open>A whole group, from its control byte.\<close>

lemma decode_group:
  assumes "decoded h d" and "valid h ts" and "length (expands h ts) + 1 < WINDOW_SIZE"
    and "dh_State d = STATE_CONTROLBYTE" and "ts \<noteq> []" and "length (ts @ us) \<le> 8"
  shows "\<exists>d'. decode saved d (ucast (ctrl_from 128 (ts @ us)) # payloads ts @ rest) = decode saved d' rest
    \<and> decoded (expands h ts) d' \<and> ready (length ts) (ucast (ctrl_from 128 (ts @ us))) d' \<and> dh_Error d' = dh_Error d"
proof -
  let ?c = "ucast (ctrl_from 128 (ts @ us)) :: u8"
  let ?d = "d\<lparr>dh_NextFlag := 64, dh_ControlFlags := ?c,
    dh_State := (if ?c AND 128 = 0 then STATE_FIRSTMATCHBYTE else STATE_LITTERALBYTE)\<rparr>"
  have r: "ready 0 ?c ?d" using top_bit [of ?c] by (simp add: ready_def)
  have bits: "\<forall>i < length ts. bit ?c (7 - (0 + i)) = is_lit (ts ! i)"
  proof (intro allI impI)
    fix i assume "i < length ts"
    then show "bit ?c (7 - (0 + i)) = is_lit (ts ! i)"
      using bit_control_byte [OF assms(6), of i] assms(6) by (simp add: nth_append)
  qed
  have "decoded h ?d = decoded h d" by (rule decoded_cong) simp_all
  then have "decoded h ?d" using assms(1) by simp
  from decode_tokens [OF this assms(2,3) r _ bits, of saved rest] assms(6)
  show ?thesis using assms(4) by simp
qed

text \<open>The end of the stream is a match at position 0.\<close>

abbreviation EOS :: token where
  "EOS \<equiv> Match 0 3"

lemma payload_EOS: "payload EOS = [0, 0]"
  by (simp add: match_word_def BREAK_EVEN_def)

definition finish :: "Decompressor \<Rightarrow> Decompressor \<Rightarrow> nat \<Rightarrow> Decompressor" where
  "finish saved d left = saved\<lparr>dh_Out := dh_Out d, dh_Window := dh_Window d, dh_BytesLeft := dh_BytesLeft d,
     dh_Error := (if left > 3 then Some COMP_ERR_DATAREMAINS else dh_Error d), dh_EOS := True\<rparr>"

lemma decode_EOS:
  assumes "dh_State d = STATE_FIRSTMATCHBYTE"
  shows "decode saved d (payload EOS @ rest) = finish saved d (length rest)"
  using assms unfolding payload_EOS by (simp add: Let_def END_OF_STREAM_def finish_def)

lemma decode_last_group:
  assumes "decoded h d" and "valid h ts" and "length (expands h ts) + 1 < WINDOW_SIZE"
    and "dh_State d = STATE_CONTROLBYTE" and "length ts < 8"
  shows "\<exists>d'. decode saved d (group (ts @ [EOS]) @ rest) = finish saved d' (length rest)
    \<and> decoded (expands h ts) d' \<and> dh_Error d' = dh_Error d"
proof -
  let ?c = "ucast (ctrl_from 128 (ts @ [EOS])) :: u8"
  have "\<exists>d'. decode saved d (?c # payloads ts @ payload EOS @ rest) = decode saved d' (payload EOS @ rest)
      \<and> decoded (expands h ts) d' \<and> dh_State d' = STATE_FIRSTMATCHBYTE \<and> dh_Error d' = dh_Error d"
  proof (cases "ts = []")
    case True
    have "\<not> bit ?c (7 - 0)" using bit_control_byte [of "ts @ [EOS]" 0] True by simp
    then have z: "?c AND 128 = 0" by (simp add: top_bit)
    let ?d = "d\<lparr>dh_NextFlag := 64, dh_ControlFlags := ?c, dh_State := STATE_FIRSTMATCHBYTE\<rparr>"
    have "decoded h ?d = decoded h d" by (rule decoded_cong) simp_all
    then show ?thesis using True z assms(1,4) by (intro exI [of _ ?d]) simp
  next
    case False
    have l: "length (ts @ [EOS]) \<le> 8" using assms(5) by simp
    from decode_group [OF assms(1-4) False l, of saved "payload EOS @ rest"]
    obtain d' where d': "decode saved d (?c # payloads ts @ payload EOS @ rest) = decode saved d' (payload EOS @ rest)"
        "decoded (expands h ts) d'" "ready (length ts) ?c d'" "dh_Error d' = dh_Error d" by blast
    have "\<not> bit ?c (7 - length ts)" using bit_control_byte [OF l assms(5)] by simp
    then have "dh_State d' = STATE_FIRSTMATCHBYTE" using d'(3) assms(5) by (simp add: ready_def)
    then show ?thesis using d' by blast
  qed
  then obtain d' where d': "decode saved d (?c # payloads ts @ payload EOS @ rest) = decode saved d' (payload EOS @ rest)"
      "decoded (expands h ts) d'" "dh_State d' = STATE_FIRSTMATCHBYTE" "dh_Error d' = dh_Error d" by blast
  have "group (ts @ [EOS]) @ rest = ?c # payloads ts @ payload EOS @ rest"
    by (simp only: group_def payloads_simps append.simps append.assoc append_Nil2 append_Nil)
  then show ?thesis using d' decode_EOS [OF d'(3)] by (intro exI [of _ d']) (simp only: simp_thms)
qed

lemma decode_encoded:
  assumes "decoded h d" and "valid h ts" and "length (expands h ts) + 1 < WINDOW_SIZE"
    and "dh_State d = STATE_CONTROLBYTE"
  shows "\<exists>d'. decode saved d (encode (ts @ [EOS]) @ rest) = finish saved d' (length rest)
    \<and> decoded (expands h ts) d' \<and> dh_Error d' = dh_Error d"
  using assms
proof (induction "length ts" arbitrary: h d ts rule: less_induct)
  case less
  show ?case
  proof (cases "length ts < 8")
    case True
    have "encode (ts @ [EOS]) = group (ts @ [EOS])" using True by (intro encode_group) simp_all
    then show ?thesis using decode_last_group [OF less.prems True] by simp
  next
    case False
    let ?us = "take 8 ts" and ?vs = "drop 8 ts"
    have len: "length ?us = 8" "?us \<noteq> []" "length ?vs < length ts" using False by auto
    have v: "valid h ?us" "valid (expands h ?us) ?vs" "expands (expands h ?us) ?vs = expands h ts"
      using less.prems(2) valid_append [of h ?us ?vs] foldl_append [of expand h ?us ?vs] by simp_all
    have small: "length (expands h ?us) + 1 < WINDOW_SIZE"
      using less.prems(3) length_expands [of "expands h ?us" ?vs] v(3) by simp
    have enc: "encode (ts @ [EOS]) @ rest = ucast (ctrl_from 128 (?us @ [])) # payloads ?us @ (encode (?vs @ [EOS]) @ rest)"
      using encode.simps [of "ts @ [EOS]"] False by (simp add: group_def)
    obtain d1 where d1: "decode saved d (encode (ts @ [EOS]) @ rest) = decode saved d1 (encode (?vs @ [EOS]) @ rest)"
        "decoded (expands h ?us) d1" "ready 8 (ucast (ctrl_from 128 ?us)) d1" "dh_Error d1 = dh_Error d"
      using decode_group [OF less.prems(1) v(1) small less.prems(4) len(2), of "[]" saved "encode (?vs @ [EOS]) @ rest"] len(1)
      unfolding enc by auto
    have "dh_State d1 = STATE_CONTROLBYTE" using d1(3) by (simp add: ready_def)
    from less.hyps [OF len(3) d1(2) v(2) _ this] less.prems(3) v(3)
    obtain d' where "decode saved d1 (encode (?vs @ [EOS]) @ rest) = finish saved d' (length rest)"
        "decoded (expands h ts) d'" "dh_Error d' = dh_Error d1" by auto
    then show ?thesis using d1(1,4) by auto
  qed
qed

end
