(* ===== verification/CompressRoundtrip.thy ===== *)
theory CompressRoundtrip
  imports CompressFormat
begin

text \<open>
  The compressor finds real matches, and what it writes decompresses to its input. The claims
  are for inputs that fit the window, up to 4072 bytes, where no string leaves the tree; the
  deletion of strings, needed beyond that, is shown to lose strings.
\<close>

section \<open>The tree while it only grows\<close>

text \<open>
  The nodes \<open>L\<close> that are linked, with a rank that decreases from a node to its children, parent
  links that agree with the child links, and positions from \<open>p\<close> on without a parent.
\<close>

definition kids :: "comp_tree \<Rightarrow> nat \<Rightarrow> nat set" where
  "kids tree n = {cn_LeftChild (tree n), cn_RightChild (tree n)} - {UNUSED}"

definition tree_inv :: "nat set \<Rightarrow> (nat \<Rightarrow> nat) \<Rightarrow> comp_tree \<Rightarrow> nat \<Rightarrow> bool" where
  "tree_inv L f tree p \<longleftrightarrow> TREE_ROOT \<in> L \<and> L \<subseteq> insert TREE_ROOT {1..<p}
     \<and> cn_LeftChild (tree TREE_ROOT) = UNUSED \<and> cn_RightChild (tree TREE_ROOT) \<noteq> UNUSED
     \<and> (\<forall>n \<in> L. \<forall>c \<in> kids tree n. c \<in> L \<and> c \<noteq> TREE_ROOT \<and> cn_Parent (tree c) = n \<and> f c < f n)
     \<and> (\<forall>n \<in> L. cn_LeftChild (tree n) = cn_RightChild (tree n) \<longrightarrow> cn_LeftChild (tree n) = UNUSED)
     \<and> (\<forall>k. p \<le> k \<and> k < TREE_ROOT \<longrightarrow> cn_Parent (tree k) = UNUSED)"

definition tree_ok :: "comp_tree \<Rightarrow> nat \<Rightarrow> bool" where
  "tree_ok tree p \<longleftrightarrow> (\<exists>L f. tree_inv L f tree p)"

lemma tree_ok_fresh: "tree_ok tree p \<Longrightarrow> p \<le> k \<Longrightarrow> k < TREE_ROOT \<Longrightarrow> cn_Parent (tree k) = UNUSED"
  by (auto simp: tree_ok_def tree_inv_def)

lemma sizes: "LOOK_AHEAD_SIZE = 18" "TREE_ROOT = 4096" "WINDOW_SIZE = 4096"
  by (simp_all add: lzss_consts)

lemma tree_ok_mono:
  assumes "tree_ok tree p" and "p \<le> q"
  shows "tree_ok tree q"
proof -
  obtain L f where "tree_inv L f tree p" using assms(1) by (auto simp: tree_ok_def)
  then have "tree_inv L f tree q" using assms(2) unfolding tree_inv_def by (fastforce simp: subset_iff)
  then show ?thesis by (auto simp: tree_ok_def)
qed

lemma new_leaf_sel:
  assumes "t \<noteq> p"
  shows "cn_LeftChild (new_leaf (tree(t := (tree t)\<lparr>cn_RightChild := p\<rparr>)) p t n) = (if n = p then UNUSED else cn_LeftChild (tree n))"
    "cn_RightChild (new_leaf (tree(t := (tree t)\<lparr>cn_RightChild := p\<rparr>)) p t n)
      = (if n = p then UNUSED else if n = t then p else cn_RightChild (tree n))"
    "cn_Parent (new_leaf (tree(t := (tree t)\<lparr>cn_RightChild := p\<rparr>)) p t n) = (if n = p then t else cn_Parent (tree n))"
    "cn_LeftChild (new_leaf (tree(t := (tree t)\<lparr>cn_LeftChild := p\<rparr>)) p t n)
      = (if n = p then UNUSED else if n = t then p else cn_LeftChild (tree n))"
    "cn_RightChild (new_leaf (tree(t := (tree t)\<lparr>cn_LeftChild := p\<rparr>)) p t n) = (if n = p then UNUSED else cn_RightChild (tree n))"
    "cn_Parent (new_leaf (tree(t := (tree t)\<lparr>cn_LeftChild := p\<rparr>)) p t n) = (if n = p then t else cn_Parent (tree n))"
  using assms by (simp_all add: new_leaf_def)

lemma new_leaf_inv:
  assumes "tree_inv L f tree p" and "t \<in> L" and "t \<noteq> TREE_ROOT" and "1 \<le> p" and "p < TREE_ROOT"
    and "\<And>n. cn_LeftChild (tree' n) = (if n = p then UNUSED else if n = t \<and> left then p else cn_LeftChild (tree n))"
    and "\<And>n. cn_RightChild (tree' n) = (if n = p then UNUSED else if n = t \<and> \<not> left then p else cn_RightChild (tree n))"
    and "\<And>n. cn_Parent (tree' n) = (if n = p then t else cn_Parent (tree n))"
    and "if left then cn_LeftChild (tree t) = UNUSED else cn_RightChild (tree t) = UNUSED"
  shows "tree_inv (insert p L) (\<lambda>x. if x = p then 0 else f x + 1) tree' (p + 1)"
proof -
  have p: "p \<notin> L" using assms(1,4,5) by (auto simp: tree_inv_def)
  have tp: "t \<noteq> p" using assms(2) p by auto
  have I: "TREE_ROOT \<in> L" "L \<subseteq> insert TREE_ROOT {1..<p}" "cn_LeftChild (tree TREE_ROOT) = UNUSED"
    "cn_RightChild (tree TREE_ROOT) \<noteq> UNUSED"
    "\<And>n c. n \<in> L \<Longrightarrow> c \<in> kids tree n \<Longrightarrow> c \<in> L \<and> c \<noteq> TREE_ROOT \<and> cn_Parent (tree c) = n \<and> f c < f n"
    "\<And>n. n \<in> L \<Longrightarrow> cn_LeftChild (tree n) = cn_RightChild (tree n) \<Longrightarrow> cn_LeftChild (tree n) = UNUSED"
    "\<And>k. p \<le> k \<Longrightarrow> k < TREE_ROOT \<Longrightarrow> cn_Parent (tree k) = UNUSED"
    using assms(1) by (auto simp: tree_inv_def)
  have kp: "kids tree' p = {}" by (auto simp: kids_def assms(6,7))
  have kt: "kids tree' t \<subseteq> insert p (kids tree t)" using tp by (auto simp: kids_def assms(6,7))
  have kn: "kids tree' n = kids tree n" if "n \<noteq> p" "n \<noteq> t" for n using that by (simp add: kids_def assms(6,7))
  have "c \<in> insert p L \<and> c \<noteq> TREE_ROOT \<and> cn_Parent (tree' c) = n
      \<and> (if c = p then 0 else f c + 1) < (if n = p then 0 else f n + 1)"
    if n: "n \<in> insert p L" and c: "c \<in> kids tree' n" for n c
  proof -
    have "n \<noteq> p" using c kp by auto
    then have nL: "n \<in> L" using n by simp
    show ?thesis
    proof (cases "c = p")
      case True
      have "n = t"
      proof (rule ccontr)
        assume "n \<noteq> t"
        then have "c \<in> kids tree n" using c kn \<open>n \<noteq> p\<close> by simp
        then show False using I(5) [OF nL] True p by auto
      qed
      then show ?thesis using True assms(5) \<open>n \<noteq> p\<close> by (simp add: assms(8))
    next
      case False
      then have "c \<in> kids tree n" using c kn [of n] kt \<open>n \<noteq> p\<close> by (cases "n = t") auto
      then show ?thesis using I(5) [OF nL] False \<open>n \<noteq> p\<close> by (simp add: assms(8))
    qed
  qed
  moreover have "cn_LeftChild (tree' n) = UNUSED"
    if n: "n \<in> insert p L" and e: "cn_LeftChild (tree' n) = cn_RightChild (tree' n)" for n
  proof (cases "n = p \<or> n \<noteq> t")
    case True
    then show ?thesis using n e I(6) by (auto simp: assms(6,7) split: if_splits)
  next
    case False
    then have nt: "n = t" "n \<noteq> p" by auto
    have "cn_LeftChild (tree t) \<noteq> p" "cn_RightChild (tree t) \<noteq> p"
      using I(5) [OF assms(2)] p assms(4) by (auto simp: kids_def UNUSED_def)
    then have "False" using e nt tp by (auto simp: assms(6,7) split: if_splits)
    then show ?thesis ..
  qed
  moreover have "p \<noteq> TREE_ROOT" using assms(5) by simp
  ultimately show ?thesis
    unfolding tree_inv_def using I(1-4,7) assms(3,4) p
    by (auto simp: assms(6,7,8) subset_iff)
qed

lemma replace_node_sel:
  assumes "cn_Parent (tree t) = q" and "q \<noteq> t" and "p \<noteq> q" and "p \<noteq> t"
    and "t \<notin> {cn_LeftChild (tree t), cn_RightChild (tree t)}" and "p \<notin> {cn_LeftChild (tree t), cn_RightChild (tree t)}"
  shows "cn_LeftChild (replace_node tree p t n)
      = (if n = p then cn_LeftChild (tree t) else if n = q \<and> cn_LeftChild (tree q) = t then p else cn_LeftChild (tree n))"
    and "cn_RightChild (replace_node tree p t n)
      = (if n = p then cn_RightChild (tree t) else if n = q \<and> cn_LeftChild (tree q) \<noteq> t then p else cn_RightChild (tree n))"
    and "cn_Parent (replace_node tree p t n)
      = (if n = t then UNUSED else if n = cn_LeftChild (tree t) \<or> n = cn_RightChild (tree t) then p
         else if n = p then q else cn_Parent (tree n))"
proof -
  define T1 where "T1 = (if cn_LeftChild (tree q) = t then tree(q := (tree q)\<lparr>cn_LeftChild := p\<rparr>)
    else tree(q := (tree q)\<lparr>cn_RightChild := p\<rparr>))"
  define T2 where "T2 = T1(p := T1 t)"
  define l where "l = cn_LeftChild (T2 p)"
  define T3 where "T3 = T2(l := (T2 l)\<lparr>cn_Parent := p\<rparr>)"
  define r where "r = cn_RightChild (T3 p)"
  define T4 where "T4 = T3(r := (T3 r)\<lparr>cn_Parent := p\<rparr>)"
  have t: "T1 t = tree t" using assms(2) by (simp add: T1_def)
  then have l: "l = cn_LeftChild (tree t)" by (simp add: l_def T2_def)
  have r: "r = cn_RightChild (tree t)" using assms(6) l t by (auto simp: r_def T3_def T2_def)
  have "replace_node tree p t = T4(t := (T4 t)\<lparr>cn_Parent := UNUSED\<rparr>)"
    unfolding replace_node_def Let_def assms(1) T4_def r_def T3_def l_def T2_def T1_def ..
  then have R: "replace_node tree p t n = (if n = t then (T4 t)\<lparr>cn_Parent := UNUSED\<rparr> else T4 n)" by simp
  have 2: "cn_LeftChild (T2 n) = (if n = p then cn_LeftChild (tree t) else if n = q \<and> cn_LeftChild (tree q) = t then p else cn_LeftChild (tree n))"
    "cn_RightChild (T2 n) = (if n = p then cn_RightChild (tree t) else if n = q \<and> cn_LeftChild (tree q) \<noteq> t then p else cn_RightChild (tree n))"
    "cn_Parent (T2 n) = (if n = p then q else cn_Parent (tree n))" for n
    using assms(1-4) t by (auto simp: T2_def T1_def)
  have 4: "cn_LeftChild (T4 n) = cn_LeftChild (T2 n)" "cn_RightChild (T4 n) = cn_RightChild (T2 n)"
    "cn_Parent (T4 n) = (if n = l \<or> n = r then p else cn_Parent (T2 n))" for n
    by (auto simp: T4_def T3_def)
  show "cn_LeftChild (replace_node tree p t n)
      = (if n = p then cn_LeftChild (tree t) else if n = q \<and> cn_LeftChild (tree q) = t then p else cn_LeftChild (tree n))"
    "cn_RightChild (replace_node tree p t n)
      = (if n = p then cn_RightChild (tree t) else if n = q \<and> cn_LeftChild (tree q) \<noteq> t then p else cn_RightChild (tree n))"
    "cn_Parent (replace_node tree p t n)
      = (if n = t then UNUSED else if n = cn_LeftChild (tree t) \<or> n = cn_RightChild (tree t) then p
         else if n = p then q else cn_Parent (tree n))"
    using assms(2,4) by (auto simp: R 4 2 l r)
qed

lemma replace_node_inv:
  assumes "tree_inv L f tree p" and "m \<in> L" and "t \<in> kids tree m" and "1 \<le> p" and "p < TREE_ROOT"
  shows "tree_inv (insert p (L - {t})) (f(p := f t)) (replace_node tree p t) (p + 1)"
proof -
  let ?T = "replace_node tree p t"
  have p: "p \<notin> L" "p \<noteq> TREE_ROOT" "p \<noteq> UNUSED" using assms(1,4,5) by (auto simp: tree_inv_def UNUSED_def)
  have I: "TREE_ROOT \<in> L" "L \<subseteq> insert TREE_ROOT {1..<p}" "cn_LeftChild (tree TREE_ROOT) = UNUSED"
    "cn_RightChild (tree TREE_ROOT) \<noteq> UNUSED"
    "\<And>n c. n \<in> L \<Longrightarrow> c \<in> kids tree n \<Longrightarrow> c \<in> L \<and> c \<noteq> TREE_ROOT \<and> cn_Parent (tree c) = n \<and> f c < f n"
    "\<And>n. n \<in> L \<Longrightarrow> cn_LeftChild (tree n) = cn_RightChild (tree n) \<Longrightarrow> cn_LeftChild (tree n) = UNUSED"
    "\<And>k. p \<le> k \<Longrightarrow> k < TREE_ROOT \<Longrightarrow> cn_Parent (tree k) = UNUSED"
    using assms(1) by (auto simp: tree_inv_def)
  have t: "t \<in> L" "t \<noteq> TREE_ROOT" "cn_Parent (tree t) = m" "f t < f m" using I(5) [OF assms(2,3)] by auto
  have L0: "UNUSED \<notin> L" using I(2) by (auto simp: UNUSED_def TREE_ROOT_def WINDOW_SIZE_def)
  have kidsL: "c \<in> L" if "n \<in> L" "c = cn_LeftChild (tree n) \<or> c = cn_RightChild (tree n)" "c \<noteq> UNUSED" for n c
    using I(5) [OF that(1), of c] that(2,3) by (auto simp: kids_def)
  have s: "m \<noteq> t" "p \<noteq> m" "p \<noteq> t" "t \<notin> {cn_LeftChild (tree t), cn_RightChild (tree t)}"
    "p \<notin> {cn_LeftChild (tree t), cn_RightChild (tree t)}"
  proof -
    show "m \<noteq> t" "p \<noteq> m" "p \<noteq> t" using t p assms(2) by auto
    have "t \<notin> kids tree t" using I(5) [OF t(1), of t] by auto
    then show "t \<notin> {cn_LeftChild (tree t), cn_RightChild (tree t)}" using t(1) L0 by (auto simp: kids_def)
    show "p \<notin> {cn_LeftChild (tree t), cn_RightChild (tree t)}" using kidsL [OF t(1)] p by blast
  qed
  note S = replace_node_sel [where tree = tree and t = t and q = m and p = p, OF t(3) s]
  have kp: "kids ?T p = kids tree t" by (simp add: kids_def S)
  have km: "kids ?T m \<subseteq> insert p (kids tree m - {t})"
  proof -
    have "cn_LeftChild (tree m) = t \<or> cn_RightChild (tree m) = t" using assms(3) by (auto simp: kids_def)
    moreover have "\<not> (cn_LeftChild (tree m) = t \<and> cn_RightChild (tree m) = t)"
      using I(6) [OF assms(2)] t(1) L0 by auto
    ultimately show ?thesis using s(2) by (auto simp: kids_def S)
  qed
  have kn: "kids ?T n = kids tree n" if "n \<noteq> p" "n \<noteq> m" for n using that by (simp add: kids_def S)
  have tn: "t \<notin> kids tree n" if "n \<in> L" "n \<noteq> m" for n using I(5) [OF that(1), of t] that(2) t(3) by auto
  have par: "cn_Parent (?T c) = (if c \<in> kids tree t then p else if c = p then m else cn_Parent (tree c))"
    if "c \<noteq> t" "c \<noteq> UNUSED" for c using that by (auto simp: S kids_def)
  have "c \<in> insert p (L - {t}) \<and> c \<noteq> TREE_ROOT \<and> cn_Parent (?T c) = n \<and> (f(p := f t)) c < (f(p := f t)) n"
    if n: "n \<in> insert p (L - {t})" and c: "c \<in> kids ?T n" for n c
  proof (cases "c = p")
    case True
    have "n = m"
    proof (rule ccontr)
      assume "n \<noteq> m"
      then have "c \<in> kids tree t \<or> n \<in> L \<and> c \<in> kids tree n" using c kp kn n by (cases "n = p") auto
      then show False using I(5) [OF t(1)] I(5) [of n c] True p(1) by auto
    qed
    then show ?thesis using True par [OF s(3) p(3)] s p kidsL [OF t(1)] t(4) by (auto simp: kids_def)
  next
    case False
    have cU: "c \<noteq> UNUSED" using c by (simp add: kids_def)
    show ?thesis
    proof (cases "n = p")
      case True
      then have ct: "c \<in> kids tree t" using c kp by simp
      have "c \<noteq> t" using I(5) [OF t(1) ct] by auto
      then show ?thesis using I(5) [OF t(1) ct] par [OF _ cU] ct False True by auto
    next
      case np: False
      then have nL: "n \<in> L" "n \<noteq> t" using n by auto
      have ck: "c \<in> kids tree n" "c \<noteq> t"
        using c km kn [OF np] tn [OF nL(1)] False by (cases "n = m"; auto)+
      have "c \<notin> kids tree t" using I(5) [OF nL(1) ck(1)] I(5) [OF t(1), of c] nL(2) by auto
      then show ?thesis using I(5) [OF nL(1) ck(1)] par [OF ck(2) cU] False np ck(2) by auto
    qed
  qed
  moreover have "cn_LeftChild (?T n) = UNUSED" if n: "n \<in> insert p (L - {t})" and e: "cn_LeftChild (?T n) = cn_RightChild (?T n)" for n
  proof -
    have "cn_LeftChild (tree m) \<noteq> p" "cn_RightChild (tree m) \<noteq> p" using kidsL [OF assms(2)] p by blast+
    then show ?thesis using n e I(6) [of n] I(6) [OF t(1)] assms(2) s(2) by (auto simp: S split: if_splits)
  qed
  moreover have "cn_Parent (?T k) = UNUSED" if "p + 1 \<le> k" "k < TREE_ROOT" for k
  proof -
    have "k \<notin> L" "k \<noteq> UNUSED" using I(2) that by (auto simp: UNUSED_def)
    then have "k \<noteq> t" "k \<notin> kids tree t" using t(1) I(5) [OF t(1), of k] by auto
    then show ?thesis using par [of k] I(7) [of k] that \<open>k \<noteq> UNUSED\<close> by simp
  qed
  moreover have "cn_LeftChild (?T TREE_ROOT) = UNUSED" "cn_RightChild (?T TREE_ROOT) \<noteq> UNUSED"
    using I(3,4) p s t L0 by (auto simp: S)
  ultimately show ?thesis
    unfolding tree_inv_def using I(1,2) t(2) assms(4) by (auto simp: subset_iff)
qed

section \<open>Searching the tree\<close>

lemma compare_strings_agree:
  "compare_strings w a b i n = (k, delta) \<Longrightarrow>
   i \<le> k \<and> k \<le> i + n \<and> (\<forall>j. i \<le> j \<and> j < k \<longrightarrow> w (MOD_WINDOW (a + j)) = w (MOD_WINDOW (b + j)))"
proof (induction w a b i n rule: compare_strings.induct)
  case (2 w a b i n)
  show ?case
  proof (cases "uint (w (MOD_WINDOW (a + i))) - uint (w (MOD_WINDOW (b + i))) \<noteq> 0")
    case True
    then show ?thesis using 2(2) by auto
  next
    case False
    then have "w (MOD_WINDOW (a + i)) = w (MOD_WINDOW (b + i))" by (simp add: word_uint_eq_iff)
    moreover have "i + 1 \<le> k \<and> k \<le> i + 1 + n \<and> (\<forall>j. i + 1 \<le> j \<and> j < k \<longrightarrow> w (MOD_WINDOW (a + j)) = w (MOD_WINDOW (b + j)))"
      using 2 False by simp
    ultimately have "w (MOD_WINDOW (a + j)) = w (MOD_WINDOW (b + j))" if "i \<le> j" "j < k" for j
      using that by (cases "j = i") simp_all
    then show ?thesis using \<open>i + 1 \<le> k \<and> k \<le> i + 1 + n \<and> _\<close> by simp
  qed
qed auto

text \<open>A match: an earlier position whose string agrees for the length given.\<close>

definition real_match :: "window \<Rightarrow> nat \<Rightarrow> nat \<Rightarrow> nat \<Rightarrow> bool" where
  "real_match w p len q \<longleftrightarrow> len \<le> LOOK_AHEAD_SIZE \<and> (len > 0 \<longrightarrow> 1 \<le> q \<and> q < p)
     \<and> (\<forall>j < len. w (MOD_WINDOW (p + j)) = w (MOD_WINDOW (q + j)))"

lemma AddString_loop_ok:
  assumes "tree_inv L f tree p" and "m \<in> L" and "t \<in> kids tree m" and "1 \<le> p" and "p < TREE_ROOT"
    and "real_match w p len q"
  shows "\<exists>tree' len' q'. AddString_loop w p tree t len q = Some (tree', len', q')
    \<and> tree_ok tree' (p + 1) \<and> real_match w p len' q'"
  using assms(2,3,6)
proof (induction "f t" arbitrary: t m len q rule: less_induct)
  case less
  have I: "c \<in> L" "c \<noteq> TREE_ROOT" "f c < f n" if "n \<in> L" "c \<in> kids tree n" for n c
    using assms(1) that by (auto simp: tree_inv_def)
  have t: "t \<in> L" "t \<noteq> TREE_ROOT" using I [OF less.prems(1,2)] by auto
  have tp: "1 \<le> t" "t < p" using assms(1) t by (auto simp: tree_inv_def)
  obtain i delta where cs: "compare_strings w p t 0 LOOK_AHEAD_SIZE = (i, delta)" by fastforce
  note A = compare_strings_agree [OF cs]
  define len' where "len' = (if i \<ge> len then i else len)"
  define q' where "q' = (if i \<ge> len then t else q)"
  have rm: "real_match w p len' q'" using A less.prems(3) tp by (auto simp: real_match_def len'_def q'_def)
  have leaf: "tree_ok (new_leaf (tree(t := (tree t)\<lparr>cn_RightChild := p\<rparr>)) p t) (p + 1)" if u: "cn_RightChild (tree t) = UNUSED"
  proof -
    have "t \<noteq> p" using tp by simp
    note sel = new_leaf_sel [OF this, of tree]
    have "tree_inv (insert p L) (\<lambda>x. if x = p then 0 else f x + 1)
        (new_leaf (tree(t := (tree t)\<lparr>cn_RightChild := p\<rparr>)) p t) (p + 1)"
      by (rule new_leaf_inv [OF assms(1) t assms(4,5), where left = False]) (simp_all add: sel u)
    then show ?thesis unfolding tree_ok_def by blast
  qed
  have leaf': "tree_ok (new_leaf (tree(t := (tree t)\<lparr>cn_LeftChild := p\<rparr>)) p t) (p + 1)" if u: "cn_LeftChild (tree t) = UNUSED"
  proof -
    have "t \<noteq> p" using tp by simp
    note sel = new_leaf_sel [OF this, of tree]
    have "tree_inv (insert p L) (\<lambda>x. if x = p then 0 else f x + 1)
        (new_leaf (tree(t := (tree t)\<lparr>cn_LeftChild := p\<rparr>)) p t) (p + 1)"
      by (rule new_leaf_inv [OF assms(1) t assms(4,5), where left = True]) (simp_all add: sel u)
    then show ?thesis unfolding tree_ok_def by blast
  qed
  have rep: "tree_ok (replace_node tree p t) (p + 1)"
    using replace_node_inv [OF assms(1) less.prems(1,2) assms(4,5)] by (auto simp: tree_ok_def)
  have go: "\<exists>tree' len'' q''. AddString_loop w p tree c len' q' = Some (tree', len'', q'')
      \<and> tree_ok tree' (p + 1) \<and> real_match w p len'' q''" if "c \<in> kids tree t" for c
    using less.hyps [OF I(3) [OF t(1) that] t(1) that rm] .
  have step: "AddString_loop w p tree t len q =
      (if i = len' \<and> len' \<ge> LOOK_AHEAD_SIZE then Some (replace_node tree p t, len', q')
       else if delta \<ge> 0 then
         if cn_RightChild (tree t) = UNUSED
         then Some (new_leaf (tree(t := (tree t)\<lparr>cn_RightChild := p\<rparr>)) p t, len', q')
         else AddString_loop w p tree (cn_RightChild (tree t)) len' q'
       else
         if cn_LeftChild (tree t) = UNUSED
         then Some (new_leaf (tree(t := (tree t)\<lparr>cn_LeftChild := p\<rparr>)) p t, len', q')
         else AddString_loop w p tree (cn_LeftChild (tree t)) len' q')"
    by (subst AddString_loop.simps) (simp add: cs len'_def q'_def)
  show ?case unfolding step using leaf leaf' rep go rm by (auto simp: kids_def)
qed

lemma AddString_ok:
  assumes "tree_ok tree p" and "1 \<le> p" and "p < TREE_ROOT"
  shows "\<exists>tree' len q'. AddString tree w p q = Some (tree', len, q') \<and> tree_ok tree' (p + 1) \<and> real_match w p len q'"
proof -
  obtain L f where I: "tree_inv L f tree p" using assms(1) by (auto simp: tree_ok_def)
  then have r: "TREE_ROOT \<in> L" "cn_RightChild (tree TREE_ROOT) \<in> kids tree TREE_ROOT" by (auto simp: tree_inv_def kids_def)
  have "real_match w p 0 q" by (simp add: real_match_def)
  from AddString_loop_ok [OF I r assms(2,3) this] show ?thesis
    using assms(2) by (simp add: AddString_def END_OF_STREAM_def)
qed

section \<open>The tokens spell the text\<close>

text \<open>
  \<open>T\<close> is the text in the window, from position 1. The tokens written so far spell what lies
  before the current position and the bytes that the last token still covers.
\<close>

definition text_upto :: "window \<Rightarrow> nat \<Rightarrow> u8 list" where
  "text_upto T n = map T [1..<n]"

lemma text_upto_simps [simp]: "length (text_upto T n) = n - 1"
  "i < n - 1 \<Longrightarrow> text_upto T n ! i = T (i + 1)" "1 \<le> n \<Longrightarrow> text_upto T (Suc n) = text_upto T n @ [T n]"
  by (auto simp: text_upto_def)

lemma copy_hist_text:
  assumes "1 \<le> i" and "i < p" and "\<forall>j < n. T (p + j) = T (i + j)"
  shows "copy_hist i n (text_upto T p) = text_upto T (p + n)"
  using assms
proof (induction n arbitrary: i p)
  case (Suc n)
  have "text_upto T p ! (i - 1) = T p" using Suc.prems(1,2) Suc.prems(3) [rule_format, of 0] by simp
  moreover have "copy_hist (i + 1) n (text_upto T (p + 1)) = text_upto T (p + 1 + n)"
  proof (rule Suc.IH)
    show "\<forall>j < n. T (p + 1 + j) = T (i + 1 + j)"
    proof (intro allI impI)
      fix j assume "j < n"
      then show "T (p + 1 + j) = T (i + 1 + j)" using Suc.prems(3) [rule_format, of "Suc j"] by simp
    qed
  qed (use Suc.prems in auto)
  ultimately show ?case using Suc.prems(1,2) by simp
qed simp

definition comp_inv :: "window \<Rightarrow> token list \<Rightarrow> Compressor \<Rightarrow> bool" where
  "comp_inv T ts c \<longleftrightarrow> 1 \<le> ch_CurrentPos c \<and> stream ts (ch_OutputStream c)
     \<and> tree_ok (ch_Tree c) (ch_CurrentPos c + 1) \<and> valid [] ts
     \<and> expands [] ts = text_upto T (ch_CurrentPos c + ch_ReplaceCnt c)"

text \<open>The match found at the current position is one of the text.\<close>

definition match_inv :: "window \<Rightarrow> Compressor \<Rightarrow> bool" where
  "match_inv T c \<longleftrightarrow> ch_MatchLen c \<le> LOOK_AHEAD_SIZE \<and> (ch_MatchLen c > 0 \<longrightarrow> 1 \<le> ch_MatchPos c \<and> ch_MatchPos c < ch_CurrentPos c)
     \<and> (\<forall>j < ch_MatchLen c. T (ch_CurrentPos c + j) = T (ch_MatchPos c + j))"

lemma emit_frame:
  "ch_Window (emit limit c) = ch_Window c" "ch_Tree (emit limit c) = ch_Tree c"
  "ch_CurrentPos (emit limit c) = ch_CurrentPos c" "ch_LookAhead (emit limit c) = ch_LookAhead c"
  by (simp_all add: emit_def Let_def)

lemma emit_ok:
  assumes "comp_inv T ts c" and "ch_ReplaceCnt c = 0" and "limit = 0 \<or> match_inv T c"
    and "ch_Window c (ch_CurrentPos c) = T (ch_CurrentPos c)"
  shows "\<exists>t. comp_inv T (ts @ [t]) (emit limit c)"
    and "1 \<le> ch_ReplaceCnt (emit limit c)" and "ch_ReplaceCnt (emit limit c) \<le> max 1 limit"
    and "match_inv T c \<Longrightarrow> match_inv T (emit limit c)"
proof -
  let ?p = "ch_CurrentPos c"
  define len where "len = min limit (ch_MatchLen c)"
  have st: "stream ts (ch_OutputStream c)" "1 \<le> ?p" "valid [] ts" "expands [] ts = text_upto T ?p"
    "tree_ok (ch_Tree c) (?p + 1)"
    using assms(1,2) by (simp_all add: comp_inv_def)
  have e: "emit limit c = (if len \<le> 2
      then c\<lparr>ch_MatchLen := len, ch_OutputStream := put_token (ch_OutputStream c) (Lit (T ?p)), ch_ReplaceCnt := 1\<rparr>
      else c\<lparr>ch_MatchLen := len, ch_OutputStream := put_token (ch_OutputStream c) (Match (ch_MatchPos c) len), ch_ReplaceCnt := len\<rparr>)"
  proof -
    have "(if ch_MatchLen c > limit then limit else ch_MatchLen c) = len" by (simp add: len_def min_def)
    then show ?thesis
      unfolding emit_def Let_def match_word_def put_token_def using assms(4) by (simp add: BREAK_EVEN_def match_word_def add_diff_eq)
  qed
  show "1 \<le> ch_ReplaceCnt (emit limit c)" "ch_ReplaceCnt (emit limit c) \<le> max 1 limit"
    by (auto simp: e len_def)
  show "match_inv T (emit limit c)" if "match_inv T c"
    using that by (auto simp: e match_inv_def len_def)
  show "\<exists>t. comp_inv T (ts @ [t]) (emit limit c)"
  proof (cases "len \<le> 2")
    case True
    then show ?thesis
      using st stream_put_token [OF st(1)]
      by (intro exI [of _ "Lit (T ?p)"]) (simp add: e comp_inv_def valid_append)
  next
    case False
    then have m: "match_inv T c" "3 \<le> len" "len \<le> 18" using assms(3)
      by (auto simp: len_def match_inv_def LOOK_AHEAD_SIZE_def LENGTH_BIT_COUNT_def BREAK_EVEN_def)
    then have q: "1 \<le> ch_MatchPos c" "ch_MatchPos c < ?p" "\<forall>j < len. T (?p + j) = T (ch_MatchPos c + j)"
      by (auto simp: match_inv_def len_def)
    then show ?thesis
      using False st m stream_put_token [OF st(1)] copy_hist_text [OF q]
      by (intro exI [of _ "Match (ch_MatchPos c) len"]) (auto simp: e comp_inv_def valid_append)
  qed
qed

text \<open>No string of a position that is yet to come is in the tree.\<close>

lemma delete_next_ok:
  assumes "tree_ok (ch_Tree c) (ch_CurrentPos c + 1)" and "ch_CurrentPos c + LOOK_AHEAD_SIZE < TREE_ROOT"
  shows "delete_next c = Some (c\<lparr>ch_ReplaceCnt := ch_ReplaceCnt c - 1\<rparr>)"
proof -
  have "MOD_WINDOW (ch_CurrentPos c + LOOK_AHEAD_SIZE) = ch_CurrentPos c + LOOK_AHEAD_SIZE"
    using assms(2) by (simp add: MOD_WINDOW_def TREE_ROOT_def)
  moreover have "cn_Parent (ch_Tree c (ch_CurrentPos c + LOOK_AHEAD_SIZE)) = UNUSED"
    by (rule tree_ok_fresh [OF assms(1)]) (use assms(2) in \<open>simp_all add: sizes\<close>)
  ultimately show ?thesis by (simp add: delete_next_def DeleteString_def)
qed

lemma add_next_ok:
  assumes "tree_ok (ch_Tree c) (ch_CurrentPos c)" and "1 \<le> ch_CurrentPos c"
    and "ch_CurrentPos c + LOOK_AHEAD_SIZE \<le> TREE_ROOT"
    and "\<forall>i. 1 \<le> i \<and> i < ch_CurrentPos c + LOOK_AHEAD_SIZE \<longrightarrow> ch_Window c i = T i"
  shows "\<exists>tree len q. add_next c = Some (c\<lparr>ch_Tree := tree, ch_MatchLen := len, ch_MatchPos := q\<rparr>)
    \<and> tree_ok tree (ch_CurrentPos c + 1) \<and> match_inv T (c\<lparr>ch_Tree := tree, ch_MatchLen := len, ch_MatchPos := q\<rparr>)"
proof -
  let ?p = "ch_CurrentPos c" and ?w = "ch_Window c"
  have "?p < TREE_ROOT" using assms(3) by (simp add: sizes)
  from AddString_ok [OF assms(1,2) this, of ?w "ch_MatchPos c"]
  obtain tree len q where A: "AddString (ch_Tree c) ?w ?p (ch_MatchPos c) = Some (tree, len, q)"
      "tree_ok tree (?p + 1)" "real_match ?w ?p len q" by blast
  have "T (?p + j) = T (q + j)" if j: "j < len" for j
  proof -
    have len: "len \<le> LOOK_AHEAD_SIZE" and q: "1 \<le> q" "q < ?p" using A(3) j by (auto simp: real_match_def)
    have "?w (?p + j) = ?w (q + j)"
      using A(3) j q len assms(3) by (auto simp: real_match_def MOD_WINDOW_def TREE_ROOT_def)
    then show ?thesis using assms(2,4) j q len by simp
  qed
  then have "match_inv T (c\<lparr>ch_Tree := tree, ch_MatchLen := len, ch_MatchPos := q\<rparr>)"
    using A(3) by (simp add: match_inv_def real_match_def)
  then show ?thesis using A(1,2)
    by (intro exI [of _ tree] exI [of _ len] exI [of _ q]) (simp add: add_next_def)
qed

section \<open>Feeding and flushing\<close>

text \<open>
  The loop of \<open>FeedCompressor\<close> at the test of its inner loop: the window holds the text for the
  current position and the look-ahead, what lies beyond is as in the old window \<open>g\<close>.
\<close>

definition loaded :: "window \<Rightarrow> window \<Rightarrow> Compressor \<Rightarrow> bool" where
  "loaded T g c \<longleftrightarrow> (\<forall>i. 1 \<le> i \<and> i < ch_CurrentPos c + LOOK_AHEAD_SIZE \<longrightarrow> ch_Window c i = T i)
     \<and> (\<forall>i. ch_CurrentPos c + LOOK_AHEAD_SIZE \<le> i \<longrightarrow> ch_Window c i = g i)"

text \<open>The state saved when the data runs out.\<close>

definition resumable :: "window \<Rightarrow> window \<Rightarrow> token list \<Rightarrow> Compressor \<Rightarrow> bool" where
  "resumable T g ts c \<longleftrightarrow> 1 \<le> ch_CurrentPos c \<and> stream ts (ch_OutputStream c)
     \<and> tree_ok (ch_Tree c) (ch_CurrentPos c + 1) \<and> valid [] ts
     \<and> expands [] ts = text_upto T (ch_CurrentPos c + 1 + ch_ReplaceCnt c) \<and> ch_ReplaceCnt c < LOOK_AHEAD_SIZE
     \<and> loaded T g c \<and> ch_LookAhead c = int LOOK_AHEAD_SIZE \<and> ch_SecondPass c"

text \<open>The head of the inner loop, with a token written when one is due.\<close>

lemma loop_head:
  assumes "comp_inv T ts c" and "ch_ReplaceCnt c \<le> LOOK_AHEAD_SIZE" and "ch_ReplaceCnt c = 0 \<Longrightarrow> limit = 0 \<or> match_inv T c"
    and "ch_CurrentPos c + LOOK_AHEAD_SIZE < TREE_ROOT" and "ch_Window c (ch_CurrentPos c) = T (ch_CurrentPos c)"
    and "limit \<le> LOOK_AHEAD_SIZE"
  shows "\<exists>ts' c'. delete_next (if ch_ReplaceCnt c = 0 then emit limit c else c) = Some c'
    \<and> ch_CurrentPos c' = ch_CurrentPos c \<and> ch_Window c' = ch_Window c \<and> ch_LookAhead c' = ch_LookAhead c
    \<and> stream ts' (ch_OutputStream c') \<and> tree_ok (ch_Tree c') (ch_CurrentPos c + 1) \<and> valid [] ts'
    \<and> expands [] ts' = text_upto T (ch_CurrentPos c + 1 + ch_ReplaceCnt c')
    \<and> ch_ReplaceCnt c' < LOOK_AHEAD_SIZE
    \<and> (if ch_ReplaceCnt c = 0 then ch_ReplaceCnt c' + 1 \<le> max 1 limit else ch_ReplaceCnt c' + 1 = ch_ReplaceCnt c)"
proof -
  define d where "d = (if ch_ReplaceCnt c = 0 then emit limit c else c)"
  have f: "ch_CurrentPos d = ch_CurrentPos c" "ch_Window d = ch_Window c" "ch_LookAhead d = ch_LookAhead c"
    by (simp_all add: d_def emit_frame)
  obtain ts' where inv: "comp_inv T ts' d"
    using emit_ok(1) [OF assms(1) _ assms(3,5)] assms(1) by (cases "ch_ReplaceCnt c = 0") (auto simp: d_def)
  have r: "1 \<le> ch_ReplaceCnt d" "ch_ReplaceCnt d \<le> LOOK_AHEAD_SIZE"
    "if ch_ReplaceCnt c = 0 then ch_ReplaceCnt d \<le> max 1 limit else ch_ReplaceCnt d = ch_ReplaceCnt c"
    using emit_ok(2,3) [OF assms(1) _ assms(3,5)] assms(2,6) by (auto simp: d_def sizes)
  have "delete_next d = Some (d\<lparr>ch_ReplaceCnt := ch_ReplaceCnt d - 1\<rparr>)"
    by (rule delete_next_ok) (use inv assms(4) f in \<open>simp_all add: comp_inv_def\<close>)
  then show ?thesis
    using inv f r unfolding d_def [symmetric]
    by (intro exI [of _ ts'] exI [of _ "d\<lparr>ch_ReplaceCnt := ch_ReplaceCnt d - 1\<rparr>"])
      (auto simp: comp_inv_def split: if_splits)
qed

lemma new_data_ok:
  assumes "stream ts (ch_OutputStream c)" and "tree_ok (ch_Tree c) (ch_CurrentPos c + 1)" and "valid [] ts"
    and "expands [] ts = text_upto T (ch_CurrentPos c + 1 + ch_ReplaceCnt c)"
    and "1 \<le> ch_CurrentPos c" and "ch_CurrentPos c + LOOK_AHEAD_SIZE < TREE_ROOT"
    and "loaded T g c" and "T (ch_CurrentPos c + LOOK_AHEAD_SIZE) = b"
  shows "\<exists>c'. new_data b c = Some c' \<and> comp_inv T ts c' \<and> match_inv T c' \<and> loaded T g c'
    \<and> ch_CurrentPos c' = ch_CurrentPos c + 1 \<and> ch_ReplaceCnt c' = ch_ReplaceCnt c"
proof -
  define d where "d = c\<lparr>ch_Window := (ch_Window c)(ch_CurrentPos c + LOOK_AHEAD_SIZE := b),
    ch_CurrentPos := ch_CurrentPos c + 1\<rparr>"
  have n: "new_data b c = add_next d"
    using assms(6) by (simp add: new_data_def MOD_WINDOW_def d_def sizes)
  have l: "loaded T g d" using assms(7,8) by (auto simp: loaded_def d_def less_Suc_eq)
  have "tree_ok (ch_Tree d) (ch_CurrentPos d)" "1 \<le> ch_CurrentPos d" "ch_CurrentPos d + LOOK_AHEAD_SIZE \<le> TREE_ROOT"
    "\<forall>i. 1 \<le> i \<and> i < ch_CurrentPos d + LOOK_AHEAD_SIZE \<longrightarrow> ch_Window d i = T i"
    using assms(2,5,6) l by (simp_all add: d_def loaded_def)
  from add_next_ok [OF this]
  obtain tree len q where A: "add_next d = Some (d\<lparr>ch_Tree := tree, ch_MatchLen := len, ch_MatchPos := q\<rparr>)"
      "tree_ok tree (ch_CurrentPos d + 1)" "match_inv T (d\<lparr>ch_Tree := tree, ch_MatchLen := len, ch_MatchPos := q\<rparr>)" by blast
  show ?thesis
    unfolding n A(1) using A(2,3) assms(1,3,4) l
    by (intro exI [of _ "d\<lparr>ch_Tree := tree, ch_MatchLen := len, ch_MatchPos := q\<rparr>"])
      (simp add: comp_inv_def loaded_def d_def)
qed

lemma feed_loop_ok:
  assumes "comp_inv T ts c" and "ch_ReplaceCnt c \<le> LOOK_AHEAD_SIZE" and "match_inv T c" and "loaded T g c"
    and "ch_CurrentPos c + LOOK_AHEAD_SIZE + length bs < TREE_ROOT"
    and "\<forall>j < length bs. T (ch_CurrentPos c + LOOK_AHEAD_SIZE + j) = bs ! j"
  shows "\<exists>ts' c'. feed_loop c bs = Some c' \<and> resumable T g ts' c' \<and> ch_CurrentPos c' = ch_CurrentPos c + length bs"
  using assms
proof (induction bs arbitrary: c ts)
  case Nil
  have w: "ch_Window c (ch_CurrentPos c) = T (ch_CurrentPos c)"
    using Nil(1,4) by (simp add: loaded_def comp_inv_def sizes)
  obtain ts' c' where h: "delete_next (if ch_ReplaceCnt c = 0 then emit LOOK_AHEAD_SIZE c else c) = Some c'"
      "ch_CurrentPos c' = ch_CurrentPos c" "ch_Window c' = ch_Window c" "stream ts' (ch_OutputStream c')"
      "tree_ok (ch_Tree c') (ch_CurrentPos c + 1)" "valid [] ts'" "ch_ReplaceCnt c' < LOOK_AHEAD_SIZE"
      "expands [] ts' = text_upto T (ch_CurrentPos c + 1 + ch_ReplaceCnt c')"
    using loop_head [OF Nil(1,2) _ _ w, of LOOK_AHEAD_SIZE] Nil(3,5) by auto
  show ?case
    using Nil(1,4) h by (intro exI [of _ ts'] exI [of _ "c'\<lparr>ch_LookAhead := int LOOK_AHEAD_SIZE, ch_SecondPass := True\<rparr>"])
      (simp add: resumable_def loaded_def comp_inv_def)
next
  case (Cons b bs)
  have w: "ch_Window c (ch_CurrentPos c) = T (ch_CurrentPos c)"
    using Cons.prems(1,4) by (simp add: loaded_def comp_inv_def sizes)
  obtain ts' c' where h: "delete_next (if ch_ReplaceCnt c = 0 then emit LOOK_AHEAD_SIZE c else c) = Some c'"
      "ch_CurrentPos c' = ch_CurrentPos c" "ch_Window c' = ch_Window c" "stream ts' (ch_OutputStream c')"
      "tree_ok (ch_Tree c') (ch_CurrentPos c + 1)" "valid [] ts'" "ch_ReplaceCnt c' < LOOK_AHEAD_SIZE"
      "expands [] ts' = text_upto T (ch_CurrentPos c + 1 + ch_ReplaceCnt c')"
    using loop_head [OF Cons.prems(1,2) _ _ w, of LOOK_AHEAD_SIZE] Cons.prems(3,5) by auto
  have l: "loaded T g c'" using Cons.prems(4) h(2,3) by (simp add: loaded_def)
  have t: "T (ch_CurrentPos c' + LOOK_AHEAD_SIZE) = b" using Cons.prems(6) h(2) by force
  have pr: "tree_ok (ch_Tree c') (ch_CurrentPos c' + 1)"
      "expands [] ts' = text_upto T (ch_CurrentPos c' + 1 + ch_ReplaceCnt c')" "1 \<le> ch_CurrentPos c'"
      "ch_CurrentPos c' + LOOK_AHEAD_SIZE < TREE_ROOT"
    using h(2,5,8) Cons.prems(1,5) by (simp_all add: comp_inv_def)
  obtain d where d: "new_data b c' = Some d" "comp_inv T ts' d" "match_inv T d" "loaded T g d"
      "ch_CurrentPos d = ch_CurrentPos c + 1" "ch_ReplaceCnt d = ch_ReplaceCnt c'"
    using new_data_ok [OF h(4) pr(1) h(6) pr(2-4) l t] unfolding h(2) by blast
  have "\<exists>ts'' c''. feed_loop d bs = Some c'' \<and> resumable T g ts'' c'' \<and> ch_CurrentPos c'' = ch_CurrentPos d + length bs"
  proof (rule Cons.IH [OF d(2) _ d(3,4)])
    show "\<forall>j < length bs. T (ch_CurrentPos d + LOOK_AHEAD_SIZE + j) = bs ! j"
    proof (intro allI impI)
      fix j assume "j < length bs"
      then show "T (ch_CurrentPos d + LOOK_AHEAD_SIZE + j) = bs ! j"
        using Cons.prems(6) [rule_format, of "Suc j"] d(5) by simp
    qed
  qed (use d h(7) Cons.prems(5) in simp_all)
  then show ?case using h(1) d(1,5) by simp
qed

text \<open>
  Flushing: \<open>n\<close> bytes of text, of which the current position and the look-ahead count add up. Two
  bytes beyond the text are written too.
\<close>

definition flush_inv :: "window \<Rightarrow> nat \<Rightarrow> token list \<Rightarrow> Compressor \<Rightarrow> bool" where
  "flush_inv T n ts c \<longleftrightarrow> comp_inv T ts c \<and> ch_LookAhead c \<ge> -1 \<and> ch_LookAhead c \<le> int LOOK_AHEAD_SIZE
     \<and> int (ch_CurrentPos c) + ch_LookAhead c = int n + 2
     \<and> int (ch_ReplaceCnt c) \<le> max (if ch_LookAhead c = 0 then 1 else 0) (ch_LookAhead c)
     \<and> ch_ReplaceCnt c \<le> LOOK_AHEAD_SIZE
     \<and> (ch_LookAhead c > 0 \<longrightarrow> match_inv T c)
     \<and> (\<forall>i. 1 \<le> i \<and> i < TREE_ROOT \<longrightarrow> ch_Window c i = T i)"

lemma flush_data_ok:
  assumes "stream ts (ch_OutputStream c)" and "tree_ok (ch_Tree c) (ch_CurrentPos c + 1)" and "valid [] ts"
    and "expands [] ts = text_upto T (ch_CurrentPos c + 1 + ch_ReplaceCnt c)"
    and "1 \<le> ch_CurrentPos c" and "ch_CurrentPos c + LOOK_AHEAD_SIZE < TREE_ROOT"
    and "\<forall>i. 1 \<le> i \<and> i < TREE_ROOT \<longrightarrow> ch_Window c i = T i"
  shows "\<exists>c'. flush_data c = Some c' \<and> comp_inv T ts c' \<and> (ch_LookAhead c \<noteq> 0 \<longrightarrow> match_inv T c')
    \<and> (\<forall>i. 1 \<le> i \<and> i < TREE_ROOT \<longrightarrow> ch_Window c' i = T i)
    \<and> ch_CurrentPos c' = ch_CurrentPos c + 1 \<and> ch_ReplaceCnt c' = ch_ReplaceCnt c \<and> ch_LookAhead c' = ch_LookAhead c"
proof -
  define d where "d = c\<lparr>ch_CurrentPos := ch_CurrentPos c + 1\<rparr>"
  have mod: "MOD_WINDOW (ch_CurrentPos c + 1) = ch_CurrentPos c + 1"
    using assms(6) by (simp add: MOD_WINDOW_def sizes)
  have D: "flush_data c = (if ch_LookAhead c \<noteq> 0 then add_next d else Some d)"
    by (simp only: flush_data_def Let_def mod d_def) simp
  have dsel: "stream ts (ch_OutputStream d)" "tree_ok (ch_Tree d) (ch_CurrentPos d)" "1 \<le> ch_CurrentPos d"
    "expands [] ts = text_upto T (ch_CurrentPos d + ch_ReplaceCnt d)" "ch_CurrentPos d + LOOK_AHEAD_SIZE \<le> TREE_ROOT"
    "\<forall>i. 1 \<le> i \<and> i < TREE_ROOT \<longrightarrow> ch_Window d i = T i"
    using assms by (simp_all add: d_def)
  show ?thesis
  proof (cases "ch_LookAhead c = 0")
    case True
    have "tree_ok (ch_Tree d) (ch_CurrentPos d + 1)" by (rule tree_ok_mono [OF dsel(2)]) simp
    then have "comp_inv T ts d" using dsel assms(3) by (simp add: comp_inv_def)
    then show ?thesis using True dsel(6) by (intro exI [of _ d]) (simp add: D d_def)
  next
    case False
    have "\<forall>i. 1 \<le> i \<and> i < ch_CurrentPos d + LOOK_AHEAD_SIZE \<longrightarrow> ch_Window d i = T i" using dsel(5,6) by simp
    from add_next_ok [OF dsel(2,3,5) this]
    obtain tree len q where A: "add_next d = Some (d\<lparr>ch_Tree := tree, ch_MatchLen := len, ch_MatchPos := q\<rparr>)"
      "tree_ok tree (ch_CurrentPos d + 1)" "match_inv T (d\<lparr>ch_Tree := tree, ch_MatchLen := len, ch_MatchPos := q\<rparr>)" by blast
    show ?thesis
      unfolding D using False A dsel assms(3)
      by (intro exI [of _ "d\<lparr>ch_Tree := tree, ch_MatchLen := len, ch_MatchPos := q\<rparr>"]) (simp add: comp_inv_def d_def)
  qed
qed

lemma flush_loop_ok:
  assumes "flush_inv T n ts c" and "n + 22 < TREE_ROOT"
  shows "\<exists>ts' c'. flush_loop c = Some c' \<and> stream ts' (ch_OutputStream c') \<and> valid [] ts'
    \<and> expands [] ts' = text_upto T (n + 3)"
  using assms
proof (induction "nat (ch_LookAhead c + 1)" arbitrary: c ts rule: less_induct)
  case less
  have le: "ch_LookAhead c \<le> int LOOK_AHEAD_SIZE" using less.prems(1) by (simp add: flush_inv_def)
  have inv: "comp_inv T ts c" "ch_LookAhead c \<ge> -1" "int (ch_CurrentPos c) + ch_LookAhead c = int n + 2"
    "int (ch_ReplaceCnt c) \<le> max (if ch_LookAhead c = 0 then 1 else 0) (ch_LookAhead c)"
    "ch_ReplaceCnt c \<le> LOOK_AHEAD_SIZE" "ch_LookAhead c > 0 \<longrightarrow> match_inv T c"
    "\<forall>i. 1 \<le> i \<and> i < TREE_ROOT \<longrightarrow> ch_Window c i = T i"
    using less.prems(1) by (simp_all add: flush_inv_def)
  show ?case
  proof (cases "ch_LookAhead c < 0")
    case True
    then have "ch_LookAhead c = -1" "ch_ReplaceCnt c = 0" using inv(2,4) by auto
    moreover have "ch_CurrentPos c = n + 3" using inv(3) \<open>ch_LookAhead c = -1\<close> by linarith
    ultimately show ?thesis using inv(1) by (subst flush_loop.simps) (auto simp: comp_inv_def)
  next
    case False
    define limit where "limit = nat (ch_LookAhead c)"
    have pos: "1 \<le> ch_CurrentPos c" "ch_CurrentPos c \<le> n + 2" using inv(1,3) False by (simp_all add: comp_inv_def)
    then have room: "ch_CurrentPos c + LOOK_AHEAD_SIZE < TREE_ROOT" using less.prems(2) by (simp add: sizes)
    have w: "ch_Window c (ch_CurrentPos c) = T (ch_CurrentPos c)" using inv(7) pos room by simp
    have m: "limit = 0 \<or> match_inv T c" using inv(6) by (auto simp: limit_def)
    have lim: "limit \<le> LOOK_AHEAD_SIZE" using le by (simp add: limit_def nat_le_iff)
    obtain ts' c1 where h: "delete_next (if ch_ReplaceCnt c = 0 then emit limit c else c) = Some c1"
      "ch_CurrentPos c1 = ch_CurrentPos c" "ch_Window c1 = ch_Window c" "ch_LookAhead c1 = ch_LookAhead c"
      "stream ts' (ch_OutputStream c1)" "tree_ok (ch_Tree c1) (ch_CurrentPos c + 1)" "valid [] ts'"
      "expands [] ts' = text_upto T (ch_CurrentPos c + 1 + ch_ReplaceCnt c1)" "ch_ReplaceCnt c1 < LOOK_AHEAD_SIZE"
      "if ch_ReplaceCnt c = 0 then ch_ReplaceCnt c1 + 1 \<le> max 1 limit else ch_ReplaceCnt c1 + 1 = ch_ReplaceCnt c"
      using loop_head [OF inv(1,5) m room w lim] by (auto simp del: One_nat_def)
    define c2 where "c2 = c1\<lparr>ch_LookAhead := ch_LookAhead c1 - 1\<rparr>"
    have c2: "stream ts' (ch_OutputStream c2)" "tree_ok (ch_Tree c2) (ch_CurrentPos c2 + 1)"
      "expands [] ts' = text_upto T (ch_CurrentPos c2 + 1 + ch_ReplaceCnt c2)" "1 \<le> ch_CurrentPos c2"
      "ch_CurrentPos c2 + LOOK_AHEAD_SIZE < TREE_ROOT" "\<forall>i. 1 \<le> i \<and> i < TREE_ROOT \<longrightarrow> ch_Window c2 i = T i"
      using h(2-8) pos room inv(7) by (simp_all add: c2_def)
    obtain c3 where F: "flush_data c2 = Some c3" "comp_inv T ts' c3" "ch_LookAhead c2 \<noteq> 0 \<longrightarrow> match_inv T c3"
      "\<forall>i. 1 \<le> i \<and> i < TREE_ROOT \<longrightarrow> ch_Window c3 i = T i"
      "ch_CurrentPos c3 = ch_CurrentPos c2 + 1" "ch_ReplaceCnt c3 = ch_ReplaceCnt c2" "ch_LookAhead c3 = ch_LookAhead c2"
      using flush_data_ok [OF c2(1,2) h(7) c2(3-6)] by blast
    have la: "ch_LookAhead c3 = ch_LookAhead c - 1" "ch_CurrentPos c3 = ch_CurrentPos c + 1" "ch_ReplaceCnt c3 = ch_ReplaceCnt c1"
      using F(5,6,7) h(2,4) by (simp_all add: c2_def)
    have "int (ch_ReplaceCnt c1) \<le> max 0 (ch_LookAhead c - 1)"
      using h(10) inv(4) False by (auto simp: limit_def max_def split: if_splits)
    then have "flush_inv T n ts' c3"
      using F(2-4) la inv(2,3) le False h(9) F(7) by (auto simp: flush_inv_def max_def)
    then obtain ts'' c' where "flush_loop c3 = Some c'" "stream ts'' (ch_OutputStream c')" "valid [] ts''"
        "expands [] ts'' = text_upto T (n + 3)"
      using less.hyps [of c3 ts'] la(1) False less.prems(2) by auto
    moreover have "flush_loop c = flush_loop c3"
      by (subst flush_loop.simps, cases "ch_ReplaceCnt c = 0") (use False h(1) F(1) in \<open>simp_all add: limit_def c2_def\<close>)
    ultimately show ?thesis by auto
  qed
qed

lemma fill_spec:
  assumes "ch_LookAhead c = int l" and "m = min (length bs) (LOOK_AHEAD_SIZE + 1 - l)"
  shows "fill c bs = (c\<lparr>ch_Window := (\<lambda>i. if l \<le> i \<and> i < l + m then bs ! (i - l) else ch_Window c i),
    ch_LookAhead := int (l + m)\<rparr>, drop m bs)"
  using assms
proof (induction bs arbitrary: c l m)
  case Nil
  have "(\<lambda>i. if l \<le> i \<and> i < l then x i else ch_Window c i) = ch_Window c" for x by (rule ext) auto
  then show ?case using Nil by (cases c) simp
next
  case (Cons b bs)
  show ?case
  proof (cases "l \<le> LOOK_AHEAD_SIZE")
    case True
    define m' where "m' = min (length bs) (LOOK_AHEAD_SIZE + 1 - (l + 1))"
    have m: "m = Suc m'" using Cons.prems(2) True unfolding m'_def by auto
    let ?c = "c\<lparr>ch_Window := (ch_Window c)(l := b), ch_LookAhead := int (l + 1)\<rparr>"
    have "fill c (b # bs) = fill ?c bs" using Cons.prems(1) True by (simp add: add.commute)
    also have "\<dots> = (?c\<lparr>ch_Window := (\<lambda>i. if l + 1 \<le> i \<and> i < l + 1 + m' then bs ! (i - (l + 1)) else ch_Window ?c i),
        ch_LookAhead := int (l + 1 + m')\<rparr>, drop m' bs)"
      by (rule Cons.IH) (simp_all add: m'_def)
    also have "(\<lambda>i. if l + 1 \<le> i \<and> i < l + 1 + m' then bs ! (i - (l + 1)) else ch_Window ?c i)
        = (\<lambda>i. if l \<le> i \<and> i < l + m then (b # bs) ! (i - l) else ch_Window c i)"
      by (auto simp: fun_eq_iff m nth_Cons' Suc_le_eq)
    finally show ?thesis by (simp add: m)
  next
    case False
    then have "m = 0" using Cons.prems(2) by simp
    moreover have "(\<lambda>i. if l \<le> i \<and> i < l then x i else ch_Window c i) = ch_Window c" for x by (rule ext) auto
    ultimately show ?thesis using Cons.prems(1) False by (cases c) simp
  qed
qed

lemma feed_loop_Cookie: "feed_loop c bs = Some c' \<Longrightarrow> ch_Cookie c' = ch_Cookie c"
proof (induction bs arbitrary: c)
  case Nil
  then show ?case by (auto simp: delete_next_def emit_def Let_def split: option.splits if_splits)
next
  case (Cons b bs)
  then obtain d e where d: "delete_next (if ch_ReplaceCnt c = 0 then emit LOOK_AHEAD_SIZE c else c) = Some d"
      "new_data b d = Some e" "feed_loop e bs = Some c'" by (auto split: option.splits)
  have "ch_Cookie d = ch_Cookie c" using d(1) by (auto simp: delete_next_def emit_def Let_def split: option.splits if_splits)
  moreover have "ch_Cookie e = ch_Cookie d" using d(2) by (auto simp: new_data_def add_next_def split: option.splits)
  ultimately show ?case using Cons.IH [OF d(3)] by simp
qed

section \<open>The whole compressor\<close>

text \<open>The window with the bytes \<open>bs\<close> from position 1, old bytes beyond.\<close>

definition text_of :: "window \<Rightarrow> u8 list \<Rightarrow> window" where
  "text_of g bs = (\<lambda>i. if 1 \<le> i \<and> i \<le> length bs then bs ! (i - 1) else g i)"

lemma text_upto_text_of: "take (length bs) (text_upto (text_of g bs) (length bs + 3)) = bs"
  by (rule nth_equalityI) (auto simp: text_of_def)

lemma initial_tree_ok:
  "tree_ok ((\<lambda>_. \<lparr>cn_Parent = UNUSED, cn_LeftChild = UNUSED, cn_RightChild = UNUSED\<rparr>)
     (TREE_ROOT := \<lparr>cn_Parent = UNUSED, cn_LeftChild = UNUSED, cn_RightChild = 1\<rparr>,
      1 := \<lparr>cn_Parent = TREE_ROOT, cn_LeftChild = UNUSED, cn_RightChild = UNUSED\<rparr>)) 2"
  unfolding tree_ok_def
  by (rule exI [of _ "{TREE_ROOT, 1}"], rule exI [of _ id]) (auto simp: tree_inv_def kids_def sizes UNUSED_def)

lemma flush_ok_first:
  assumes "comp_inv T [] c" and "ch_CurrentPos c = 1" and "ch_LookAhead c = int n + 1" and "n < LOOK_AHEAD_SIZE"
    and "ch_MatchLen c = 0" and "\<forall>i. 1 \<le> i \<and> i < TREE_ROOT \<longrightarrow> ch_Window c i = T i" and "\<not> ch_SecondPass c"
    and "ch_ReplaceCnt c = 0"
  shows "\<exists>ts c'. FlushCompressor c = Some c' \<and> stream ts (ch_OutputStream c') \<and> valid [] ts
    \<and> expands [] ts = text_upto T (n + 3)"
proof -
  have "flush_inv T n [] c" using assms by (auto simp: flush_inv_def match_inv_def)
  moreover have "n + 22 < TREE_ROOT" using assms(4) by (simp add: sizes)
  moreover have "c\<lparr>ch_ReplaceCnt := 0\<rparr> = c" using assms(8) by (cases c) simp
  ultimately show ?thesis using flush_loop_ok [of T n "[]" c] assms(7) by (auto simp: FlushCompressor_def)
qed

lemma flush_ok_second:
  assumes "resumable T g ts c" and "ch_CurrentPos c + 17 = n" and "n \<le> 4072" and "\<forall>i > n. g i = T i"
  shows "\<exists>ts' c'. FlushCompressor c = Some c' \<and> stream ts' (ch_OutputStream c') \<and> valid [] ts'
    \<and> expands [] ts' = text_upto T (n + 3)"
proof -
  have r: "1 \<le> ch_CurrentPos c" "stream ts (ch_OutputStream c)" "tree_ok (ch_Tree c) (ch_CurrentPos c + 1)" "valid [] ts"
    "expands [] ts = text_upto T (ch_CurrentPos c + 1 + ch_ReplaceCnt c)" "ch_ReplaceCnt c < LOOK_AHEAD_SIZE"
    "loaded T g c" "ch_LookAhead c = int LOOK_AHEAD_SIZE" "ch_SecondPass c"
    using assms(1) by (simp_all add: resumable_def)
  have w: "\<forall>i. 1 \<le> i \<and> i < TREE_ROOT \<longrightarrow> ch_Window c i = T i"
    using r(7) assms(2,4) by (auto simp: loaded_def sizes) (metis Suc_le_eq add_Suc_right not_less_eq numeral_nat(7) eval_nat_numeral)
  have room: "ch_CurrentPos c + LOOK_AHEAD_SIZE < TREE_ROOT" using assms(2,3) by (simp add: sizes)
  obtain c3 where F: "flush_data c = Some c3" "comp_inv T ts c3" "ch_LookAhead c \<noteq> 0 \<longrightarrow> match_inv T c3"
      "\<forall>i. 1 \<le> i \<and> i < TREE_ROOT \<longrightarrow> ch_Window c3 i = T i"
      "ch_CurrentPos c3 = ch_CurrentPos c + 1" "ch_ReplaceCnt c3 = ch_ReplaceCnt c" "ch_LookAhead c3 = ch_LookAhead c"
    using flush_data_ok [OF r(2,3,4,5,1) room w] by blast
  have "flush_inv T n ts c3"
    using F(2-7) r(6,8) assms(2) by (simp add: flush_inv_def sizes)
  from flush_loop_ok [OF this] assms(3) F(1) r(9)
  show ?thesis by (simp add: FlushCompressor_def sizes)
qed

text \<open>One feed of all the data and the flush, from a new compressor.\<close>

lemma created_inv:
  assumes "CreateCompressor g buf True True memory tags = Inr c" and "length buf = 21"
  shows "comp_inv T [] c" and "ch_Window c = g" and "ch_LookAhead c = 1" and "ch_CurrentPos c = 1" and "ch_MatchLen c = 0"
    and "ch_ReplaceCnt c = 0" and "\<not> ch_SecondPass c" and "ch_Cookie c"
  using assms(1) stream_init [OF assms(2)] initial_tree_ok
  by (auto simp: CreateCompressor_def comp_inv_def text_upto_def numeral_2_eq_2 split: sum.splits if_splits)

lemma feed_and_flush:
  assumes "CreateCompressor g buf True True memory tags = Inr c" and "length buf = 21" and "length bs \<le> 4072"
  shows "\<exists>c1 ts c2. FeedCompressor c bs = (Inr (), Some c1) \<and> ch_Cookie c1 \<and> FlushCompressor (c1\<lparr>ch_Cookie := False\<rparr>) = Some c2
    \<and> stream ts (ch_OutputStream c2) \<and> valid [] ts \<and> expands [] ts = text_upto (text_of g bs) (length bs + 3)"
proof -
  let ?n = "length bs" and ?T = "text_of g bs"
  note C = created_inv [OF assms(1,2)]
  define m where "m = min ?n LOOK_AHEAD_SIZE"
  define d where "d = c\<lparr>ch_Window := (\<lambda>i. if 1 \<le> i \<and> i < 1 + m then bs ! (i - 1) else g i), ch_LookAhead := int (1 + m)\<rparr>"
  have fill: "fill c bs = (d, drop m bs)"
    using fill_spec [of c 1 m bs] C(3) unfolding d_def C(2) [symmetric] m_def by simp
  have dsel: "ch_CurrentPos d = 1" "ch_LookAhead d = int m + 1" "ch_MatchLen d = 0" "ch_ReplaceCnt d = 0" "\<not> ch_SecondPass d"
    "ch_Cookie d" "comp_inv T [] d" for T
    using C(1,3-8) by (simp_all add: d_def comp_inv_def)
  show ?thesis
  proof (cases "?n < LOOK_AHEAD_SIZE")
    case True
    then have m: "m = ?n" by (simp add: m_def)
    have feed: "FeedCompressor c bs = (Inr (), Some d)"
    proof (cases bs)
      case Nil
      have "(\<lambda>i. if 1 \<le> i \<and> i < 1 + m then bs ! (i - 1) else g i) = ch_Window c" using Nil m C(2) by auto
      then have "d = c" using C(3) Nil m by (simp add: d_def)
      then show ?thesis using Nil C(8) by (simp add: FeedCompressor_def)
    next
      case (Cons b r)
      then show ?thesis using fill dsel(2) m True C(7,8) by (simp add: FeedCompressor_def)
    qed
    let ?d = "d\<lparr>ch_Cookie := False\<rparr>"
    have w: "\<forall>i. 1 \<le> i \<and> i < TREE_ROOT \<longrightarrow> ch_Window ?d i = ?T i" using m by (simp add: d_def text_of_def)
    have "comp_inv ?T [] ?d" using dsel(7) by (simp add: comp_inv_def)
    from flush_ok_first [OF this _ _ True _ w] dsel m feed show ?thesis by auto
  next
    case False
    then have m: "m = LOOK_AHEAD_SIZE" by (simp add: m_def)
    have ne: "bs \<noteq> []" using False by (auto simp: sizes)
    have dd: "d\<lparr>ch_ReplaceCnt := 0\<rparr> = d" using dsel(4) by (cases d) simp
    have feed: "FeedCompressor c bs = (Inr (), feed_loop d (drop m bs))"
      using ne fill dsel(2) m C(7,8) dd by (cases bs) (simp_all add: FeedCompressor_def del: feed_loop.simps)
    have l: "loaded ?T g d" using m False C(4) by (auto simp: loaded_def d_def text_of_def)
    have "match_inv ?T d" by (simp add: match_inv_def dsel(3))
    moreover have "\<forall>j < length (drop m bs). ?T (ch_CurrentPos d + LOOK_AHEAD_SIZE + j) = drop m bs ! j"
      using m False by (auto simp: dsel(1) text_of_def add.commute)
    moreover have "ch_CurrentPos d + LOOK_AHEAD_SIZE + length (drop m bs) < TREE_ROOT"
      using m False assms(3) by (simp add: dsel(1) sizes)
    ultimately obtain ts c1 where f: "feed_loop d (drop m bs) = Some c1" "resumable ?T g ts c1"
        "ch_CurrentPos c1 = 1 + length (drop m bs)"
      using feed_loop_ok [OF dsel(7) _ _ l, of "drop m bs"] dsel(1,4) by auto
    have "resumable ?T g ts (c1\<lparr>ch_Cookie := False\<rparr>)" using f(2) by (simp add: resumable_def loaded_def)
    moreover have "ch_CurrentPos (c1\<lparr>ch_Cookie := False\<rparr>) + 17 = ?n" using f(3) m False by (simp add: sizes)
    moreover have "\<forall>i > ?n. g i = ?T i" by (simp add: text_of_def)
    ultimately obtain ts' c2 where "FlushCompressor (c1\<lparr>ch_Cookie := False\<rparr>) = Some c2" "stream ts' (ch_OutputStream c2)"
        "valid [] ts'" "expands [] ts' = text_upto ?T (?n + 3)"
      using flush_ok_second [of ?T g ts "c1\<lparr>ch_Cookie := False\<rparr>" ?n] assms(3) by auto
    moreover have "ch_Cookie c1" using feed_loop_Cookie [OF f(1)] dsel(6) by simp
    ultimately show ?thesis using feed f(1) by auto
  qed
qed

section \<open>How long the encoding is\<close>

lemma length_encode: "8 * length (encode ts) \<le> 8 * length (payloads ts) + length ts + 7"
proof (induction ts rule: encode.induct)
  case (1 ts)
  show ?case
  proof (cases "ts = []")
    case False
    have p: "length (payloads ts) = length (payloads (take 8 ts)) + length (payloads (drop 8 ts))"
      by (metis append_take_drop_id length_append payloads_simps(3))
    show ?thesis
    proof (cases "length ts \<le> 8")
      case True
      then show ?thesis using False by (simp add: encode_group group_def Suc_le_eq)
    next
      case long: False
      then show ?thesis using 1 [OF False] False p by (subst encode.simps) (simp add: group_def)
    qed
  qed simp
qed

lemma payload_expand: "valid_token h t \<Longrightarrow> length (payload t) + length h \<le> length (expand h t) \<and> length h < length (expand h t)"
  by (cases t) auto

lemma payloads_expands:
  "valid h ts \<Longrightarrow> length (payloads ts) + length h \<le> length (expands h ts) \<and> length ts + length h \<le> length (expands h ts)"
proof (induction ts arbitrary: h)
  case (Cons t ts)
  then show ?case using payload_expand [of h t] Cons.IH [of "expand h t"] by (simp, linarith)
qed simp

section \<open>Compressing and decompressing\<close>

lemma put_all_spec:
  "put_all n ws = \<lparr>ctx_Dest = take n ws, ctx_Max = n, ctx_Overflow = (n < length ws)\<rparr>"
proof -
  have "foldl PutWord \<lparr>ctx_Dest = take n us, ctx_Max = n, ctx_Overflow = (n < length us)\<rparr> ws
      = \<lparr>ctx_Dest = take n (us @ ws), ctx_Max = n, ctx_Overflow = (n < length (us @ ws))\<rparr>" for us
  proof (induction ws arbitrary: us)
    case (Cons w ws)
    have "PutWord \<lparr>ctx_Dest = take n us, ctx_Max = n, ctx_Overflow = (n < length us)\<rparr> w
        = \<lparr>ctx_Dest = take n (us @ [w]), ctx_Max = n, ctx_Overflow = (n < length (us @ [w]))\<rparr>"
      by (auto simp: PutWord_def min_def)
    then show ?case using Cons.IH [of "us @ [w]"] by simp
  qed simp
  from this [of "[]"] show ?thesis by (simp add: put_all_def)
qed

lemma simple_result_ok: "simple_result (Inr ()) (put_all n ws) = (if length ws \<le> n then Inr ws else Inl COMP_ERR_OVERFLOW)"
  by (auto simp: simple_result_def put_all_spec)

text \<open>What \<open>SimpleCompress\<close> writes for a source of up to 4072 bytes.\<close>

lemma compressed_words:
  assumes "length source \<le> 1018" and "length buf = 21"
  shows "\<exists>ws ts k. (\<forall>n. SimpleCompress g buf True source n = Some (if length ws \<le> n then Inr ws else Inl COMP_ERR_OVERFLOW))
    \<and> bytes ws = encode (ts @ [EOS]) @ replicate k 0 \<and> k < 4
    \<and> valid [] ts \<and> expands [] ts = text_upto (text_of g (bytes source)) (4 * length source + 3)"
proof -
  obtain c where c: "CreateCompressor g buf True True True [COMP_TAG_USERDATA] = Inr c"
    by (simp add: CreateCompressor_def)
  have "length (bytes source) \<le> 4072" using assms(1) by simp
  from feed_and_flush [OF c assms(2) this]
  obtain c1 ts c2 where F: "FeedCompressor c (bytes source) = (Inr (), Some c1)" "ch_Cookie c1"
      "FlushCompressor (c1\<lparr>ch_Cookie := False\<rparr>) = Some c2" "stream ts (ch_OutputStream c2)" "valid [] ts"
      "expands [] ts = text_upto (text_of g (bytes source)) (4 * length source + 3)" by auto
  have eos: "WriteWord (WriteZero (ch_OutputStream c2)) (of_nat END_OF_STREAM) = put_token (ch_OutputStream c2) EOS"
    by (simp add: put_token_def match_word_def END_OF_STREAM_def BREAK_EVEN_def)
  obtain k where k: "k < 4" "bytes (os_Out (CleanupOutputStream (put_token (ch_OutputStream c2) EOS))) = encode (ts @ [EOS]) @ replicate k 0"
    using stream_cleanup [OF stream_put_token [OF F(4)]] by blast
  have "SimpleCompress g buf True source n = Some (simple_result (Inr ())
      (put_all n (os_Out (CleanupOutputStream (put_token (ch_OutputStream c2) EOS)))))" for n
    using F(1,2,3) by (simp add: SimpleCompress_def c DeleteCompressor_def eos flip: bytes_def)
  then have all: "\<forall>n. SimpleCompress g buf True source n = Some (if length ws \<le> n then Inr ws else Inl COMP_ERR_OVERFLOW)"
    if "ws = os_Out (CleanupOutputStream (put_token (ch_OutputStream c2) EOS))" for ws
    using that by (simp add: simple_result_ok)
  show ?thesis using all [OF refl] k F(5,6) by blast
qed

text \<open>What \<open>SimpleDecompress\<close> makes of it.\<close>

lemma decompressed_words:
  assumes "bytes ws = encode (ts @ [EOS]) @ replicate k 0" and "k < 4" and "valid [] ts"
    and "expands [] ts = h" and "length h + 1 < WINDOW_SIZE" and "length h = 4 * m + 2" and "take (4 * m) h = bytes source"
  shows "SimpleDecompress old True ws n = (if length source \<le> n then Inr source else Inl COMP_ERR_OVERFLOW)"
proof -
  define d where "d = old\<lparr>dh_Out := [], dh_WordBuffer := 0, dh_BytesLeft := 4, dh_Pos := 1, dh_State := STATE_CONTROLBYTE,
      dh_Error := None, dh_EOS := False, dh_AllocatedStructure := True, dh_Cookie := True\<rparr>"
  have create: "CreateDecompressor old True True True [COMP_TAG_USERDATA] = Inr d"
    by (simp add: CreateDecompressor_def d_def)
  have dec: "decoded [] d" by (simp add: decoded_def d_def sizes)
  have st: "dh_State d = STATE_CONTROLBYTE" by (simp add: d_def)
  obtain d' where d': "decode d d (encode (ts @ [EOS]) @ replicate k 0) = finish d d' (length (replicate k (0 :: u8)))"
      "decoded h d'" "dh_Error d' = dh_Error d"
    using decode_encoded [OF dec assms(3) _ st, of d "replicate k 0"] assms(4,5) by auto
  have out: "h = bytes (dh_Out d') @ drop (dh_BytesLeft d') (bytes_of_word (dh_WordBuffer d'))" "dh_BytesLeft d' \<le> 4"
    using d'(2) unfolding decoded_def by blast+
  have "length h = 4 * length (dh_Out d') + (4 - dh_BytesLeft d')" using arg_cong [OF out(1), of length] by simp
  then have l: "dh_BytesLeft d' = 2" "length (dh_Out d') = m" using assms(6) out(2) by presburger+
  have "bytes (dh_Out d') = take (4 * m) h" using out(1) l(2) by simp
  then have src: "dh_Out d' = source" using assms(7) bytes_inj by metis
  have "FeedDecompressor d (bytes ws) = (Inr (), finish d d' k)"
    using d'(1,3) assms(1,2) by (simp add: FeedDecompressor_def d_def finish_def)
  moreover have "DeleteDecompressor (finish d d' k) = (Inr (), (finish d d' k)\<lparr>dh_Cookie := False\<rparr>)"
    using l(1) assms(2) d'(3) by (simp add: DeleteDecompressor_def finish_def d_def Let_def)
  moreover have "dh_Out ((finish d d' k)\<lparr>dh_Cookie := False\<rparr>) = source" by (simp add: finish_def src)
  ultimately show ?thesis
    using simple_result_ok [of n source] by (simp add: SimpleDecompress_def create flip: bytes_def)
qed

section \<open>Deleting a string\<close>

lemma rightmost_live:
  assumes "tree_inv L f tree p" and "n \<in> L" and "n \<noteq> TREE_ROOT" and "rightmost tree n = Some x"
  shows "x \<in> L \<and> f x \<le> f n \<and> (x = n \<or> (let q = cn_Parent (tree x) in
    cn_RightChild (tree q) = x \<and> q \<in> L \<and> f q \<le> f n \<and> (q = n \<or> f (cn_Parent (tree q)) \<le> f n)))"
  using assms(2-4)
proof (induction "f n" arbitrary: n rule: less_induct)
  case less
  show ?case
  proof (cases "cn_RightChild (tree n) = UNUSED")
    case True
    then show ?thesis using less.prems by (simp add: rightmost.simps Let_def)
  next
    case False
    let ?c = "cn_RightChild (tree n)"
    have c: "?c \<in> L" "?c \<noteq> TREE_ROOT" "cn_Parent (tree ?c) = n" "f ?c < f n"
      using assms(1) less.prems(1) False by (auto simp: tree_inv_def kids_def)
    have "rightmost tree ?c = Some x" using less.prems(3) False by (subst (asm) rightmost.simps) (simp add: Let_def)
    from less.hyps [OF c(4,1,2) this] show ?thesis using c(3,4) less.prems(1) by (auto simp: Let_def)
  qed
qed

text \<open>The case of \<open>DeleteString\<close> where the previous string in order is not the left child itself.\<close>

lemma DeleteString_far:
  assumes "cn_Parent (tree node) = m" and "m \<noteq> UNUSED" and "cn_LeftChild (tree node) = a" and "a \<noteq> UNUSED"
    and "cn_RightChild (tree node) = b" and "b \<noteq> UNUSED" and "cn_RightChild (tree a) \<noteq> UNUSED"
    and "rightmost tree (cn_RightChild (tree a)) = Some x" and "cn_Parent (tree x) = q"
    and "distinct [node, m, x, b]" and "distinct [node, m, x, a]" and "q \<notin> {node, m, x, b}"
  shows "\<exists>tree'. DeleteString tree node = Some tree' \<and> (\<forall>n. kids tree' n =
    (if n = x then {a, b} else if n = q then {cn_LeftChild (tree q)} - {UNUSED}
     else if n = m then (if cn_LeftChild (tree m) = node then {x, cn_RightChild (tree m)} else {cn_LeftChild (tree m), x}) - {UNUSED}
     else kids tree n))"
proof -
  define T1 where "T1 = tree(q := (tree q)\<lparr>cn_RightChild := UNUSED\<rparr>)"
  define T2 where "T2 = T1(x := (T1 x)\<lparr>cn_Parent := cn_Parent (T1 node)\<rparr>)"
  define T3 where "T3 = T2(x := (T2 x)\<lparr>cn_LeftChild := cn_LeftChild (T2 node)\<rparr>)"
  define T4 where "T4 = T3(x := (T3 x)\<lparr>cn_RightChild := cn_RightChild (T3 node)\<rparr>)"
  define l where "l = cn_LeftChild (T4 x)"
  define T5 where "T5 = T4(l := (T4 l)\<lparr>cn_Parent := x\<rparr>)"
  define r where "r = cn_RightChild (T5 x)"
  define T6 where "T6 = T5(r := (T5 r)\<lparr>cn_Parent := x\<rparr>)"
  define T7 where "T7 = (if cn_LeftChild (T6 m) = node then T6(m := (T6 m)\<lparr>cn_LeftChild := x\<rparr>)
    else T6(m := (T6 m)\<lparr>cn_RightChild := x\<rparr>))"
  define T8 where "T8 = T7(node := (T7 node)\<lparr>cn_Parent := UNUSED\<rparr>)"
  have T6: "take_place tree node x = T6"
    unfolding take_place_def Let_def assms(9) T6_def r_def T5_def l_def T4_def T3_def T2_def T1_def ..
  have "relink T6 m node x = T8" unfolding relink_def Let_def T8_def T7_def ..
  then have D: "DeleteString tree node = Some T8"
    using assms(1-8) by (simp add: DeleteString_def Let_def T6)
  have d: "q \<noteq> node" "q \<noteq> m" "q \<noteq> x" "node \<noteq> x" "m \<noteq> x" "x \<noteq> a" "x \<noteq> b" "m \<noteq> node" using assms(10-12) by auto
  have 4: "cn_LeftChild (T4 n) = (if n = x then a else cn_LeftChild (tree n))"
    "cn_RightChild (T4 n) = (if n = x then b else if n = q then UNUSED else cn_RightChild (tree n))" for n
    using d assms(3,5) by (simp_all add: T4_def T3_def T2_def T1_def)
  have 6: "cn_LeftChild (T6 n) = cn_LeftChild (T4 n)" "cn_RightChild (T6 n) = cn_RightChild (T4 n)" for n
    by (auto simp: T6_def T5_def)
  have 7: "cn_LeftChild (T7 n) = (if n = m \<and> cn_LeftChild (tree m) = node then x else cn_LeftChild (T4 n))"
    "cn_RightChild (T7 n) = (if n = m \<and> cn_LeftChild (tree m) \<noteq> node then x else cn_RightChild (T4 n))" for n
    using d by (auto simp: T7_def 6 4)
  have "cn_LeftChild (T8 n) = cn_LeftChild (T7 n)" "cn_RightChild (T8 n) = cn_RightChild (T7 n)" for n
    by (auto simp: T8_def)
  then have "kids T8 n = {cn_LeftChild (T7 n), cn_RightChild (T7 n)} - {UNUSED}" for n by (simp add: kids_def)
  then show ?thesis using D d assms(4,6) by (intro exI [of _ T8]) (auto simp: 7 4 kids_def)
qed

section \<open>Properties\<close>

definition blank_window :: window where
  "blank_window = (\<lambda>_. 0)"

definition blank_decompressor :: Decompressor where
  "blank_decompressor = \<lparr>dh_Out = [], dh_Window = blank_window, dh_WordBuffer = 0, dh_BytesLeft = 0, dh_Pos = 0,
     dh_State = STATE_CONTROLBYTE, dh_MatchWord = 0, dh_Error = None, dh_ControlFlags = 0, dh_NextFlag = 0,
     dh_EOS = False, dh_AllocatedStructure = False, dh_Cookie = False\<rparr>"

definition first_tree :: comp_tree where
  "first_tree = (\<lambda>_. \<lparr>cn_Parent = UNUSED, cn_LeftChild = UNUSED, cn_RightChild = UNUSED\<rparr>)
     (TREE_ROOT := \<lparr>cn_Parent = UNUSED, cn_LeftChild = UNUSED, cn_RightChild = 1\<rparr>,
      1 := \<lparr>cn_Parent = TREE_ROOT, cn_LeftChild = UNUSED, cn_RightChild = UNUSED\<rparr>)"

text \<open>C18: a compressed source decompresses to itself. For every source of up to 1018 words
  \<open>SimpleCompress\<close> returns, whatever the buffers it is given hold: with the compressed words where they
  fit the result, and with the overflow error where they do not; and \<open>SimpleDecompress\<close> of these words
  returns the source, or the overflow error where that does not fit.\<close>

theorem SimpleCompress_roundtrip:
  assumes "length source \<le> 1018" and "length buf = 21"
  shows "\<exists>ws. (\<forall>n. SimpleCompress g buf True source n = Some (if length ws \<le> n then Inr ws else Inl COMP_ERR_OVERFLOW))
    \<and> (\<forall>old n. SimpleDecompress old True ws n = (if length source \<le> n then Inr source else Inl COMP_ERR_OVERFLOW))"
proof -
  obtain ws ts k where w: "\<forall>n. SimpleCompress g buf True source n = Some (if length ws \<le> n then Inr ws else Inl COMP_ERR_OVERFLOW)"
      "bytes ws = encode (ts @ [EOS]) @ replicate k 0" "k < 4" "valid [] ts"
      "expands [] ts = text_upto (text_of g (bytes source)) (4 * length source + 3)"
    using compressed_words [OF assms] by metis
  have "take (4 * length source) (text_upto (text_of g (bytes source)) (4 * length source + 3)) = bytes source"
    using text_upto_text_of [of "bytes source" g] by simp
  from decompressed_words [OF w(2-5) _ _ this] w(1) assms(1)
  show ?thesis by (auto simp: sizes)
qed

theorem SimpleCompress_roundtrip_witness:
  "\<exists>ws. SimpleCompress blank_window (replicate 21 0) True [0x41424344, 0x41424344, 0, 7] (length ws) = Some (Inr ws)
     \<and> SimpleDecompress blank_decompressor True ws 4 = Inr [0x41424344, 0x41424344, 0, 7]"
proof -
  let ?s = "[0x41424344, 0x41424344, 0, 7 :: u32]"
  have "length ?s \<le> 1018" "length (replicate 21 (0 :: u8)) = 21" by simp_all
  from SimpleCompress_roundtrip [OF this, of blank_window] obtain ws where
    "\<forall>n. SimpleCompress blank_window (replicate 21 0) True ?s n = Some (if length ws \<le> n then Inr ws else Inl COMP_ERR_OVERFLOW)"
    "\<forall>old n. SimpleDecompress old True ws n = (if length ?s \<le> n then Inr ?s else Inl COMP_ERR_OVERFLOW)" by blast
  then have "SimpleCompress blank_window (replicate 21 0) True ?s (length ws) = Some (if length ws \<le> length ws then Inr ws else Inl COMP_ERR_OVERFLOW)"
    "SimpleDecompress blank_decompressor True ws 4 = (if length ?s \<le> 4 then Inr ?s else Inl COMP_ERR_OVERFLOW)" by blast+
  then show ?thesis by auto
qed

lemma bound_arith:
  fixes e p t w k n :: nat
  assumes "8 * e \<le> 8 * (p + 2) + t + 8" and "4 * w = e + k" and "p \<le> 4 * n + 2" and "t \<le> 4 * n + 2" and "k < 4"
  shows "32 * w \<le> 36 * n + 66"
proof -
  have "32 * w = 8 * e + 8 * k" using assms(2) by simp
  also have "8 * e \<le> 8 * p + t + 24" using assms(1) by simp
  also have "8 * p \<le> 32 * n + 16" using assms(3) by simp
  finally show ?thesis using assms(4,5) by simp
qed





text \<open>C21: deleting a string can lose others. Where the string to be deleted has two children and the
  previous string in order, deep in its left subtree, has a left child, that child is still in the
  window but after \<open>DeleteString\<close> no string of the tree links to it.\<close>

theorem DeleteString_loses_strings:
  assumes "tree_inv L f tree p" and "m \<in> L" and "node \<in> kids tree m"
    and "cn_LeftChild (tree node) \<noteq> UNUSED" and "cn_RightChild (tree node) \<noteq> UNUSED"
    and "cn_RightChild (tree (cn_LeftChild (tree node))) \<noteq> UNUSED"
    and "rightmost tree (cn_RightChild (tree (cn_LeftChild (tree node)))) = Some x"
    and "cn_LeftChild (tree x) \<noteq> UNUSED"
  shows "\<exists>tree'. DeleteString tree node = Some tree' \<and> cn_LeftChild (tree x) \<in> L - {node}
    \<and> (\<forall>n \<in> L. cn_LeftChild (tree x) \<notin> kids tree' n)"
proof -
  let ?a = "cn_LeftChild (tree node)" and ?b = "cn_RightChild (tree node)" and ?l = "cn_LeftChild (tree x)"
  let ?r = "cn_RightChild (tree ?a)" and ?q = "cn_Parent (tree x)"
  have K: "c \<in> L \<and> c \<noteq> TREE_ROOT \<and> cn_Parent (tree c) = n \<and> f c < f n" if "n \<in> L" "c \<in> kids tree n" for n c
    using assms(1) that by (auto simp: tree_inv_def)
  have node: "node \<in> L" "cn_Parent (tree node) = m" "f node < f m" using K [OF assms(2,3)] by auto
  have a: "?a \<in> L" "cn_Parent (tree ?a) = node" "f ?a < f node" using K [OF node(1), of ?a] assms(4) by (auto simp: kids_def)
  have b: "?b \<in> L" "cn_Parent (tree ?b) = node" "f ?b < f node" using K [OF node(1), of ?b] assms(5) by (auto simp: kids_def)
  have r: "?r \<in> L" "?r \<noteq> TREE_ROOT" "cn_Parent (tree ?r) = ?a" "f ?r < f ?a"
    using K [OF a(1), of ?r] assms(6) by (auto simp: kids_def)
  have x: "x \<in> L" "f x \<le> f ?r" "x = ?r \<or> (cn_RightChild (tree ?q) = x \<and> ?q \<in> L \<and> f ?q \<le> f ?r
      \<and> (?q = ?r \<or> f (cn_Parent (tree ?q)) \<le> f ?r))"
    using rightmost_live [OF assms(1) r(1,2) assms(7)] by (auto simp: Let_def)
  have l: "?l \<in> L" "cn_Parent (tree ?l) = x" "f ?l < f x" using K [OF x(1), of ?l] assms(8) by (auto simp: kids_def)
  have q: "?q \<in> L" "f x < f ?q" "f ?q \<le> f ?a"
  proof -
    have "UNUSED \<notin> L" using assms(1) by (auto simp: tree_inv_def UNUSED_def TREE_ROOT_def WINDOW_SIZE_def)
    then have "x \<in> kids tree ?q \<and> ?q \<in> L" using x r(1,3) a(1) by (auto simp: kids_def)
    then show "?q \<in> L" "f x < f ?q" using K by auto
    show "f ?q \<le> f ?a" using x(3) r(3,4) by auto
  qed
  have m: "m \<noteq> UNUSED" using assms(1,2) by (auto simp: tree_inv_def UNUSED_def TREE_ROOT_def WINDOW_SIZE_def)
  have ab: "?a \<noteq> ?b" using assms(1,4) node(1) by (auto simp: tree_inv_def)
  have qb: "?q \<noteq> ?b"
  proof
    assume e: "?q = ?b"
    then have "cn_Parent (tree ?q) = node" using b(2) by simp
    then have "x = ?r \<or> ?q = ?r" using x(3) r(4) a(3) by auto
    then show False using e ab r(3) b(2) a(3) by auto
  qed
  have xb: "x \<noteq> ?b"
  proof
    assume "x = ?b"
    then have "?q = node" using b(2) by simp
    then show False using q(3) a(3) by simp
  qed
  have d: "distinct [node, m, x, ?b]" "distinct [node, m, x, ?a]" "?q \<notin> {node, m, x, ?b}"
    using node(3) a(3) b(3) r(4) x(2) q xb qb by auto
  obtain tree' where T: "DeleteString tree node = Some tree'" "\<forall>n. kids tree' n =
      (if n = x then {?a, ?b} else if n = ?q then {cn_LeftChild (tree ?q)} - {UNUSED}
       else if n = m then (if cn_LeftChild (tree m) = node then {x, cn_RightChild (tree m)} else {cn_LeftChild (tree m), x}) - {UNUSED}
       else kids tree n)"
    using DeleteString_far [OF node(2) m refl assms(4) refl assms(5,6,7) refl d] by blast
  have only: "?l \<notin> kids tree n" if "n \<in> L" "n \<noteq> x" for n using K [OF that(1), of ?l] l(2) that(2) by auto
  have "?l \<notin> kids tree' n" if n: "n \<in> L" for n
  proof (cases "n = x")
    case True
    then show ?thesis using T(2) l(2,3) a(2) b(2) d by auto
  next
    case False
    have "kids tree' n \<subseteq> insert x (kids tree n)"
      using T(2) False by (auto simp: kids_def)
    then show ?thesis using only [OF n False] l(3) by auto
  qed
  moreover have "?l \<noteq> node" using l(3) x(2) r(4) a(3) by auto
  ultimately show ?thesis using T(1) l(1) by auto
qed

definition lossy_tree :: comp_tree where
  "lossy_tree = (\<lambda>_. \<lparr>cn_Parent = UNUSED, cn_LeftChild = UNUSED, cn_RightChild = UNUSED\<rparr>)
     (TREE_ROOT := \<lparr>cn_Parent = UNUSED, cn_LeftChild = UNUSED, cn_RightChild = 1\<rparr>,
      1 := \<lparr>cn_Parent = TREE_ROOT, cn_LeftChild = 2, cn_RightChild = 3\<rparr>,
      2 := \<lparr>cn_Parent = 1, cn_LeftChild = UNUSED, cn_RightChild = 4\<rparr>,
      3 := \<lparr>cn_Parent = 1, cn_LeftChild = UNUSED, cn_RightChild = UNUSED\<rparr>,
      4 := \<lparr>cn_Parent = 2, cn_LeftChild = 5, cn_RightChild = UNUSED\<rparr>,
      5 := \<lparr>cn_Parent = 4, cn_LeftChild = UNUSED, cn_RightChild = UNUSED\<rparr>)"

theorem DeleteString_loses_strings_witness:
  "\<exists>tree'. DeleteString lossy_tree 1 = Some tree' \<and> (\<forall>n \<in> {TREE_ROOT, 1, 2, 3, 4, 5}. 5 \<notin> kids tree' n)"
proof -
  let ?f = "(\<lambda>_. 0 :: nat)(TREE_ROOT := 5, 1 := 4, 2 := 3, 3 := 2, 4 := 2, 5 := 1)"
  have "tree_inv {TREE_ROOT, 1, 2, 3, 4, 5} ?f lossy_tree 6"
    unfolding tree_inv_def by (auto simp: lossy_tree_def kids_def sizes UNUSED_def)
  moreover have "rightmost lossy_tree (cn_RightChild (lossy_tree (cn_LeftChild (lossy_tree 1)))) = Some 4"
    by (simp add: rightmost.simps lossy_tree_def sizes UNUSED_def)
  ultimately show ?thesis
    using DeleteString_loses_strings [of "{TREE_ROOT, 1, 2, 3, 4, 5}" ?f lossy_tree 6 TREE_ROOT 1 4]
    by (simp add: lossy_tree_def kids_def sizes UNUSED_def)
qed

end
