(* ===== verification/Spec2Isabelle.thy ===== *)
theory Spec2Isabelle
  imports Prelude BitArray Dates Lists Semaphores Timers Scheduler Signals ItemTable Ports TimerDevice MemUser CompressRoundtrip
begin

text \<open>
  Verification of the kernel of Portfolio, the operating system of the M2, and of two of its system
  folios. All paths below are under \<open>src/ws_root/src\<close>.

  \<^bold>\<open>The system.\<close> Portfolio is a multitasking system with priorities. Its kernel folio
  (\<open>folios/kernel\<close>) gives every object (task, message, port, semaphore, timer, device, request)
  an item: a number under which user code names it. Tasks run in turn on one processor
  (\<open>taskswap.c\<close>); they wait for each other through signals (\<open>signal.c\<close>), messages on ports
  (\<open>ports.c\<close>) and semaphores (\<open>semaphore.c\<close>), each of which puts the task to sleep with
  \<open>SleepTask\<close> and wakes it with \<open>NewReadyTask\<close>. The time slices and all delays come from one queue of timers
  (\<open>timer.c\<close>). Memory is a region of pages owned by page pools, one for the supervisor and one for each group of tasks, with a
  free list each (\<open>mem.c\<close>). Everything is kept in doubly linked lists (\<open>list.c\<close>) and bit arrays (\<open>bitarray.c\<close>).
  The date folio and the compression folio are libraries above the kernel.

  \<^bold>\<open>Conventions.\<close> C structures are records with the field names of the source, enumerations and the error
  codes are datatypes, \<open>uint32\<close> and addresses are words that wrap around; a signed word is read with
  \<open>sint\<close>. Functions have the names of the source and return the new state with their
  result; an error is the left part of a sum (theory Kernel). A call that puts the task to sleep is
  split there: the function ends with the task asleep, and a second function (\<open>..._woken\<close>) is
  what the task runs when it continues, so that the steps of other tasks can come in between.
  Interrupts are disabled around such steps, which makes each step atomic. Code that is not C of the modelled
  files (clocks, allocations that may fail, handlers, checks of items, callbacks) is an argument of the functions that use it.
  The release configuration is modelled: debugging output, \<open>BUILD_PARANOIA\<close> and the log are off.

  \<^bold>\<open>Theories.\<close>
  \<^item> Prelude and Kernel: machine types, results and errors, generic lemmas on words.
  \<^item> BitArray (\<open>bitarray.c\<close>): setting, clearing, testing and searching ranges of bits in an array of words.
    Each routine does on words what its description says on the set of bits; the searches return the first run. The locale
    \<open>bit_ranges\<close> states the contract the page pools rely on.
  \<^item> Lists (\<open>list.c\<close>, \<open>listmacros.h\<close>, \<open>libs/c/lists\<close>): the links are words in a memory, the
    predicate \<open>is_list\<close> relates it to a sequence of nodes, and every operation refines the operation on the sequence. The locale
    \<open>node_queue\<close> is the queue both ends provide. The components above use sequences and \<open>insert_at\<close>, to which the
    insertions by priority are shown to refine.
  \<^item> Dates (\<open>folios/date/conversions.c\<close>): closed formulas against counting days.
  \<^item> Timers (\<open>timer.c\<close>, \<open>timer.s\<close>, \<open>libs/c/timer\<close>): time arithmetic, the queue sorted by wake time, and the
    interrupt that serves it. The loop of \<open>ServiceDecrementer\<close> reads the clock each time; it is shown to return when
    the clock stands still while it runs and the period of every periodic timer is positive and does not overflow.
  \<^item> Scheduler (\<open>taskswap.c\<close>, \<open>ChangeTaskPri\<close> of \<open>task.c\<close>): the state of the kernel that concerns tasks, its
    operations, and the relation \<open>sched_step\<close> of all interleavings, whose invariant is \<open>sched_ok\<close>.
  \<^item> Signals (\<open>signal.c\<close>): on the scheduler's state, with the relation \<open>sig_step\<close>.
  \<^item> Semaphores (\<open>semaphore.c\<close>): one semaphore and the tasks that use it, with the relation \<open>sem_step\<close>.
  \<^item> ItemTable (\<open>item.c\<close>, \<open>memutils.c\<close>): numbers with generations, the free list inside the table, the slots in which a
    task records its items. Runs of operations keep \<open>item_ok\<close>.
  \<^item> Ports (\<open>ports.c\<close>): messages and ports over the scheduler and the signals, with the relation \<open>msg_step\<close> and the
    invariant \<open>ports_ok\<close>; moving a message goes through the state \<open>loose\<close>, in which it is in no list.
  \<^item> Io (\<open>io.c\<close>, the dispatcher of \<open>drivers.c\<close>): requests to devices over the messages. What a driver owes to the kernel
    is the locale \<open>device_driver\<close>; \<open>io_step\<close> are the interleavings of tasks, drivers and interrupts for any driver that keeps
    it, with the invariants \<open>io_inv\<close> (who waits for which request) and \<open>recv_ok\<close> (whose memory a request may write).
  \<^item> TimerDevice (\<open>devices/operator/timer.c\<close>): the timer driver with its lists, handlers and commands, as an instance of
    the locale, so that all that is proved of requests holds for it.
  \<^item> FreeList, PagePool, MemControl, MemUser (\<open>mem.c\<close>, \<open>memstubs.c\<close>): the free list as words of the heap
    related to the list of its blocks; allocation and freeing; the ownership and access of pages as bit arrays; the memory of
    tasks, whose free list the task itself can corrupt.
  \<^item> Compress, Decompress, CompressFormat, CompressRoundtrip (\<open>folios/compression\<close>): compressor with its string
    tree, decompressor with its state machine, the format between them, and the round trip.

  \<^bold>\<open>What the lemmas show.\<close> Invariants in every interleaving: of the scheduler, of sleeping tasks and their signals, of
  semaphores, of the timer queue, of messages, of device requests, of the item table, of free lists and of page ownership. Functional
  behaviour of the operations on all branches: locking and unlocking, sending, allocating, controlling pages, converting dates,
  setting and finding bits. Refinement of lists of nodes, equivalence of closed formulas and skipping searches with plain
  definitions, round trips of compression, dates, ticks and allocation. Error behaviour where the code departs from what it
  means to do is stated as a property of the code; the names say what happens.

  \<^bold>\<open>Bounds and loops.\<close> Loops over structures that the code could corrupt are \<open>partial_function (option)\<close>, where not
  ending is \<open>None\<close>: list scans, \<open>ServiceDecrementer\<close>, the handlers of the timer driver, tree searches, scans of free lists, emptying of ports. For each
  it is proved that it returns under the invariant, or when it does not (\<open>ValidatePagePool_answers\<close>, \<open>Metronome_zero_hangs\<close>). \<open>CompleteIO\<close> has fuel for the
  requests that callbacks send in turn; a request that a task starts has no callback, and one unit is enough. The round trip of compression
  is for sources of at most 1018 words, which fit the window: beyond that strings are deleted from the tree, and
  \<open>DeleteString_loses_strings\<close> shows that deletion loses strings. Alignments of allocations are powers of two up to
  \<open>2 ^ 29\<close> and blocks are below \<open>2 ^ 31\<close> bytes, the sizes the code treats as positive. A task nests fewer than \<open>2 ^ 32 - 1\<close>
  locks. A stale item is refused for \<open>2 ^ 15 - 1\<close> reuses of its entry, after which its generation comes round.

  \<^bold>\<open>Not modelled.\<close> Creation and exit of tasks, and creation, opening and deletion of items in general, which
  dispatch to routines of every folio; opening of devices, loading of drivers, programs and folios, drivers other than the
  timer; parsing of tag arrays (creation routines take the list of their tags); fences, caches,
  exceptions, the second processor, debugging and the monitors of the kernel; start-up, which reads the lists of the boot rom. Outside the kernel:
  file systems, text, graphics, fonts, user interface, audio and video, whose code drives hardware or media;
  the C library, and vendored programs and tools.
\<close>

end
